(* ===== verification/Kf_Prelude.thy ===== *)
theory Kf_Prelude
  imports Main "HOL-Library.Word" "HOL-Library.Sublist"
begin

text \<open>
  Shared vocabulary of the development: bytes, offsets, the standard-library routines on slices
  that every component calls, fallible results and the cooperative scan control of
  \<open>crates/kingfisher-scanner/src/scan_control.rs\<close>.

  A Rust byte string (\<open>&[u8]\<close>, or the UTF-8 bytes of a \<open>&str\<close>) is a \<^typ>\<open>char list\<close>: HOL's
  \<^typ>\<open>char\<close> has exactly 256 values.  \<open>usize\<close> offsets into a slice are \<^typ>\<open>nat\<close>; Rust's
  \<open>saturating_sub\<close> is then the subtraction of \<^typ>\<open>nat\<close>.
\<close>

section \<open>Bytes\<close>

type_synonym byte = char
type_synonym bytes = "char list"

named_theorems slice_simps \<open>facts on slices, positions and partition points\<close>
named_theorems yields_intro \<open>a computation under a scan control yields a value\<close>

definition newline :: byte where
  "newline = CHR 0x0A"

definition byte_val :: "byte \<Rightarrow> nat" where
  "byte_val b = of_char b"

definition is_ascii_digit :: "byte \<Rightarrow> bool" where
  "is_ascii_digit b \<longleftrightarrow> 48 \<le> byte_val b \<and> byte_val b \<le> 57"

definition is_ascii_upper :: "byte \<Rightarrow> bool" where
  "is_ascii_upper b \<longleftrightarrow> 65 \<le> byte_val b \<and> byte_val b \<le> 90"

definition is_ascii_lower :: "byte \<Rightarrow> bool" where
  "is_ascii_lower b \<longleftrightarrow> 97 \<le> byte_val b \<and> byte_val b \<le> 122"

definition is_ascii_alphanumeric :: "byte \<Rightarrow> bool" where
  "is_ascii_alphanumeric b \<longleftrightarrow> is_ascii_digit b \<or> is_ascii_upper b \<or> is_ascii_lower b"

definition is_ascii_hexdigit :: "byte \<Rightarrow> bool" where
  "is_ascii_hexdigit b \<longleftrightarrow> is_ascii_digit b \<or>
     65 \<le> byte_val b \<and> byte_val b \<le> 70 \<or> 97 \<le> byte_val b \<and> byte_val b \<le> 102"

text \<open>\<open>u8::is_ascii_whitespace\<close>: space, tab, line feed, form feed, carriage return.\<close>

definition is_ascii_whitespace :: "byte \<Rightarrow> bool" where
  "is_ascii_whitespace b \<longleftrightarrow> b \<in> set [CHR '' '', CHR 0x09, CHR 0x0A, CHR 0x0C, CHR 0x0D]"

definition to_ascii_lowercase :: "byte \<Rightarrow> byte" where
  "to_ascii_lowercase b = (if is_ascii_upper b then char_of (byte_val b + 32) else b)"

definition eq_ignore_case :: "bytes \<Rightarrow> bytes \<Rightarrow> bool" where
  "eq_ignore_case a b \<longleftrightarrow> map to_ascii_lowercase a = map to_ascii_lowercase b"

lemmas ascii_class_defs = is_ascii_digit_def is_ascii_upper_def is_ascii_lower_def
  is_ascii_alphanumeric_def is_ascii_hexdigit_def is_ascii_whitespace_def byte_val_def

lemma byte_val_char_of: "byte_val (char_of n) = n mod 256"
  by (simp add: byte_val_def)

section \<open>Slices\<close>

text \<open>
  \<open>memchr::memchr_iter\<close> (and \<open>bstr\<close>'s \<open>find_iter\<close> with a one-byte needle): the offsets of a byte,
  in increasing order.
\<close>

fun memchr_from :: "nat \<Rightarrow> byte \<Rightarrow> bytes \<Rightarrow> nat list" where
  "memchr_from k c [] = []"
| "memchr_from k c (x # xs) = (if x = c then k # memchr_from (Suc k) c xs else memchr_from (Suc k) c xs)"

abbreviation memchr_iter :: "byte \<Rightarrow> bytes \<Rightarrow> nat list" where
  "memchr_iter \<equiv> memchr_from 0"

text \<open>\<open>slice::partition_point\<close> on a slice whose elements satisfying the predicate come first.\<close>

definition partition_point :: "('a \<Rightarrow> bool) \<Rightarrow> 'a list \<Rightarrow> nat" where
  "partition_point p xs = length (takeWhile p xs)"

text \<open>\<open>slice::get\<close>\<close>

definition slice_get :: "'a list \<Rightarrow> nat \<Rightarrow> 'a option" where
  "slice_get xs i = (if i < length xs then Some (xs ! i) else None)"

text \<open>\<open>&bytes[from..to]\<close> for \<open>from \<le> to \<le> len\<close>\<close>

definition subslice :: "'a list \<Rightarrow> nat \<Rightarrow> nat \<Rightarrow> 'a list" where
  "subslice xs i j = take (j - i) (drop i xs)"

text \<open>The loop \<open>while i < bytes.len() && p(bytes[i]) { i += 1 }\<close>: the offset it stops at.\<close>

definition skip_while :: "('a \<Rightarrow> bool) \<Rightarrow> 'a list \<Rightarrow> nat \<Rightarrow> nat" where
  "skip_while p xs i = i + length (takeWhile p (drop i xs))"

text \<open>The loop \<open>while i > 0 && p(bytes[i - 1]) { i -= 1 }\<close>: the offset it stops at.\<close>

definition skip_back :: "('a \<Rightarrow> bool) \<Rightarrow> 'a list \<Rightarrow> nat \<Rightarrow> nat" where
  "skip_back p xs i = length (take i xs) - length (takeWhile p (rev (take i xs)))"

text \<open>Whether \<open>memmem::find\<close> (or \<open>str::contains\<close>) finds the needle\<close>

fun contains_slice :: "'a list \<Rightarrow> 'a list \<Rightarrow> bool" where
  "contains_slice needle [] = (needle = [])"
| "contains_slice needle (x # xs) = (prefix needle (x # xs) \<or> contains_slice needle xs)"

text \<open>
  \<open>str::trim\<close>, \<open>trim_start\<close>, \<open>trim_end\<close> on UTF-8 text: the encodings of the code points with the
  Unicode property White\_Space.
\<close>

definition unicode_whitespace :: "bytes list" where
  "unicode_whitespace =
     [[CHR 0x09], [CHR 0x0A], [CHR 0x0B], [CHR 0x0C], [CHR 0x0D], [CHR 0x20],
      [CHR 0xC2, CHR 0x85], [CHR 0xC2, CHR 0xA0], [CHR 0xE1, CHR 0x9A, CHR 0x80],
      [CHR 0xE2, CHR 0x80, CHR 0x80], [CHR 0xE2, CHR 0x80, CHR 0x81], [CHR 0xE2, CHR 0x80, CHR 0x82],
      [CHR 0xE2, CHR 0x80, CHR 0x83], [CHR 0xE2, CHR 0x80, CHR 0x84], [CHR 0xE2, CHR 0x80, CHR 0x85],
      [CHR 0xE2, CHR 0x80, CHR 0x86], [CHR 0xE2, CHR 0x80, CHR 0x87], [CHR 0xE2, CHR 0x80, CHR 0x88],
      [CHR 0xE2, CHR 0x80, CHR 0x89], [CHR 0xE2, CHR 0x80, CHR 0x8A], [CHR 0xE2, CHR 0x80, CHR 0xA8],
      [CHR 0xE2, CHR 0x80, CHR 0xA9], [CHR 0xE2, CHR 0x80, CHR 0xAF], [CHR 0xE2, CHR 0x81, CHR 0x9F],
      [CHR 0xE3, CHR 0x80, CHR 0x80]]"

function strip_prefixes :: "bytes list \<Rightarrow> bytes \<Rightarrow> bytes" where
  "strip_prefixes ws s =
     (case find (\<lambda>w. w \<noteq> [] \<and> prefix w s) ws of
        None \<Rightarrow> s
      | Some w \<Rightarrow> strip_prefixes ws (drop (length w) s))"
  by pat_completeness auto
termination
  by (relation "measure (\<lambda>(ws, s). length s)")
    (auto simp: find_Some_iff prefix_def)

declare strip_prefixes.simps [simp del]

definition trim_start :: "bytes \<Rightarrow> bytes" where
  "trim_start s = strip_prefixes unicode_whitespace s"

definition trim_end :: "bytes \<Rightarrow> bytes" where
  "trim_end s = rev (strip_prefixes (map rev unicode_whitespace) (rev s))"

definition str_trim :: "bytes \<Rightarrow> bytes" where
  "str_trim s = trim_end (trim_start s)"

text \<open>\<open>checked_sub\<close> on \<open>usize\<close>\<close>

definition checked_sub :: "nat \<Rightarrow> nat \<Rightarrow> nat option" where
  "checked_sub a b = (if b \<le> a then Some (a - b) else None)"

lemma memchr_from_append [slice_simps]:
  "memchr_from k c (xs @ ys) = memchr_from k c xs @ memchr_from (k + length xs) c ys"
  by (induction xs arbitrary: k) auto

lemma set_memchr_from: "set (memchr_from k c xs) = {k + i | i. i < length xs \<and> xs ! i = c}"
proof (induction xs arbitrary: k rule: rev_induct)
  case Nil
  show ?case by simp
next
  case (snoc x xs)
  then show ?case
    by (auto simp: memchr_from_append nth_append less_Suc_eq)
qed

lemma memchr_from_bounds: "n \<in> set (memchr_from k c xs) \<Longrightarrow> k \<le> n \<and> n < k + length xs"
  by (auto simp: set_memchr_from)

lemma set_memchr_iter [slice_simps]: "set (memchr_iter c xs) = {i. i < length xs \<and> xs ! i = c}"
  by (simp add: set_memchr_from)

lemma sorted_memchr_from: "sorted_wrt (<) (memchr_from k c xs)"
  by (induction xs arbitrary: k) (auto dest: memchr_from_bounds)

lemma memchr_from_shift: "memchr_from k c xs = map ((+) k) (memchr_iter c xs)"
proof (induction xs arbitrary: k)
  case Nil
  show ?case by simp
next
  case (Cons x xs)
  show ?case
    by (simp add: Cons [of "Suc k"] Cons [of "Suc 0"] o_def)
qed

lemma length_memchr_from [slice_simps]: "length (memchr_from k c xs) = count_list xs c"
  by (induction xs arbitrary: k) auto

lemma takeWhile_memchr:
  "takeWhile (\<lambda>n. n < k + off) (memchr_from k c xs) = memchr_from k c (take off xs)"
proof (induction xs arbitrary: k off)
  case Nil
  show ?case by simp
next
  case (Cons x xs)
  show ?case
  proof (cases off)
    case 0
    moreover have "\<not> n < k" if "n \<in> set (memchr_from k c (x # xs))" for n
      using memchr_from_bounds [OF that] by simp
    ultimately show ?thesis
      by (cases "memchr_from k c (x # xs)") (auto simp del: memchr_from.simps(2))
  next
    case (Suc m)
    then show ?thesis using Cons [of "Suc k" m] by simp
  qed
qed

lemma partition_point_memchr [slice_simps]:
  "partition_point (\<lambda>n. n < off) (memchr_iter c xs) = count_list (take off xs) c"
  using takeWhile_memchr [of 0 off c xs] by (simp add: partition_point_def slice_simps)

lemma take_subslice: "i \<le> j \<Longrightarrow> take i xs @ subslice xs i j = take j xs"
  using take_add [of i "j - i" xs] by (simp add: subslice_def)

lemma slice_get_append_length:
  "slice_get (xs @ ys) (length xs) = (if ys = [] then None else Some (hd ys))"
  by (auto simp: slice_get_def nth_append hd_conv_nth)

lemma skip_while_ge: "i \<le> skip_while p xs i"
  by (simp add: skip_while_def)

lemma skip_back_le: "skip_back p xs i \<le> i" "skip_back p xs i \<le> length xs"
  by (simp_all add: skip_back_def)

lemma skip_while_le: "i \<le> length xs \<Longrightarrow> skip_while p xs i \<le> length xs"
  using length_takeWhile_le [of p "drop i xs"] by (simp add: skip_while_def)

lemma skip_while_unfold:
  "skip_while p xs i = (if i < length xs \<and> p (xs ! i) then skip_while p xs (Suc i) else i)"
proof (cases "i < length xs")
  case True
  then have "drop i xs = xs ! i # drop (Suc i) xs" by (simp add: Cons_nth_drop_Suc)
  with True show ?thesis by (simp add: skip_while_def)
next
  case False
  then show ?thesis by (simp add: skip_while_def)
qed

lemma skip_while_all:
  assumes "i \<le> x" and "x < skip_while p xs i"
  shows "x < length xs \<and> p (xs ! x)"
proof -
  let ?t = "takeWhile p (drop i xs)"
  from assms have lt: "x - i < length ?t" by (simp add: skip_while_def)
  then have "x - i < length (drop i xs)" using length_takeWhile_le order_less_le_trans by blast
  moreover from lt have "p (?t ! (x - i))" by (meson nth_mem set_takeWhileD)
  ultimately show ?thesis using assms(1) lt by (simp add: takeWhile_nth)
qed

lemma skip_while_stop: "skip_while p xs i < length xs \<Longrightarrow> \<not> p (xs ! skip_while p xs i)"
  using nth_length_takeWhile [of p "drop i xs"] by (simp add: skip_while_def)

section \<open>Cooperative cancellation\<close>

text \<open>
  \<open>ScanControl\<close> of \<open>scan_control.rs\<close>: an optional deadline and an optional cancellation token.
  What a check observes changes between checks, so the token and the monotonic clock are read as
  functions of the number of checks made so far.
\<close>

datatype scan_aborted = Cancelled | TimedOut

record scan_control =
  deadline :: "nat option"
  cancellation :: "(nat \<Rightarrow> bool) option"
  clock :: "nat \<Rightarrow> nat"

type_synonym 'a ctl = "scan_control \<Rightarrow> nat \<Rightarrow> scan_aborted + 'a \<times> nat"

definition is_limited :: "scan_control \<Rightarrow> bool" where
  "is_limited c \<longleftrightarrow> deadline c \<noteq> None \<or> cancellation c \<noteq> None"

definition ret :: "'a \<Rightarrow> 'a ctl" where
  "ret x = (\<lambda>c t. Inr (x, t))"

definition bind :: "'a ctl \<Rightarrow> ('a \<Rightarrow> 'b ctl) \<Rightarrow> 'b ctl" where
  "bind m f = (\<lambda>c t. case m c t of Inl e \<Rightarrow> Inl e | Inr (x, t') \<Rightarrow> f x c t')"

definition check :: "unit ctl" where
  "check = (\<lambda>c t.
     if (case cancellation c of None \<Rightarrow> False | Some token \<Rightarrow> token t) then Inl Cancelled
     else if (case deadline c of None \<Rightarrow> False | Some d \<Rightarrow> d \<le> clock c t) then Inl TimedOut
     else Inr ((), Suc t))"

text \<open>\<open>check; m\<close>, the form almost every loop body starts with\<close>

abbreviation checked :: "'a ctl \<Rightarrow> 'a ctl" where
  "checked m \<equiv> bind check (\<lambda>_. m)"

text \<open>
  A computation yields a value when every run either returns that value or aborts, and an
  abort happens only under a control that is limited: no partial result is ever returned.
\<close>

definition yields :: "'a ctl \<Rightarrow> 'a \<Rightarrow> bool" where
  "yields m v \<longleftrightarrow> 
     (\<forall>c t e. m c t = Inl e \<longrightarrow> is_limited c) \<and> (\<forall>c t x t'. m c t = Inr (x, t') \<longrightarrow> x = v)"

definition unlimited :: scan_control where
  "unlimited = \<lparr>deadline = None, cancellation = None, clock = (\<lambda>_. 0)\<rparr>"

definition run_unlimited :: "'a ctl \<Rightarrow> 'a option" where
  "run_unlimited m = (case m unlimited 0 of Inl e \<Rightarrow> None | Inr (x, t) \<Rightarrow> Some x)"

lemma yields_ret [yields_intro]: "yields (ret v) v"
  by (simp add: yields_def ret_def)

lemma yields_check [yields_intro]: "yields check ()"
  by (auto simp: yields_def check_def is_limited_def split: option.splits)

lemma yieldsD: "yields m v \<Longrightarrow> m c t = Inr (x, t') \<Longrightarrow> x = v"
  unfolding yields_def by blast

lemma yields_limited: "yields m v \<Longrightarrow> m c t = Inl e \<Longrightarrow> is_limited c"
  unfolding yields_def by blast

lemma yields_bind:
  assumes "yields m v" and "\<And>c t t'. m c t = Inr (v, t') \<Longrightarrow> yields (f v) w"
  shows "yields (bind m f) w"
proof -
  have step: "is_limited c \<or> (\<exists>t'. bind m f c t = f v c t' \<and> yields (f v) w)" for c t
  proof (cases "m c t")
    case (Inl e)
    with assms(1) show ?thesis by (blast dest: yields_limited)
  next
    case (Inr p)
    then obtain x t' where p: "m c t = Inr (x, t')" by (cases p) simp
    with assms(1) have "x = v" by (blast dest: yieldsD)
    with p assms(2) show ?thesis by (auto simp: bind_def)
  qed
  have "x = w" if "bind m f c t = Inr (x, t')" for c t x t'
  proof -
    from that obtain y s where p: "m c t = Inr (y, s)" "f y c s = Inr (x, t')"
      by (auto simp: bind_def split: sum.splits prod.splits)
    with assms(1) have "y = v" by (blast dest: yieldsD)
    with p assms(2) show ?thesis by (blast dest: yieldsD)
  qed
  with step show ?thesis unfolding yields_def by (metis yields_limited)
qed

lemma yields_checked [yields_intro]:
  "(\<And>c t t'. check c t = Inr ((), t') \<Longrightarrow> yields m v) \<Longrightarrow> yields (checked m) v"
  by (rule yields_bind [OF yields_check])

lemma yields_if [yields_intro]:
  "(b \<Longrightarrow> yields m v) \<Longrightarrow> (\<not> b \<Longrightarrow> yields m' v') \<Longrightarrow> yields (if b then m else m') (if b then v else v')"
  by simp

lemma not_limited_unlimited: "\<not> is_limited unlimited"
  by (simp add: is_limited_def unlimited_def)

lemma yields_run: "yields m v \<Longrightarrow> run_unlimited m = Some v"
  using not_limited_unlimited
  by (fastforce simp: yields_def run_unlimited_def split: sum.splits prod.splits)

lemma bind_cong [fundef_cong]:
  "m = m' \<Longrightarrow> (\<And>c t x t'. m' c t = Inr (x, t') \<Longrightarrow> f x = f' x) \<Longrightarrow> bind m f = bind m' f'"
  by (auto simp: bind_def fun_eq_iff split: sum.splits)

text \<open>
  The same for a property of the result that does not determine it: partial results are excluded
  and every returned value has the property.
\<close>

definition ensures :: "'a ctl \<Rightarrow> ('a \<Rightarrow> bool) \<Rightarrow> bool" where
  "ensures m P \<longleftrightarrow>
     (\<forall>c t e. m c t = Inl e \<longrightarrow> is_limited c) \<and> (\<forall>c t x t'. m c t = Inr (x, t') \<longrightarrow> P x)"

lemma yields_ensures: "yields m v \<longleftrightarrow> ensures m (\<lambda>x. x = v)"
  by (simp add: yields_def ensures_def)

lemma ensuresD: "ensures m P \<Longrightarrow> m c t = Inr (x, t') \<Longrightarrow> P x"
  unfolding ensures_def by blast

lemma ensures_limited: "ensures m P \<Longrightarrow> m c t = Inl e \<Longrightarrow> is_limited c"
  unfolding ensures_def by blast

lemma ensures_ret: "P v \<Longrightarrow> ensures (ret v) P"
  by (simp add: ensures_def ret_def)

lemma ensures_weaken: "ensures m P \<Longrightarrow> (\<And>x. P x \<Longrightarrow> Q x) \<Longrightarrow> ensures m Q"
  unfolding ensures_def by blast

lemma ensures_bind:
  assumes "ensures m P" and "\<And>c t x t'. m c t = Inr (x, t') \<Longrightarrow> P x \<Longrightarrow> ensures (f x) Q"
  shows "ensures (bind m f) Q"
  unfolding ensures_def
proof (intro conjI allI impI)
  fix c t e
  assume "bind m f c t = Inl e"
  then consider "m c t = Inl e" | x t' where "m c t = Inr (x, t')" "f x c t' = Inl e"
    by (auto simp: bind_def split: sum.splits)
  then show "is_limited c"
    by cases (use assms in \<open>blast dest: ensures_limited ensuresD\<close>)+
next
  fix c t y t''
  assume "bind m f c t = Inr (y, t'')"
  then obtain x t' where "m c t = Inr (x, t')" "f x c t' = Inr (y, t'')"
    by (auto simp: bind_def split: sum.splits)
  with assms show "Q y" by (blast dest: ensuresD)
qed

lemma ensures_check: "ensures check (\<lambda>_. True)"
  using yields_check by (auto simp: yields_ensures elim: ensures_weaken)

lemma ensures_checked:
  "(\<And>c t t'. check c t = Inr ((), t') \<Longrightarrow> ensures m P) \<Longrightarrow> ensures (checked m) P"
  by (rule ensures_bind [OF ensures_check]) simp

end
