(* ===== verification/Location.thy ===== *)
theory Location
  imports Kf_Prelude
begin

text \<open>
  Source locations: \<open>crates/kingfisher-core/src/location.rs\<close> and
  \<open>crates/kingfisher-scanner/src/line_index.rs\<close>.

  \<open>LocationMapping\<close> maps byte offsets to line and column.  It finds newlines lazily and remembers
  how far it has searched (two interior-mutable fields, threaded here through the state record).
  The theory shows that every answer is the line and column read off the bytes, whatever was
  asked before, and that \<open>LineIndex\<close> returns the complete lines touching a span.
\<close>

section \<open>Spans and points\<close>

record offset_span =
  os_start :: nat
  os_end :: nat

record source_point =
  sp_line :: nat
  sp_column :: nat

record source_span =
  ss_start :: source_point
  ss_end :: source_point

definition from_offsets :: "nat \<Rightarrow> nat \<Rightarrow> offset_span" where
  "from_offsets s e = \<lparr>os_start = s, os_end = e\<rparr>"

definition span_len :: "offset_span \<Rightarrow> nat" where
  "span_len s = os_end s - os_start s"

definition span_is_empty :: "offset_span \<Rightarrow> bool" where
  "span_is_empty s \<longleftrightarrow> os_end s \<le> os_start s"

definition fully_contains :: "offset_span \<Rightarrow> offset_span \<Rightarrow> bool" where
  "fully_contains s other \<longleftrightarrow> os_start s \<le> os_start other \<and> os_end other \<le> os_end s"

section \<open>The lazy mapping\<close>

record location_mapping =
  lm_bytes :: bytes
  newline_offsets :: "nat list"
  scanned_until :: nat

definition mapping_new :: "bytes \<Rightarrow> location_mapping" where
  "mapping_new input = \<lparr>lm_bytes = input, newline_offsets = [], scanned_until = 0\<rparr>"

definition ensure_offsets_up_to :: "location_mapping \<Rightarrow> nat \<Rightarrow> location_mapping" where
  "ensure_offsets_up_to m offset =
     (let start = scanned_until m;
          stop = min offset (length (lm_bytes m))
      in if stop \<le> start then m
         else m\<lparr>newline_offsets := newline_offsets m @
                  map (\<lambda>nl. start + nl) (memchr_iter newline (subslice (lm_bytes m) start stop)),
                scanned_until := stop\<rparr>)"

definition source_point_from_offsets :: "nat list \<Rightarrow> nat \<Rightarrow> source_point" where
  "source_point_from_offsets offsets offset =
     (let line = partition_point (\<lambda>nl. nl < offset) offsets + 1;
          column = (case Option.bind (checked_sub line 2) (slice_get offsets) of
                      Some nl \<Rightarrow> offset - (nl + 1)
                    | None \<Rightarrow> offset)
      in \<lparr>sp_line = line, sp_column = column\<rparr>)"

definition get_source_point :: "location_mapping \<Rightarrow> nat \<Rightarrow> source_point \<times> location_mapping" where
  "get_source_point m offset =
     (let m' = ensure_offsets_up_to m offset
      in (source_point_from_offsets (newline_offsets m') offset, m'))"

definition get_source_span :: "location_mapping \<Rightarrow> offset_span \<Rightarrow> source_span \<times> location_mapping" where
  "get_source_span m span =
     (let m' = ensure_offsets_up_to m (os_end span - 1);
          offsets = newline_offsets m'
      in (\<lparr>ss_start = source_point_from_offsets offsets (os_start span),
           ss_end = source_point_from_offsets offsets (os_end span - 1)\<rparr>, m'))"

section \<open>Compact spans and serialization\<close>

record compact_source_span =
  start_line :: "32 word"
  start_column :: "32 word"
  end_line :: "32 word"
  end_column :: "32 word"

text \<open>\<open>usize.try_into().unwrap_or(0)\<close> for \<open>u32\<close>\<close>

definition u32_or_zero :: "nat \<Rightarrow> 32 word" where
  "u32_or_zero n = (if n < 2 ^ 32 then of_nat n else 0)"

definition compact_zero :: compact_source_span where
  "compact_zero = \<lparr>start_line = 0, start_column = 0, end_line = 0, end_column = 0\<rparr>"

definition from_source_span :: "source_span \<Rightarrow> compact_source_span" where
  "from_source_span s =
     \<lparr>start_line = u32_or_zero (sp_line (ss_start s)),
      start_column = u32_or_zero (sp_column (ss_start s)),
      end_line = u32_or_zero (sp_line (ss_end s)),
      end_column = u32_or_zero (sp_column (ss_end s))\<rparr>"

definition to_source_span :: "compact_source_span \<Rightarrow> source_span" where
  "to_source_span c =
     \<lparr>ss_start = \<lparr>sp_line = unat (start_line c), sp_column = unat (start_column c)\<rparr>,
      ss_end = \<lparr>sp_line = unat (end_line c), sp_column = unat (end_column c)\<rparr>\<rparr>"

record location =
  loc_offset_span :: offset_span
  loc_source_span :: "compact_source_span option"

definition with_source_span :: "offset_span \<Rightarrow> source_span option \<Rightarrow> location" where
  "with_source_span os ss = \<lparr>loc_offset_span = os, loc_source_span = map_option from_source_span ss\<rparr>"

definition resolved_source_span :: "location \<Rightarrow> source_span" where
  "resolved_source_span l =
     to_source_span (case loc_source_span l of None \<Rightarrow> compact_zero | Some c \<Rightarrow> c)"

text \<open>
  The serialized form is the struct's two fields.  On input the source span may be missing
  (\<open>#[serde(default)]\<close>), on output it never is.
\<close>

definition serialize_location :: "location \<Rightarrow> offset_span \<times> source_span option" where
  "serialize_location l =
     (loc_offset_span l, Some (to_source_span (case loc_source_span l of None \<Rightarrow> compact_zero | Some c \<Rightarrow> c)))"

definition deserialize_location :: "offset_span \<times> source_span option \<Rightarrow> location" where
  "deserialize_location f =
     \<lparr>loc_offset_span = fst f,
      loc_source_span = (case snd f of None \<Rightarrow> None | Some s \<Rightarrow> Some (from_source_span s))\<rparr>"

section \<open>LineIndex\<close>

record line_index =
  newlines :: "nat list"
  byte_len :: nat

definition line_index_new :: "bytes \<Rightarrow> line_index" where
  "line_index_new bs = \<lparr>newlines = memchr_iter newline bs, byte_len = length bs\<rparr>"

definition bounds :: "line_index \<Rightarrow> nat \<Rightarrow> nat \<Rightarrow> nat \<times> nat" where
  "bounds ix start stop =
     (let before = partition_point (\<lambda>offset. offset < start) (newlines ix);
          after = partition_point (\<lambda>offset. offset < stop) (newlines ix)
      in (case checked_sub before 1 of None \<Rightarrow> 0 | Some i \<Rightarrow> newlines ix ! i + 1,
          case slice_get (newlines ix) after of None \<Rightarrow> byte_len ix | Some n \<Rightarrow> n))"

definition is_single_line :: "line_index \<Rightarrow> nat \<Rightarrow> nat \<Rightarrow> bool" where
  "is_single_line ix start stop \<longleftrightarrow>
     partition_point (\<lambda>offset. offset < start) (newlines ix) =
     partition_point (\<lambda>offset. offset < stop) (newlines ix)"

section \<open>Reference: lines read off the bytes\<close>

text \<open>The first offset of the line that the offset lies on, and the offset at which that line ends.\<close>

definition line_start :: "bytes \<Rightarrow> nat \<Rightarrow> nat" where
  "line_start bs off =
     length (take off bs) - length (takeWhile (\<lambda>b. b \<noteq> newline) (rev (take off bs)))"

definition line_end :: "bytes \<Rightarrow> nat \<Rightarrow> nat" where
  "line_end bs off = off + length (takeWhile (\<lambda>b. b \<noteq> newline) (drop off bs))"

definition point_at :: "bytes \<Rightarrow> nat \<Rightarrow> source_point" where
  "point_at bs off =
     \<lparr>sp_line = count_list (take off bs) newline + 1, sp_column = off - line_start bs off\<rparr>"

section \<open>Newline positions\<close>

lemma last_memchr:
  "c \<in> set xs \<Longrightarrow> last (memchr_iter c xs) + 1 = length xs - length (takeWhile (\<lambda>b. b \<noteq> c) (rev xs))"
proof (induction xs rule: rev_induct)
  case Nil
  then show ?case by simp
next
  case (snoc x xs)
  show ?case
  proof (cases "x = c")
    case True
    then show ?thesis by (simp add: memchr_from_append)
  next
    case False
    with snoc.prems have "c \<in> set xs" by simp
    then have "memchr_iter c xs \<noteq> []" by (metis length_memchr_from count_list_0_iff length_0_conv)
    with False snoc \<open>c \<in> set xs\<close> show ?thesis by (simp add: memchr_from_append)
  qed
qed

lemma nth_memchr_line_start:
  assumes "0 < count_list (take off bs) newline"
  shows "memchr_iter newline bs ! (count_list (take off bs) newline - 1) + 1 = line_start bs off"
proof -
  let ?xs = "take off bs"
  from assms have mem: "newline \<in> set ?xs" using count_list_0_iff [of ?xs newline] by force
  have "memchr_iter newline bs = memchr_iter newline ?xs @ memchr_from (length ?xs) newline (drop off bs)"
    using memchr_from_append [of 0 newline ?xs "drop off bs"] by simp
  moreover have "memchr_iter newline ?xs \<noteq> []"
    using assms length_memchr_from [of 0 newline ?xs] by auto
  ultimately have "memchr_iter newline bs ! (count_list ?xs newline - 1) = last (memchr_iter newline ?xs)"
    using assms by (simp add: nth_append length_memchr_from last_conv_nth)
  with last_memchr [OF mem] show ?thesis by (simp add: line_start_def)
qed

lemma line_start_no_newline: "count_list (take off bs) newline = 0 \<Longrightarrow> line_start bs off = 0"
proof -
  assume "count_list (take off bs) newline = 0"
  then have "takeWhile (\<lambda>b. b \<noteq> newline) (rev (take off bs)) = rev (take off bs)"
    by (auto simp: takeWhile_eq_all_conv count_list_0_iff)
  then have "length (takeWhile (\<lambda>b. b \<noteq> newline) (rev (take off bs))) = length (take off bs)"
    by (metis length_rev)
  then show ?thesis by (simp only: line_start_def)
qed

lemma line_start_le: "line_start bs off \<le> off"
  by (simp add: line_start_def)

text \<open>The prefix of the newline index up to a boundary that covers the offset is all it takes.\<close>

lemma source_point_from_prefix:
  assumes "off \<le> e \<or> length bs \<le> e"
  shows "source_point_from_offsets (memchr_iter newline (take e bs)) off = point_at bs off"
proof -
  let ?ns = "memchr_iter newline (take e bs)" and ?k = "count_list (take off bs) newline"
  from assms have tk: "take off (take e bs) = take off bs" by (auto simp: min_def)
  have pp: "partition_point (\<lambda>nl. nl < off) ?ns = ?k"
    by (simp only: partition_point_memchr tk)
  show ?thesis
  proof (cases "?k = 0")
    case True
    then show ?thesis
      by (simp add: source_point_from_offsets_def pp point_at_def checked_sub_def line_start_no_newline)
  next
    case False
    have "?k \<le> length ?ns"
      using pp by (metis length_takeWhile_le partition_point_def)
    with False have "?k - 1 < length ?ns" by linarith
    moreover have "?ns ! (?k - 1) + 1 = line_start bs off"
      using nth_memchr_line_start [of off "take e bs"] False
      by (simp only: line_start_def tk)
    ultimately show ?thesis using False
      by (simp add: source_point_from_offsets_def pp point_at_def checked_sub_def slice_get_def)
  qed
qed

section \<open>The mapping's invariant\<close>

definition mapping_ok :: "location_mapping \<Rightarrow> bool" where
  "mapping_ok m \<longleftrightarrow> scanned_until m \<le> length (lm_bytes m) \<and>
     newline_offsets m = memchr_iter newline (take (scanned_until m) (lm_bytes m))"

lemma mapping_new_ok: "mapping_ok (mapping_new input)"
  by (simp add: mapping_ok_def mapping_new_def)

lemma ensure_bytes [simp]: "lm_bytes (ensure_offsets_up_to m off) = lm_bytes m"
  by (simp add: ensure_offsets_up_to_def Let_def)

lemma ensure_ok: "mapping_ok m \<Longrightarrow> mapping_ok (ensure_offsets_up_to m off)"
proof (cases "min off (length (lm_bytes m)) \<le> scanned_until m")
  case True
  assume "mapping_ok m"
  with True show ?thesis by (simp add: ensure_offsets_up_to_def)
next
  case False
  let ?s = "scanned_until m" and ?e = "min off (length (lm_bytes m))"
  assume ok: "mapping_ok m"
  have "take ?e (lm_bytes m) = take ?s (lm_bytes m) @ subslice (lm_bytes m) ?s ?e"
    using False by (simp only: take_subslice)
  then have "memchr_iter newline (take ?e (lm_bytes m)) =
      newline_offsets m @ memchr_from ?s newline (subslice (lm_bytes m) ?s ?e)"
    using ok by (simp add: memchr_from_append mapping_ok_def min_absorb2)
  with False show ?thesis
    by (simp add: mapping_ok_def ensure_offsets_up_to_def Let_def memchr_from_shift [of ?s])
qed

lemma ensure_scanned:
  "mapping_ok m \<Longrightarrow> off \<le> scanned_until (ensure_offsets_up_to m off) \<or>
     length (lm_bytes m) \<le> scanned_until (ensure_offsets_up_to m off)"
  by (auto simp: ensure_offsets_up_to_def mapping_ok_def Let_def)

lemma ensure_point:
  assumes "mapping_ok m" and "q \<le> off"
  shows "source_point_from_offsets (newline_offsets (ensure_offsets_up_to m off)) q =
    point_at (lm_bytes m) q"
  using ensure_ok [OF assms(1), of off] ensure_scanned [OF assms(1), of off] assms(2)
  by (auto simp: mapping_ok_def intro!: source_point_from_prefix)

text \<open>Looking points and spans up keeps the bytes and the invariant.\<close>

lemma get_source_point_ok:
  "mapping_ok m \<Longrightarrow> mapping_ok (snd (get_source_point m off)) \<and>
     lm_bytes (snd (get_source_point m off)) = lm_bytes m"
  by (simp add: get_source_point_def Let_def ensure_ok)

lemma get_source_span_ok:
  "mapping_ok m \<Longrightarrow> mapping_ok (snd (get_source_span m sp)) \<and>
     lm_bytes (snd (get_source_span m sp)) = lm_bytes m"
  by (simp add: get_source_span_def Let_def ensure_ok)

section \<open>Sessions of queries\<close>

text \<open>A query is a point or a span look-up; a session runs queries from a fresh mapping.\<close>

datatype query = Point nat | Span offset_span

fun ask :: "location_mapping \<Rightarrow> query \<Rightarrow> location_mapping" where
  "ask m (Point off) = snd (get_source_point m off)"
| "ask m (Span sp) = snd (get_source_span m sp)"

definition session :: "bytes \<Rightarrow> query list \<Rightarrow> location_mapping" where
  "session bs qs = foldl ask (mapping_new bs) qs"

lemma ask_ok: "mapping_ok m \<Longrightarrow> mapping_ok (ask m q) \<and> lm_bytes (ask m q) = lm_bytes m"
  by (cases q) (auto simp: get_source_point_ok get_source_span_ok)

lemma foldl_ask_ok:
  "mapping_ok m \<Longrightarrow> mapping_ok (foldl ask m qs) \<and> lm_bytes (foldl ask m qs) = lm_bytes m"
  by (induction qs arbitrary: m) (auto simp: ask_ok)

lemma session_ok: "mapping_ok (session bs qs)" "lm_bytes (session bs qs) = bs"
  using foldl_ask_ok [OF mapping_new_ok [of bs], of qs]
  by (simp_all add: session_def mapping_new_def)

text \<open>
  C26. The point a mapping returns is the line (from 1) and byte column of the offset in the
  bytes, whatever was asked of the mapping before: query order does not change locations.
\<close>

theorem source_point_query_order_independent:
  "fst (get_source_point (session bs qs) off) = point_at bs off"
  using ensure_point [of "session bs qs" off off]
  by (simp add: get_source_point_def Let_def session_ok)

text \<open>
  For a span that is not empty, the two points of the source span are those of its first and
  its last byte, whatever was asked before.
\<close>

theorem source_span_query_order_independent:
  assumes "os_start sp < os_end sp"
  shows "fst (get_source_span (session bs qs) sp) =
    \<lparr>ss_start = point_at bs (os_start sp), ss_end = point_at bs (os_end sp - 1)\<rparr>"
  using assms ensure_point [of "session bs qs" "os_start sp" "os_end sp - 1"]
    ensure_point [of "session bs qs" "os_end sp - 1" "os_end sp - 1"]
  by (simp add: get_source_span_def Let_def session_ok)

theorem source_span_query_order_independent_witness:
  "fst (get_source_span (session [CHR ''a'', CHR 0x0A, CHR ''b'', CHR ''c''] [Point 3, Point 0])
      \<lparr>os_start = 2, os_end = 4\<rparr>) =
    \<lparr>ss_start = \<lparr>sp_line = 2, sp_column = 0\<rparr>, ss_end = \<lparr>sp_line = 2, sp_column = 1\<rparr>\<rparr>"
  by (subst source_span_query_order_independent) (simp_all add: point_at_def line_start_def newline_def)

text \<open>
  For an empty span that starts right after a newline the mapping searches one byte less than
  it reads, and the answer does depend on what was asked before.
\<close>

lemma empty_span_depends_on_query_order:
  "fst (get_source_span (session [CHR 0x0A, CHR ''b''] []) \<lparr>os_start = 1, os_end = 1\<rparr>) \<noteq>
   fst (get_source_span (session [CHR 0x0A, CHR ''b''] [Point 1]) \<lparr>os_start = 1, os_end = 1\<rparr>)"
  by (simp add: session_def mapping_new_def get_source_span_def get_source_point_def
      ensure_offsets_up_to_def source_point_from_offsets_def partition_point_def subslice_def
      checked_sub_def slice_get_def newline_def)

section \<open>Compact spans\<close>

lemma unat_u32_or_zero: "unat (u32_or_zero n) = (if n < 2 ^ 32 then n else 0)"
  by (simp add: u32_or_zero_def unat_of_nat)

lemma u32_or_zero_unat: "u32_or_zero (unat (w :: 32 word)) = w"
proof -
  have "unat w < 2 ^ 32" using unsigned_less [of w] by simp
  then show ?thesis by (simp add: u32_or_zero_def)
qed

lemma from_to_source_span [simp]: "from_source_span (to_source_span c) = c"
  by (simp add: from_source_span_def to_source_span_def u32_or_zero_unat)

definition fits_u32 :: "source_span \<Rightarrow> bool" where
  "fits_u32 s \<longleftrightarrow> (\<forall>n \<in> {sp_line (ss_start s), sp_column (ss_start s),
     sp_line (ss_end s), sp_column (ss_end s)}. n < 2 ^ 32)"

text \<open>
  Compacting a source span and expanding it again is the identity exactly when its four
  coordinates fit in 32 bits; a coordinate that does not fit is read back as zero.
\<close>

theorem compact_source_span_roundtrip:
  "to_source_span (from_source_span s) = s \<longleftrightarrow> fits_u32 s"
  by (cases s; cases "ss_start s"; cases "ss_end s")
    (auto simp: from_source_span_def to_source_span_def unat_u32_or_zero fits_u32_def split: if_splits)

text \<open>
  Serializing a location and reading it back keeps the byte offsets and the resolved source
  span; a location without a source span comes back with the zero span.
\<close>

theorem location_serialization_roundtrip:
  "deserialize_location (serialize_location l) =
     l\<lparr>loc_source_span := Some (case loc_source_span l of None \<Rightarrow> compact_zero | Some c \<Rightarrow> c)\<rparr> \<and>
   resolved_source_span (deserialize_location (serialize_location l)) = resolved_source_span l"
  by (cases l) (simp add: deserialize_location_def serialize_location_def resolved_source_span_def
      split: option.splits)

section \<open>Lines touching a span\<close>

lemma hd_memchr:
  "memchr_from k c xs = [] \<Longrightarrow> length (takeWhile (\<lambda>b. b \<noteq> c) xs) = length xs"
  "memchr_from k c xs \<noteq> [] \<Longrightarrow> hd (memchr_from k c xs) = k + length (takeWhile (\<lambda>b. b \<noteq> c) xs)"
  by (induction xs arbitrary: k) (auto split: if_splits)

lemma nth_memchr_line_end:
  assumes "off \<le> length bs"
  shows "(case slice_get (memchr_iter newline bs) (count_list (take off bs) newline) of
            None \<Rightarrow> length bs | Some n \<Rightarrow> n) = line_end bs off"
proof -
  let ?rest = "memchr_from off newline (drop off bs)"
  have "memchr_iter newline bs = memchr_iter newline (take off bs) @ ?rest"
    using memchr_from_append [of 0 newline "take off bs" "drop off bs"] assms by simp
  then have "slice_get (memchr_iter newline bs) (count_list (take off bs) newline) =
      (if ?rest = [] then None else Some (hd ?rest))"
    using slice_get_append_length [of "memchr_iter newline (take off bs)" ?rest]
    by (simp add: length_memchr_from)
  then show ?thesis
    using hd_memchr [of off newline "drop off bs"] assms
    by (auto simp: line_end_def)
qed

text \<open>
  C35. The indexed bounds of a span are the start of the line its first offset lies on and the
  end of the line its end offset lies on.
\<close>

theorem line_index_bounds:
  assumes "stop \<le> length bs"
  shows "bounds (line_index_new bs) start stop = (line_start bs start, line_end bs stop)"
  using nth_memchr_line_end [OF assms] nth_memchr_line_start [of start bs]
  by (auto simp: bounds_def line_index_new_def Let_def partition_point_memchr checked_sub_def
      line_start_no_newline cong: option.case_cong)

theorem line_index_bounds_witness:
  "bounds (line_index_new [CHR ''a'', CHR 0x0A, CHR ''b'', CHR ''c'', CHR 0x0A]) 2 3 = (2, 4)"
  by (subst line_index_bounds) (simp_all add: line_start_def line_end_def newline_def)

end
