(* ===== verification/Match_Spans.thy ===== *)
theory Match_Spans
  imports Location
begin

text \<open>
  Containment tracking of matched spans, from \<open>crates/kingfisher-scanner/src/primitives.rs\<close>:
  \<open>MatchSpans\<close> (the ordered index on the scanner's hot path) with \<open>record_indexed_match\<close>, and the
  legacy sorted vector \<open>insert_span\<close> with \<open>record_match\<close>.

  The locale \<open>span_tracker\<close> states what the scanner relies on: a span is reported as new exactly
  when no span recorded so far contains it.  \<open>MatchSpans\<close> provides it; the legacy vector does not.
\<close>

section \<open>MatchSpans\<close>

text \<open>
  \<open>MatchSpans(BTreeMap<usize, usize>)\<close> as its entries in key order.  \<open>range(..=k).next_back()\<close> is
  the last entry whose key is at most \<open>k\<close>, \<open>range(k..).next()\<close> the first whose key is at least \<open>k\<close>.
\<close>

type_synonym match_spans = "(nat \<times> nat) list"

definition last_before :: "(nat \<Rightarrow> bool) \<Rightarrow> match_spans \<Rightarrow> (nat \<times> nat) option" where
  "last_before p m = (let ys = takeWhile (\<lambda>e. p (fst e)) m in if ys = [] then None else Some (last ys))"

definition contains_end :: "match_spans \<Rightarrow> nat \<Rightarrow> bool" where
  "contains_end m stop =
     (case last_before (\<lambda>s. s < stop) m of None \<Rightarrow> False | Some (_, previous_end) \<Rightarrow> stop \<le> previous_end)"

text \<open>
  The loop that removes, one by one, the first entry at or after \<open>s\<close> while it ends no later
  than \<open>e\<close>: the entries before \<open>s\<close> stay, a prefix of the others goes.
\<close>

fun remove_contained :: "nat \<Rightarrow> nat \<Rightarrow> match_spans \<Rightarrow> match_spans" where
  "remove_contained s e [] = []"
| "remove_contained s e ((a, b) # m) =
     (if a < s then (a, b) # remove_contained s e m
      else if e < b then (a, b) # m
      else remove_contained s e m)"

text \<open>\<open>BTreeMap::insert\<close>\<close>

fun btree_insert :: "nat \<Rightarrow> nat \<Rightarrow> match_spans \<Rightarrow> match_spans" where
  "btree_insert s e [] = [(s, e)]"
| "btree_insert s e ((a, b) # m) =
     (if a < s then (a, b) # btree_insert s e m
      else if a = s then (s, e) # m
      else (s, e) # (a, b) # m)"

definition spans_insert :: "match_spans \<Rightarrow> offset_span \<Rightarrow> bool \<times> match_spans" where
  "spans_insert m span =
     (if (case last_before (\<lambda>s. s \<le> os_start span) m of None \<Rightarrow> False | Some (_, e) \<Rightarrow> os_end span \<le> e)
      then (False, m)
      else (True, btree_insert (os_start span) (os_end span)
                    (remove_contained (os_start span) (os_end span) m)))"

text \<open>\<open>FxHashMap<usize, MatchSpans>\<close>, one tracker per rule, \<open>entry(..).or_default()\<close>\<close>

definition record_indexed_match ::
  "(nat \<Rightarrow> match_spans option) \<Rightarrow> nat \<Rightarrow> offset_span \<Rightarrow> bool \<times> (nat \<Rightarrow> match_spans option)" where
  "record_indexed_match trackers rule_id span =
     (let m = (case trackers rule_id of None \<Rightarrow> [] | Some m \<Rightarrow> m);
          (fresh, m') = spans_insert m span
      in (fresh, trackers(rule_id \<mapsto> m')))"

section \<open>The legacy sorted vector\<close>

text \<open>
  \<open>binary_search_by\<close> on the start offsets, \<open>Ok\<close> and \<open>Err\<close> merged by \<open>unwrap_or_else(|i| i)\<close>: the
  position of the span with that start, or the position it would be inserted at.
\<close>

definition search_start :: "offset_span list \<Rightarrow> nat \<Rightarrow> nat" where
  "search_start spans s = partition_point (\<lambda>sp. os_start sp < s) spans"

definition list_remove :: "nat \<Rightarrow> 'a list \<Rightarrow> 'a list" where
  "list_remove i xs = take i xs @ drop (Suc i) xs"

definition list_insert :: "nat \<Rightarrow> 'a \<Rightarrow> 'a list \<Rightarrow> 'a list" where
  "list_insert i x xs = take i xs @ x # drop i xs"

definition insert_span :: "offset_span list \<Rightarrow> offset_span \<Rightarrow> bool \<times> offset_span list" where
  "insert_span spans span =
     (let idx = search_start spans (os_start span) in
      if 0 < idx \<and> fully_contains (spans ! (idx - 1)) span then (False, spans)
      else
        let (spans, idx) =
              (if 0 < idx \<and> fully_contains span (spans ! (idx - 1))
               then (list_remove (idx - 1) spans, idx - 1) else (spans, idx))
        in if idx < length spans \<and> fully_contains (spans ! idx) span then (False, spans)
           else
             let spans = (if idx < length spans \<and> fully_contains span (spans ! idx)
                          then list_remove idx spans else spans)
             in (True, list_insert idx span spans))"

definition record_match ::
  "(nat \<Rightarrow> offset_span list option) \<Rightarrow> nat \<Rightarrow> offset_span \<Rightarrow>
   bool \<times> (nat \<Rightarrow> offset_span list option)" where
  "record_match m rule_id span =
     (let spans = (case m rule_id of None \<Rightarrow> [] | Some spans \<Rightarrow> spans);
          (fresh, spans') = insert_span spans span
      in (fresh, m(rule_id \<mapsto> spans')))"

section \<open>What a tracker promises\<close>

definition covered_by :: "offset_span set \<Rightarrow> offset_span \<Rightarrow> bool" where
  "covered_by S x \<longleftrightarrow> (\<exists>s \<in> S. fully_contains s x)"

lemma fully_contains_trans: "fully_contains a b \<Longrightarrow> fully_contains b c \<Longrightarrow> fully_contains a c"
  by (auto simp: fully_contains_def)

lemma fully_contains_refl [simp]: "fully_contains a a"
  by (simp add: fully_contains_def)

lemma covered_by_insert: "covered_by (insert s S) x \<longleftrightarrow> fully_contains s x \<or> covered_by S x"
  by (auto simp: covered_by_def)

locale span_tracker =
  fixes empty :: 't
    and insert_op :: "'t \<Rightarrow> offset_span \<Rightarrow> bool \<times> 't"
    and spans_of :: "'t \<Rightarrow> offset_span set"
    and invar :: "'t \<Rightarrow> bool"
  assumes spans_empty: "spans_of empty = {}"
    and invar_empty: "invar empty"
    and insert_new: "invar t \<Longrightarrow> fst (insert_op t x) \<longleftrightarrow> \<not> covered_by (spans_of t) x"
    and insert_covers: "invar t \<Longrightarrow>
          covered_by (spans_of (snd (insert_op t x))) y \<longleftrightarrow> fully_contains x y \<or> covered_by (spans_of t) y"
    and insert_sub: "invar t \<Longrightarrow> spans_of (snd (insert_op t x)) \<subseteq> insert x (spans_of t)"
    and insert_invar: "invar t \<Longrightarrow> invar (snd (insert_op t x))"
begin

definition record_all :: "offset_span list \<Rightarrow> 't" where
  "record_all xs = foldl (\<lambda>t x. snd (insert_op t x)) empty xs"

lemma record_all_snoc: "record_all (xs @ [x]) = snd (insert_op (record_all xs) x)"
  by (simp add: record_all_def)

lemma record_all_invar: "invar (record_all xs)"
  by (induction xs rule: rev_induct) (simp_all add: record_all_snoc insert_invar, simp add: record_all_def invar_empty)

lemma record_all_sub: "spans_of (record_all xs) \<subseteq> set xs"
proof (induction xs rule: rev_induct)
  case Nil
  show ?case by (simp add: record_all_def spans_empty)
next
  case (snoc x xs)
  then show ?case
    using insert_sub [OF record_all_invar, of xs x] by (auto simp: record_all_snoc)
qed

text \<open>The tracker covers exactly what the spans recorded so far cover.\<close>

lemma record_all_covers: "covered_by (spans_of (record_all xs)) y \<longleftrightarrow> covered_by (set xs) y"
proof (induction xs rule: rev_induct)
  case Nil
  show ?case by (simp add: record_all_def spans_empty)
next
  case (snoc x xs)
  then show ?case
    by (simp add: record_all_snoc insert_covers [OF record_all_invar] covered_by_insert)
qed

lemma record_all_new: "fst (insert_op (record_all xs) x) \<longleftrightarrow> \<not> covered_by (set xs) x"
  by (simp add: insert_new [OF record_all_invar] record_all_covers)

end

section \<open>MatchSpans is a tracker\<close>

definition spans_invar :: "match_spans \<Rightarrow> bool" where
  "spans_invar m \<longleftrightarrow> sorted_wrt (\<lambda>x y. fst x < fst y \<and> snd x < snd y) m"

definition spans_set :: "match_spans \<Rightarrow> offset_span set" where
  "spans_set m = (\<lambda>(s, e). \<lparr>os_start = s, os_end = e\<rparr>) ` set m"

lemma spans_invar_simps [simp]:
  "spans_invar []"
  "spans_invar ((a, b) # m) \<longleftrightarrow> (\<forall>(s, e) \<in> set m. a < s \<and> b < e) \<and> spans_invar m"
  by (auto simp: spans_invar_def)

lemma covered_spans_set:
  "covered_by (spans_set m) x \<longleftrightarrow> (\<exists>(s, e) \<in> set m. s \<le> os_start x \<and> os_end x \<le> e)"
  by (simp add: covered_by_def spans_set_def fully_contains_def case_prod_beta)

text \<open>The predecessor decides containment, because the ends increase with the starts.\<close>

lemma last_before_covers:
  assumes "spans_invar m"
  shows "(case last_before (\<lambda>s. s \<le> k) m of None \<Rightarrow> False | Some (_, e) \<Rightarrow> y \<le> e) \<longleftrightarrow>
    (\<exists>(s, e) \<in> set m. s \<le> k \<and> y \<le> e)"
  using assms
proof (induction m rule: rev_induct)
  case Nil
  show ?case by (simp add: last_before_def)
next
  case (snoc p m)
  obtain a b where p: "p = (a, b)" by fastforce
  from snoc.prems have inv: "spans_invar m" and lt: "\<And>s e. (s, e) \<in> set m \<Longrightarrow> s < a \<and> e < b"
    by (auto simp: spans_invar_def sorted_wrt_append p)
  show ?case
  proof (cases "a \<le> k")
    case True
    have "fst q \<le> k" if "q \<in> set m" for q
      using lt [of "fst q" "snd q"] that True by simp
    then have "takeWhile (\<lambda>e. fst e \<le> k) (m @ [p]) = m @ [p]" using True by (auto simp: p)
    with True lt show ?thesis by (force simp: last_before_def p)
  next
    case False
    then have "takeWhile (\<lambda>e. fst e \<le> k) (m @ [p]) = takeWhile (\<lambda>e. fst e \<le> k) m"
      by (simp add: p takeWhile_tail)
    with False snoc.IH [OF inv] show ?thesis by (auto simp: last_before_def p)
  qed
qed

lemma set_remove_contained:
  "spans_invar m \<Longrightarrow> set (remove_contained s e m) = {(a, b) \<in> set m. a < s \<or> e < b}"
  by (induction m rule: remove_contained.induct) (auto split: if_splits)

lemma remove_contained_invar: "spans_invar m \<Longrightarrow> spans_invar (remove_contained s e m)"
  by (induction m rule: remove_contained.induct) (auto simp: set_remove_contained)

lemma set_btree_insert:
  "spans_invar m \<Longrightarrow> s \<notin> fst ` set m \<Longrightarrow> set (btree_insert s e m) = insert (s, e) (set m)"
  by (induction m rule: btree_insert.induct) (auto split: if_splits)

lemma btree_insert_invar:
  "spans_invar m \<Longrightarrow> (\<And>a b. (a, b) \<in> set m \<Longrightarrow> a < s \<and> b < e \<or> s < a \<and> e < b) \<Longrightarrow>
     spans_invar (btree_insert s e m)"
proof (induction m rule: btree_insert.induct)
  case (1 s e)
  show ?case by simp
next
  case (2 s e a b m)
  from "2.prems" have inv: "spans_invar m" by simp
  have disj: "\<And>a' b'. (a', b') \<in> set m \<Longrightarrow> a' < s \<and> b' < e \<or> s < a' \<and> e < b'"
    using "2.prems"(2) by simp
  then have "s \<notin> fst ` set m" by force
  with inv "2.prems" "2.IH" [OF _ inv] disj show ?case
    by (auto simp: set_btree_insert, (fastforce)+)
qed

lemma spans_insert_cases:
  assumes "spans_invar m"
  shows "spans_insert m x =
    (if covered_by (spans_set m) x then (False, m)
     else (True, btree_insert (os_start x) (os_end x) (remove_contained (os_start x) (os_end x) m)))"
  by (simp add: spans_insert_def last_before_covers [OF assms] covered_spans_set)

lemma spans_insert_new_set:
  assumes "spans_invar m" and "\<not> covered_by (spans_set m) x"
  shows "set (snd (spans_insert m x)) =
      insert (os_start x, os_end x) {(a, b) \<in> set m. a < os_start x \<or> os_end x < b}"
    and "spans_invar (snd (spans_insert m x))"
proof -
  let ?m = "remove_contained (os_start x) (os_end x) m"
  have ends: "os_end x > b" if "(a, b) \<in> set m" "a \<le> os_start x" for a b
    using assms(2) that by (force simp: covered_spans_set)
  have "a < os_start x \<and> b < os_end x \<or> os_start x < a \<and> os_end x < b" if "(a, b) \<in> set ?m" for a b
    using that ends [of a b] by (auto simp: set_remove_contained [OF assms(1)] not_less intro: ccontr)
  then have sep: "\<And>a b. (a, b) \<in> set ?m \<Longrightarrow> a < os_start x \<and> b < os_end x \<or> os_start x < a \<and> os_end x < b"
    by blast
  then have "os_start x \<notin> fst ` set ?m" by force
  with assms show "set (snd (spans_insert m x)) =
      insert (os_start x, os_end x) {(a, b) \<in> set m. a < os_start x \<or> os_end x < b}"
    by (simp add: spans_insert_cases set_btree_insert remove_contained_invar set_remove_contained)
  show "spans_invar (snd (spans_insert m x))"
    using btree_insert_invar [OF remove_contained_invar [OF assms(1)], of "os_start x" "os_end x"] sep assms
    by (simp add: spans_insert_cases)
qed

interpretation indexed: span_tracker "[]" spans_insert spans_set spans_invar
proof unfold_locales
  show "spans_set [] = {}" by (simp add: spans_set_def)
  show "spans_invar []" by simp
next
  fix m :: match_spans and x y :: offset_span
  assume inv: "spans_invar m"
  then show "fst (spans_insert m x) \<longleftrightarrow> \<not> covered_by (spans_set m) x"
    by (simp add: spans_insert_cases)
  show "covered_by (spans_set (snd (spans_insert m x))) y \<longleftrightarrow> fully_contains x y \<or> covered_by (spans_set m) y"
  proof (cases "covered_by (spans_set m) x")
    case True
    then show ?thesis
      using inv by (auto simp: spans_insert_cases covered_by_def dest: fully_contains_trans)
  next
    case False
    then show ?thesis
      unfolding covered_spans_set spans_insert_new_set(1) [OF inv False]
      by (force simp: fully_contains_def not_less)
  qed
  show "spans_set (snd (spans_insert m x)) \<subseteq> insert x (spans_set m)"
  proof (cases "covered_by (spans_set m) x")
    case True
    then show ?thesis by (auto simp: spans_insert_cases [OF inv])
  next
    case False
    then show ?thesis
      unfolding spans_set_def spans_insert_new_set(1) [OF inv False] by (cases x) auto
  qed
  show "spans_invar (snd (spans_insert m x))"
    using spans_insert_new_set(2) [OF inv, of x] inv
    by (cases "covered_by (spans_set m) x") (simp_all add: spans_insert_cases)
qed

text \<open>
  C3. After any sequence of spans, \<open>MatchSpans::insert\<close> reports a span as new exactly when no
  span inserted before contains it.
\<close>

theorem match_spans_reports_uncontained:
  "fst (spans_insert (foldl (\<lambda>m x. snd (spans_insert m x)) [] xs) x) \<longleftrightarrow>
     \<not> (\<exists>s \<in> set xs. fully_contains s x)"
  using indexed.record_all_new [of xs x] by (simp add: indexed.record_all_def covered_by_def)

text \<open>
  What the index holds is exactly the maximal recorded spans: it is an antichain inside the
  recorded spans that covers all of them.
\<close>

lemma spans_invar_antichain:
  assumes "spans_invar m" and "a \<in> spans_set m" and "b \<in> spans_set m" and "fully_contains a b"
  shows "a = b"
proof -
  have mem: "(os_start s, os_end s) \<in> set m" if "s \<in> spans_set m" for s
    using that by (auto simp: spans_set_def)
  have "p = q \<or> fst p < fst q \<and> snd p < snd q \<or> fst q < fst p \<and> snd q < snd p"
    if "p \<in> set m" "q \<in> set m" for p q
    using assms(1) that by (induction m) (auto simp: spans_invar_def)
  from this [OF mem [OF assms(2)] mem [OF assms(3)]] assms(4) show ?thesis
    by (cases a; cases b) (auto simp: fully_contains_def)
qed

text \<open>
  C21. What \<open>MatchSpans\<close> holds after any sequence of insertions is exactly the recorded spans
  that no other recorded span properly contains.
\<close>

theorem match_spans_holds_maximal:
  "spans_set (foldl (\<lambda>m x. snd (spans_insert m x)) [] xs) =
     {s \<in> set xs. \<forall>t \<in> set xs. fully_contains t s \<longrightarrow> t = s}"
  (is "?S = ?M")
proof -
  let ?m = "indexed.record_all xs"
  have m: "?S = spans_set ?m" by (simp add: indexed.record_all_def)
  note inv = indexed.record_all_invar [of xs]
  have cov: "covered_by (spans_set ?m) t" if "t \<in> set xs" for t
    using indexed.record_all_covers [of xs t] that by (auto simp: covered_by_def intro: fully_contains_refl)
  have "s \<in> ?M" if s: "s \<in> spans_set ?m" for s
  proof -
    have "t = s" if t: "t \<in> set xs" "fully_contains t s" for t
    proof -
      from cov [OF t(1)] obtain u where u: "u \<in> spans_set ?m" "fully_contains u t"
        by (auto simp: covered_by_def)
      with t(2) have "fully_contains u s" by (blast intro: fully_contains_trans)
      with spans_invar_antichain [OF inv u(1) s] have "u = s" by simp
      with u(2) t(2) show "t = s" by (cases t; cases s) (auto simp: fully_contains_def)
    qed
    with s indexed.record_all_sub [of xs] show ?thesis by auto
  qed
  moreover have "s \<in> spans_set ?m" if "s \<in> ?M" for s
  proof -
    from that cov obtain u where "u \<in> spans_set ?m" "fully_contains u s"
      by (auto simp: covered_by_def)
    with that indexed.record_all_sub [of xs] show ?thesis by auto
  qed
  ultimately show ?thesis unfolding m by blast
qed

theorem match_spans_holds_maximal_witness:
  "spans_set (foldl (\<lambda>m x. snd (spans_insert m x)) []
     [\<lparr>os_start = 2, os_end = 3\<rparr>, \<lparr>os_start = 0, os_end = 4\<rparr>]) = {\<lparr>os_start = 0, os_end = 4\<rparr>}"
  by (subst match_spans_holds_maximal) (auto simp: fully_contains_def)

text \<open>A candidate endpoint is covered exactly when some recorded span starts before it and reaches it.\<close>

lemma last_before_less: "last_before (\<lambda>s. s < Suc k) m = last_before (\<lambda>s. s \<le> k) m"
  by (simp add: less_Suc_eq_le)

text \<open>
  \<open>contains_end\<close> is true exactly when some recorded span starts before the endpoint and
  ends at or after it.
\<close>

theorem match_spans_contains_end:
  "contains_end (foldl (\<lambda>m x. snd (spans_insert m x)) [] xs) stop \<longleftrightarrow>
     (\<exists>s \<in> set xs. os_start s < stop \<and> stop \<le> os_end s)"
proof (cases stop)
  case 0
  then show ?thesis by (simp add: contains_end_def last_before_def takeWhile_eq_Nil_iff Let_def)
next
  case (Suc k)
  let ?m = "indexed.record_all xs"
  let ?x = "\<lparr>os_start = k, os_end = stop\<rparr>"
  have "contains_end ?m stop \<longleftrightarrow> covered_by (spans_set ?m) ?x"
    unfolding contains_end_def Suc last_before_less
    by (simp add: last_before_covers [OF indexed.record_all_invar] covered_spans_set)
  also have "\<dots> \<longleftrightarrow> covered_by (set xs) ?x" by (rule indexed.record_all_covers)
  finally show ?thesis
    by (simp add: indexed.record_all_def covered_by_def fully_contains_def Suc less_Suc_eq_le)
qed

section \<open>One tracker per rule\<close>

fun record_all_matches ::
  "(nat \<Rightarrow> match_spans option) \<Rightarrow> (nat \<times> offset_span) list \<Rightarrow> (nat \<Rightarrow> match_spans option)" where
  "record_all_matches t [] = t"
| "record_all_matches t ((r, x) # rest) = record_all_matches (snd (record_indexed_match t r x)) rest"

definition spans_for :: "nat \<Rightarrow> (nat \<times> offset_span) list \<Rightarrow> offset_span list" where
  "spans_for r hist = map snd (filter (\<lambda>e. fst e = r) hist)"

lemma record_all_matches_tracker:
  "(case record_all_matches t hist r of None \<Rightarrow> [] | Some m \<Rightarrow> m) =
     foldl (\<lambda>m x. snd (spans_insert m x)) (case t r of None \<Rightarrow> [] | Some m \<Rightarrow> m) (spans_for r hist)"
  by (induction t hist rule: record_all_matches.induct)
    (auto simp: spans_for_def record_indexed_match_def Let_def split: prod.splits)

text \<open>
  C40. Per-rule containment: a match of a rule is recorded as new exactly when no earlier match
  of the same rule contains it; the matches of other rules have no influence.
\<close>

theorem record_indexed_match_per_rule:
  "fst (record_indexed_match (record_all_matches (\<lambda>_. None) hist) r x) \<longleftrightarrow>
     \<not> (\<exists>s. (r, s) \<in> set hist \<and> fully_contains s x)"
proof -
  let ?t = "record_all_matches (\<lambda>_. None) hist"
  have "fst (record_indexed_match ?t r x) = fst (spans_insert (case ?t r of None \<Rightarrow> [] | Some m \<Rightarrow> m) x)"
    by (simp add: record_indexed_match_def Let_def split: prod.splits)
  also have "\<dots> \<longleftrightarrow> \<not> covered_by (set (spans_for r hist)) x"
    using indexed.record_all_new [of "spans_for r hist" x]
    by (simp add: record_all_matches_tracker indexed.record_all_def)
  finally show ?thesis by (auto simp: covered_by_def spans_for_def)
qed

section \<open>The legacy vector is not a tracker\<close>

text \<open>
  The legacy \<open>insert_span\<close> drops at most one contained neighbour and looks only at its two
  neighbours, so it can accept a span that an existing span contains.
\<close>

lemma insert_span_misses_containment:
  "let spans = foldl (\<lambda>m x. snd (insert_span m x)) []
         [\<lparr>os_start = 2, os_end = 3\<rparr>, \<lparr>os_start = 4, os_end = 5\<rparr>, \<lparr>os_start = 0, os_end = 10\<rparr>];
       x = \<lparr>os_start = 6, os_end = 7\<rparr>
   in (\<exists>s \<in> set spans. fully_contains s x) \<and> fst (insert_span spans x)"
  by (simp add: insert_span_def search_start_def partition_point_def list_insert_def list_remove_def
      fully_contains_def Let_def)

end
