(* ===== verification/Base64_Scan.thy ===== *)
theory Base64_Scan
  imports Kf_Prelude
begin

text \<open>
  Discovery of Base64 text, \<open>get_base64_strings\<close> of
  \<open>crates/kingfisher-scanner/src/primitives.rs\<close>.

  The decoders of the \<open>base64\<close> crate are parameters.  The theory shows that the index loop, with or
  without a scan control, returns exactly the decodable maximal runs of alphabet bytes, in order.
\<close>

record decoded_data =
  decoded :: bytes
  pos_start :: nat
  pos_end :: nat

text \<open>The three engines of the \<open>base64\<close> crate the code tries, in the order it tries them.\<close>

record base64_engines =
  standard :: "bytes \<Rightarrow> bytes option"
  url_safe :: "bytes \<Rightarrow> bytes option"
  url_safe_no_pad :: "bytes \<Rightarrow> bytes option"

definition is_base64_byte :: "byte \<Rightarrow> bool" where
  "is_base64_byte b \<longleftrightarrow> is_ascii_upper b \<or> is_ascii_lower b \<or> is_ascii_digit b \<or>
     b = CHR ''+'' \<or> b = CHR ''/'' \<or> b = CHR ''-'' \<or> b = CHR ''_''"

definition is_ascii :: "bytes \<Rightarrow> bool" where
  "is_ascii bs \<longleftrightarrow> list_all (\<lambda>b. byte_val b < 128) bs"

definition decode_any :: "base64_engines \<Rightarrow> bytes \<Rightarrow> bytes option" where
  "decode_any eng bs =
     (case standard eng bs of
        Some d \<Rightarrow> Some d
      | None \<Rightarrow> (case url_safe eng bs of
                   Some d \<Rightarrow> Some d
                 | None \<Rightarrow> url_safe_no_pad eng bs))"

text \<open>
  \<open>while i < input.len() && p(input[i])\<close> with the periodic check of the \<open>CHECK\<close> instance of
  \<open>get_base64_strings_impl\<close>.
\<close>

function scan_while :: "bool \<Rightarrow> (byte \<Rightarrow> bool) \<Rightarrow> bytes \<Rightarrow> nat \<Rightarrow> nat ctl" where
  "scan_while CHECK p input i =
     (if i < length input \<and> p (input ! i)
      then if CHECK \<and> i mod (64 * 1024) = 0
           then checked (scan_while CHECK p input (Suc i))
           else scan_while CHECK p input (Suc i)
      else ret i)"
  by pat_completeness auto
termination
  by (relation "measure (\<lambda>(CHECK, p, input, i). length input - i)") auto

declare scan_while.simps [simp del]

text \<open>At most two padding bytes; the first argument counts how many may still be taken.\<close>

fun skip_padding :: "nat \<Rightarrow> bytes \<Rightarrow> nat \<Rightarrow> nat" where
  "skip_padding 0 input i = i"
| "skip_padding (Suc n) input i =
     (if i < length input \<and> input ! i = CHR ''='' then skip_padding n input (Suc i) else i)"

definition decode_token :: "base64_engines \<Rightarrow> bytes \<Rightarrow> nat \<Rightarrow> nat \<Rightarrow> decoded_data list" where
  "decode_token eng input start stop =
     (let len = stop - start in
      if 32 \<le> len \<and> len mod 4 = 0
      then (case decode_any eng (subslice input start stop) of
              Some d \<Rightarrow> if is_ascii d then [\<lparr>decoded = d, pos_start = start, pos_end = stop\<rparr>] else []
            | None \<Rightarrow> [])
      else [])"

lemma yields_scan_while: "yields (scan_while CHECK p input i) (skip_while p input i)"
proof (induction CHECK p input i rule: scan_while.induct)
  case (1 CHECK p input i)
  then show ?case
    by (subst scan_while.simps, subst skip_while_unfold)
      (auto intro!: yields_ret yields_checked)
qed

lemma scan_while_result: "scan_while CHECK p input i c t = Inr (j, t') \<Longrightarrow> j = skip_while p input i"
  by (rule yieldsD [OF yields_scan_while])

lemma skip_padding_ge: "i \<le> skip_padding n input i"
  by (induction n input i rule: skip_padding.induct) auto

lemma skip_padding_le: "i \<le> length input \<Longrightarrow> skip_padding n input i \<le> length input"
  by (induction n input i rule: skip_padding.induct) auto

text \<open>Every round of the outer loop advances.\<close>

lemma token_advances:
  assumes "i < length input" and "j = skip_while (\<lambda>b. \<not> is_base64_byte b) input i"
    and "k = skip_while is_base64_byte input j"
  shows "i < skip_padding 2 input k"
proof -
  have ij: "i \<le> j" using assms(2) by (simp add: skip_while_ge)
  show ?thesis
  proof (cases "j = i")
    case True
    have "is_base64_byte (input ! i)"
      using assms(1,2) True skip_while_unfold [of "\<lambda>b. \<not> is_base64_byte b" input i]
        skip_while_ge [of "Suc i" "\<lambda>b. \<not> is_base64_byte b" input] by (auto split: if_splits)
    then have "Suc i \<le> k"
      using assms(1,3) True skip_while_unfold [of is_base64_byte input i]
        skip_while_ge [of "Suc i" is_base64_byte input] by simp
    then show ?thesis using skip_padding_ge [of k 2 input] by simp
  next
    case False
    then show ?thesis
      using ij skip_while_ge [of j is_base64_byte input] assms(3) skip_padding_ge [of k 2 input] by simp
  qed
qed

function get_base64_strings_loop ::
  "bool \<Rightarrow> base64_engines \<Rightarrow> bytes \<Rightarrow> nat \<Rightarrow> decoded_data list \<Rightarrow> decoded_data list ctl" where
  "get_base64_strings_loop CHECK eng input i results =
     (if i < length input then
        bind (if CHECK then check else ret ()) (\<lambda>_.
        bind (scan_while CHECK (\<lambda>b. \<not> is_base64_byte b) input i) (\<lambda>start.
        bind (scan_while CHECK is_base64_byte input start) (\<lambda>run_end.
          let stop = skip_padding 2 input run_end
          in get_base64_strings_loop CHECK eng input stop (results @ decode_token eng input start stop))))
      else
        bind (if CHECK then check else ret ()) (\<lambda>_. ret results))"
  by pat_completeness auto
termination
proof (relation "measure (\<lambda>(CHECK, eng, input, i, results). length input - i)", goal_cases)
  case 1
  show ?case by simp
next
  case (2 CHECK eng input i results c t x t' ca ta j t'a cb tb k t'b stop)
  then have "i < stop"
    using token_advances [of i input j k] by (auto dest: scan_while_result)
  with 2(1) show ?case by simp
qed

declare get_base64_strings_loop.simps [simp del]

definition get_base64_strings_with_control :: "base64_engines \<Rightarrow> bytes \<Rightarrow> decoded_data list ctl" where
  "get_base64_strings_with_control eng input =
     (\<lambda>c. get_base64_strings_loop (is_limited c) eng input 0 [] c)"

text \<open>\<open>.expect(\"unlimited scan cannot be cancelled\")\<close>: \<open>None\<close> would be the panic.\<close>

definition get_base64_strings :: "base64_engines \<Rightarrow> bytes \<Rightarrow> decoded_data list option" where
  "get_base64_strings eng input = run_unlimited (get_base64_strings_with_control eng input)"

section \<open>Reference: maximal runs of alphabet bytes\<close>

definition run_start :: "bytes \<Rightarrow> nat \<Rightarrow> bool" where
  "run_start input s \<longleftrightarrow> s < length input \<and> is_base64_byte (input ! s) \<and>
     (s = 0 \<or> \<not> is_base64_byte (input ! (s - 1)))"

definition token_end :: "bytes \<Rightarrow> nat \<Rightarrow> nat" where
  "token_end input s = skip_padding 2 input (skip_while is_base64_byte input s)"

definition base64_tokens :: "base64_engines \<Rightarrow> bytes \<Rightarrow> nat \<Rightarrow> decoded_data list" where
  "base64_tokens eng input i =
     concat (map (\<lambda>s. decode_token eng input s (token_end input s))
       (filter (run_start input) [i..<length input]))"

text \<open>Where the outer loop stands between two rounds: not inside a run.\<close>

definition at_boundary :: "bytes \<Rightarrow> nat \<Rightarrow> bool" where
  "at_boundary input i \<longleftrightarrow> i = 0 \<or> length input \<le> i \<or>
     \<not> is_base64_byte (input ! (i - 1)) \<or> \<not> is_base64_byte (input ! i)"

lemma not_base64_padding [simp]: "\<not> is_base64_byte (CHR ''='')"
  by (simp add: is_base64_byte_def ascii_class_defs)

lemma skip_padding_all: "i \<le> x \<Longrightarrow> x < skip_padding n input i \<Longrightarrow> input ! x = CHR ''=''"
proof (induction n input i rule: skip_padding.induct)
  case (2 n input i)
  then show ?case by (cases "x = i") (auto split: if_splits)
qed simp

lemma filter_upt_none: "(\<And>x. i \<le> x \<Longrightarrow> x < j \<Longrightarrow> \<not> P x) \<Longrightarrow> filter P [i..<j] = []"
  by simp

text \<open>One round finds the next run start, and no other run starts before the round's end.\<close>

lemma round_finds_start:
  assumes i: "i < length input" and bd: "at_boundary input i"
    and j: "j = skip_while (\<lambda>b. \<not> is_base64_byte b) input i"
  shows "filter (run_start input) [i..<token_end input j] = (if j < length input then [j] else [])"
proof -
  define k where "k = skip_while is_base64_byte input j"
  define stop where "stop = token_end input j"
  have ij: "i \<le> j" and jk: "j \<le> k" and ks: "k \<le> stop"
    by (simp_all add: j k_def stop_def token_end_def skip_while_ge skip_padding_ge)
  have gap: "\<not> run_start input x" if "i \<le> x" "x < j" for x
    using skip_while_all [of i x "\<lambda>b. \<not> is_base64_byte b" input] that by (simp add: j run_start_def)
  have run: "is_base64_byte (input ! x)" if "j \<le> x" "x < k" for x
    using skip_while_all [of j x is_base64_byte input] that by (simp add: k_def)
  have inner: "\<not> run_start input x" if "j < x" "x < k" for x
    using run [of "x - 1"] that by (simp add: run_start_def)
  have pad: "\<not> run_start input x" if "k \<le> x" "x < stop" for x
    using skip_padding_all [of k x 2 input] that by (simp add: stop_def token_end_def k_def run_start_def)
  have split: "[i..<stop] = [i..<j] @ [j..<k] @ [k..<stop]"
    using ij jk ks upt_add_eq_append [of i j "stop - j"] upt_add_eq_append [of j k "stop - k"] by simp
  have mid: "filter (run_start input) [j..<k] = (if j < length input then [j] else [])"
  proof (cases "j < length input")
    case True
    have bj: "is_base64_byte (input ! j)"
      using skip_while_stop [of "\<lambda>b. \<not> is_base64_byte b" input i] True by (simp add: j)
    then have "j < k"
      using True skip_while_unfold [of is_base64_byte input j] skip_while_ge [of "Suc j" is_base64_byte input]
      by (simp add: k_def)
    moreover have "run_start input j"
    proof (cases "j = i")
      case True
      with bd i bj show ?thesis by (auto simp: run_start_def at_boundary_def)
    next
      case False
      with ij skip_while_all [of i "j - 1" "\<lambda>b. \<not> is_base64_byte b" input] True bj
      show ?thesis by (simp add: j [symmetric] run_start_def)
    qed
    moreover have "filter (run_start input) [Suc j..<k] = []"
      by (rule filter_upt_none) (simp add: inner)
    ultimately show ?thesis using True by (simp add: upt_conv_Cons)
  next
    case False
    then show ?thesis by (auto simp: run_start_def intro: filter_upt_none)
  qed
  have "filter (run_start input) [i..<j] = []" "filter (run_start input) [k..<stop] = []"
    by (rule filter_upt_none, simp add: gap pad)+
  with mid show ?thesis by (simp only: stop_def [symmetric] split filter_append append_Nil append_Nil2)
qed

lemma token_end_boundary:
  assumes "j \<le> length input"
  shows "at_boundary input (token_end input j)"
proof -
  define k where "k = skip_while is_base64_byte input j"
  have stop: "token_end input j = skip_padding 2 input k" by (simp add: token_end_def k_def)
  show ?thesis
  proof (cases "skip_padding 2 input k = k")
    case True
    then show ?thesis
      using skip_while_stop [of is_base64_byte input j] by (auto simp: stop at_boundary_def k_def not_le)
  next
    case False
    then have lt: "k < skip_padding 2 input k" using skip_padding_ge [of k 2 input] by simp
    then have "input ! (skip_padding 2 input k - 1) = CHR ''=''"
      by (intro skip_padding_all [of k _ 2]) simp_all
    then show ?thesis by (simp add: stop at_boundary_def)
  qed
qed

lemma base64_tokens_round:
  assumes "i < length input" and "at_boundary input i"
    and j: "j = skip_while (\<lambda>b. \<not> is_base64_byte b) input i"
  shows "base64_tokens eng input i =
    decode_token eng input j (token_end input j) @ base64_tokens eng input (token_end input j)"
proof -
  have jl: "j \<le> length input" using assms(1) by (simp add: j skip_while_le)
  have sl: "token_end input j \<le> length input"
    using jl by (simp add: token_end_def skip_padding_le skip_while_le)
  have "i \<le> token_end input j"
    using skip_while_ge [of i "\<lambda>b. \<not> is_base64_byte b" input] skip_while_ge [of j is_base64_byte input]
      skip_padding_ge [of "skip_while is_base64_byte input j" 2 input]
    by (simp add: j token_end_def)
  then have "[i..<length input] = [i..<token_end input j] @ [token_end input j..<length input]"
    using sl upt_add_eq_append [of i "token_end input j" "length input - token_end input j"] by simp
  moreover have "decode_token eng input j (token_end input j) = []" if "\<not> j < length input"
    using that jl sl by (simp add: decode_token_def)
  ultimately show ?thesis
    using round_finds_start [OF assms] by (auto simp: base64_tokens_def)
qed

lemma yields_base64_loop:
  "at_boundary input i \<Longrightarrow>
     yields (get_base64_strings_loop CHECK eng input i results) (results @ base64_tokens eng input i)"
proof (induction CHECK eng input i results rule: get_base64_strings_loop.induct)
  case (1 CHECK eng input i results)
  let ?j = "skip_while (\<lambda>b. \<not> is_base64_byte b) input i"
  have chk: "yields (if CHECK then check else ret ()) ()" by (simp add: yields_intro)
  show ?case
  proof (cases "i < length input")
    case True
    have jl: "?j \<le> length input" using True by (simp add: skip_while_le)
    note round = base64_tokens_round [OF True "1.prems" refl, of eng, folded append_assoc]
    show ?thesis
      unfolding get_base64_strings_loop.simps [of CHECK eng input i results] if_P [OF True] Let_def
    proof (rule yields_bind [OF chk], rule yields_bind [OF yields_scan_while],
        rule yields_bind [OF yields_scan_while], goal_cases)
      case (1 c t t' ca ta t'a cb tb t'b)
      then have "yields (get_base64_strings_loop CHECK eng input (token_end input ?j)
          (results @ decode_token eng input ?j (token_end input ?j)))
        ((results @ decode_token eng input ?j (token_end input ?j)) @
          base64_tokens eng input (token_end input ?j))"
        using "1.IH" [OF True 1 refl] token_end_boundary [OF jl] by (simp only: token_end_def)
      then show ?case by (simp only: round append_assoc token_end_def)
    qed
  next
    case False
    then show ?thesis
      unfolding get_base64_strings_loop.simps [of CHECK eng input i results] if_not_P [OF False]
      by (simp add: base64_tokens_def yields_bind [OF chk] yields_ret)
  qed
qed

lemma base64_loop_from_start:
  "yields (get_base64_strings_with_control eng input) (base64_tokens eng input 0)"
proof -
  have "yields (get_base64_strings_loop CHECK eng input 0 []) (base64_tokens eng input 0)" for CHECK
    using yields_base64_loop [of input 0 CHECK eng "[]"] by (simp add: at_boundary_def)
  then show ?thesis
    unfolding yields_def get_base64_strings_with_control_def by blast
qed

lemma get_base64_strings_eq: "get_base64_strings eng input = Some (base64_tokens eng input 0)"
  by (simp add: get_base64_strings_def yields_run base64_loop_from_start)

text \<open>
  C27. Whatever control is in force, Base64 discovery either aborts, and then only under a
  limited control, or returns exactly the decoded tokens of the maximal alphabet runs in input
  order; without limits it always returns them.
\<close>

theorem base64_strings_are_maximal_runs:
  "yields (get_base64_strings_with_control eng input) (base64_tokens eng input 0) \<and>
   get_base64_strings eng input = Some (base64_tokens eng input 0)"
  by (simp add: base64_loop_from_start get_base64_strings_eq)

lemma decode_token_mem:
  assumes "d \<in> set (decode_token eng input s e)"
  shows "pos_start d = s" "pos_end d = e" "32 \<le> e - s" "4 dvd e - s"
    "decode_any eng (subslice input s e) = Some (decoded d)" "is_ascii (decoded d)"
proof -
  have len: "32 \<le> e - s \<and> (e - s) mod 4 = 0"
    using assms by (rule contrapos_pp) (simp only: decode_token_def Let_def if_False, simp)
  with assms obtain x where "decode_any eng (subslice input s e) = Some x" "is_ascii x"
      and "d = \<lparr>decoded = x, pos_start = s, pos_end = e\<rparr>"
    by (cases "decode_any eng (subslice input s e)") (simp_all add: decode_token_def Let_def split: if_split_asm)
  with len show "pos_start d = s" "pos_end d = e" "32 \<le> e - s" "4 dvd e - s"
    "decode_any eng (subslice input s e) = Some (decoded d)" "is_ascii (decoded d)"
    by (simp_all add: mod_eq_0_iff_dvd)
qed

lemma skip_padding_bound: "skip_padding n input i \<le> i + n"
  by (induction n input i rule: skip_padding.induct) auto

lemma token_end_before:
  assumes "run_start input s" "run_start input s'" "s < s'"
  shows "token_end input s \<le> s'"
proof (rule ccontr)
  let ?k = "skip_while is_base64_byte input s"
  assume "\<not> token_end input s \<le> s'"
  then consider "s' < ?k" | "?k \<le> s'" "s' < skip_padding 2 input ?k" by (fastforce simp: token_end_def)
  then show False
  proof cases
    case 1
    then have "is_base64_byte (input ! (s' - 1))" using skip_while_all [of s "s' - 1" is_base64_byte input] assms(3) by simp
    then show False using assms(2,3) by (simp add: run_start_def)
  next
    case 2
    then show False using assms(2) skip_padding_all [of ?k s' 2 input] by (auto simp: run_start_def)
  qed
qed

lemma sorted_tokens:
  assumes "sorted_wrt (<) ss" "\<forall>s \<in> set ss. run_start input s"
  shows "sorted_wrt (\<lambda>a b. pos_end a \<le> pos_start b) (concat (map (\<lambda>s. decode_token eng input s (token_end input s)) ss))"
  using assms
proof (induction ss)
  case (Cons s ss)
  have one: "sorted_wrt P (decode_token eng input s e)" for P e by (simp add: decode_token_def Let_def split: option.split)
  have "pos_end a \<le> pos_start b" if a: "a \<in> set (decode_token eng input s (token_end input s))"
      and b: "b \<in> set (concat (map (\<lambda>s. decode_token eng input s (token_end input s)) ss))" for a b
  proof -
    obtain s' where s': "s' \<in> set ss" "b \<in> set (decode_token eng input s' (token_end input s'))" using b by auto
    then have "token_end input s \<le> s'" using Cons(2,3) by (intro token_end_before) auto
    then show ?thesis using decode_token_mem(2) [OF a] decode_token_mem(1) [OF s'(2)] by simp
  qed
  then show ?case using Cons one by (simp add: sorted_wrt_append)
qed simp

lemma token_inside:
  assumes "d \<in> set (base64_tokens eng input 0)"
  shows "pos_start d + 32 \<le> pos_end d \<and> pos_end d \<le> length input \<and> 4 dvd (pos_end d - pos_start d) \<and>
    (\<forall>x. pos_start d \<le> x \<and> x + 2 < pos_end d \<longrightarrow> is_base64_byte (input ! x)) \<and>
    (\<forall>x. pos_start d \<le> x \<and> x < pos_end d \<longrightarrow> is_base64_byte (input ! x) \<or> input ! x = CHR ''='') \<and>
    (pos_start d = 0 \<or> \<not> is_base64_byte (input ! (pos_start d - 1))) \<and>
    decode_any eng (subslice input (pos_start d) (pos_end d)) = Some (decoded d) \<and> is_ascii (decoded d)"
proof -
  obtain s where s: "run_start input s" and d: "d \<in> set (decode_token eng input s (token_end input s))"
    using assms by (auto simp: base64_tokens_def)
  note facts = decode_token_mem [OF d]
  let ?k = "skip_while is_base64_byte input s"
  have run: "is_base64_byte (input ! x)" if "s \<le> x" "x < ?k" for x
    using skip_while_all [OF that] by simp
  have pad: "input ! x = CHR ''=''" if "?k \<le> x" "x < token_end input s" for x
    using that by (simp add: token_end_def skip_padding_all)
  have "token_end input s \<le> ?k + 2" using skip_padding_bound [of 2 input ?k] by (simp add: token_end_def)
  moreover have "token_end input s \<le> length input"
    using s by (simp add: run_start_def token_end_def skip_padding_le skip_while_le)
  ultimately show ?thesis
    using facts s run pad by (auto simp: run_start_def not_less) (meson leI)+
qed

text \<open>
  C37. The decoded strings are reported from left to right and their ranges do not overlap.  Each lies inside the
  input, is at least 32 bytes and a multiple of 4 long, consists of alphabet bytes up to at most two
  trailing padding bytes, is not preceded by an alphabet byte, and carries the first successful decoding of
  exactly those bytes.
\<close>

theorem base64_strings_sound:
  assumes "get_base64_strings eng input = Some ds"
  shows "sorted_wrt (\<lambda>a b. pos_end a \<le> pos_start b) ds \<and>
    (\<forall>d \<in> set ds. pos_start d + 32 \<le> pos_end d \<and> pos_end d \<le> length input \<and> 4 dvd (pos_end d - pos_start d) \<and>
       (\<forall>x. pos_start d \<le> x \<and> x + 2 < pos_end d \<longrightarrow> is_base64_byte (input ! x)) \<and>
       (\<forall>x. pos_start d \<le> x \<and> x < pos_end d \<longrightarrow> is_base64_byte (input ! x) \<or> input ! x = CHR ''='') \<and>
       (pos_start d = 0 \<or> \<not> is_base64_byte (input ! (pos_start d - 1))) \<and>
       decode_any eng (subslice input (pos_start d) (pos_end d)) = Some (decoded d) \<and> is_ascii (decoded d))"
proof -
  have ds: "ds = base64_tokens eng input 0" using assms by (simp add: get_base64_strings_eq)
  have "sorted_wrt (\<lambda>a b. pos_end a \<le> pos_start b) ds"
    unfolding ds base64_tokens_def by (rule sorted_tokens) (simp_all add: sorted_wrt_filter)
  then show ?thesis using token_inside [of _ eng input] ds by blast
qed

theorem base64_strings_sound_witness:
  "\<exists>a b. get_base64_strings \<lparr>standard = (\<lambda>_. None), url_safe = (\<lambda>_. Some ''key''), url_safe_no_pad = (\<lambda>_. None)\<rparr>
      (''='' @ replicate 31 (CHR ''A'') @ ''= '' @ replicate 32 (CHR ''B'')) = Some [a, b] \<and>
    pos_start a = 1 \<and> pos_end a \<le> pos_start b \<and> pos_end b \<le> 66 \<and> is_ascii (decoded b)"
proof -
  let ?eng = "\<lparr>standard = (\<lambda>_. None), url_safe = (\<lambda>_. Some ''key''), url_safe_no_pad = (\<lambda>_. None)\<rparr>"
  let ?input = "''='' @ replicate 31 (CHR ''A'') @ ''= '' @ replicate 32 (CHR ''B'')"
  let ?a = "\<lparr>decoded = ''key'', pos_start = 1, pos_end = 33\<rparr>" and ?b = "\<lparr>decoded = ''key'', pos_start = 34, pos_end = 66\<rparr>"
  have "base64_tokens ?eng ?input 0 = [?a, ?b]" by code_simp
  then have h: "get_base64_strings ?eng ?input = Some [?a, ?b]" by (simp only: get_base64_strings_eq)
  have f: "pos_end ?a \<le> pos_start ?b" "pos_end ?b \<le> length ?input" "is_ascii (decoded ?b)" using base64_strings_sound [OF h] by auto
  show ?thesis by (rule exI [of _ ?a], rule exI [of _ ?b], rule conjI [OF h]) (use f in simp)
qed

end
