(* ===== verification/Text_Encoding.thy ===== *)
theory Text_Encoding
  imports Kf_Prelude
begin

text \<open>
  Detection and decoding of UTF-16 and UTF-32, \<open>crates/kingfisher-core/src/encoding.rs\<close>.

  Code units are \<^typ>\<open>nat\<close> values below \<open>2 ^ 16\<close> or \<open>2 ^ 32\<close>, Unicode scalar values \<^typ>\<open>nat\<close>
  values; \<open>char::from_u32\<close>, \<open>char::decode_utf16\<close> and \<open>char::encode_utf8\<close> of the standard library are
  written out.
\<close>

section \<open>Standard library: scalar values\<close>

definition is_scalar :: "nat \<Rightarrow> bool" where
  "is_scalar v \<longleftrightarrow> v < 0xD800 \<or> 0xDFFF < v \<and> v < 0x110000"

definition char_from_u32 :: "nat \<Rightarrow> nat option" where
  "char_from_u32 v = (if is_scalar v then Some v else None)"

definition replacement :: nat where
  "replacement = 0xFFFD"

definition or_replacement :: "nat option \<Rightarrow> nat" where
  "or_replacement c = (case c of None \<Rightarrow> replacement | Some v \<Rightarrow> v)"

definition encode_utf8 :: "nat \<Rightarrow> bytes" where
  "encode_utf8 v =
     (if v < 0x80 then [char_of v]
      else if v < 0x800 then [char_of (0xC0 + v div 64), char_of (0x80 + v mod 64)]
      else if v < 0x10000 then
        [char_of (0xE0 + v div 4096), char_of (0x80 + v div 64 mod 64), char_of (0x80 + v mod 64)]
      else
        [char_of (0xF0 + v div 262144), char_of (0x80 + v div 4096 mod 64),
         char_of (0x80 + v div 64 mod 64), char_of (0x80 + v mod 64)])"

definition is_surrogate :: "nat \<Rightarrow> bool" where
  "is_surrogate u \<longleftrightarrow> 0xD800 \<le> u \<and> u \<le> 0xDFFF"

definition is_low_surrogate :: "nat \<Rightarrow> bool" where
  "is_low_surrogate u \<longleftrightarrow> 0xDC00 \<le> u \<and> u \<le> 0xDFFF"

text \<open>\<open>char::decode_utf16\<close>: \<open>None\<close> stands for an unpaired surrogate.\<close>

fun decode_utf16 :: "nat list \<Rightarrow> nat option list" where
  "decode_utf16 [] = []"
| "decode_utf16 [u] = [if is_surrogate u then None else Some u]"
| "decode_utf16 (u # u2 # us) =
     (if \<not> is_surrogate u then Some u # decode_utf16 (u2 # us)
      else if is_low_surrogate u then None # decode_utf16 (u2 # us)
      else if is_low_surrogate u2
      then Some (0x10000 + (u - 0xD800) * 1024 + (u2 - 0xDC00)) # decode_utf16 us
      else None # decode_utf16 (u2 # us))"

text \<open>\<open>slice::as_chunks\<close> for two and for four bytes: the chunks and the remainder.\<close>

fun as_chunks2 :: "bytes \<Rightarrow> (byte \<times> byte) list \<times> bytes" where
  "as_chunks2 (a # b # r) = (let (cs, rest) = as_chunks2 r in ((a, b) # cs, rest))"
| "as_chunks2 r = ([], r)"

fun as_chunks4 :: "bytes \<Rightarrow> (byte \<times> byte \<times> byte \<times> byte) list \<times> bytes" where
  "as_chunks4 (a # b # c # d # r) = (let (cs, rest) = as_chunks4 r in ((a, b, c, d) # cs, rest))"
| "as_chunks4 r = ([], r)"

fun u16_from_le_bytes :: "byte \<times> byte \<Rightarrow> nat" where
  "u16_from_le_bytes (a, b) = byte_val a + 256 * byte_val b"

fun u16_from_be_bytes :: "byte \<times> byte \<Rightarrow> nat" where
  "u16_from_be_bytes (a, b) = 256 * byte_val a + byte_val b"

fun u32_from_le_bytes :: "byte \<times> byte \<times> byte \<times> byte \<Rightarrow> nat" where
  "u32_from_le_bytes (a, b, c, d) = byte_val a + 256 * byte_val b + 65536 * byte_val c + 16777216 * byte_val d"

fun u32_from_be_bytes :: "byte \<times> byte \<times> byte \<times> byte \<Rightarrow> nat" where
  "u32_from_be_bytes (a, b, c, d) = 16777216 * byte_val a + 65536 * byte_val b + 256 * byte_val c + byte_val d"

section \<open>encoding.rs\<close>

datatype encoding = Utf16Le | Utf16Be | Utf32Le | Utf32Be

text \<open>\<open>input[offset..].iter().step_by(stride).take(input.len() / stride)\<close>\<close>

fun step_by :: "nat \<Rightarrow> 'a list \<Rightarrow> 'a list" where
  "step_by n [] = []"
| "step_by n (x # xs) = x # step_by n (drop (n - 1) xs)"

definition lane :: "bytes \<Rightarrow> nat \<Rightarrow> nat \<Rightarrow> bytes" where
  "lane input offset stride = take (length input div stride) (step_by stride (drop offset input))"

definition score :: "bytes \<Rightarrow> nat \<Rightarrow> nat \<Rightarrow> bool" where
  "score input offset stride =
     (let (total, zeros) = foldl (\<lambda>(total, zeros) b. (total + 1, zeros + (if b = CHR 0x00 then 1 else 0)))
            (0 :: nat, 0 :: nat) (lane input offset stride)
      in 1 < total \<and> 60 \<le> zeros * 100 div total)"

definition guess_lanes :: "bytes \<Rightarrow> (encoding \<times> nat) option" where
  "guess_lanes input =
     (if length input mod 4 = 0 \<and>
         \<not> score input 0 4 \<and> score input 1 4 \<and> score input 2 4 \<and> score input 3 4 then Some (Utf32Le, 0)
      else if length input mod 4 = 0 \<and>
         score input 0 4 \<and> score input 1 4 \<and> score input 2 4 \<and> \<not> score input 3 4 then Some (Utf32Be, 0)
      else if length input mod 2 = 0 \<and> \<not> score input 0 2 \<and> score input 1 2 then Some (Utf16Le, 0)
      else if length input mod 2 = 0 \<and> score input 0 2 \<and> \<not> score input 1 2 then Some (Utf16Be, 0)
      else None)"

definition div_ceil :: "nat \<Rightarrow> nat \<Rightarrow> nat" where
  "div_ceil a b = (a + b - 1) div b"

definition minimum_zeros :: "nat \<Rightarrow> nat" where
  "minimum_zeros units = units div 5 * 3 + div_ceil (units mod 5 * 3) 5"

definition guess :: "bytes \<Rightarrow> (encoding \<times> nat) option" where
  "guess input =
     (if length input < 8 \<or> length input mod 2 \<noteq> 0 \<or> CHR 0x00 \<notin> set input then None
      else if length (memchr_iter (CHR 0x00) input) < minimum_zeros (length input div 2) then None
      else guess_lanes input)"

definition all_scalar_le :: "bytes \<Rightarrow> bool" where
  "all_scalar_le payload \<longleftrightarrow>
     (let (chunks, remainder) = as_chunks4 payload
      in remainder = [] \<and> list_all (\<lambda>chunk. char_from_u32 (u32_from_le_bytes chunk) \<noteq> None) chunks)"

text \<open>The byte order mark, if there is one, decides; otherwise the zero lanes do.\<close>

definition select_encoding :: "bytes \<Rightarrow> (encoding \<times> nat) option" where
  "select_encoding input =
     (if take 4 input = [CHR 0xFF, CHR 0xFE, CHR 0x00, CHR 0x00] then
        (if all_scalar_le (drop 4 input) then Some (Utf32Le, 4) else Some (Utf16Le, 2))
      else if take 4 input = [CHR 0x00, CHR 0x00, CHR 0xFE, CHR 0xFF] then Some (Utf32Be, 4)
      else if take 2 input = [CHR 0xFF, CHR 0xFE] then Some (Utf16Le, 2)
      else if take 2 input = [CHR 0xFE, CHR 0xFF] then Some (Utf16Be, 2)
      else guess input)"

fun decode_chars :: "encoding \<Rightarrow> bytes \<Rightarrow> nat list" where
  "decode_chars Utf16Le payload =
     map or_replacement (decode_utf16 (map u16_from_le_bytes (fst (as_chunks2 payload))))"
| "decode_chars Utf16Be payload =
     map or_replacement (decode_utf16 (map u16_from_be_bytes (fst (as_chunks2 payload))))"
| "decode_chars Utf32Le payload =
     map (\<lambda>value. or_replacement (char_from_u32 value)) (map u32_from_le_bytes (fst (as_chunks4 payload)))"
| "decode_chars Utf32Be payload =
     map (\<lambda>value. or_replacement (char_from_u32 value)) (map u32_from_be_bytes (fst (as_chunks4 payload)))"

definition decode :: "bytes \<Rightarrow> bytes option" where
  "decode input =
     (case select_encoding input of
        None \<Rightarrow> None
      | Some (enc, start) \<Rightarrow>
          let output = concat (map encode_utf8 (decode_chars enc (drop start input)))
          in if output = [] then None else Some output)"

section \<open>Reference encoders\<close>

definition utf16_units :: "nat \<Rightarrow> nat list" where
  "utf16_units v = (if v < 0x10000 then [v]
     else [0xD800 + (v - 0x10000) div 1024, 0xDC00 + (v - 0x10000) mod 1024])"

definition u16_le :: "nat \<Rightarrow> bytes" where
  "u16_le u = [char_of (u mod 256), char_of (u div 256)]"

definition u16_be :: "nat \<Rightarrow> bytes" where
  "u16_be u = [char_of (u div 256), char_of (u mod 256)]"

definition u32_le :: "nat \<Rightarrow> bytes" where
  "u32_le u = [char_of (u mod 256), char_of (u div 256 mod 256), char_of (u div 65536 mod 256),
     char_of (u div 16777216)]"

definition u32_be :: "nat \<Rightarrow> bytes" where
  "u32_be u = [char_of (u div 16777216), char_of (u div 65536 mod 256), char_of (u div 256 mod 256),
     char_of (u mod 256)]"

fun encode_text :: "encoding \<Rightarrow> nat list \<Rightarrow> bytes" where
  "encode_text Utf16Le cs = concat (map u16_le (concat (map utf16_units cs)))"
| "encode_text Utf16Be cs = concat (map u16_be (concat (map utf16_units cs)))"
| "encode_text Utf32Le cs = concat (map u32_le cs)"
| "encode_text Utf32Be cs = concat (map u32_be cs)"

fun bom :: "encoding \<Rightarrow> bytes" where
  "bom Utf16Le = [CHR 0xFF, CHR 0xFE]"
| "bom Utf16Be = [CHR 0xFE, CHR 0xFF]"
| "bom Utf32Le = [CHR 0xFF, CHR 0xFE, CHR 0x00, CHR 0x00]"
| "bom Utf32Be = [CHR 0x00, CHR 0x00, CHR 0xFE, CHR 0xFF]"

section \<open>Decoding what was encoded\<close>

declare byte_val_char_of [simp]

lemma byte_val_less: "byte_val b < 256"
  by (simp add: byte_val_def)

lemma as_chunks2_concat:
  "(\<And>u. \<exists>a b. f u = [a, b]) \<Longrightarrow>
     as_chunks2 (concat (map f us)) = (map (\<lambda>u. (f u ! 0, f u ! 1)) us, [])"
proof (induction us)
  case Nil
  show ?case by simp
next
  case (Cons u us)
  moreover obtain a b where "f u = [a, b]" using Cons.prems by blast
  ultimately show ?case by simp
qed

lemma as_chunks4_concat:
  "(\<And>u. \<exists>a b c d. f u = [a, b, c, d]) \<Longrightarrow>
     as_chunks4 (concat (map f us)) = (map (\<lambda>u. (f u ! 0, f u ! 1, f u ! 2, f u ! 3)) us, [])"
proof (induction us)
  case Nil
  show ?case by simp
next
  case (Cons u us)
  moreover obtain a b c d where "f u = [a, b, c, d]" using Cons.prems by blast
  ultimately show ?case by simp
qed

lemma utf16_units_bound: "is_scalar v \<Longrightarrow> u \<in> set (utf16_units v) \<Longrightarrow> u < 65536"
  by (auto simp: utf16_units_def is_scalar_def split: if_splits)

lemma u16_chunks:
  assumes "list_all (\<lambda>u. u < 65536) us"
  shows "map u16_from_le_bytes (fst (as_chunks2 (concat (map u16_le us)))) = us"
    and "map u16_from_be_bytes (fst (as_chunks2 (concat (map u16_be us)))) = us"
  using assms
  by (induction us) (auto simp: as_chunks2_concat u16_le_def u16_be_def Let_def split: prod.splits)

lemma base256_digits:
  "u = 256 * a + p \<Longrightarrow> a = 256 * b + q \<Longrightarrow> b = 256 * c + r \<Longrightarrow>
     p + 256 * q + 65536 * r + 16777216 * c = (u :: nat)"
  by simp

lemma u32_split:
  assumes "u < 4294967296"
  shows "u mod 256 + 256 * (u div 256 mod 256) + 65536 * (u div 65536 mod 256) +
    16777216 * (u div 16777216 mod 256) = (u :: nat)"
proof -
  have d: "u div 65536 = u div 256 div 256" "u div 16777216 = u div 256 div 256 div 256"
    by (simp_all add: div_mult2_eq [symmetric])
  have "u div 16777216 mod 256 = u div 16777216" using assms by simp
  then show ?thesis
    unfolding d by (simp only:) (rule base256_digits, (rule mult_div_mod_eq [symmetric])+)
qed

lemma u32_chunks:
  assumes "list_all (\<lambda>u. u < 4294967296) us"
  shows "map u32_from_le_bytes (fst (as_chunks4 (concat (map u32_le us)))) = us"
    and "map u32_from_be_bytes (fst (as_chunks4 (concat (map u32_be us)))) = us"
  using assms u32_split
  by (induction us) (auto simp: add_ac as_chunks4_concat u32_le_def u32_be_def Let_def split: prod.splits)

lemma decode_utf16_bmp:
  "\<not> is_surrogate u \<Longrightarrow> decode_utf16 (u # us) = Some u # decode_utf16 us"
  by (cases us) simp_all

lemma decode_utf16_units:
  "is_scalar v \<Longrightarrow> decode_utf16 (utf16_units v @ us) = Some v # decode_utf16 us"
proof (cases "v < 0x10000")
  case True
  assume "is_scalar v"
  with True have "\<not> is_surrogate v" by (auto simp: is_scalar_def is_surrogate_def)
  with True show ?thesis by (simp add: utf16_units_def decode_utf16_bmp)
next
  case False
  assume "is_scalar v"
  with False have "is_surrogate (55296 + (v - 65536) div 1024)"
    "\<not> is_low_surrogate (55296 + (v - 65536) div 1024)" "is_low_surrogate (56320 + (v - 65536) mod 1024)"
    by (auto simp: is_scalar_def is_surrogate_def is_low_surrogate_def)
  with False show ?thesis by (simp add: utf16_units_def)
qed

lemma decode_utf16_encoded:
  "list_all is_scalar cs \<Longrightarrow> decode_utf16 (concat (map utf16_units cs)) = map Some cs"
  by (induction cs) (simp_all add: decode_utf16_units)

lemma decode_chars_encoded:
  assumes "list_all is_scalar cs"
  shows "decode_chars e (encode_text e cs) = cs"
proof -
  have units: "list_all (\<lambda>u. u < 65536) (concat (map utf16_units cs))"
    using assms utf16_units_bound by (auto simp: list_all_iff)
  have "list_all (\<lambda>u. u < 4294967296) cs"
    using assms by (auto simp: list_all_iff is_scalar_def)
  note c32 = u32_chunks [OF this] and c16 = u16_chunks [OF units] and d16 = decode_utf16_encoded [OF assms]
  have "map (\<lambda>c. or_replacement (char_from_u32 c)) cs = cs"
    using assms by (auto simp: list_all_iff or_replacement_def char_from_u32_def intro!: map_idI)
  moreover have "map or_replacement (map Some cs) = cs"
    by (simp add: or_replacement_def o_def)
  ultimately show ?thesis
    by (cases e) (simp_all only: decode_chars.simps encode_text.simps c16 c32 d16)
qed

lemma select_encoding_bom:
  assumes "list_all is_scalar cs" and "cs \<noteq> []" and "e = Utf16Le \<longrightarrow> hd cs \<noteq> 0"
  shows "select_encoding (bom e @ encode_text e cs) = Some (e, length (bom e))"
proof (cases e)
  case Utf16Le
  obtain c cs' where cs: "cs = c # cs'" using assms(2) by (cases cs) auto
  obtain u us where u: "utf16_units c = u # us" "u \<noteq> 0" "u < 65536"
    using assms(1,3) Utf16Le utf16_units_bound [of c "hd (utf16_units c)"]
    by (cases "c < 65536") (simp_all add: cs utf16_units_def)
  have "\<not> (char_of (u mod 256) = CHR 0x00 \<and> char_of (u div 256) = CHR 0x00)"
  proof
    assume "char_of (u mod 256) = CHR 0x00 \<and> char_of (u div 256) = CHR 0x00"
    then have "byte_val (char_of (u mod 256)) = 0" "byte_val (char_of (u div 256)) = 0"
      by (simp_all add: byte_val_def)
    with u(2,3) show False by simp
  qed
  then show ?thesis using Utf16Le by (auto simp: cs u(1) u16_le_def select_encoding_def)
next
  case Utf16Be
  then show ?thesis by (simp add: select_encoding_def)
next
  case Utf32Le
  have "list_all (\<lambda>u. u < 4294967296) cs" using assms(1) by (auto simp: list_all_iff is_scalar_def)
  note chunks = u32_chunks(1) [OF this]
  have "snd (as_chunks4 (concat (map u32_le cs))) = []"
    by (subst as_chunks4_concat) (simp_all add: u32_le_def)
  moreover have "list_all (\<lambda>v. char_from_u32 v \<noteq> None)
      (map u32_from_le_bytes (fst (as_chunks4 (concat (map u32_le cs)))))"
    unfolding chunks using assms(1) by (auto simp: list_all_iff char_from_u32_def)
  ultimately have "all_scalar_le (concat (map u32_le cs))"
    by (simp add: all_scalar_le_def case_prod_beta list.pred_map o_def)
  with Utf32Le show ?thesis by (simp add: select_encoding_def)
next
  case Utf32Be
  then show ?thesis by (simp add: select_encoding_def)
qed

lemma encode_utf8_nonempty [simp]: "encode_utf8 v \<noteq> []"
  by (simp add: encode_utf8_def)

text \<open>
  C30. Text encoded as UTF-16 or UTF-32 in either byte order behind its byte order mark is
  decoded to the UTF-8 encoding of the same text.  For little-endian UTF-16 the text must not start
  with NUL, since that prefix is the UTF-32 mark.
\<close>

theorem bom_text_roundtrip:
  assumes "list_all is_scalar cs" and "cs \<noteq> []" and "e = Utf16Le \<longrightarrow> hd cs \<noteq> 0"
  shows "decode (bom e @ encode_text e cs) = Some (concat (map encode_utf8 cs))"
  using assms select_encoding_bom [OF assms] decode_chars_encoded [OF assms(1), of e]
  by (cases cs) (simp_all add: decode_def)

theorem bom_text_roundtrip_witness:
  "decode (bom Utf16Le @ encode_text Utf16Le [0x41, 0x1F511]) =
     Some (concat (map encode_utf8 [0x41, 0x1F511]))"
  by (rule bom_text_roundtrip) (simp_all add: is_scalar_def)

section \<open>The zero-density gate\<close>

lemma score_foldl:
  "foldl (\<lambda>(total, zeros) b. (total + 1, zeros + (if b = CHR 0x00 then 1 else 0))) (t, z) bs =
     (t + length bs, z + count_list bs (CHR 0x00))"
  by (induction bs arbitrary: t z) auto

lemma score_iff: "score input off stride \<longleftrightarrow>
    1 < length (lane input off stride) \<and>
    60 \<le> count_list (lane input off stride) (CHR 0x00) * 100 div length (lane input off stride)"
  unfolding score_def score_foldl by simp

lemma length_step_by: "0 < n \<Longrightarrow> length (step_by n xs) = (length xs + n - 1) div n"
proof (induction n xs rule: step_by.induct)
  case (1 n)
  then show ?case by simp
next
  case (2 n x xs)
  show ?case
  proof (cases "n - 1 \<le> length xs")
    case True
    with 2 div_add_self2 [of n "length xs"] show ?thesis by simp
  next
    case False
    with 2 have "(length xs + n) div n = 1" by (intro div_nat_eqI) simp_all
    with False 2 show ?thesis by simp
  qed
qed

lemma nth_step_by: "0 < n \<Longrightarrow> k < length (step_by n xs) \<Longrightarrow> step_by n xs ! k = xs ! (k * n)"
proof (induction n xs arbitrary: k rule: step_by.induct)
  case (1 n)
  then show ?case by simp
next
  case (2 n x xs)
  show ?case
  proof (cases k)
    case 0
    then show ?thesis by simp
  next
    case (Suc j)
    with 2 have j: "j < length (step_by n (drop (n - 1) xs))" by simp
    then have "step_by n (drop (n - 1) xs) \<noteq> []" by auto
    then have "drop (n - 1) xs \<noteq> []" by auto
    then have "n - 1 < length xs" by (simp add: not_le)
    with 2 Suc j show ?thesis
      by (simp add: nth_drop add.commute nth_Cons')
  qed
qed

lemma lane_eq:
  assumes "0 < stride" and "off < stride" and "length input = stride * n"
  shows "lane input off stride = map (\<lambda>k. input ! (off + k * stride)) [0..<n]"
proof (cases "n = 0")
  case True
  with assms show ?thesis by (simp add: lane_def)
next
  case False
  have "off < stride * n" using assms(2) False by (cases n) auto
  then have "(stride * n - off + stride - 1) div stride = n"
    using assms(2) by (intro div_nat_eqI) auto
  then have len: "length (step_by stride (drop off input)) = n"
    using assms(1) by (simp add: length_step_by assms(3))
  have div: "length input div stride = n" using assms by simp
  show ?thesis
  proof (rule nth_equalityI)
    show "length (lane input off stride) = length (map (\<lambda>k. input ! (off + k * stride)) [0..<n])"
      by (simp add: lane_def len div)
    fix k
    assume "k < length (lane input off stride)"
    then have k: "k < n" by (simp add: lane_def len div)
    have "off \<le> length input"
      using assms False by (cases n) auto
    with k show "lane input off stride ! k = map (\<lambda>k. input ! (off + k * stride)) [0..<n] ! k"
      using assms(1) by (simp add: lane_def len div nth_step_by)
  qed
qed

definition zeros_at :: "bytes \<Rightarrow> nat \<Rightarrow> nat \<Rightarrow> nat set" where
  "zeros_at input off stride = {i. i < length input \<and> i mod stride = off \<and> input ! i = CHR 0x00}"

lemma count_list_map_upt: "count_list (map f [0..<n]) c = card {k. k < n \<and> f k = c}"
proof -
  have "count_list (map f ks) c = length (filter (\<lambda>k. f k = c) ks)" for ks
    by (induction ks) auto
  then have "count_list (map f [0..<n]) c = length (filter (\<lambda>k. f k = c) [0..<n])" .
  also have "\<dots> = card (set (filter (\<lambda>k. f k = c) [0..<n]))"
    by (rule distinct_card [symmetric]) simp
  also have "set (filter (\<lambda>k. f k = c) [0..<n]) = {k. k < n \<and> f k = c}" by auto
  finally show ?thesis .
qed

lemma count_lane:
  assumes "0 < stride" and "off < stride" and "length input = stride * n"
  shows "length (lane input off stride) = n"
    and "count_list (lane input off stride) (CHR 0x00) = card (zeros_at input off stride)"
proof -
  show "length (lane input off stride) = n" by (simp add: lane_eq [OF assms])
  have "bij_betw (\<lambda>k. off + k * stride) {k. k < n \<and> input ! (off + k * stride) = CHR 0x00}
      (zeros_at input off stride)"
    unfolding bij_betw_def
  proof (intro conjI set_eqI iffI)
    show "inj_on (\<lambda>k. off + k * stride) {k. k < n \<and> input ! (off + k * stride) = CHR 0x00}"
      using assms(1) by (auto simp: inj_on_def)
  next
    fix i
    assume "i \<in> (\<lambda>k. off + k * stride) ` {k. k < n \<and> input ! (off + k * stride) = CHR 0x00}"
    then obtain k where k: "i = off + k * stride" "k < n" "input ! i = CHR 0x00" by auto
    have "off + k * stride < stride + k * stride" using assms(2) by simp
    also have "\<dots> \<le> stride * n" using k(2) mult_le_mono1 [of "Suc k" n stride] by (simp add: mult.commute)
    finally show "i \<in> zeros_at input off stride"
      using k assms by (simp add: zeros_at_def)
  next
    fix i
    assume i: "i \<in> zeros_at input off stride"
    then have "i = off + (i div stride) * stride" by (auto simp: zeros_at_def)
    moreover have "i div stride < n"
      using i assms by (simp add: zeros_at_def less_mult_imp_div_less mult.commute)
    ultimately show "i \<in> (\<lambda>k. off + k * stride) ` {k. k < n \<and> input ! (off + k * stride) = CHR 0x00}"
      using i by (auto simp: zeros_at_def)
  qed
  then show "count_list (lane input off stride) (CHR 0x00) = card (zeros_at input off stride)"
    by (simp add: lane_eq [OF assms] count_list_map_upt bij_betw_same_card)
qed

lemma card_zeros: "card {i. i < length input \<and> input ! i = CHR 0x00} = count_list input (CHR 0x00)"
  using distinct_card [of "memchr_iter (CHR 0x00) input"]
    strict_sorted_iff [of "memchr_iter (CHR 0x00) input"] sorted_memchr_from [of 0 "CHR 0x00" input]
  by (simp add: slice_simps)

lemma zeros_le: "card (zeros_at input off stride) \<le> count_list input (CHR 0x00)"
  unfolding card_zeros [symmetric] by (rule card_mono) (auto simp: zeros_at_def)

lemma zeros2_le:
  assumes "a \<noteq> b"
  shows "card (zeros_at input a stride) + card (zeros_at input b stride) \<le> count_list input (CHR 0x00)"
proof -
  have fin: "finite (zeros_at input c stride)" for c by (simp add: zeros_at_def)
  have "card (zeros_at input a stride \<union> zeros_at input b stride) =
      card (zeros_at input a stride) + card (zeros_at input b stride)"
    using assms by (intro card_Un_disjoint fin) (auto simp: zeros_at_def)
  moreover have "card (zeros_at input a stride \<union> zeros_at input b stride) \<le>
      card {i. i < length input \<and> input ! i = CHR 0x00}"
    by (rule card_mono) (auto simp: zeros_at_def)
  ultimately show ?thesis by (simp add: card_zeros)
qed

lemma score_zeros:
  assumes "0 < stride" and "off < stride" and "length input = stride * n" and "score input off stride"
  shows "3 * n \<le> 5 * card (zeros_at input off stride)"
proof -
  let ?z = "card (zeros_at input off stride)"
  have "60 \<le> ?z * 100 div n" using assms(4) by (simp add: score_iff count_lane [OF assms(1-3)])
  then have "60 * n \<le> ?z * 100 div n * n" by simp
  also have "\<dots> \<le> ?z * 100" by (rule div_times_less_eq_dividend)
  finally show ?thesis by simp
qed

lemma ceil_three_fifths:
  assumes "3 * (5 * q + r) \<le> 5 * z" and "r < 5"
  shows "q * 3 + (r * 3 + 5 - 1) div 5 \<le> (z :: nat)"
proof -
  from assms(2) have "r = 0 \<or> r = 1 \<or> r = 2 \<or> r = 3 \<or> r = 4" by linarith
  with assms(1) show ?thesis by (elim disjE) simp_all
qed

lemma minimum_zeros_le: "3 * units \<le> 5 * z \<Longrightarrow> minimum_zeros units \<le> z"
  unfolding minimum_zeros_def div_ceil_def by (rule ceil_three_fifths) simp_all

text \<open>Every guess rests on three zeros in five code units.\<close>

lemma guess_lanes_dense:
  assumes "guess_lanes input = Some g" and "length input mod 2 = 0"
  shows "3 * (length input div 2) \<le> 5 * count_list input (CHR 0x00)"
proof -
  obtain m where m: "length input = 2 * m" using assms(2) by auto
  consider "length input mod 4 = 0" "score input 1 4" "score input 2 4" |
      "score input 0 2" | "score input 1 2"
    using assms(1) by (auto simp: guess_lanes_def split: if_splits)
  then show ?thesis
  proof cases
    case 1
    then obtain n where n: "length input = 4 * n" by auto
    from 1 have "3 * n \<le> 5 * card (zeros_at input 1 4)" "3 * n \<le> 5 * card (zeros_at input 2 4)"
      using score_zeros [of 4 1 input n] score_zeros [of 4 2 input n] n by simp_all
    with zeros2_le [of 1 2 input 4] show ?thesis by (simp add: n)
  next
    case 2
    then have "3 * m \<le> 5 * card (zeros_at input 0 2)"
      using score_zeros [of 2 0 input m] m by simp
    with zeros_le [of input 0 2] show ?thesis by (simp add: m)
  next
    case 3
    then have "3 * m \<le> 5 * card (zeros_at input 1 2)"
      using score_zeros [of 2 1 input m] m by simp
    with zeros_le [of input 1 2] show ?thesis by (simp add: m)
  qed
qed

text \<open>
  C31. The two early exits of the guess, no zero byte at all and too few zero bytes, change no
  answer: the guess is the lane heuristic alone on every input of even length of at least 8.
\<close>

theorem guess_gate_preserves_lane_heuristic:
  "guess input = (if 8 \<le> length input \<and> length input mod 2 = 0 then guess_lanes input else None)"
proof (cases "guess_lanes input")
  case None
  then show ?thesis by (simp add: guess_def)
next
  case (Some g)
  show ?thesis
  proof (cases "length input < 8 \<or> length input mod 2 \<noteq> 0")
    case True
    then show ?thesis by (auto simp: guess_def)
  next
    case False
    with guess_lanes_dense [OF Some] have dense: "3 * (length input div 2) \<le> 5 * count_list input (CHR 0x00)"
      by simp
    with False have "count_list input (CHR 0x00) \<noteq> 0" by (auto simp: not_less)
    then have "CHR 0x00 \<in> set input" by (simp add: count_list_0_iff)
    with False dense minimum_zeros_le [OF dense] show ?thesis
      by (simp add: guess_def slice_simps not_less)
  qed
qed

end
