(* ===== verification/Inline_Ignore.thy ===== *)
theory Inline_Ignore
  imports Location
begin

text \<open>
  Inline ignore directives, \<open>crates/kingfisher-scanner/src/context/inline_ignore.rs\<close>.

  A finding is suppressed by a directive on its first or last line, or on a line reached from
  there by crossing delimiter and encoded-payload lines.  The code searches outwards with a work
  budget and, once the budget runs out, answers from per-line summaries built in two passes.  The
  theory shows that both give the same answer, so the cache never changes a suppression.
\<close>

section \<open>Line classification\<close>

definition trim_ascii_whitespace :: "bytes \<Rightarrow> bytes" where
  "trim_ascii_whitespace line =
     (let start = skip_while is_ascii_whitespace line 0;
          stop = max start (skip_back is_ascii_whitespace line (length line))
      in subslice line start stop)"

definition quote_bytes :: "byte list" where
  "quote_bytes = [CHR 0x22, CHR 0x27, CHR 0x60]"

definition ends_with_multiline_delimiter :: "bytes \<Rightarrow> bool" where
  "ends_with_multiline_delimiter trimmed \<longleftrightarrow>
     3 \<le> length trimmed \<and> last trimmed \<in> set quote_bytes \<and>
     3 \<le> length (takeWhile (\<lambda>ch. ch = last trimmed) (rev trimmed))"

definition looks_like_pem_boundary :: "bytes \<Rightarrow> bool" where
  "looks_like_pem_boundary trimmed \<longleftrightarrow>
     prefix ''-----BEGIN '' trimmed \<or> prefix ''-----END '' trimmed"

definition is_base64ish :: "byte \<Rightarrow> bool" where
  "is_base64ish b \<longleftrightarrow> is_ascii_alphanumeric b \<or> b \<in> set ''+/=-_''"

definition is_base32ish :: "byte \<Rightarrow> bool" where
  "is_base32ish b \<longleftrightarrow> is_ascii_upper b \<or> b \<in> set ''234567=''"

definition is_payload_byte :: "byte \<Rightarrow> bool" where
  "is_payload_byte b \<longleftrightarrow> is_ascii_alphanumeric b \<or> b \<in> set ''+/=-_:.''"

definition looks_like_encoded_secret_body :: "bytes \<Rightarrow> bool" where
  "looks_like_encoded_secret_body trimmed =
     (if length trimmed < 16 then False
      else if list_all is_base64ish trimmed then True
      else if list_all is_ascii_hexdigit trimmed then True
      else if list_all is_base32ish trimmed then True
      else length trimmed * 9 \<le> length (filter is_payload_byte trimmed) * 10)"

definition should_skip_for_directive_search :: "bytes \<Rightarrow> bool" where
  "should_skip_for_directive_search line =
     (let trimmed = trim_ascii_whitespace line in
      if trimmed = [] then True
      else if list_all (\<lambda>b. b = trimmed ! 0) trimmed \<and> trimmed ! 0 \<in> set quote_bytes then True
      else if ends_with_multiline_delimiter trimmed then True
      else if looks_like_pem_boundary trimmed then True
      else if looks_like_encoded_secret_body trimmed then True
      else False)"

definition line_bounds :: "bytes \<Rightarrow> nat \<Rightarrow> nat \<times> nat" where
  "line_bounds bs index =
     (if bs = [] then (0, 0)
      else (skip_back (\<lambda>b. b \<noteq> newline) bs (min index (length bs)),
            skip_while (\<lambda>b. b \<noteq> newline) bs (min index (length bs))))"

definition line_has_directive :: "bytes \<Rightarrow> bytes list \<Rightarrow> bool" where
  "line_has_directive line tokens \<longleftrightarrow>
     line \<noteq> [] \<and> list_ex (\<lambda>token. contains_slice token (map to_ascii_lowercase line)) tokens"

section \<open>Configuration\<close>

record inline_ignore_config =
  tokens :: "bytes list"

fun add_tokens :: "bytes list \<Rightarrow> bytes list \<Rightarrow> bytes list" where
  "add_tokens toks [] = toks"
| "add_tokens toks (token # rest) =
     (let trimmed = str_trim token in
      if trimmed = [] then add_tokens toks rest
      else
        let lowered = map to_ascii_lowercase trimmed in
        if lowered \<in> set toks then add_tokens toks rest
        else add_tokens (toks @ [lowered]) rest)"

definition config_new :: "bytes list \<Rightarrow> inline_ignore_config" where
  "config_new additional_tokens = \<lparr>tokens = add_tokens [''kingfisher:ignore''] additional_tokens\<rparr>"

definition config_disabled :: inline_ignore_config where
  "config_disabled = \<lparr>tokens = []\<rparr>"

section \<open>The outward search\<close>

text \<open>\<open>budget.checked_sub(line.len().max(128))?\<close>\<close>

definition spend :: "nat \<Rightarrow> bytes \<Rightarrow> nat option" where
  "spend budget line = checked_sub budget (max (length line) 128)"

text \<open>
  What a part of the search reports: the budget ran out (the \<open>?\<close> returns \<open>None\<close>), a directive was
  found, or none was and this much budget is left.
\<close>

datatype search = Exhausted | Found | Nothing nat

lemma line_bounds_le:
  assumes "line_bounds bs index = (s, e)"
  shows "s \<le> index" and "s \<le> length bs" and "e \<le> length bs" and "min index (length bs) \<le> e"
  using assms skip_while_ge [of "min index (length bs)" "\<lambda>b. b \<noteq> newline" bs]
    skip_while_le [of "min index (length bs)" bs "\<lambda>b. b \<noteq> newline"]
    skip_back_le [of "\<lambda>b. b \<noteq> newline" bs "min index (length bs)"]
  by (auto simp: line_bounds_def split: if_splits)

lemma previous_line_before: "(s, e) = line_bounds bs (cursor - Suc 0) \<Longrightarrow> 0 < cursor \<Longrightarrow> s < cursor"
  using line_bounds_le(1) [of bs "cursor - Suc 0" s e] by simp

function search_back :: "bytes list \<Rightarrow> bytes \<Rightarrow> nat \<Rightarrow> nat \<Rightarrow> search" where
  "search_back toks bs cursor budget =
     (if cursor = 0 then Nothing budget
      else case line_bounds bs (cursor - 1) of (prev_start, prev_end) \<Rightarrow>
        if prev_end \<le> prev_start then Nothing budget
        else
          let prev_line = subslice bs prev_start prev_end in
          case spend budget prev_line of
            None \<Rightarrow> Exhausted
          | Some budget' \<Rightarrow>
              if line_has_directive prev_line toks then Found
              else if \<not> should_skip_for_directive_search prev_line then Nothing budget'
              else if prev_start = 0 then Nothing budget'
              else search_back toks bs prev_start budget')"
  by pat_completeness auto
termination
  by (relation "measure (\<lambda>(toks, bs, cursor, budget). cursor)") (auto dest: previous_line_before)

function search_forward :: "bytes list \<Rightarrow> bytes \<Rightarrow> nat \<Rightarrow> nat \<Rightarrow> search" where
  "search_forward toks bs cursor budget =
     (if length bs \<le> cursor then Nothing budget
      else if bs ! cursor = newline then search_forward toks bs (cursor + 1) budget
      else case line_bounds bs cursor of (_, next_end) \<Rightarrow>
        if next_end \<le> cursor then Nothing budget
        else
          let next_line = subslice bs cursor next_end in
          case spend budget next_line of
            None \<Rightarrow> Exhausted
          | Some budget' \<Rightarrow>
              if line_has_directive next_line toks then Found
              else if \<not> should_skip_for_directive_search next_line then Nothing budget'
              else search_forward toks bs next_end budget')"
  by pat_completeness auto
termination
  by (relation "measure (\<lambda>(toks, bs, cursor, budget). length bs - cursor)") auto

declare search_back.simps [simp del]
declare search_forward.simps [simp del]

text \<open>The check of one line at the start or the end of the span, if it is to be checked at all.\<close>

definition search_line :: "bytes list \<Rightarrow> bytes \<Rightarrow> nat \<Rightarrow> nat \<Rightarrow> bool \<Rightarrow> nat \<Rightarrow> search" where
  "search_line toks bs s e wanted budget =
     (if wanted \<and> s < e then
        (case spend budget (subslice bs s e) of
           None \<Rightarrow> Exhausted
         | Some budget' \<Rightarrow> if line_has_directive (subslice bs s e) toks then Found else Nothing budget')
      else Nothing budget)"

definition and_then :: "search \<Rightarrow> (nat \<Rightarrow> search) \<Rightarrow> search" where
  "and_then r k = (case r of Nothing budget \<Rightarrow> k budget | _ \<Rightarrow> r)"

definition search_result :: "search \<Rightarrow> bool option" where
  "search_result r = (case r of Exhausted \<Rightarrow> None | Found \<Rightarrow> Some True | Nothing _ \<Rightarrow> Some False)"

definition should_ignore_with_budget ::
  "inline_ignore_config \<Rightarrow> bytes \<Rightarrow> offset_span \<Rightarrow> nat \<Rightarrow> bool option" where
  "should_ignore_with_budget cfg bs span budget =
     (if tokens cfg = [] then Some False
      else
        let (start_line_start, start_line_end) = line_bounds bs (os_start span);
            end_index = (if os_end span = 0 then 0 else os_end span - 1);
            (closing_line_start, closing_line_end) = line_bounds bs (min end_index (length bs))
        in search_result
             (and_then (search_line (tokens cfg) bs start_line_start start_line_end True budget)
             (\<lambda>budget. and_then (search_back (tokens cfg) bs start_line_start budget)
             (\<lambda>budget. and_then (search_line (tokens cfg) bs closing_line_start closing_line_end
                (closing_line_start \<noteq> start_line_start \<or> closing_line_end \<noteq> start_line_end) budget)
             (\<lambda>budget. search_forward (tokens cfg) bs closing_line_end budget)))))"

section \<open>Per-line summaries\<close>

record ignore_line =
  il_start :: nat
  il_directive :: bool
  il_before :: bool
  il_after :: bool

record inline_ignore_index =
  ix_lines :: "ignore_line list"
  ix_byte_len :: nat

text \<open>\<open>bytes.split(|&byte| byte == b'\n')\<close>: always at least one line.\<close>

fun split_lines :: "bytes \<Rightarrow> bytes list" where
  "split_lines [] = [[]]"
| "split_lines (b # bs) =
     (if b = newline then [] # split_lines bs
      else (b # hd (split_lines bs)) # tl (split_lines bs))"

text \<open>
  The first pass.  The three parallel vectors \<open>lines\<close>, \<open>lengths\<close> and \<open>skippable\<close> are one list of
  triples; the accumulator holds the last triple pushed.
\<close>

fun summarize_before ::
  "bytes list \<Rightarrow> nat \<Rightarrow> (ignore_line \<times> nat \<times> bool) option \<Rightarrow> bytes list \<Rightarrow>
   (ignore_line \<times> nat \<times> bool) list" where
  "summarize_before toks start prev [] = []"
| "summarize_before toks start prev (line # rest) =
     (let directive = line_has_directive line toks;
          skip = should_skip_for_directive_search line;
          before = (case prev of
                      None \<Rightarrow> False
                    | Some (previous, len, skippable) \<Rightarrow>
                        0 < len \<and> (il_directive previous \<or> (skippable \<and> il_before previous)));
          entry = (\<lparr>il_start = start, il_directive = directive, il_before = before, il_after = False\<rparr>,
                   length line, skip)
      in entry # summarize_before toks (start + length line + 1) (Some entry) rest)"

text \<open>The second pass, from the last line but one to the first.\<close>

fun summarize_after :: "(ignore_line \<times> nat \<times> bool) list \<Rightarrow> (ignore_line \<times> nat \<times> bool) list" where
  "summarize_after [] = []"
| "summarize_after [x] = [x]"
| "summarize_after ((line, rest) # y # ys) =
     (let tail = summarize_after (y # ys);
          (nxt, next_len, next_skip) = hd tail
      in (line\<lparr>il_after := il_directive nxt \<or> ((next_len = 0 \<or> next_skip) \<and> il_after nxt)\<rparr>, rest) # tail)"

definition index_new :: "inline_ignore_config \<Rightarrow> bytes \<Rightarrow> inline_ignore_index" where
  "index_new cfg bs =
     (if tokens cfg = [] then \<lparr>ix_lines = [], ix_byte_len = 0\<rparr>
      else \<lparr>ix_lines = map fst (summarize_after (summarize_before (tokens cfg) 0 None (split_lines bs))),
            ix_byte_len = length bs\<rparr>)"

definition index_line :: "inline_ignore_index \<Rightarrow> nat \<Rightarrow> nat" where
  "index_line ix offset =
     partition_point (\<lambda>line. il_start line \<le> min offset (ix_byte_len ix)) (ix_lines ix) - 1"

definition index_should_ignore :: "inline_ignore_index \<Rightarrow> offset_span \<Rightarrow> bool" where
  "index_should_ignore ix span =
     (if ix_lines ix = [] then False
      else
        let start = ix_lines ix ! index_line ix (os_start span);
            closing = ix_lines ix ! index_line ix (os_end span - 1)
        in il_directive start \<or> il_before start \<or> il_directive closing \<or> il_after closing)"

text \<open>The \<open>OnceLock\<close> cell is the option: filled at most once.\<close>

definition should_ignore_cached ::
  "inline_ignore_config \<Rightarrow> bytes \<Rightarrow> offset_span \<Rightarrow> inline_ignore_index option \<Rightarrow>
   bool \<times> inline_ignore_index option" where
  "should_ignore_cached cfg bs span cache =
     (case cache of
        Some index \<Rightarrow> (index_should_ignore index span, cache)
      | None \<Rightarrow>
          (case should_ignore_with_budget cfg bs span 4096 of
             Some ignore \<Rightarrow> (ignore, None)
           | None \<Rightarrow>
               let index = index_new cfg bs
               in (index_should_ignore index span, Some index)))"

text \<open>The unlimited search: budget \<open>usize::MAX\<close>, and a panic (here \<open>None\<close>) were it ever spent.\<close>

definition should_ignore :: "inline_ignore_config \<Rightarrow> bytes \<Rightarrow> offset_span \<Rightarrow> bool option" where
  "should_ignore cfg bs span = should_ignore_with_budget cfg bs span (2 ^ 64 - 1)"

section \<open>Lines of the input\<close>

fun join_lines :: "bytes list \<Rightarrow> bytes" where
  "join_lines [] = []"
| "join_lines [l] = l"
| "join_lines (l # m # ls) = l @ newline # join_lines (m # ls)"

definition line_offset :: "bytes list \<Rightarrow> nat \<Rightarrow> nat" where
  "line_offset ls i = length (concat (map (\<lambda>l. l @ [newline]) (take i ls)))"

lemma split_lines_nonempty [simp]: "split_lines bs \<noteq> []"
  by (cases bs) auto

lemma join_split: "join_lines (split_lines bs) = bs"
proof (induction bs)
  case Nil
  show ?case by simp
next
  case (Cons b bs)
  then show ?case
    by (cases "split_lines bs" rule: join_lines.cases) (auto simp: split_lines_nonempty)
qed

lemma split_no_newline: "l \<in> set (split_lines bs) \<Longrightarrow> newline \<notin> set l"
proof (induction bs arbitrary: l)
  case Nil
  then show ?case by simp
next
  case (Cons b bs)
  from Cons.prems Cons.IH show ?case
    by (cases "split_lines bs") (auto split: if_splits)
qed

lemma join_lines_Cons: "join_lines (l # ls) = l @ (if ls = [] then [] else newline # join_lines ls)"
  by (cases ls) auto

lemma join_lines_split_at:
  "i < length ls \<Longrightarrow>
     join_lines ls = concat (map (\<lambda>l. l @ [newline]) (take i ls)) @ join_lines (drop i ls)"
proof (induction i arbitrary: ls)
  case 0
  show ?case by simp
next
  case (Suc i)
  then obtain l ls' where ls: "ls = l # ls'" "i < length ls'" by (cases ls) auto
  with Suc.IH [of ls'] show ?case by (auto simp: join_lines_Cons)
qed

lemma line_offset_0 [simp]: "line_offset ls 0 = 0"
  by (simp add: line_offset_def)

lemma line_offset_Suc:
  "i < length ls \<Longrightarrow> line_offset ls (Suc i) = line_offset ls i + length (ls ! i) + 1"
  by (simp add: line_offset_def take_Suc_conv_app_nth)

text \<open>The context of the \<open>i\<close>-th line in the input.\<close>

lemma line_context:
  assumes "i < length (split_lines bs)"
  obtains pre post where "bs = pre @ split_lines bs ! i @ post"
    "length pre = line_offset (split_lines bs) i"
    "pre = [] \<or> last pre = newline"
    "post = (if Suc i < length (split_lines bs) then newline # join_lines (drop (Suc i) (split_lines bs)) else [])"
proof -
  let ?ls = "split_lines bs"
  let ?pre = "concat (map (\<lambda>l. l @ [newline]) (take i ?ls))"
  have "drop i ?ls = ?ls ! i # drop (Suc i) ?ls" using assms by (simp add: Cons_nth_drop_Suc)
  then have "bs = ?pre @ ?ls ! i @
      (if Suc i < length ?ls then newline # join_lines (drop (Suc i) ?ls) else [])"
    using join_lines_split_at [OF assms]
    by (cases "Suc i < length ?ls") (simp_all add: join_split join_lines_Cons)
  moreover have "?pre = [] \<or> last ?pre = newline"
    using assms by (cases i) (simp_all add: take_Suc_conv_app_nth)
  ultimately show ?thesis using that by (simp add: line_offset_def)
qed

lemma line_bounds_context:
  assumes "bs = pre @ l @ post" and "pre = [] \<or> last pre = newline"
    and "post = [] \<or> hd post = newline" and "newline \<notin> set l"
    and "length pre \<le> off" and "off \<le> length pre + length l"
  shows "line_bounds bs off = (length pre, length pre + length l)"
proof -
  define k where "k = off - length pre"
  have off: "off = length pre + k" "k \<le> length l" using assms by (auto simp: k_def)
  have minoff: "min off (length bs) = off" using assms by simp
  have "takeWhile (\<lambda>b. b \<noteq> newline) (rev pre) = []"
    using assms(2) by (cases pre rule: rev_cases) auto
  moreover have "\<forall>b \<in> set (rev (take k l)). b \<noteq> newline"
    using assms(4) by (auto dest: in_set_takeD)
  ultimately have "takeWhile (\<lambda>b. b \<noteq> newline) (rev (take off bs)) = rev (take k l)"
    by (simp add: assms(1) off takeWhile_append)
  then have left: "skip_back (\<lambda>b. b \<noteq> newline) bs off = length pre"
    using off by (simp add: skip_back_def assms(1) min_def)
  have "takeWhile (\<lambda>b. b \<noteq> newline) post = []" using assms(3) by (cases post) auto
  moreover have "\<forall>b \<in> set (drop k l). b \<noteq> newline" using assms(4) by (auto dest: in_set_dropD)
  ultimately have "takeWhile (\<lambda>b. b \<noteq> newline) (drop off bs) = drop k l"
    by (simp add: assms(1) off takeWhile_append)
  then have "skip_while (\<lambda>b. b \<noteq> newline) bs off = length pre + length l"
    using off by (simp add: skip_while_def)
  with left minoff assms off show ?thesis by (auto simp: line_bounds_def)
qed

lemma split_line_facts:
  assumes "i < length (split_lines bs)"
  defines "S \<equiv> line_offset (split_lines bs) i" and "l \<equiv> split_lines bs ! i"
  shows "S \<le> off \<Longrightarrow> off \<le> S + length l \<Longrightarrow> line_bounds bs off = (S, S + length l)"
    and "subslice bs S (S + length l) = l"
    and "S + length l \<le> length bs"
    and "Suc i < length (split_lines bs) \<Longrightarrow> S + length l < length bs \<and> bs ! (S + length l) = newline"
    and "Suc i = length (split_lines bs) \<Longrightarrow> length bs = S + length l"
    and "l \<noteq> [] \<Longrightarrow> bs ! S \<noteq> newline"
proof -
  obtain pre post where c: "bs = pre @ l @ post" "length pre = S" "pre = [] \<or> last pre = newline"
    "post = (if Suc i < length (split_lines bs) then newline # join_lines (drop (Suc i) (split_lines bs)) else [])"
    using line_context [OF assms(1)] unfolding S_def l_def by metis
  have nl: "newline \<notin> set l" using assms(1) split_no_newline [of l bs] by (simp add: l_def)
  show "line_bounds bs off = (S, S + length l)" if "S \<le> off" "off \<le> S + length l"
    using line_bounds_context [OF c(1,3) _ nl, of off] c(2,4) that by simp
  show "subslice bs S (S + length l) = l" using c(1,2) by (simp add: subslice_def)
  show "S + length l \<le> length bs" using c(1,2) by simp
  show "S + length l < length bs \<and> bs ! (S + length l) = newline" if "Suc i < length (split_lines bs)"
  proof -
    have bs: "bs = (pre @ l) @ newline # join_lines (drop (Suc i) (split_lines bs))"
      using c(1,4) that by simp
    then have "bs ! length (pre @ l) = newline" "length (pre @ l) < length bs"
      by (metis nth_append_length, metis length_append length_Cons less_add_Suc1 add_Suc_right)
    then show ?thesis by (simp add: c(2))
  qed
  show "length bs = S + length l" if "Suc i = length (split_lines bs)"
    using c that by simp
  show "bs ! S \<noteq> newline" if "l \<noteq> []"
    using c(1,2) that nl by (metis hd_append2 hd_in_set nth_append_length append.assoc append_Cons list.collapse nth_append_length)
qed

section \<open>Reference: directives above and below a line\<close>

text \<open>
  A line is reached upwards across non-empty skippable lines only, downwards across any skippable
  line (an empty line is skippable).
\<close>

definition directive_above :: "bytes list \<Rightarrow> bytes list \<Rightarrow> nat \<Rightarrow> bool" where
  "directive_above toks ls i \<longleftrightarrow>
     (\<exists>k<i. line_has_directive (ls ! k) toks \<and>
        (\<forall>j. k < j \<and> j < i \<longrightarrow> ls ! j \<noteq> [] \<and> should_skip_for_directive_search (ls ! j)))"

definition directive_below :: "bytes list \<Rightarrow> bytes list \<Rightarrow> nat \<Rightarrow> bool" where
  "directive_below toks ls i \<longleftrightarrow>
     (\<exists>k<length ls. i < k \<and> line_has_directive (ls ! k) toks \<and>
        (\<forall>j. i < j \<and> j < k \<longrightarrow> should_skip_for_directive_search (ls ! j)))"

definition line_number :: "bytes \<Rightarrow> nat \<Rightarrow> nat" where
  "line_number bs off = count_list (take off bs) newline"

definition suppressed :: "bytes list \<Rightarrow> bytes \<Rightarrow> offset_span \<Rightarrow> bool" where
  "suppressed toks bs span \<longleftrightarrow>
     (let ls = split_lines bs; i = line_number bs (os_start span); j = line_number bs (os_end span - 1) in
      line_has_directive (ls ! i) toks \<or> directive_above toks ls i \<or>
      line_has_directive (ls ! j) toks \<or> directive_below toks ls j)"

lemma skip_empty_line [simp]: "should_skip_for_directive_search []"
  by (simp add: should_skip_for_directive_search_def trim_ascii_whitespace_def subslice_def
      skip_while_def)

lemma no_directive_in_empty_line [simp]: "\<not> line_has_directive [] toks"
  by (simp add: line_has_directive_def)

lemma directive_above_0 [simp]: "\<not> directive_above toks ls 0"
  by (simp add: directive_above_def)

lemma directive_above_Suc:
  "directive_above toks ls (Suc i) \<longleftrightarrow>
     line_has_directive (ls ! i) toks \<or>
     (ls ! i \<noteq> [] \<and> should_skip_for_directive_search (ls ! i) \<and> directive_above toks ls i)"
proof
  assume "directive_above toks ls (Suc i)"
  then obtain k where k: "k < Suc i" "line_has_directive (ls ! k) toks"
    "\<forall>j. k < j \<and> j < Suc i \<longrightarrow> ls ! j \<noteq> [] \<and> should_skip_for_directive_search (ls ! j)"
    unfolding directive_above_def by blast
  show "line_has_directive (ls ! i) toks \<or>
     (ls ! i \<noteq> [] \<and> should_skip_for_directive_search (ls ! i) \<and> directive_above toks ls i)"
  proof (cases "k = i")
    case False
    with k have "k < i" by simp
    with k show ?thesis unfolding directive_above_def by (meson less_SucI lessI)
  qed (use k in simp)
qed (auto simp: directive_above_def less_Suc_eq)

lemma directive_below_last [simp]: "length ls \<le> Suc i \<Longrightarrow> \<not> directive_below toks ls i"
  by (auto simp: directive_below_def)

lemma directive_below_Suc:
  assumes "Suc i < length ls"
  shows "directive_below toks ls i \<longleftrightarrow>
     line_has_directive (ls ! Suc i) toks \<or>
     (should_skip_for_directive_search (ls ! Suc i) \<and> directive_below toks ls (Suc i))"
proof
  assume "directive_below toks ls i"
  then obtain k where k: "k < length ls" "i < k" "line_has_directive (ls ! k) toks"
    "\<forall>j. i < j \<and> j < k \<longrightarrow> should_skip_for_directive_search (ls ! j)"
    unfolding directive_below_def by blast
  show "line_has_directive (ls ! Suc i) toks \<or>
     (should_skip_for_directive_search (ls ! Suc i) \<and> directive_below toks ls (Suc i))"
  proof (cases "k = Suc i")
    case False
    with k have "Suc i < k" by simp
    with k show ?thesis unfolding directive_below_def by (meson Suc_lessD lessI)
  qed (use k in simp)
next
  assume "line_has_directive (ls ! Suc i) toks \<or>
     (should_skip_for_directive_search (ls ! Suc i) \<and> directive_below toks ls (Suc i))"
  then show "directive_below toks ls i"
  proof
    assume "line_has_directive (ls ! Suc i) toks"
    with assms show ?thesis unfolding directive_below_def by auto
  next
    assume r: "should_skip_for_directive_search (ls ! Suc i) \<and> directive_below toks ls (Suc i)"
    then obtain k where k: "k < length ls" "Suc i < k" "line_has_directive (ls ! k) toks"
      "\<forall>j. Suc i < j \<and> j < k \<longrightarrow> should_skip_for_directive_search (ls ! j)"
      unfolding directive_below_def by blast
    have "\<forall>j. i < j \<and> j < k \<longrightarrow> should_skip_for_directive_search (ls ! j)"
      using k(4) r by (metis Suc_lessI)
    with k show ?thesis unfolding directive_below_def by (meson Suc_lessD)
  qed
qed

section \<open>The summaries compute the reference\<close>

definition summary :: "bytes list \<Rightarrow> bytes list \<Rightarrow> bool \<Rightarrow> nat \<Rightarrow> ignore_line \<times> nat \<times> bool" where
  "summary toks ls final i =
     (\<lparr>il_start = line_offset ls i, il_directive = line_has_directive (ls ! i) toks,
       il_before = directive_above toks ls i, il_after = final \<and> directive_below toks ls i\<rparr>,
      length (ls ! i), should_skip_for_directive_search (ls ! i))"

lemma summarize_before_summary:
  assumes "k \<le> length ls"
  shows "summarize_before toks (line_offset ls k)
           (if k = 0 then None else Some (summary toks ls False (k - 1))) (drop k ls) =
         map (summary toks ls False) [k..<length ls]"
  using assms
proof (induction "length ls - k" arbitrary: k)
  case 0
  then show ?case by simp
next
  case (Suc n)
  then have k: "k < length ls" by simp
  have entry: "(case if k = 0 then None else Some (summary toks ls False (k - 1)) of
      None \<Rightarrow> False
    | Some (previous, len, skippable) \<Rightarrow>
        0 < len \<and> (il_directive previous \<or> (skippable \<and> il_before previous))) =
      directive_above toks ls k"
    by (cases k) (auto simp: summary_def directive_above_Suc)
  have "summarize_before toks (line_offset ls k)
          (if k = 0 then None else Some (summary toks ls False (k - 1))) (ls ! k # drop (Suc k) ls) =
        summary toks ls False k # summarize_before toks (line_offset ls (Suc k))
          (Some (summary toks ls False k)) (drop (Suc k) ls)"
    unfolding summarize_before.simps Let_def entry by (simp add: summary_def line_offset_Suc [OF k])
  moreover have "summarize_before toks (line_offset ls (Suc k))
          (Some (summary toks ls False k)) (drop (Suc k) ls) =
        map (summary toks ls False) [Suc k..<length ls]"
    using Suc.hyps(1) [of "Suc k"] Suc.hyps(2) k by simp
  ultimately show ?case by (simp only: Cons_nth_drop_Suc [OF k] upt_conv_Cons [OF k] list.map)
qed

lemma summarize_after_summary:
  assumes "k \<le> length ls"
  shows "summarize_after (map (summary toks ls False) [k..<length ls]) =
         map (summary toks ls True) [k..<length ls]"
  using assms
proof (induction "length ls - k" arbitrary: k)
  case 0
  then show ?case by simp
next
  case (Suc n)
  then have k: "k < length ls" by simp
  show ?case
  proof (cases "Suc k < length ls")
    case False
    with k have "[k..<length ls] = [k]" by (simp add: upt_conv_Cons)
    with False show ?thesis by (simp add: summary_def)
  next
    case True
    have cons: "[k..<length ls] = k # Suc k # [Suc (Suc k)..<length ls]"
      using True by (simp add: upt_conv_Cons)
    have "summarize_after (map (summary toks ls False) [Suc k..<length ls]) =
        map (summary toks ls True) [Suc k..<length ls]"
      using Suc.hyps(1) [of "Suc k"] Suc.hyps(2) k by simp
    then have tail: "summarize_after (summary toks ls False (Suc k) #
        map (summary toks ls False) [Suc (Suc k)..<length ls]) =
        summary toks ls True (Suc k) # map (summary toks ls True) [Suc (Suc k)..<length ls]"
      using True by (simp add: upt_conv_Cons)
    show ?thesis
      by (cases "ls ! Suc k = []")
        (simp_all add: cons tail summary_def [of _ _ _ k] directive_below_Suc [OF True]
          Let_def summary_def [of _ _ True "Suc k"])
  qed
qed

lemma index_new_lines:
  "tokens cfg \<noteq> [] \<Longrightarrow>
     ix_lines (index_new cfg bs) =
       map (\<lambda>i. fst (summary (tokens cfg) (split_lines bs) True i)) [0..<length (split_lines bs)]"
  using summarize_before_summary [of 0 "split_lines bs" "tokens cfg"]
    summarize_after_summary [of 0 "split_lines bs" "tokens cfg"]
  by (simp add: index_new_def)

definition on_line :: "bytes \<Rightarrow> nat \<Rightarrow> nat \<Rightarrow> bool" where
  "on_line bs off i \<longleftrightarrow>
     i < length (split_lines bs) \<and> line_offset (split_lines bs) i \<le> min off (length bs) \<and>
     min off (length bs) \<le> line_offset (split_lines bs) i + length (split_lines bs ! i)"

lemma count_newlines_lines:
  "\<forall>l \<in> set ls. newline \<notin> set l \<Longrightarrow> count_list (concat (map (\<lambda>l. l @ [newline]) ls)) newline = length ls"
  by (induction ls) (auto simp: count_list_0_iff)

lemma on_line_number:
  assumes "on_line bs off i"
  shows "line_number bs off = i"
proof -
  let ?ls = "split_lines bs"
  let ?pre = "concat (map (\<lambda>l. l @ [newline]) (take i ?ls))"
  have i: "i < length ?ls" using assms by (simp add: on_line_def)
  have "bs = ?pre @ join_lines (drop i ?ls)"
    using join_lines_split_at [OF i] by (simp add: join_split)
  moreover have "join_lines (drop i ?ls) = ?ls ! i @
      (if Suc i < length ?ls then newline # join_lines (drop (Suc i) ?ls) else [])"
    by (simp add: join_lines_Cons flip: Cons_nth_drop_Suc [OF i])
  ultimately obtain post where bs: "bs = ?pre @ ?ls ! i @ post" by metis
  have len: "length ?pre = line_offset ?ls i" by (simp add: line_offset_def)
  define m where "m = min off (length bs) - length ?pre"
  have m: "min off (length bs) = length ?pre + m" "m \<le> length (?ls ! i)"
    using assms len by (auto simp: on_line_def m_def)
  have "take off bs = take (min off (length bs)) bs" by (simp add: min_def)
  also have "\<dots> = ?pre @ take m (?ls ! i)"
    unfolding m(1) by (subst bs) (simp add: m(2))
  finally have split: "take off bs = ?pre @ take m (?ls ! i)" .
  have nl: "newline \<notin> set l" if "l \<in> set ?ls" for l using split_no_newline that .
  have "newline \<notin> set (take m (?ls ! i))" using nl [of "?ls ! i"] i by (auto dest: in_set_takeD)
  moreover have "count_list ?pre newline = i"
    using i nl by (subst count_newlines_lines) (auto dest: in_set_takeD)
  ultimately show ?thesis by (simp add: line_number_def split count_list_0_iff)
qed

lemma index_line_on_line:
  assumes "tokens cfg \<noteq> []"
  shows "on_line bs off (index_line (index_new cfg bs) off)"
proof -
  let ?ls = "split_lines bs" and ?o = "min off (length bs)"
  let ?P = "\<lambda>line. il_start line \<le> ?o"
  let ?xs = "ix_lines (index_new cfg bs)"
  define k where "k = length (takeWhile ?P ?xs)"
  have idx: "index_line (index_new cfg bs) off = k - 1"
    using assms by (simp add: index_line_def partition_point_def k_def index_new_def)
  have len: "length ?xs = length ?ls" and st: "\<And>j. j < length ?ls \<Longrightarrow> il_start (?xs ! j) = line_offset ?ls j"
    using index_new_lines [OF assms, of bs] by (simp_all add: summary_def)
  have ne: "?ls \<noteq> []" by simp
  have kn: "k \<le> length ?ls" using length_takeWhile_le [of ?P ?xs] len by (simp add: k_def)
  have below: "line_offset ?ls j \<le> ?o" if "j < k" for j
  proof -
    from that have "?xs ! j \<in> set (takeWhile ?P ?xs)"
      unfolding k_def by (metis nth_mem takeWhile_nth)
    then show ?thesis using st [of j] that kn by (auto dest: set_takeWhileD)
  qed
  have above: "?o < line_offset ?ls k" if "k < length ?ls"
  proof -
    have "\<not> ?P (?xs ! k)" using nth_length_takeWhile [of ?P ?xs] that by (metis k_def len)
    with st [OF that] show ?thesis by auto
  qed
  have "0 < k"
  proof (rule ccontr)
    assume "\<not> 0 < k"
    with above ne show False by simp
  qed
  then obtain i where i: "k = Suc i" by (cases k) auto
  with kn have il: "i < length ?ls" by simp
  have "?o \<le> line_offset ?ls i + length (?ls ! i)"
  proof (cases "k < length ?ls")
    case True
    with above line_offset_Suc [OF il] i show ?thesis by simp
  next
    case False
    with kn i have "Suc i = length ?ls" by simp
    with split_line_facts(5) [OF il] show ?thesis by simp
  qed
  with below [of i] i il idx show ?thesis by (simp add: on_line_def)
qed

lemma index_should_ignore_suppressed:
  assumes "tokens cfg \<noteq> []"
  shows "index_should_ignore (index_new cfg bs) span \<longleftrightarrow> suppressed (tokens cfg) bs span"
proof -
  let ?l = "index_line (index_new cfg bs)"
  have line: "?l off < length (split_lines bs)" "line_number bs off = ?l off" for off
    using index_line_on_line [OF assms, of bs off] on_line_number [of bs off "?l off"]
    by (auto simp: on_line_def)
  show ?thesis
    by (simp add: index_should_ignore_def suppressed_def index_new_lines [OF assms] line Let_def
        summary_def)
qed

section \<open>The outward search agrees\<close>

fun decides :: "search \<Rightarrow> bool \<Rightarrow> bool" where
  "decides Exhausted P \<longleftrightarrow> True"
| "decides Found P \<longleftrightarrow> P"
| "decides (Nothing budget) P \<longleftrightarrow> \<not> P"

lemma decides_and_then:
  assumes "decides r P" and "\<And>budget. \<not> P \<Longrightarrow> decides (k budget) Q"
  shows "decides (and_then r k) (P \<or> Q)"
  using assms by (cases r) (auto simp: and_then_def elim: decides.elims)

lemma decides_search_line:
  "decides (search_line toks bs s e wanted budget) (wanted \<and> line_has_directive (subslice bs s e) toks)"
  by (auto simp: search_line_def subslice_def split: option.split)

lemma line_offset_pos: "0 < i \<Longrightarrow> i \<le> length ls \<Longrightarrow> 0 < line_offset ls i"
  by (cases i) (simp_all add: line_offset_Suc)

lemma decides_search_back:
  assumes "i \<le> length (split_lines bs)"
  shows "decides (search_back toks bs (line_offset (split_lines bs) i) budget)
           (directive_above toks (split_lines bs) i)"
  using assms
proof (induction i arbitrary: budget)
  case 0
  show ?case by (subst search_back.simps) simp
next
  case (Suc i)
  let ?ls = "split_lines bs"
  let ?S = "line_offset ?ls i" and ?l = "?ls ! i"
  have i: "i < length ?ls" using Suc.prems by simp
  have off: "line_offset ?ls (Suc i) = Suc (?S + length ?l)" by (simp add: line_offset_Suc [OF i])
  note lb = split_line_facts(1) [OF i, of "?S + length ?l"] and sub = split_line_facts(2) [OF i]
  have IH: "decides (search_back toks bs ?S b) (directive_above toks ?ls i)" for b
    using Suc.IH i by simp
  have zero: "?S = 0 \<Longrightarrow> i = 0" using line_offset_pos [of i ?ls] i by (cases i) auto
  show ?case
  proof (cases "?l = []")
    case True
    then show ?thesis
      using lb by (subst search_back.simps) (simp add: off directive_above_Suc)
  next
    case False
    then show ?thesis
      using lb sub IH zero
      by (subst search_back.simps) (auto simp: off directive_above_Suc Let_def split: option.split)
  qed
qed

lemma decides_search_forward:
  assumes "i < length (split_lines bs)"
  shows "decides (search_forward toks bs (line_offset (split_lines bs) i + length (split_lines bs ! i)) budget)
           (directive_below toks (split_lines bs) i)"
  using assms
proof (induction "length (split_lines bs) - i" arbitrary: i budget)
  case 0
  then show ?case by simp
next
  case (Suc n)
  let ?ls = "split_lines bs"
  let ?c = "line_offset ?ls i + length (?ls ! i)"
  show ?case
  proof (cases "Suc i < length ?ls")
    case False
    with Suc.prems have "Suc i = length ?ls" by simp
    with split_line_facts(5) [OF Suc.prems] show ?thesis
      by (subst search_forward.simps) simp
  next
    case True
    let ?S = "line_offset ?ls (Suc i)" and ?l = "?ls ! Suc i"
    have S: "?S = ?c + 1" by (simp add: line_offset_Suc [OF Suc.prems])
    have IH: "decides (search_forward toks bs (?S + length ?l) b) (directive_below toks ?ls (Suc i))" for b
      using Suc.hyps True by simp
    have skip: "search_forward toks bs ?c budget = search_forward toks bs ?S budget"
      using split_line_facts(4) [OF Suc.prems True] S by (subst search_forward.simps) simp
    show ?thesis
    proof (cases "?l = []")
      case True
      with IH [of budget] show ?thesis
        by (simp add: skip directive_below_Suc [OF \<open>Suc i < length ?ls\<close>])
    next
      case False
      note f = split_line_facts [OF True]
      have "?S < length bs" using f(3) False by (cases ?l) auto
      then show ?thesis
        unfolding skip using f(1) [of ?S] f(2) f(6) IH False
        by (subst search_forward.simps)
          (auto simp: directive_below_Suc [OF True] Let_def split: option.split)
    qed
  qed
qed


lemma line_bounds_on_line:
  assumes "on_line bs off i"
  shows "line_bounds bs off =
     (line_offset (split_lines bs) i, line_offset (split_lines bs) i + length (split_lines bs ! i))"
proof -
  have "line_bounds bs off = line_bounds bs (min off (length bs))" by (simp add: line_bounds_def)
  with assms split_line_facts(1) [of i bs "min off (length bs)"] show ?thesis
    by (simp add: on_line_def)
qed

lemma should_ignore_with_budget_decides:
  assumes toks: "tokens cfg \<noteq> []"
    and answer: "should_ignore_with_budget cfg bs span budget = Some ignore"
  shows "ignore \<longleftrightarrow> suppressed (tokens cfg) bs span"
proof -
  let ?ls = "split_lines bs" and ?t = "tokens cfg"
  let ?S = "line_offset ?ls"
  define i where "i = index_line (index_new cfg bs) (os_start span)"
  define j where "j = index_line (index_new cfg bs) (os_end span - 1)"
  have on: "on_line bs (os_start span) i" "on_line bs (os_end span - 1) j"
    by (simp_all add: i_def j_def index_line_on_line [OF toks])
  then have ij: "i < length ?ls" "j < length ?ls" by (simp_all add: on_line_def)
  have "line_bounds bs (min (if os_end span = 0 then 0 else os_end span - 1) (length bs)) =
      line_bounds bs (os_end span - 1)" by (simp add: line_bounds_def)
  note bnd = this line_bounds_on_line [OF on(1)] line_bounds_on_line [OF on(2)]
  note sub = split_line_facts(2) [OF ij(1)] split_line_facts(2) [OF ij(2)]
  define r where "r =
     and_then (search_line ?t bs (?S i) (?S i + length (?ls ! i)) True budget)
     (\<lambda>budget. and_then (search_back ?t bs (?S i) budget)
     (\<lambda>budget. and_then (search_line ?t bs (?S j) (?S j + length (?ls ! j))
        (?S j \<noteq> ?S i \<or> ?S j + length (?ls ! j) \<noteq> ?S i + length (?ls ! i)) budget)
     (\<lambda>budget. search_forward ?t bs (?S j + length (?ls ! j)) budget)))"
  have res: "search_result r = Some ignore"
    using answer by (simp only: should_ignore_with_budget_def toks if_False bnd prod.case Let_def r_def)
  let ?first = "line_has_directive (?ls ! i) ?t" and ?last = "line_has_directive (?ls ! j) ?t"
  let ?other = "?S j \<noteq> ?S i \<or> ?S j + length (?ls ! j) \<noteq> ?S i + length (?ls ! i)"
  have "decides r ((True \<and> line_has_directive (subslice bs (?S i) (?S i + length (?ls ! i))) ?t) \<or>
      directive_above ?t ?ls i \<or>
      (?other \<and> line_has_directive (subslice bs (?S j) (?S j + length (?ls ! j))) ?t) \<or>
      directive_below ?t ?ls j)"
    unfolding r_def using ij
    by (intro decides_and_then decides_search_line decides_search_back decides_search_forward) simp_all
  then have d: "decides r (?first \<or> directive_above ?t ?ls i \<or> (?other \<and> ?last) \<or> directive_below ?t ?ls j)"
    unfolding sub by simp
  have "\<not> ?other \<Longrightarrow> ?last = ?first" using sub by metis
  then have "(?first \<or> directive_above ?t ?ls i \<or> (?other \<and> ?last) \<or> directive_below ?t ?ls j) =
      (?first \<or> directive_above ?t ?ls i \<or> ?last \<or> directive_below ?t ?ls j)" by blast
  with d have "decides r (?first \<or> directive_above ?t ?ls i \<or> ?last \<or> directive_below ?t ?ls j)"
    by (simp only:)
  moreover have "line_number bs (os_start span) = i" "line_number bs (os_end span - 1) = j"
    using on by (simp_all add: on_line_number)
  ultimately show ?thesis using res
    by (cases r) (auto simp: search_result_def suppressed_def Let_def)
qed

text \<open>A scan asks one shared cache about its findings one after the other.\<close>

fun ask_all ::
  "inline_ignore_config \<Rightarrow> bytes \<Rightarrow> inline_ignore_index option \<Rightarrow> offset_span list \<Rightarrow> bool list" where
  "ask_all cfg bs cache [] = []"
| "ask_all cfg bs cache (span # spans) =
     (case should_ignore_cached cfg bs span cache of
        (ignore, cache') \<Rightarrow> ignore # ask_all cfg bs cache' spans)"

lemma index_should_ignore_disabled:
  "tokens cfg = [] \<Longrightarrow> \<not> index_should_ignore (index_new cfg bs) span"
  by (simp add: index_should_ignore_def index_new_def)

lemma not_suppressed_disabled [simp]: "\<not> suppressed [] bs span"
  by (simp add: suppressed_def directive_above_def directive_below_def line_has_directive_def Let_def)

lemma should_ignore_with_budget_sound:
  "should_ignore_with_budget cfg bs span budget = Some ignore \<Longrightarrow>
     ignore \<longleftrightarrow> suppressed (tokens cfg) bs span"
  using should_ignore_with_budget_decides [of cfg bs span budget ignore]
  by (cases "tokens cfg = []") (auto simp: should_ignore_with_budget_def)

lemma index_should_ignore_eq:
  "index_should_ignore (index_new cfg bs) span \<longleftrightarrow> suppressed (tokens cfg) bs span"
  using index_should_ignore_suppressed [of cfg bs span] index_should_ignore_disabled [of cfg bs span]
  by (cases "tokens cfg = []") simp_all

lemma should_ignore_cached_sound:
  assumes "cache = None \<or> cache = Some (index_new cfg bs)"
    and "should_ignore_cached cfg bs span cache = (ignore, cache')"
  shows "ignore \<longleftrightarrow> suppressed (tokens cfg) bs span"
    and "cache' = None \<or> cache' = Some (index_new cfg bs)"
  using assms should_ignore_with_budget_sound [of cfg bs span 4096]
  by (auto simp: should_ignore_cached_def Let_def index_should_ignore_eq split: option.splits)

text \<open>
  C12. Suppression by inline directives: asking one shared cache about any number of findings in
  any order gives for each finding exactly the reference answer: a directive on its first or last
  line, or on a line above (below) that is reached across skippable lines.  When the work budget
  runs out and the per-line summaries take over, no answer changes.
\<close>

theorem inline_ignore_answers:
  "ask_all cfg bs None spans = map (suppressed (tokens cfg) bs) spans"
proof -
  have "ask_all cfg bs cache spans = map (suppressed (tokens cfg) bs) spans"
    if "cache = None \<or> cache = Some (index_new cfg bs)" for cache
    using that
  proof (induction spans arbitrary: cache)
    case Nil
    show ?case by simp
  next
    case (Cons span spans)
    obtain ignore cache' where "should_ignore_cached cfg bs span cache = (ignore, cache')" by force
    with should_ignore_cached_sound [OF Cons.prems this] Cons.IH [of cache'] show ?case by simp
  qed
  then show ?thesis by simp
qed

section \<open>Enough budget\<close>

text \<open>
  A line of \<open>n > 0\<close> bytes costs at most \<open>128 * n\<close>, so \<open>128\<close> times the bytes passed bounds each search.
\<close>

fun affordable :: "search \<Rightarrow> nat \<Rightarrow> nat \<Rightarrow> bool" where
  "affordable Exhausted budget cost \<longleftrightarrow> budget < cost"
| "affordable Found budget cost \<longleftrightarrow> True"
| "affordable (Nothing left) budget cost \<longleftrightarrow> budget \<le> left + cost"

lemma affordable_mono: "affordable r budget c \<Longrightarrow> c \<le> d \<Longrightarrow> affordable r budget d"
  by (cases r) auto

lemma affordable_and_then:
  assumes "affordable r budget c" and "\<And>left. affordable (k left) left d"
  shows "affordable (and_then r k) budget (c + d)"
proof (cases r)
  case (Nothing left)
  with assms(1) assms(2) [of left] show ?thesis
    by (cases "k left") (auto simp: and_then_def)
qed (use assms in \<open>auto simp: and_then_def\<close>)

lemma spend_cost:
  assumes "line \<noteq> []"
  shows "spend budget line = None \<Longrightarrow> budget < 128 * length line"
    and "spend budget line = Some left \<Longrightarrow> budget \<le> left + 128 * length line"
proof -
  have "max (length line) 128 \<le> 128 * length line" using assms by (cases line) auto
  then show "spend budget line = None \<Longrightarrow> budget < 128 * length line"
    and "spend budget line = Some left \<Longrightarrow> budget \<le> left + 128 * length line"
    by (auto simp: spend_def checked_sub_def split: if_splits)
qed

lemma affordable_line:
  assumes "line \<noteq> []" and "\<And>left. spend budget line = Some left \<Longrightarrow> affordable (k left) left c"
  shows "affordable (case spend budget line of None \<Rightarrow> Exhausted | Some left \<Rightarrow> k left) budget
           (128 * length line + c)"
proof (cases "spend budget line")
  case None
  with spend_cost(1) [OF assms(1) None] show ?thesis by simp
next
  case (Some left)
  with assms(2) [OF Some] spend_cost(2) [OF assms(1) Some] show ?thesis
    by (cases "k left") auto
qed

lemma affordable_search_line:
  "e \<le> length bs \<Longrightarrow> affordable (search_line toks bs s e wanted budget) budget (128 * (e - s))"
  using affordable_line [of "subslice bs s e"
      budget "\<lambda>left. if line_has_directive (subslice bs s e) toks then Found else Nothing left" 0]
  by (auto simp: search_line_def subslice_def)

lemma affordable_search_back:
  assumes "i \<le> length (split_lines bs)"
  shows "affordable (search_back toks bs (line_offset (split_lines bs) i) budget) budget
           (128 * line_offset (split_lines bs) i)"
  using assms
proof (induction i arbitrary: budget)
  case 0
  show ?case by (subst search_back.simps) simp
next
  case (Suc i)
  let ?ls = "split_lines bs"
  let ?S = "line_offset ?ls i" and ?l = "?ls ! i"
  have i: "i < length ?ls" using Suc.prems by simp
  have off: "line_offset ?ls (Suc i) = Suc (?S + length ?l)" by (simp add: line_offset_Suc [OF i])
  note lb = split_line_facts(1) [OF i, of "?S + length ?l"] and sub = split_line_facts(2) [OF i]
  have IH: "affordable (search_back toks bs ?S b) b (128 * ?S)" for b
    using Suc.IH i by simp
  show ?case
  proof (cases "?l = []")
    case True
    then show ?thesis using lb by (subst search_back.simps) (simp add: off)
  next
    case False
    let ?k = "\<lambda>left. if line_has_directive ?l toks then Found
       else if \<not> should_skip_for_directive_search ?l then Nothing left
       else if ?S = 0 then Nothing left else search_back toks bs ?S left"
    have "search_back toks bs (line_offset ?ls (Suc i)) budget =
        (case spend budget ?l of None \<Rightarrow> Exhausted | Some left \<Rightarrow> ?k left)"
      using lb sub False by (subst search_back.simps) (simp add: off Let_def)
    moreover have "affordable (?k left) left (128 * ?S)" for left using IH [of left] by auto
    ultimately show ?thesis
      using affordable_line [OF False, of budget ?k "128 * ?S"] by (auto simp: off elim: affordable_mono)
  qed
qed

lemma affordable_search_forward:
  "affordable (search_forward toks bs cursor budget) budget (128 * (length bs - cursor))"
proof (induction toks bs cursor budget rule: search_forward.induct)
  case (1 toks bs cursor budget)
  let ?e = "snd (line_bounds bs cursor)"
  show ?case
  proof (cases "length bs \<le> cursor \<or> bs ! cursor = newline")
    case True
    then show ?thesis
      using 1(1) by (subst search_forward.simps) (auto elim!: affordable_mono)
  next
    case False
    let ?l = "subslice bs cursor ?e"
    let ?k = "\<lambda>left. if line_has_directive ?l toks then Found
       else if \<not> should_skip_for_directive_search ?l then Nothing left
       else search_forward toks bs ?e left"
    have e: "?e \<le> length bs" using line_bounds_le(3) [of bs cursor "fst (line_bounds bs cursor)" ?e] by simp
    show ?thesis
    proof (cases "?e \<le> cursor")
      case True
      with False show ?thesis by (subst search_forward.simps) (auto split: prod.split)
    next
      case less: False
      have eq: "search_forward toks bs cursor budget =
          (case spend budget ?l of None \<Rightarrow> Exhausted | Some left \<Rightarrow> ?k left)"
        using False less by (subst search_forward.simps) (simp add: Let_def case_prod_beta)
      have ne: "?l \<noteq> []" and len: "length ?l = ?e - cursor"
        using e less False by (auto simp: subslice_def)
      have bound: "affordable (?k left) left (128 * (length bs - ?e))" if "spend budget ?l = Some left" for left
        using 1(2) [of "fst (line_bounds bs cursor)" ?e ?l left] False less that
        by (auto simp: not_le)
      have "128 * length ?l + 128 * (length bs - ?e) = 128 * (length bs - cursor)"
        using len e less by simp
      with affordable_line [OF ne bound] show ?thesis unfolding eq by simp
    qed
  qed
qed

lemma should_ignore_with_budget_answers:
  assumes "256 * length bs \<le> budget"
  shows "\<exists>ignore. should_ignore_with_budget cfg bs span budget = Some ignore"
proof (cases "tokens cfg = []")
  case True
  then have "should_ignore_with_budget cfg bs span budget = Some False"
    by (simp add: should_ignore_with_budget_def)
  then show ?thesis ..
next
  case False
  let ?ls = "split_lines bs" and ?t = "tokens cfg"
  let ?S = "line_offset ?ls"
  define i where "i = index_line (index_new cfg bs) (os_start span)"
  define j where "j = index_line (index_new cfg bs) (os_end span - 1)"
  have on: "on_line bs (os_start span) i" "on_line bs (os_end span - 1) j"
    by (simp_all add: i_def j_def index_line_on_line [OF False])
  then have ij: "i < length ?ls" "j < length ?ls" by (simp_all add: on_line_def)
  have "line_bounds bs (min (if os_end span = 0 then 0 else os_end span - 1) (length bs)) =
      line_bounds bs (os_end span - 1)" by (simp add: line_bounds_def)
  note bnd = this line_bounds_on_line [OF on(1)] line_bounds_on_line [OF on(2)]
  note le = split_line_facts(3) [OF ij(1)] split_line_facts(3) [OF ij(2)]
  define r where "r =
     and_then (search_line ?t bs (?S i) (?S i + length (?ls ! i)) True budget)
     (\<lambda>budget. and_then (search_back ?t bs (?S i) budget)
     (\<lambda>budget. and_then (search_line ?t bs (?S j) (?S j + length (?ls ! j))
        (?S j \<noteq> ?S i \<or> ?S j + length (?ls ! j) \<noteq> ?S i + length (?ls ! i)) budget)
     (\<lambda>budget. search_forward ?t bs (?S j + length (?ls ! j)) budget)))"
  have "affordable r budget
      (128 * (?S i + length (?ls ! i) - ?S i) + (128 * ?S i +
       (128 * (?S j + length (?ls ! j) - ?S j) + 128 * (length bs - (?S j + length (?ls ! j))))))"
    unfolding r_def using ij le
    by (intro affordable_and_then affordable_search_line affordable_search_back affordable_search_forward)
      simp_all
  then have "affordable r budget (256 * length bs)" using le by (elim affordable_mono) simp
  with assms have "\<exists>ignore. search_result r = Some ignore" by (cases r) (auto simp: search_result_def)
  then show ?thesis
    by (simp only: should_ignore_with_budget_def False if_False bnd prod.case Let_def r_def)
qed

text \<open>
  C34. The search without a budget limit never runs out of the \<open>usize::MAX\<close> it starts with, so its
  \<open>expect\<close> does not panic, and it gives the reference answer, on every input of at most \<open>2 ^ 55\<close>
  bytes.
\<close>

theorem should_ignore_total:
  assumes "length bs \<le> 2 ^ 55"
  shows "should_ignore cfg bs span = Some (suppressed (tokens cfg) bs span)"
proof -
  have "256 * length bs \<le> 2 ^ 64 - 1" using assms by simp
  then obtain ignore where "should_ignore cfg bs span = Some ignore"
    unfolding should_ignore_def using should_ignore_with_budget_answers by blast
  with should_ignore_with_budget_sound show ?thesis unfolding should_ignore_def by fastforce
qed

theorem should_ignore_total_witness:
  "length ''a # kingfisher:ignore'' \<le> 2 ^ 55 \<and>
   should_ignore (config_new []) ''a # kingfisher:ignore'' (from_offsets 0 1) =
     Some (suppressed (tokens (config_new [])) ''a # kingfisher:ignore'' (from_offsets 0 1))"
  using should_ignore_total [of "''a # kingfisher:ignore''" "config_new []" "from_offsets 0 1"] by simp

text \<open>
  Configured tokens: the default token and every non-blank additional token, trimmed and
  lower-cased, are searched for; no token is empty and none is listed twice.
\<close>

theorem config_new_tokens:
  "set (tokens (config_new extra)) =
     insert ''kingfisher:ignore'' (map to_ascii_lowercase ` str_trim ` set extra - {[]}) \<and>
   distinct (tokens (config_new extra))"
proof -
  have s: "set (add_tokens toks extra) = set toks \<union> (map to_ascii_lowercase ` str_trim ` set extra - {[]})"
    for toks by (induction toks extra rule: add_tokens.induct) (auto simp: Let_def)
  have d: "distinct toks \<Longrightarrow> distinct (add_tokens toks extra)" for toks
    by (induction toks extra rule: add_tokens.induct) (auto simp: Let_def)
  show ?thesis by (simp add: config_new_def s d)
qed

end
