(* ===== verification/Components.thy ===== *)
theory Components
  imports Kf_Prelude
begin

text \<open>
  Propagation of missing required components, \<open>crates/kingfisher-scanner/src/components.rs\<close>.

  A finding is kept as long as each of its required dependencies has a live supporting finding.
  The code watches one witness per dependency and searches again only when that witness is removed.
  The index of findings, its search and its removal are parameters of \<open>dependency_keep\<close>; the locale
  \<open>component_index\<close> states what they promise, and the theory shows that what is kept is then the
  greatest set of findings whose dependencies are all supported inside the set.
\<close>

section \<open>The code\<close>

record 't dk_state =
  dk_keep :: "bool list"
  dk_watchers :: "(nat \<times> nat) list list"
  dk_removed :: "nat list"
  dk_index :: 't

type_synonym 't finder = "'t \<Rightarrow> nat \<Rightarrow> nat \<Rightarrow> nat option ctl"

text \<open>\<open>watchers[candidate].push((primary, dependency))\<close>\<close>

definition dk_watch :: "nat \<Rightarrow> nat \<times> nat \<Rightarrow> 't dk_state \<Rightarrow> 't dk_state" where
  "dk_watch candidate pd s =
     s\<lparr>dk_watchers := (dk_watchers s)[candidate := dk_watchers s ! candidate @ [pd]]\<rparr>"

text \<open>\<open>keep[primary] = false; remove(index, primary); removed.push_back(primary)\<close>\<close>

definition dk_drop :: "('t \<Rightarrow> nat \<Rightarrow> 't) \<Rightarrow> nat \<Rightarrow> 't dk_state \<Rightarrow> 't dk_state" where
  "dk_drop remove primary s =
     s\<lparr>dk_keep := (dk_keep s)[primary := False],
       dk_index := remove (dk_index s) primary,
       dk_removed := dk_removed s @ [primary]\<rparr>"

fun dk_init_dependencies ::
  "'t finder \<Rightarrow> ('t \<Rightarrow> nat \<Rightarrow> 't) \<Rightarrow> nat \<Rightarrow> nat list \<Rightarrow> 't dk_state \<Rightarrow> 't dk_state ctl" where
  "dk_init_dependencies find_candidate remove primary [] s = ret s"
| "dk_init_dependencies find_candidate remove primary (dependency # rest) s =
     checked (bind (find_candidate (dk_index s) primary dependency) (\<lambda>r.
       case r of
         Some candidate \<Rightarrow>
           dk_init_dependencies find_candidate remove primary rest
             (dk_watch candidate (primary, dependency) s)
       | None \<Rightarrow> ret (dk_drop remove primary s)))"

fun dk_init ::
  "'t finder \<Rightarrow> ('t \<Rightarrow> nat \<Rightarrow> 't) \<Rightarrow> (nat \<times> nat) list \<Rightarrow> 't dk_state \<Rightarrow> 't dk_state ctl" where
  "dk_init find_candidate remove [] s = ret s"
| "dk_init find_candidate remove ((primary, count) # rest) s =
     checked (bind (dk_init_dependencies find_candidate remove primary [0..<count] s)
       (dk_init find_candidate remove rest))"

text \<open>The inner loop over the watchers taken from a removed finding.\<close>

fun dk_retry ::
  "'t finder \<Rightarrow> ('t \<Rightarrow> nat \<Rightarrow> 't) \<Rightarrow> (nat \<times> nat) list \<Rightarrow> 't dk_state \<Rightarrow> 't dk_state ctl" where
  "dk_retry find_candidate remove [] s = ret s"
| "dk_retry find_candidate remove ((primary, dependency) # rest) s =
     checked
       (if slice_get (dk_keep s) primary \<noteq> Some True then dk_retry find_candidate remove rest s
        else bind (find_candidate (dk_index s) primary dependency) (\<lambda>r.
          case r of
            Some replacement \<Rightarrow>
              dk_retry find_candidate remove rest (dk_watch replacement (primary, dependency) s)
          | None \<Rightarrow> dk_retry find_candidate remove rest (dk_drop remove primary s)))"

definition dk_work :: "'t dk_state \<Rightarrow> nat" where
  "dk_work s = count_list (dk_keep s) True + length (dk_removed s)"

lemma count_list_update_False:
  "p < length ks \<Longrightarrow> ks ! p \<Longrightarrow> Suc (count_list (ks[p := False]) True) = count_list ks True"
proof (induction ks arbitrary: p)
  case (Cons k ks)
  then show ?case by (cases p) auto
qed simp

lemma dk_work_drop: "slice_get (dk_keep s) p = Some True \<Longrightarrow> dk_work (dk_drop remove p s) = dk_work s"
  using count_list_update_False [of p "dk_keep s"]
  by (auto simp: slice_get_def dk_drop_def dk_work_def split: if_splits)

lemma dk_work_watch [simp]: "dk_work (dk_watch c pd s) = dk_work s"
  by (simp add: dk_work_def dk_watch_def)

lemma bind_Inr:
  assumes "bind m f c t = Inr (y, t'')"
  obtains x t' where "m c t = Inr (x, t')" "f x c t' = Inr (y, t'')"
  using assms by (auto simp: bind_def split: sum.splits)

lemma dk_work_retry: "dk_retry find_candidate remove ws s c t = Inr (s', t') \<Longrightarrow> dk_work s' = dk_work s"
proof (induction find_candidate remove ws s arbitrary: c t t' rule: dk_retry.induct)
  case (2 find_candidate remove primary dependency rest s)
  from "2.prems" obtain t1 where t1: "check c t = Inr ((), t1)"
    and body: "(if slice_get (dk_keep s) primary \<noteq> Some True then dk_retry find_candidate remove rest s
        else bind (find_candidate (dk_index s) primary dependency) (\<lambda>r.
          case r of
            Some replacement \<Rightarrow>
              dk_retry find_candidate remove rest (dk_watch replacement (primary, dependency) s)
          | None \<Rightarrow> dk_retry find_candidate remove rest (dk_drop remove primary s))) c t1 = Inr (s', t')"
    by (auto elim!: bind_Inr)
  show ?case
  proof (cases "slice_get (dk_keep s) primary = Some True")
    case False
    with body "2.IH"(1) [OF t1] show ?thesis by simp
  next
    case True
    with body obtain r t2 where r: "find_candidate (dk_index s) primary dependency c t1 = Inr (r, t2)"
      "(case r of
            Some replacement \<Rightarrow>
              dk_retry find_candidate remove rest (dk_watch replacement (primary, dependency) s)
          | None \<Rightarrow> dk_retry find_candidate remove rest (dk_drop remove primary s)) c t2 = Inr (s', t')"
      by (auto elim: bind_Inr)
    show ?thesis
    proof (cases r)
      case None
      with r True "2.IH"(2) [OF t1 _ r(1) None] show ?thesis by (simp add: dk_work_drop)
    next
      case (Some replacement)
      with r True "2.IH"(3) [OF t1 _ r(1) Some] show ?thesis by simp
    qed
  qed
qed (simp add: ret_def)

function dk_propagate :: "'t finder \<Rightarrow> ('t \<Rightarrow> nat \<Rightarrow> 't) \<Rightarrow> 't dk_state \<Rightarrow> bool list ctl" where
  "dk_propagate find_candidate remove s =
     (case dk_removed s of
        [] \<Rightarrow> ret (dk_keep s)
      | candidate # rest \<Rightarrow>
          checked (bind
            (dk_retry find_candidate remove (dk_watchers s ! candidate)
              (s\<lparr>dk_removed := rest, dk_watchers := (dk_watchers s)[candidate := []]\<rparr>))
            (dk_propagate find_candidate remove)))"
  by pat_completeness auto
termination
  by (relation "measure (\<lambda>(find_candidate, remove, s). dk_work s)")
    (auto dest!: dk_work_retry simp: dk_work_def)

declare dk_propagate.simps [simp del]

definition dependency_keep ::
  "nat list \<Rightarrow> 't \<Rightarrow> 't finder \<Rightarrow> ('t \<Rightarrow> nat \<Rightarrow> 't) \<Rightarrow> bool list ctl" where
  "dependency_keep dependency_counts index find_candidate remove =
     bind (dk_init find_candidate remove (enumerate 0 dependency_counts)
        \<lparr>dk_keep = replicate (length dependency_counts) True,
          dk_watchers = replicate (length dependency_counts) [],
          dk_removed = [], dk_index = index\<rparr>)
       (dk_propagate find_candidate remove)"

section \<open>The specification\<close>

definition self_supporting :: "nat list \<Rightarrow> (nat \<Rightarrow> nat \<Rightarrow> nat set) \<Rightarrow> nat set \<Rightarrow> bool" where
  "self_supporting counts supports X \<longleftrightarrow>
     X \<subseteq> {..<length counts} \<and> (\<forall>p \<in> X. \<forall>d < counts ! p. supports p d \<inter> X \<noteq> {})"

text \<open>The greatest self-supporting set: self-supporting sets are closed under union.\<close>

definition supported_findings :: "nat list \<Rightarrow> (nat \<Rightarrow> nat \<Rightarrow> nat set) \<Rightarrow> nat set" where
  "supported_findings counts supports = \<Union> {X. self_supporting counts supports X}"

lemma supported_findings_self_supporting: "self_supporting counts supports (supported_findings counts supports)"
  unfolding self_supporting_def supported_findings_def by blast

lemma supported_findings_greatest: "self_supporting counts supports X \<Longrightarrow> X \<subseteq> supported_findings counts supports"
  unfolding supported_findings_def by blast

section \<open>What the index promises, and what is kept then\<close>

locale component_index =
  fixes counts :: "nat list"
    and supports :: "nat \<Rightarrow> nat \<Rightarrow> nat set"
    and live :: "'t \<Rightarrow> nat set"
    and inv :: "'t \<Rightarrow> bool"
    and find_candidate :: "'t finder"
    and remove :: "'t \<Rightarrow> nat \<Rightarrow> 't"
  assumes find_candidate:
      "inv t \<Longrightarrow> p < length counts \<Longrightarrow> d < counts ! p \<Longrightarrow>
         ensures (find_candidate t p d) (\<lambda>r.
           case r of Some c \<Rightarrow> c \<in> supports p d \<inter> live t | None \<Rightarrow> supports p d \<inter> live t = {})"
    and remove: "inv t \<Longrightarrow> p < length counts \<Longrightarrow> inv (remove t p)"
      "inv t \<Longrightarrow> p < length counts \<Longrightarrow> live (remove t p) = live t - {p}"
begin

definition kept :: "'t dk_state \<Rightarrow> nat set" where
  "kept s = {p. p < length counts \<and> dk_keep s ! p}"

text \<open>\<open>W\<close> is the set of dependencies that must be watched at this moment.\<close>

definition dk_invar :: "nat set \<Rightarrow> (nat \<times> nat) set \<Rightarrow> 't dk_state \<Rightarrow> bool" where
  "dk_invar L W s \<longleftrightarrow>
     length (dk_keep s) = length counts \<and> length (dk_watchers s) = length counts \<and>
     inv (dk_index s) \<and> live (dk_index s) = L \<inter> kept s \<and>
     supported_findings counts supports \<subseteq> kept s \<and>
     (\<forall>c < length counts. \<forall>(p, d) \<in> set (dk_watchers s ! c).
        p < length counts \<and> d < counts ! p \<and> c \<in> supports p d) \<and>
     (\<forall>(p, d) \<in> W. p \<in> kept s \<longrightarrow>
        (\<exists>c < length counts. (p, d) \<in> set (dk_watchers s ! c) \<and> (c \<in> kept s \<or> c \<in> set (dk_removed s)))) \<and>
     set (dk_removed s) \<subseteq> {..<length counts}"

lemma dk_invar_mono: "dk_invar L W s \<Longrightarrow> W' \<subseteq> W \<Longrightarrow> dk_invar L W' s"
  unfolding dk_invar_def by blast

lemma dk_invar_watcher:
  "dk_invar L W s \<Longrightarrow> c < length counts \<Longrightarrow> (p, d) \<in> set (dk_watchers s ! c) \<Longrightarrow>
     p < length counts \<and> d < counts ! p \<and> c \<in> supports p d"
  unfolding dk_invar_def by blast

lemma dk_invar_watched:
  assumes "dk_invar L W s" and "(p, d) \<in> W" and "p \<in> kept s"
  obtains c where "c < length counts" "(p, d) \<in> set (dk_watchers s ! c)"
    "c \<in> kept s \<or> c \<in> set (dk_removed s)"
  using assms unfolding dk_invar_def by blast

lemma dk_invar_watch:
  assumes "dk_invar L W s" and "c \<in> supports p d \<inter> live (dk_index s)"
    and "p < length counts" and "d < counts ! p"
  shows "dk_invar L (insert (p, d) W) (dk_watch c (p, d) s)"
proof -
  have c: "c \<in> kept s" "c < length counts" using assms(1,2) by (auto simp: dk_invar_def kept_def)
  have nth: "dk_watchers (dk_watch c (p, d) s) ! c' =
      (if c' = c then dk_watchers s ! c @ [(p, d)] else dk_watchers s ! c')" if "c' < length counts" for c'
    using assms(1) that by (simp add: dk_watch_def dk_invar_def)
  have k: "kept (dk_watch c (p, d) s) = kept s" by (simp add: kept_def dk_watch_def)
  have "\<exists>c' < length counts. (p', d') \<in> set (dk_watchers (dk_watch c (p, d) s) ! c') \<and>
      (c' \<in> kept s \<or> c' \<in> set (dk_removed s))"
    if "(p', d') \<in> insert (p, d) W" "p' \<in> kept s" for p' d'
  proof (cases "(p', d') = (p, d)")
    case True
    with c nth [of c] show ?thesis by auto
  next
    case False
    with that assms(1) obtain c' where "c' < length counts" "(p', d') \<in> set (dk_watchers s ! c')"
      "c' \<in> kept s \<or> c' \<in> set (dk_removed s)"
      by (auto simp: dk_invar_def)
    with nth [of c'] show ?thesis by (metis UnCI set_append)
  qed
  moreover have "\<forall>c' < length counts. \<forall>(p', d') \<in> set (dk_watchers (dk_watch c (p, d) s) ! c').
      p' < length counts \<and> d' < counts ! p' \<and> c' \<in> supports p' d'"
    using assms by (auto simp: nth dk_invar_def)
  ultimately show ?thesis using assms(1) unfolding dk_invar_def k by (auto simp: dk_watch_def)
qed

lemma dk_invar_drop:
  assumes I: "dk_invar L W s" and none: "supports p d \<inter> live (dk_index s) = {}"
    and "p < length counts" and "d < counts ! p" and L: "supports p d \<subseteq> L"
  shows "dk_invar L (W \<union> {p} \<times> UNIV) (dk_drop remove p s)"
proof -
  let ?G = "supported_findings counts supports" and ?s = "dk_drop remove p s"
  have k: "kept ?s = kept s - {p}"
  proof -
    have "length (dk_keep s) = length counts" using I by (simp add: dk_invar_def)
    then have "dk_keep ?s ! x \<longleftrightarrow> x \<noteq> p \<and> dk_keep s ! x" if "x < length counts" for x
      using that by (cases "x = p") (simp_all add: dk_drop_def)
    then show ?thesis by (auto simp: kept_def)
  qed
  have "p \<notin> ?G"
  proof
    assume "p \<in> ?G"
    with assms(4) obtain c where "c \<in> supports p d" "c \<in> ?G"
      using supported_findings_self_supporting [of counts supports] unfolding self_supporting_def by blast
    with I none L show False by (auto simp: dk_invar_def)
  qed
  moreover have "inv (dk_index ?s)" "live (dk_index ?s) = live (dk_index s) - {p}"
    using I assms(3) remove by (simp_all add: dk_drop_def dk_invar_def)
  moreover have "dk_watchers ?s = dk_watchers s" "set (dk_removed ?s) = insert p (set (dk_removed s))"
    by (simp_all add: dk_drop_def)
  moreover have "length (dk_keep ?s) = length (dk_keep s)" by (simp add: dk_drop_def)
  ultimately show ?thesis using I assms(3) unfolding dk_invar_def k by auto
qed

lemma dk_invar_pop:
  assumes "dk_invar L W s" and "dk_removed s = c # rest"
  shows "dk_invar L (W - set (dk_watchers s ! c))
           (s\<lparr>dk_removed := rest, dk_watchers := (dk_watchers s)[c := []]\<rparr>)"
proof -
  let ?s = "s\<lparr>dk_removed := rest, dk_watchers := (dk_watchers s)[c := []]\<rparr>"
  have k: "kept ?s = kept s" by (simp add: kept_def)
  have nth: "(dk_watchers s)[c := []] ! c' = (if c' = c then [] else dk_watchers s ! c')" if "c' < length counts" for c'
    using assms(1) that by (auto simp: dk_invar_def nth_list_update)
  have "\<exists>c' < length counts. (p, d) \<in> set (dk_watchers ?s ! c') \<and> (c' \<in> kept s \<or> c' \<in> set rest)"
    if "(p, d) \<in> W - set (dk_watchers s ! c)" "p \<in> kept s" for p d
  proof -
    from that assms obtain c' where "c' < length counts" "(p, d) \<in> set (dk_watchers s ! c')"
      "c' \<in> kept s \<or> c' = c \<or> c' \<in> set rest"
      by (auto simp: dk_invar_def)
    with that nth [of c'] show ?thesis by auto
  qed
  with assms show ?thesis unfolding dk_invar_def k by (auto simp: nth split: if_splits)
qed

lemma dk_retry_invar:
  assumes "dk_invar L W s" and "\<forall>(p, d) \<in> set ws. p < length counts \<and> d < counts ! p \<and> supports p d \<subseteq> L"
  shows "ensures (dk_retry find_candidate remove ws s) (dk_invar L (W \<union> set ws))"
  using assms
proof (induction ws arbitrary: W s)
  case Nil
  then show ?case by (simp add: ensures_ret)
next
  case (Cons pd ws)
  obtain p d where pd: "pd = (p, d)" by force
  with Cons.prems have p: "p < length counts" "d < counts ! p" "supports p d \<subseteq> L" by auto
  have I: "inv (dk_index s)" using Cons.prems by (simp add: dk_invar_def)
  have next_ok: "ensures (dk_retry find_candidate remove ws s') (dk_invar L (W \<union> set (pd # ws)))"
    if "dk_invar L (insert (p, d) W) s'" for s'
    using Cons.IH [OF that] Cons.prems(2) pd by (auto elim!: ensures_weaken intro: dk_invar_mono)
  show ?case unfolding pd dk_retry.simps
  proof (intro ensures_checked)
    show "ensures (if slice_get (dk_keep s) p \<noteq> Some True then dk_retry find_candidate remove ws s
        else bind (find_candidate (dk_index s) p d) (\<lambda>r. case r of
            Some replacement \<Rightarrow> dk_retry find_candidate remove ws (dk_watch replacement (p, d) s)
          | None \<Rightarrow> dk_retry find_candidate remove ws (dk_drop remove p s)))
        (dk_invar L (W \<union> set ((p, d) # ws)))"
    proof (cases "slice_get (dk_keep s) p = Some True")
      case False
      with Cons.prems(1) p have "p \<notin> kept s" by (auto simp: kept_def slice_get_def dk_invar_def)
      with Cons.prems(1) have "dk_invar L (insert (p, d) W) s" by (auto simp: dk_invar_def)
      with False next_ok show ?thesis by (simp add: pd)
    next
      case True
      have "dk_invar L (insert (p, d) W) (dk_drop remove p s)" if "supports p d \<inter> live (dk_index s) = {}"
        using dk_invar_drop [OF Cons.prems(1) that p] by (rule dk_invar_mono) auto
      with True next_ok dk_invar_watch [OF Cons.prems(1) _ p(1,2)] show ?thesis
        by (auto simp: pd intro!: ensures_bind [OF find_candidate [OF I p(1,2)]] split: option.splits)
    qed
  qed
qed

lemma dk_init_dependencies_invar:
  assumes "dk_invar L W s" and "p < length counts"
    and "\<forall>d \<in> set ds. d < counts ! p \<and> supports p d \<subseteq> L"
  shows "ensures (dk_init_dependencies find_candidate remove p ds s) (dk_invar L (W \<union> {p} \<times> set ds))"
  using assms
proof (induction ds arbitrary: W s)
  case Nil
  then show ?case by (simp add: ensures_ret)
next
  case (Cons d ds)
  then have d: "d < counts ! p" "supports p d \<subseteq> L" and I: "inv (dk_index s)"
    by (auto simp: dk_invar_def)
  have watched: "ensures (dk_init_dependencies find_candidate remove p ds (dk_watch c (p, d) s))
      (dk_invar L (W \<union> {p} \<times> set (d # ds)))" if "c \<in> supports p d \<inter> live (dk_index s)" for c
    using Cons.IH [OF dk_invar_watch [OF Cons.prems(1) that Cons.prems(2) d(1)]] Cons.prems
    by (auto elim!: ensures_weaken intro: dk_invar_mono)
  have dropped: "dk_invar L (W \<union> {p} \<times> set (d # ds)) (dk_drop remove p s)"
    if "supports p d \<inter> live (dk_index s) = {}"
    using dk_invar_drop [OF Cons.prems(1) that Cons.prems(2) d] by (rule dk_invar_mono) auto
  from watched dropped show ?case unfolding dk_init_dependencies.simps
    by (intro ensures_checked ensures_bind [OF find_candidate [OF I Cons.prems(2) d(1)]])
      (auto intro: ensures_ret split: option.splits)
qed

lemma dk_init_invar:
  assumes "dk_invar L W s"
    and "\<forall>(p, m) \<in> set pcs. p < length counts \<and> m = counts ! p \<and> (\<forall>d < m. supports p d \<subseteq> L)"
  shows "ensures (dk_init find_candidate remove pcs s) (dk_invar L (W \<union> {(p, d). (\<exists>m. (p, m) \<in> set pcs \<and> d < m)}))"
  using assms
proof (induction pcs arbitrary: W s)
  case Nil
  then show ?case by (simp add: ensures_ret)
next
  case (Cons pc pcs)
  obtain p m where pc: "pc = (p, m)" by force
  with Cons.prems have p: "p < length counts" "\<forall>d \<in> set [0..<m]. d < counts ! p \<and> supports p d \<subseteq> L" by auto
  have "ensures (dk_init find_candidate remove pcs s')
      (dk_invar L (W \<union> {(p, d). (\<exists>m. (p, m) \<in> set (pc # pcs) \<and> d < m)}))"
    if "dk_invar L (W \<union> {p} \<times> set [0..<m]) s'" for s'
  proof -
    have "ensures (dk_init find_candidate remove pcs s')
        (dk_invar L (W \<union> {p} \<times> set [0..<m] \<union> {(p, d). (\<exists>m. (p, m) \<in> set pcs \<and> d < m)}))"
      using Cons.IH [OF that] Cons.prems(2) by simp
    then show ?thesis by (rule ensures_weaken) (erule dk_invar_mono, auto simp: pc)
  qed
  then show ?case unfolding pc dk_init.simps
    by (intro ensures_checked ensures_bind [OF dk_init_dependencies_invar [OF Cons.prems(1) p]]) simp
qed

lemma dk_final:
  assumes "dk_invar L {(p, d). p < length counts \<and> d < counts ! p} s" and "dk_removed s = []"
  shows "dk_keep s = map (\<lambda>p. p \<in> supported_findings counts supports) [0..<length counts]"
proof -
  have "supports p d \<inter> kept s \<noteq> {}" if "p \<in> kept s" "d < counts ! p" for p d
  proof -
    have "(p, d) \<in> {(p, d). p < length counts \<and> d < counts ! p}" using that by (simp add: kept_def)
    from dk_invar_watched [OF assms(1) this that(1)] assms(2)
    obtain c where "c < length counts" "(p, d) \<in> set (dk_watchers s ! c)" "c \<in> kept s" by auto
    with dk_invar_watcher [OF assms(1)] show ?thesis by blast
  qed
  then have "self_supporting counts supports (kept s)"
    by (auto simp: self_supporting_def kept_def)
  then have "kept s = supported_findings counts supports"
    using supported_findings_greatest [of counts supports "kept s"] assms(1) by (auto simp: dk_invar_def)
  with assms(1) show ?thesis by (auto simp: dk_invar_def kept_def intro!: nth_equalityI)
qed

lemma dk_propagate_invar:
  assumes "dk_invar L {(p, d). p < length counts \<and> d < counts ! p} s"
    and L: "\<And>p d. p < length counts \<Longrightarrow> d < counts ! p \<Longrightarrow> supports p d \<subseteq> L"
  shows "yields (dk_propagate find_candidate remove s)
           (map (\<lambda>p. p \<in> supported_findings counts supports) [0..<length counts])"
  using assms(1)
proof (induction "dk_work s" arbitrary: s rule: less_induct)
  case less
  show ?case
  proof (cases "dk_removed s")
    case Nil
    then show ?thesis
      using dk_final [OF less.prems] by (subst dk_propagate.simps) (simp add: yields_ret)
  next
    case (Cons c rest)
    let ?s = "s\<lparr>dk_removed := rest, dk_watchers := (dk_watchers s)[c := []]\<rparr>"
    let ?ws = "dk_watchers s ! c" and ?W = "{(p, d). p < length counts \<and> d < counts ! p}"
    have c: "c < length counts" using less.prems Cons by (auto simp: dk_invar_def)
    have ws: "\<forall>(p, d) \<in> set ?ws. p < length counts \<and> d < counts ! p \<and> supports p d \<subseteq> L"
      using dk_invar_watcher [OF less.prems c] L by blast
    have "ensures (dk_retry find_candidate remove ?ws ?s) (dk_invar L ?W)"
      using dk_retry_invar [OF dk_invar_pop [OF less.prems Cons] ws]
      by (rule ensures_weaken) (auto intro: dk_invar_mono)
    moreover have "dk_work s' < dk_work s" if "dk_retry find_candidate remove ?ws ?s cc t = Inr (s', t')" for s' cc t t'
      using dk_work_retry [OF that] Cons by (simp add: dk_work_def)
    ultimately show ?thesis using less.hyps
      by (subst dk_propagate.simps) (simp add: Cons yields_ensures ensures_checked ensures_bind)
  qed
qed

theorem dependency_keep_supported:
  assumes "inv t" and L: "\<And>p d. p < length counts \<Longrightarrow> d < counts ! p \<Longrightarrow> supports p d \<subseteq> live t"
    and "live t \<subseteq> {..<length counts}"
  shows "yields (dependency_keep counts t find_candidate remove)
           (map (\<lambda>p. p \<in> supported_findings counts supports) [0..<length counts])"
proof -
  let ?s = "\<lparr>dk_keep = replicate (length counts) True, dk_watchers = replicate (length counts) [],
          dk_removed = [], dk_index = t\<rparr>"
  have "kept ?s = {..<length counts}" by (auto simp: kept_def)
  then have "dk_invar (live t) {} ?s"
    using assms supported_findings_self_supporting [of counts supports]
    by (auto simp: dk_invar_def self_supporting_def)
  moreover have "\<forall>(p, m) \<in> set (enumerate 0 counts).
      p < length counts \<and> m = counts ! p \<and> (\<forall>d < m. supports p d \<subseteq> live t)"
    using L by (fastforce simp: in_set_enumerate_eq)
  ultimately have "ensures (dk_init find_candidate remove (enumerate 0 counts) ?s)
      (dk_invar (live t) ({} \<union> {(p, d). (\<exists>m. (p, m) \<in> set (enumerate 0 counts) \<and> d < m)}))"
    by (rule dk_init_invar)
  moreover have "{(p, d). (\<exists>m. (p, m) \<in> set (enumerate 0 counts) \<and> d < m)} =
      {(p, d). p < length counts \<and> d < counts ! p}"
    by (auto simp: in_set_enumerate_eq)
  ultimately have "ensures (dk_init find_candidate remove (enumerate 0 counts) ?s)
      (dk_invar (live t) {(p, d). p < length counts \<and> d < counts ! p})" by simp
  then show ?thesis
    unfolding dependency_keep_def yields_ensures
    by (rule ensures_bind) (rule dk_propagate_invar [OF _ L, unfolded yields_ensures])
qed

end

end
