(* ===== verification/Component_Window.thy ===== *)
theory Component_Window
  imports Location
begin

text \<open>
  Proximity windows between a finding and its required components:
  \<open>ComponentWindow\<close> of \<open>crates/kingfisher-scanner/src/postprocess.rs\<close> (byte spans and line starts)
  and \<open>FindingWindow\<close> of \<open>crates/kingfisher-scanner/src/scanner.rs\<close> (line and column locations).
  The theory shows that the candidate range searched in an index covers the window, and that the
  two window parsers agree.
\<close>

section \<open>Machine integers and strings\<close>

definition usize_max :: nat where
  "usize_max = 2 ^ 64 - 1"

definition saturating_add :: "nat \<Rightarrow> nat \<Rightarrow> nat" where
  "saturating_add a b = min usize_max (a + b)"

fun digits_value :: "nat \<Rightarrow> bytes \<Rightarrow> nat" where
  "digits_value acc [] = acc"
| "digits_value acc (b # bs) = digits_value (acc * 10 + (byte_val b - 48)) bs"

text \<open>\<open>str::parse::<usize>\<close>: an optional plus sign, then digits; empty and overflowing input fails.\<close>

definition parse_usize :: "bytes \<Rightarrow> nat option" where
  "parse_usize s =
     (let digits = (case s of [] \<Rightarrow> [] | b # rest \<Rightarrow> if b = CHR ''+'' then rest else s) in
      if digits \<noteq> [] \<and> list_all is_ascii_digit digits \<and> digits_value 0 digits \<le> usize_max
      then Some (digits_value 0 digits) else None)"

fun split_on :: "byte \<Rightarrow> bytes \<Rightarrow> bytes list" where
  "split_on sep [] = [[]]"
| "split_on sep (b # bs) =
     (if b = sep then [] # split_on sep bs
      else (b # hd (split_on sep bs)) # tl (split_on sep bs))"

section \<open>\<open>ComponentWindow\<close>\<close>

record component_window =
  cols_before :: nat
  cols_after :: nat
  lines_before :: nat
  lines_after :: nat
  has_lines :: bool
  unbounded :: bool

definition window_default :: component_window where
  "window_default = \<lparr>cols_before = 0, cols_after = 0, lines_before = 0, lines_after = 0,
     has_lines = False, unbounded = False\<rparr>"

definition token_direction :: "bytes \<Rightarrow> byte \<times> bytes" where
  "token_direction token =
     (case token of
        b # rest \<Rightarrow> if b = CHR ''+'' \<or> b = CHR ''-'' then (b, rest) else (CHR '' '', token)
      | [] \<Rightarrow> (CHR '' '', token))"

definition token_amount :: "bytes \<Rightarrow> bytes \<times> bool" where
  "token_amount amount_and_unit =
     (if amount_and_unit \<noteq> [] \<and> last amount_and_unit \<in> {CHR ''L'', CHR ''l''} then (butlast amount_and_unit, True)
      else if amount_and_unit \<noteq> [] \<and> last amount_and_unit \<in> {CHR ''C'', CHR ''c''} then (butlast amount_and_unit, False)
      else (amount_and_unit, False))"

definition window_token :: "bytes \<Rightarrow> component_window \<Rightarrow> component_window option" where
  "window_token token window =
     (case token_direction token of (direction, amount_and_unit) \<Rightarrow>
      case token_amount amount_and_unit of (amount, is_lines) \<Rightarrow>
      case parse_usize amount of
        None \<Rightarrow> None
      | Some amount \<Rightarrow>
          Some (if is_lines then
            let amount = amount - 1;
                window = window\<lparr>has_lines := True\<rparr>;
                window = (if direction \<noteq> CHR ''+''
                          then window\<lparr>lines_before := max (lines_before window) amount\<rparr> else window)
            in if direction \<noteq> CHR ''-''
               then window\<lparr>lines_after := max (lines_after window) amount\<rparr> else window
          else
            let window = (if direction \<noteq> CHR ''+''
                          then window\<lparr>cols_before := max (cols_before window) amount\<rparr> else window)
            in if direction \<noteq> CHR ''-''
               then window\<lparr>cols_after := max (cols_after window) amount\<rparr> else window))"

fun window_tokens :: "bytes list \<Rightarrow> component_window \<Rightarrow> component_window option" where
  "window_tokens [] window = Some window"
| "window_tokens (token # rest) window =
     (case window_token (str_trim token) window of
        None \<Rightarrow> None
      | Some window' \<Rightarrow> window_tokens rest window')"

definition parse_component_window :: "bytes \<Rightarrow> component_window option" where
  "parse_component_window value =
     (let value = str_trim value in
      if value = [] \<or> value = ''0'' then Some (window_default\<lparr>unbounded := True\<rparr>)
      else window_tokens (split_on (CHR '','') value) window_default)"

definition line_of :: "nat list \<Rightarrow> nat \<Rightarrow> nat" where
  "line_of line_starts offset = partition_point (\<lambda>start. start \<le> offset) line_starts - 1"

text \<open>\<open>line_starts.get(i).copied().unwrap_or(default)\<close>\<close>

definition get_or :: "nat list \<Rightarrow> nat \<Rightarrow> nat \<Rightarrow> nat" where
  "get_or xs i other = (case slice_get xs i of Some x \<Rightarrow> x | None \<Rightarrow> other)"

definition column_of :: "nat list \<Rightarrow> nat \<Rightarrow> nat" where
  "column_of line_starts offset = offset - get_or line_starts (line_of line_starts offset) 0"

definition component_is_within_window ::
  "nat \<Rightarrow> nat list \<Rightarrow> offset_span \<Rightarrow> offset_span \<Rightarrow> component_window \<Rightarrow> bool" where
  "component_is_within_window blen line_starts primary component window =
     (if unbounded window then True
      else if \<not> has_lines window then
        os_start primary - cols_before window \<le> os_start component \<and>
        os_start component < min (saturating_add (os_end primary) (cols_after window)) blen
      else
        let primary_start_line = line_of line_starts (os_start primary);
            primary_end_line = line_of line_starts (os_end primary);
            component_line = line_of line_starts (os_start component)
        in if component_line < primary_start_line - lines_before window \<or>
              saturating_add primary_end_line (lines_after window) < component_line then False
           else if primary_start_line = primary_end_line \<and> (0 < cols_before window \<or> 0 < cols_after window) then
             let component_column = column_of line_starts (os_start component)
             in column_of line_starts (os_start primary) - cols_before window \<le> component_column \<and>
                component_column < saturating_add (column_of line_starts (os_end primary)) (cols_after window)
           else True)"

definition component_is_within ::
  "bytes \<Rightarrow> nat list \<Rightarrow> offset_span \<Rightarrow> offset_span \<Rightarrow> bytes \<Rightarrow> bool" where
  "component_is_within bs line_starts primary component within =
     (case parse_component_window within of
        None \<Rightarrow> False
      | Some window \<Rightarrow> component_is_within_window (length bs) line_starts primary component window)"

text \<open>The half-open range of candidate offsets, as a pair.\<close>

definition component_candidate_range_with_window ::
  "nat \<Rightarrow> nat list \<Rightarrow> offset_span \<Rightarrow> component_window \<Rightarrow> nat \<times> nat" where
  "component_candidate_range_with_window blen line_starts primary window =
     (if unbounded window then (0, usize_max)
      else if \<not> has_lines window then
        (os_start primary - cols_before window,
         min (saturating_add (os_end primary) (cols_after window)) blen)
      else
        let primary_start_line = line_of line_starts (os_start primary);
            primary_end_line = line_of line_starts (os_end primary);
            first = primary_start_line - lines_before window;
            after = saturating_add (saturating_add primary_end_line (lines_after window)) 1;
            start = get_or line_starts first blen;
            stop = get_or line_starts after (saturating_add blen 1)
        in if primary_start_line = primary_end_line \<and> (0 < cols_before window \<or> 0 < cols_after window) \<and>
              min after (length line_starts) = saturating_add first 1
           then (max start (os_start primary - cols_before window),
                 min stop (saturating_add (os_end primary) (cols_after window)))
           else (start, stop))"

definition component_candidate_range ::
  "nat \<Rightarrow> nat list \<Rightarrow> offset_span \<Rightarrow> bytes option \<Rightarrow> nat \<times> nat" where
  "component_candidate_range blen line_starts primary within =
     (case parse_component_window (case within of None \<Rightarrow> [] | Some w \<Rightarrow> w) of
        None \<Rightarrow> (0, 0)
      | Some window \<Rightarrow> component_candidate_range_with_window blen line_starts primary window)"

definition in_range :: "nat \<Rightarrow> nat \<times> nat \<Rightarrow> bool" where
  "in_range x r \<longleftrightarrow> fst r \<le> x \<and> x < snd r"

section \<open>\<open>FindingWindow\<close>\<close>

record finding_location =
  start_offset :: nat
  end_offset :: nat
  fl_line :: nat
  fl_column :: nat
  end_line :: nat
  end_column :: nat

datatype finding_window =
    Any
  | Invalid
  | Offsets "nat \<times> nat"
  | Lines "nat \<times> nat" "(nat \<times> nat) option"

text \<open>The four locals of the parser: columns before and after, lines before and after.\<close>

record window_bounds =
  wb_cols_before :: nat
  wb_cols_after :: nat
  wb_lines_before :: "nat option"
  wb_lines_after :: "nat option"

definition max_with :: "nat option \<Rightarrow> nat \<Rightarrow> nat option" where
  "max_with old amount = Some (max (case old of None \<Rightarrow> 0 | Some n \<Rightarrow> n) amount)"

definition strip_unit :: "bytes \<Rightarrow> bytes" where
  "strip_unit s = (if s \<noteq> [] \<and> last s \<in> {CHR ''L'', CHR ''l'', CHR ''C'', CHR ''c''} then butlast s else s)"

fun bounds_tokens :: "bytes list \<Rightarrow> window_bounds \<Rightarrow> window_bounds option" where
  "bounds_tokens [] b = Some b"
| "bounds_tokens (token # rest) b =
     (case token_direction (str_trim token) of (direction, amount_and_unit) \<Rightarrow>
      let is_lines = (amount_and_unit \<noteq> [] \<and> last amount_and_unit \<in> {CHR ''L'', CHR ''l''}) in
      case parse_usize (strip_unit amount_and_unit) of
        None \<Rightarrow> None
      | Some amount \<Rightarrow>
          bounds_tokens rest
            (if is_lines then
               let amount = amount - 1;
                   b = (if direction \<noteq> CHR ''+'' then b\<lparr>wb_lines_before := max_with (wb_lines_before b) amount\<rparr> else b)
               in if direction \<noteq> CHR ''-'' then b\<lparr>wb_lines_after := max_with (wb_lines_after b) amount\<rparr> else b
             else
               let b = (if direction \<noteq> CHR ''+'' then b\<lparr>wb_cols_before := max (wb_cols_before b) amount\<rparr> else b)
               in if direction \<noteq> CHR ''-'' then b\<lparr>wb_cols_after := max (wb_cols_after b) amount\<rparr> else b))"

definition or_zero :: "nat option \<Rightarrow> nat" where
  "or_zero x = (case x of None \<Rightarrow> 0 | Some n \<Rightarrow> n)"

definition finding_window_parse :: "finding_location \<Rightarrow> bytes \<Rightarrow> finding_window" where
  "finding_window_parse primary within =
     (let within = str_trim within in
      if within = [] \<or> within = ''0'' then Any
      else case bounds_tokens (split_on (CHR '','') within)
             \<lparr>wb_cols_before = 0, wb_cols_after = 0, wb_lines_before = None, wb_lines_after = None\<rparr> of
        None \<Rightarrow> Invalid
      | Some b \<Rightarrow>
          if wb_lines_before b = None \<and> wb_lines_after b = None then
            Offsets (start_offset primary - wb_cols_before b,
                     saturating_add (end_offset primary) (wb_cols_after b))
          else
            Lines
              (fl_line primary - or_zero (wb_lines_before b),
               saturating_add (saturating_add (end_line primary) (or_zero (wb_lines_after b))) 1)
              (if fl_line primary = end_line primary \<and> (0 < wb_cols_before b \<or> 0 < wb_cols_after b)
               then Some (fl_column primary - wb_cols_before b,
                          saturating_add (end_column primary) (wb_cols_after b))
               else None))"

fun contains_location :: "finding_window \<Rightarrow> finding_location \<Rightarrow> bool" where
  "contains_location Any component \<longleftrightarrow> True"
| "contains_location Invalid component \<longleftrightarrow> False"
| "contains_location (Offsets r) component \<longleftrightarrow> in_range (start_offset component) r"
| "contains_location (Lines lines columns) component \<longleftrightarrow>
     in_range (fl_line component) lines \<and>
     (case columns of None \<Rightarrow> True | Some r \<Rightarrow> in_range (fl_column component) r)"

section \<open>Line starts\<close>

definition line_starts_of :: "bytes \<Rightarrow> nat list" where
  "line_starts_of bs = 0 # map Suc (memchr_iter newline bs)"

definition starts_ok :: "nat \<Rightarrow> nat list \<Rightarrow> bool" where
  "starts_ok blen ls \<longleftrightarrow> ls \<noteq> [] \<and> ls ! 0 = 0 \<and> sorted ls \<and> (\<forall>s \<in> set ls. s \<le> blen)"

lemma line_of_facts:
  assumes "starts_ok n ls"
  shows "line_of ls off < length ls"
    and "j \<le> line_of ls off \<Longrightarrow> ls ! j \<le> off"
    and "line_of ls off < j \<Longrightarrow> j < length ls \<Longrightarrow> off < ls ! j"
proof -
  let ?P = "\<lambda>start. start \<le> off"
  define k where "k = length (takeWhile ?P ls)"
  have line: "line_of ls off = k - 1" by (simp add: line_of_def partition_point_def k_def)
  have "0 < k" using assms unfolding k_def starts_ok_def by (cases ls) auto
  have kn: "k \<le> length ls" by (simp add: k_def length_takeWhile_le)
  then show "line_of ls off < length ls" using \<open>0 < k\<close> line by simp
  have below: "ls ! j \<le> off" if "j < k" for j
    using that set_takeWhileD [of "ls ! j" ?P ls] unfolding k_def by (metis nth_mem takeWhile_nth)
  then show "j \<le> line_of ls off \<Longrightarrow> ls ! j \<le> off" using \<open>0 < k\<close> line by simp
  show "off < ls ! j" if "line_of ls off < j" "j < length ls"
  proof -
    have "k \<le> j" using that line by simp
    then have "k < length ls" using that by simp
    then have "\<not> ?P (ls ! k)" unfolding k_def by (rule nth_length_takeWhile)
    moreover have "ls ! k \<le> ls ! j" using assms \<open>k \<le> j\<close> that by (simp add: starts_ok_def sorted_nth_mono)
    ultimately show ?thesis by simp
  qed
qed

lemma get_or_nth: "i < length xs \<Longrightarrow> get_or xs i other = xs ! i"
  by (simp add: get_or_def slice_get_def)

lemma get_or_other: "length xs \<le> i \<Longrightarrow> get_or xs i other = other"
  by (simp add: get_or_def slice_get_def)

lemma starts_ok_line_starts_of: "starts_ok (length bs) (line_starts_of bs)"
proof -
  have "sorted (map Suc (memchr_iter newline bs))"
    by (rule sorted_wrt_mono_rel [rotated, where P = "(<)"])
      (use sorted_memchr_from [of 0 newline bs] in \<open>simp_all add: sorted_wrt_map\<close>)
  then show ?thesis by (auto simp: starts_ok_def line_starts_of_def slice_simps)
qed

section \<open>The candidate range covers the window\<close>

lemma window_line_range:
  assumes ok: "starts_ok blen ls" and "blen < usize_max" and "off \<le> blen" and "length ls \<le> usize_max"
    and lines: "first \<le> line_of ls off" "line_of ls off \<le> saturating_add l k"
  shows "get_or ls first blen \<le> off"
    and "off < get_or ls (saturating_add (saturating_add l k) 1) (saturating_add blen 1)"
proof -
  note line = line_of_facts [OF ok, where off = off]
  have "first < length ls" using lines(1) line(1) by simp
  then show "get_or ls first blen \<le> off" using lines(1) line(2) by (simp add: get_or_nth)
  let ?after = "saturating_add (saturating_add l k) 1"
  show "off < get_or ls ?after (saturating_add blen 1)"
  proof (cases "?after < length ls")
    case True
    then have "line_of ls off < ?after"
      using lines(2) line(1) assms(4) by (auto simp: saturating_add_def)
    with True line(3) show ?thesis by (simp add: get_or_nth)
  next
    case False
    then have "get_or ls ?after (saturating_add blen 1) = saturating_add blen 1"
      by (simp add: get_or_other not_less)
    moreover have "off < saturating_add blen 1" using assms(2,3) by (simp add: saturating_add_def)
    ultimately show ?thesis by simp
  qed
qed

lemma column_window_range:
  assumes ok: "starts_ok blen ls" and "off \<le> blen" and "blen < usize_max"
    and "line_of ls off = line_of ls ps" "line_of ls pe = line_of ls ps"
    and "column_of ls ps - cb \<le> column_of ls off"
    and "column_of ls off < saturating_add (column_of ls pe) ca"
  shows "ps - cb \<le> off" and "off < saturating_add pe ca"
proof -
  let ?s = "ls ! line_of ls ps"
  have s: "?s \<le> off" "?s \<le> ps" "?s \<le> pe"
    using line_of_facts(2) [OF ok, of _ off] line_of_facts(2) [OF ok, of _ ps]
      line_of_facts(2) [OF ok, of _ pe] assms(4,5) by (metis le_refl)+
  have "column_of ls off = off - ?s" "column_of ls ps = ps - ?s" "column_of ls pe = pe - ?s"
    using assms(4,5) line_of_facts(1) [OF ok] by (simp_all add: column_of_def get_or_nth)
  with s assms(2,3,6,7) show "ps - cb \<le> off" "off < saturating_add pe ca"
    by (auto simp: saturating_add_def)
qed

lemma single_line_window:
  assumes ok: "starts_ok blen ls" and "length ls \<le> usize_max" and "l < length ls"
    and single: "min (saturating_add (saturating_add l k) 1) (length ls) = saturating_add (l - lb) 1"
    and lines: "l - lb \<le> m" "m \<le> saturating_add l k" "m < length ls"
  shows "m = l"
  using assms(2-) by (auto simp: saturating_add_def min_def split: if_splits)

lemma within_window_in_range:
  assumes ok: "starts_ok blen ls" and blen: "blen < usize_max" and len: "length ls \<le> usize_max"
    and off: "os_start component \<le> blen"
    and within: "component_is_within_window blen ls primary component window"
  shows "in_range (os_start component) (component_candidate_range_with_window blen ls primary window)"
proof (cases "unbounded window \<or> \<not> has_lines window")
  case True
  with within off blen show ?thesis
    by (auto simp: component_is_within_window_def component_candidate_range_with_window_def in_range_def)
next
  case False
  let ?o = "os_start component" and ?ps = "os_start primary" and ?pe = "os_end primary"
  let ?l = "line_of ls" and ?k = "lines_after window" and ?lb = "lines_before window"
  let ?cols = "?l ?ps = ?l ?pe \<and> (0 < cols_before window \<or> 0 < cols_after window)"
  let ?after = "saturating_add (saturating_add (?l ?pe) ?k) 1"
  have lines: "?l ?ps - ?lb \<le> ?l ?o" "?l ?o \<le> saturating_add (?l ?pe) ?k"
    and cols: "?cols \<Longrightarrow> column_of ls ?ps - cols_before window \<le> column_of ls ?o \<and>
      column_of ls ?o < saturating_add (column_of ls ?pe) (cols_after window)"
    using within False by (auto simp: component_is_within_window_def Let_def split: if_splits)
  note r = window_line_range [OF ok blen off len lines]
  have "?ps - cols_before window \<le> ?o \<and> ?o < saturating_add ?pe (cols_after window)"
    if c: ?cols and single: "min ?after (length ls) = saturating_add (?l ?ps - ?lb) 1"
  proof -
    have "?l ?o = ?l ?ps"
      using single_line_window [OF ok len, of "?l ?ps" ?k ?lb "?l ?o"] line_of_facts(1) [OF ok]
        c single lines by simp
    moreover have "?l ?pe = ?l ?ps" using c by simp
    ultimately show ?thesis using column_window_range [OF ok off blen] cols [OF c] by blast
  qed
  with r False show ?thesis
    by (cases "?cols \<and> min ?after (length ls) = saturating_add (?l ?ps - ?lb) 1")
      (auto simp: component_candidate_range_with_window_def in_range_def Let_def)
qed

text \<open>
  C29. The contiguous range of offsets searched for components contains every component the window
  accepts, for every window, primary span and component start inside the input: narrowing the
  search to the range loses no component.
\<close>

theorem component_range_covers_window:
  assumes "length bs < usize_max" and "os_start component \<le> length bs"
    and "component_is_within_window (length bs) (line_starts_of bs) primary component window"
  shows "in_range (os_start component)
           (component_candidate_range_with_window (length bs) (line_starts_of bs) primary window)"
proof -
  have "count_list bs newline \<le> length bs" by (rule count_le_length)
  then have "length (line_starts_of bs) \<le> usize_max"
    using assms(1) by (simp add: line_starts_of_def slice_simps)
  then show ?thesis using within_window_in_range [OF starts_ok_line_starts_of] assms by blast
qed

definition sample_window :: component_window where
  "sample_window = \<lparr>cols_before = 4, cols_after = 9, lines_before = 1, lines_after = 0,
     has_lines = True, unbounded = False\<rparr>"

theorem component_range_covers_window_witness:
  "in_range 2 (component_candidate_range_with_window (length ''ab
cd'') (line_starts_of ''ab
cd'')
     (from_offsets 3 5) sample_window)"
  using component_range_covers_window [of "''ab
cd''" "from_offsets 2 3" "from_offsets 3 5" sample_window]
  by (simp add: usize_max_def sample_window_def from_offsets_def component_is_within_window_def
      line_of_def line_starts_of_def newline_def partition_point_def saturating_add_def column_of_def
      get_or_def slice_get_def)

section \<open>The two window parsers agree\<close>

definition bounds_of :: "component_window \<Rightarrow> window_bounds \<Rightarrow> bool" where
  "bounds_of w b \<longleftrightarrow>
     cols_before w = wb_cols_before b \<and> cols_after w = wb_cols_after b \<and>
     lines_before w = or_zero (wb_lines_before b) \<and> lines_after w = or_zero (wb_lines_after b) \<and>
     (has_lines w \<longleftrightarrow> wb_lines_before b \<noteq> None \<or> wb_lines_after b \<noteq> None) \<and> \<not> unbounded w"

lemma token_amount_strip:
  "token_amount s = (strip_unit s, s \<noteq> [] \<and> last s \<in> {CHR ''L'', CHR ''l''})"
  by (auto simp: token_amount_def strip_unit_def)

lemma or_zero_max_with [simp]: "or_zero (max_with old n) = max (or_zero old) n"
  by (simp add: or_zero_def max_with_def)

lemma max_with_not_None [simp]: "max_with old n \<noteq> None"
  by (simp add: max_with_def)

lemma rel_option_window_tokens:
  "bounds_of w b \<Longrightarrow> rel_option bounds_of (window_tokens tokens w) (bounds_tokens tokens b)"
proof (induction tokens arbitrary: w b)
  case Nil
  then show ?case by simp
next
  case (Cons token rest)
  obtain dir amount where d: "token_direction (str_trim token) = (dir, amount)" by force
  show ?case
  proof (cases "parse_usize (strip_unit amount)")
    case None
    then show ?thesis by (simp add: window_token_def d token_amount_strip)
  next
    case (Some n)
    define isl where "isl \<longleftrightarrow> amount \<noteq> [] \<and> last amount \<in> {CHR ''L'', CHR ''l''}"
    have amt: "token_amount amount = (strip_unit amount, isl)" by (simp add: token_amount_strip isl_def)
    have rec: "bounds_tokens (token # rest) b = bounds_tokens rest
        (if isl then
           let b = (if dir \<noteq> CHR ''+'' then b\<lparr>wb_lines_before := max_with (wb_lines_before b) (n - 1)\<rparr> else b)
           in if dir \<noteq> CHR ''-'' then b\<lparr>wb_lines_after := max_with (wb_lines_after b) (n - 1)\<rparr> else b
         else
           let b = (if dir \<noteq> CHR ''+'' then b\<lparr>wb_cols_before := max (wb_cols_before b) n\<rparr> else b)
           in if dir \<noteq> CHR ''-'' then b\<lparr>wb_cols_after := max (wb_cols_after b) n\<rparr> else b)"
      (is "_ = bounds_tokens rest ?B")
      by (simp only: bounds_tokens.simps d prod.case Let_def Some option.case isl_def)
    obtain w' where w': "window_token (str_trim token) w = Some w'" and "bounds_of w' ?B"
      using Cons.prems
      by (cases isl; cases "dir = CHR ''+''"; cases "dir = CHR ''-''")
        (fastforce simp: window_token_def d amt Some Let_def bounds_of_def)+
    with Cons.IH [of w' ?B] rec show ?thesis by simp
  qed
qed

text \<open>
  C39. The location-based parser reads the same window out of a \<open>within\<close> clause as the span-based one:
  it is invalid, unbounded, a byte range or a line range in the same cases and with the same amounts.
\<close>

theorem finding_window_parse_agrees:
  "finding_window_parse primary within =
     (case parse_component_window within of
        None \<Rightarrow> Invalid
      | Some w \<Rightarrow>
          if unbounded w then Any
          else if has_lines w then
            Lines (fl_line primary - lines_before w,
                   saturating_add (saturating_add (end_line primary) (lines_after w)) 1)
              (if fl_line primary = end_line primary \<and> (0 < cols_before w \<or> 0 < cols_after w)
               then Some (fl_column primary - cols_before w,
                          saturating_add (end_column primary) (cols_after w))
               else None)
          else Offsets (start_offset primary - cols_before w,
                        saturating_add (end_offset primary) (cols_after w)))"
proof (cases "str_trim within = [] \<or> str_trim within = ''0''")
  case True
  then show ?thesis
    by (auto simp: finding_window_parse_def parse_component_window_def window_default_def Let_def)
next
  case False
  let ?b = "\<lparr>wb_cols_before = 0, wb_cols_after = 0, wb_lines_before = None, wb_lines_after = None\<rparr>"
  let ?ts = "split_on (CHR '','') (str_trim within)"
  have "bounds_of window_default ?b" by (simp add: bounds_of_def window_default_def or_zero_def)
  then have "rel_option bounds_of (window_tokens ?ts window_default) (bounds_tokens ?ts ?b)"
    by (rule rel_option_window_tokens)
  then show ?thesis using False
    by (cases rule: option.rel_cases)
      (auto simp: finding_window_parse_def parse_component_window_def bounds_of_def Let_def)
qed

end
