(* ===== verification/Component_Index.thy ===== *)
theory Component_Index
  imports Components Component_Window "HOL-Library.Product_Lexorder"
begin

text \<open>
  Enforcement of required components: the rules and findings it reads, the position index
  \<open>RuleMatchIndex\<close> of \<open>postprocess.rs\<close>, and \<open>enforce_betterleaks_components\<close> of \<open>scanner.rs\<close>, which
  instantiates the propagation of theory \<open>Components\<close> with two position indexes.
\<close>

section \<open>Rules and findings\<close>

text \<open>The validators; what a validator carries is not read by the code modelled here.\<close>

datatype validation =
    Assumed | AWS | AzureStorage | Coinbase | GCP | MongoDB | MySQL | Postgres | Jdbc
  | CredentialUri | JWT | Ethereum | Raw bytes | Betterleaks | Http | Grpc

record depends_on_rule =
  dep_verify_candidates :: bool
  dep_rule_id :: bytes
  dep_variable :: bytes
  dep_optional :: bool
  dep_within :: "bytes option"

text \<open>What post-processing reads of a rule.\<close>

record rule =
  rl_id :: bytes
  rl_visible :: bool
  rl_specificity :: int
  rl_validation :: "validation option"
  rl_depends_on :: "depends_on_rule option list"

record scan_finding =
  sf_rule :: rule
  sf_rule_id :: bytes
  sf_location :: finding_location
  sf_secret :: bytes
  sf_association_span :: offset_span
  sf_secret_span :: offset_span

text \<open>\<open>findings.retain\<close> with a counter into \<open>keep\<close>\<close>

definition retain :: "bool list \<Rightarrow> 'a list \<Rightarrow> 'a list" where
  "retain keep xs = map snd (filter fst (zip keep xs))"

section \<open>\<open>RuleMatchIndex\<close>\<close>

text \<open>A \<open>BTreeSet\<close> of pairs as its ascending list.\<close>

type_synonym rule_match_index = "bytes \<rightharpoonup> (nat \<times> nat) list"

definition rmi_insert :: "rule_match_index \<Rightarrow> bytes \<times> nat \<times> nat \<Rightarrow> rule_match_index" where
  "rmi_insert ix e =
     (case e of (rule, position, finding) \<Rightarrow>
        ix(rule \<mapsto> insort_insert (position, finding) (case ix rule of None \<Rightarrow> [] | Some ps \<Rightarrow> ps)))"

definition rmi_new :: "(bytes \<times> nat \<times> nat) list \<Rightarrow> rule_match_index" where
  "rmi_new entries = foldl rmi_insert Map.empty entries"

definition candidates :: "rule_match_index \<Rightarrow> bytes \<Rightarrow> nat \<times> nat \<Rightarrow> (nat \<times> nat) list" where
  "candidates ix rule r =
     (let stop = max (snd r) (fst r) in
      case ix rule of
        None \<Rightarrow> []
      | Some positions \<Rightarrow> filter (\<lambda>p. (fst r, 0) \<le> p \<and> p < (stop, 0)) positions)"

definition rmi_remove :: "rule_match_index \<Rightarrow> bytes \<Rightarrow> nat \<Rightarrow> nat \<Rightarrow> rule_match_index" where
  "rmi_remove ix rule position finding =
     (case ix rule of
        None \<Rightarrow> ix
      | Some positions \<Rightarrow> ix(rule \<mapsto> removeAll (position, finding) positions))"

section \<open>\<open>enforce_betterleaks_components\<close>\<close>

definition required :: "depends_on_rule \<Rightarrow> bool" where
  "required d \<longleftrightarrow> \<not> dep_optional d \<and> dep_within d \<noteq> None"

definition flatten :: "'a option list \<Rightarrow> 'a list" where
  "flatten xs = List.map_filter id xs"

definition dependencies :: "scan_finding \<Rightarrow> depends_on_rule list" where
  "dependencies primary = filter required (flatten (rl_depends_on (sf_rule primary)))"

text \<open>\<open>bytes.chunks(n).enumerate()\<close> and the newline search in each chunk.\<close>

function chunks :: "nat \<Rightarrow> 'a list \<Rightarrow> 'a list list" where
  "chunks n xs = (if n = 0 \<or> xs = [] then [] else take n xs # chunks n (drop n xs))"
  by pat_completeness auto
termination by (relation "measure (\<lambda>(n, xs). length xs)") auto

declare chunks.simps [simp del]

definition chunk_size :: nat where
  "chunk_size = 64 * 1024"

fun collect_line_starts :: "nat \<Rightarrow> bytes list \<Rightarrow> nat list \<Rightarrow> nat list ctl" where
  "collect_line_starts chunk [] line_starts = ret line_starts"
| "collect_line_starts chunk (data # rest) line_starts =
     checked (collect_line_starts (chunk + 1) rest
       (line_starts @ map (\<lambda>offset. chunk * chunk_size + offset + 1) (memchr_iter newline data)))"

definition association_start :: "bool \<Rightarrow> scan_finding \<Rightarrow> nat" where
  "association_start cli_match_semantics f =
     (if cli_match_semantics then os_start (sf_association_span f) else start_offset (sf_location f))"

definition offsets_index :: "bool \<Rightarrow> scan_finding list \<Rightarrow> rule_match_index" where
  "offsets_index cli findings =
     rmi_new (map (\<lambda>(index, f). (sf_rule_id f, association_start cli f, index)) (enumerate 0 findings))"

definition lines_index :: "scan_finding list \<Rightarrow> rule_match_index" where
  "lines_index findings =
     rmi_new (map (\<lambda>(index, f). (sf_rule_id f, fl_line (sf_location f), index)) (enumerate 0 findings))"

text \<open>The index searched (\<open>True\<close> for the one by offsets) and the range of positions searched in it.\<close>

definition search_range ::
  "bool \<Rightarrow> bytes \<Rightarrow> nat list \<Rightarrow> scan_finding \<Rightarrow> bytes \<Rightarrow> bool \<times> nat \<times> nat" where
  "search_range cli bs line_starts primary within =
     (if cli then
        (True, case parse_component_window within of
                 None \<Rightarrow> (0, 0)
               | Some window \<Rightarrow> component_candidate_range_with_window (length bs) line_starts
                   (sf_association_span primary) window)
      else
        case finding_window_parse (sf_location primary) within of
          Offsets r \<Rightarrow> (True, r)
        | Lines r columns \<Rightarrow>
            (case columns of
               Some cols \<Rightarrow>
                 if min (snd r) (saturating_add (length line_starts) 1) = saturating_add (max (fst r) 1) 1 then
                   let start = line_starts ! (max (fst r) 1 - 1)
                   in (True, saturating_add start (fst cols), saturating_add start (snd cols))
                 else (False, r)
             | None \<Rightarrow> (False, r))
        | Any \<Rightarrow> (True, 0, usize_max)
        | Invalid \<Rightarrow> (True, 0, 0))"

definition is_component ::
  "bool \<Rightarrow> bytes \<Rightarrow> nat list \<Rightarrow> scan_finding \<Rightarrow> bytes \<Rightarrow> scan_finding \<Rightarrow> bool" where
  "is_component cli bs line_starts primary within candidate =
     (if cli then
        (case parse_component_window within of
           None \<Rightarrow> False
         | Some window \<Rightarrow> component_is_within_window (length bs) line_starts
             (sf_association_span primary) (sf_association_span candidate) window)
      else contains_location (finding_window_parse (sf_location primary) within) (sf_location candidate))"

fun first_component :: "(nat \<Rightarrow> bool) \<Rightarrow> (nat \<times> nat) list \<Rightarrow> nat option ctl" where
  "first_component accept [] = ret None"
| "first_component accept ((_, candidate) # rest) =
     checked (if accept candidate then ret (Some candidate) else first_component accept rest)"

definition find_component ::
  "bool \<Rightarrow> bytes \<Rightarrow> nat list \<Rightarrow> scan_finding list \<Rightarrow> (rule_match_index \<times> rule_match_index) finder" where
  "find_component cli bs line_starts findings indexes primary_index dependency_index =
     (let primary = findings ! primary_index;
          dependency = dependencies primary ! dependency_index;
          within = the (dep_within dependency);
          (by_offset, r) = search_range cli bs line_starts primary within;
          index = (if by_offset then fst indexes else snd indexes)
      in first_component
           (\<lambda>candidate. is_component cli bs line_starts primary within (findings ! candidate))
           (candidates index (dep_rule_id dependency) r))"

definition remove_component ::
  "bool \<Rightarrow> scan_finding list \<Rightarrow> rule_match_index \<times> rule_match_index \<Rightarrow> nat \<Rightarrow>
   rule_match_index \<times> rule_match_index" where
  "remove_component cli findings indexes primary_index =
     (let primary = findings ! primary_index in
      (rmi_remove (fst indexes) (sf_rule_id primary) (association_start cli primary) primary_index,
       rmi_remove (snd indexes) (sf_rule_id primary) (fl_line (sf_location primary)) primary_index))"

definition dependency_counts :: "scan_finding list \<Rightarrow> nat list" where
  "dependency_counts findings = map (\<lambda>f. length (dependencies f)) findings"

definition enforce_betterleaks_components ::
  "bool \<Rightarrow> bytes \<Rightarrow> scan_finding list \<Rightarrow> scan_finding list ctl" where
  "enforce_betterleaks_components cli bs findings =
     (if \<not> list_ex (\<lambda>f. list_ex required (flatten (rl_depends_on (sf_rule f)))) findings then ret findings
      else
        bind (collect_line_starts 0 (chunks chunk_size bs) [0]) (\<lambda>line_starts.
        bind (dependency_keep (dependency_counts findings) (offsets_index cli findings, lines_index findings)
                (find_component cli bs line_starts findings) (remove_component cli findings)) (\<lambda>keep.
        ret (retain keep findings))))"

section \<open>What the position index holds\<close>

definition rmi_set :: "rule_match_index \<Rightarrow> (bytes \<times> nat \<times> nat) set" where
  "rmi_set ix = {e. \<exists>ps. ix (fst e) = Some ps \<and> snd e \<in> set ps}"

lemma rmi_set_insert: "rmi_set (rmi_insert ix e) = insert e (rmi_set ix)"
  by (cases e) (auto simp: rmi_set_def rmi_insert_def set_insort_insert split: if_splits option.splits)

lemma rmi_set_new [simp]: "rmi_set (rmi_new entries) = set entries"
proof -
  have "rmi_set (foldl rmi_insert ix entries) = rmi_set ix \<union> set entries" for ix
    by (induction entries arbitrary: ix) (auto simp: rmi_set_insert)
  moreover have "rmi_set Map.empty = {}" by (simp add: rmi_set_def)
  ultimately show ?thesis by (simp add: rmi_new_def)
qed

lemma rmi_set_remove [simp]: "rmi_set (rmi_remove ix rule position finding) = rmi_set ix - {(rule, position, finding)}"
  by (auto simp: rmi_set_def rmi_remove_def split: option.splits if_splits)

lemma set_candidates:
  "(position, finding) \<in> set (candidates ix rule r) \<longleftrightarrow>
     (rule, position, finding) \<in> rmi_set ix \<and> in_range position r"
  by (cases "ix rule")
    (auto simp: candidates_def rmi_set_def in_range_def less_eq_prod_def less_prod_def Let_def max_def)

lemma first_component_ensures:
  "ensures (first_component accept cs) (\<lambda>r.
     case r of Some c \<Rightarrow> (\<exists>p. (p, c) \<in> set cs) \<and> accept c | None \<Rightarrow> \<forall>(p, c) \<in> set cs. \<not> accept c)"
proof (induction accept cs rule: first_component.induct)
  case (2 accept p candidate rest)
  show ?case
  proof (cases "accept candidate")
    case True
    then show ?thesis by (auto intro!: ensures_checked ensures_ret)
  next
    case False
    then show ?thesis unfolding first_component.simps
      by (intro ensures_checked) (auto intro!: ensures_weaken [OF "2.IH"] split: option.splits)
  qed
qed (simp add: ensures_ret)

section \<open>Line starts\<close>

lemma collect_line_starts_yields:
  "n = chunk_size \<Longrightarrow> yields (collect_line_starts chunk (chunks n bs) acc)
     (acc @ map Suc (memchr_from (chunk * chunk_size) newline bs))"
proof (induction n bs arbitrary: chunk acc rule: chunks.induct)
  case (1 n bs)
  show ?case
  proof (cases "bs = []")
    case True
    then show ?thesis by (simp add: chunks.simps yields_ret)
  next
    case False
    have n: "n \<noteq> 0" "n = chunk_size" using 1(2) by (simp_all add: chunk_size_def)
    have split: "memchr_from (chunk * chunk_size) newline bs =
        map ((+) (chunk * chunk_size)) (memchr_iter newline (take n bs)) @
        memchr_from ((chunk + 1) * chunk_size) newline (drop n bs)"
    proof (cases "n \<le> length bs")
      case True
      then have "chunk * chunk_size + length (take n bs) = (chunk + 1) * chunk_size" using n by simp
      then show ?thesis
        using memchr_from_append [of "chunk * chunk_size" newline "take n bs" "drop n bs"]
          memchr_from_shift [of "chunk * chunk_size" newline "take n bs"] by (simp add: add.commute)
    next
      case False
      then show ?thesis using memchr_from_shift [of "chunk * chunk_size" newline bs] by simp
    qed
    have "yields (collect_line_starts (chunk + 1) (chunks n (drop n bs))
        (acc @ map (\<lambda>offset. chunk * chunk_size + offset + 1) (memchr_iter newline (take n bs))))
        (acc @ map Suc (memchr_from (chunk * chunk_size) newline bs))"
      using 1(1) [of "chunk + 1" "acc @ map (\<lambda>offset. chunk * chunk_size + offset + 1) (memchr_iter newline (take n bs))"]
        False n split by (simp add: comp_def)
    then show ?thesis
      using False n by (subst chunks.simps) (simp add: yields_checked)
  qed
qed

lemma line_starts_yields: "yields (collect_line_starts 0 (chunks chunk_size bs) [0]) (line_starts_of bs)"
  using collect_line_starts_yields [OF refl, of 0 bs "[0]"] by (simp add: line_starts_of_def)

section \<open>The indexes meet the interface of the propagation\<close>

text \<open>
  A finding is placed when its recorded location is that of its offset: the line counts from 1 and
  the column is the distance to the line start.
\<close>

definition isize_max :: nat where
  "isize_max = 2 ^ 63 - 1"

definition placed :: "bool \<Rightarrow> bytes \<Rightarrow> scan_finding \<Rightarrow> bool" where
  "placed cli bs f \<longleftrightarrow>
     (if cli then os_start (sf_association_span f) \<le> length bs
      else
        let loc = sf_location f; ls = line_starts_of bs in
        0 < fl_line loc \<and> fl_line loc \<le> length ls \<and> start_offset loc < usize_max \<and>
        start_offset loc = ls ! (fl_line loc - 1) + fl_column loc)"

text \<open>The components that may support a required dependency: right rule, inside the window.\<close>

definition components_of :: "bool \<Rightarrow> bytes \<Rightarrow> scan_finding list \<Rightarrow> nat \<Rightarrow> nat \<Rightarrow> nat set" where
  "components_of cli bs findings p d =
     {c. c < length findings \<and>
         sf_rule_id (findings ! c) = dep_rule_id (dependencies (findings ! p) ! d) \<and>
         is_component cli bs (line_starts_of bs) (findings ! p)
           (the (dep_within (dependencies (findings ! p) ! d))) (findings ! c)}"

definition indexed :: "bool \<Rightarrow> scan_finding list \<Rightarrow> nat set \<Rightarrow> (bytes \<times> nat \<times> nat) set" where
  "indexed cli findings X = (\<lambda>c. (sf_rule_id (findings ! c), association_start cli (findings ! c), c)) ` X"

definition indexed_lines :: "scan_finding list \<Rightarrow> nat set \<Rightarrow> (bytes \<times> nat \<times> nat) set" where
  "indexed_lines findings X = (\<lambda>c. (sf_rule_id (findings ! c), fl_line (sf_location (findings ! c)), c)) ` X"

definition live_components :: "rule_match_index \<times> rule_match_index \<Rightarrow> nat set" where
  "live_components indexes = (\<lambda>(rule, position, finding). finding) ` rmi_set (fst indexes)"

definition indexes_ok :: "bool \<Rightarrow> bytes \<Rightarrow> scan_finding list \<Rightarrow> rule_match_index \<times> rule_match_index \<Rightarrow> bool" where
  "indexes_ok cli bs findings indexes \<longleftrightarrow>
     length bs \<le> isize_max \<and> list_all (placed cli bs) findings \<and>
     live_components indexes \<subseteq> {..<length findings} \<and>
     rmi_set (fst indexes) = indexed cli findings (live_components indexes) \<and>
     rmi_set (snd indexes) = indexed_lines findings (live_components indexes)"

lemma line_starts_lt_usize: "length bs \<le> isize_max \<Longrightarrow> length (line_starts_of bs) < usize_max"
  using count_le_length [of bs newline]
  by (simp add: line_starts_of_def slice_simps isize_max_def usize_max_def)

lemma isize_lt_usize: "n \<le> isize_max \<Longrightarrow> n < usize_max"
  by (simp add: isize_max_def usize_max_def)

lemma single_line_range:
  assumes "min b (saturating_add n 1) = saturating_add (max a 1) 1" and "n < usize_max"
    and "a \<le> l" "l < b" "0 < l" "l \<le> n"
  shows "l = max a 1"
  using assms by (auto simp: saturating_add_def min_def max_def split: if_splits)

text \<open>Every component the window accepts is in the range of the index that is searched.\<close>

lemma search_range_covers:
  assumes bs: "length bs \<le> isize_max" and f: "placed cli bs f"
    and comp: "is_component cli bs (line_starts_of bs) primary within f"
    and range: "search_range cli bs (line_starts_of bs) primary within = (by_offset, r)"
  shows "in_range (if by_offset then association_start cli f else fl_line (sf_location f)) r"
proof (cases cli)
  case True
  with comp range f bs within_window_in_range [OF starts_ok_line_starts_of isize_lt_usize [OF bs]
      less_imp_le [OF line_starts_lt_usize [OF bs]]]
  show ?thesis
    by (auto simp: is_component_def search_range_def association_start_def placed_def split: option.splits)
next
  case False
  let ?loc = "sf_location f" and ?ls = "line_starts_of bs"
  have placed: "0 < fl_line ?loc" "fl_line ?loc \<le> length ?ls" "start_offset ?loc < usize_max"
    "start_offset ?loc = ?ls ! (fl_line ?loc - 1) + fl_column ?loc"
    using f False by (simp_all add: placed_def Let_def)
  have win: "contains_location (finding_window_parse (sf_location primary) within) ?loc"
    using comp False by (simp add: is_component_def)
  show ?thesis
  proof (cases "finding_window_parse (sf_location primary) within")
    case (Lines ab cols)
    obtain a b where ab: "ab = (a, b)" by force
    have line: "a \<le> fl_line ?loc" "fl_line ?loc < b" using win Lines ab by (auto simp: in_range_def)
    show ?thesis
    proof (cases "cols = None \<or> min b (saturating_add (length ?ls) 1) \<noteq> saturating_add (max a 1) 1")
      case True
      with range False Lines ab line show ?thesis
        by (auto simp: search_range_def in_range_def split: option.splits)
    next
      case single: False
      then obtain c d where cols: "cols = Some (c, d)" by force
      have col: "c \<le> fl_column ?loc" "fl_column ?loc < d" using win Lines cols by (auto simp: in_range_def)
      have "fl_line ?loc = max a 1"
        using single_line_range [OF _ line_starts_lt_usize [OF bs] line placed(1,2)] single by simp
      with range False Lines ab cols single col placed show ?thesis
        by (auto simp: search_range_def in_range_def association_start_def saturating_add_def Let_def)
    qed
  qed (use win range False placed in \<open>auto simp: search_range_def in_range_def association_start_def\<close>)
qed

lemma live_of_rmi_set:
  "rmi_set (fst indexes) = indexed cli findings X \<Longrightarrow> live_components indexes = X"
  by (auto simp: live_components_def indexed_def image_iff)

lemma find_component_law:
  assumes ok: "indexes_ok cli bs findings indexes" and "p < length findings"
    and "d < length (dependencies (findings ! p))"
  shows "ensures (find_component cli bs (line_starts_of bs) findings indexes p d) (\<lambda>r.
     case r of
       Some c \<Rightarrow> c \<in> components_of cli bs findings p d \<inter> live_components indexes
     | None \<Rightarrow> components_of cli bs findings p d \<inter> live_components indexes = {})"
proof -
  let ?dep = "dependencies (findings ! p) ! d" and ?live = "live_components indexes"
  let ?w = "the (dep_within ?dep)"
  obtain by_offset r where range: "search_range cli bs (line_starts_of bs) (findings ! p) ?w = (by_offset, r)"
    by (metis surj_pair)
  define cs where "cs = candidates (if by_offset then fst indexes else snd indexes) (dep_rule_id ?dep) r"
  let ?accept = "\<lambda>c. is_component cli bs (line_starts_of bs) (findings ! p) ?w (findings ! c)"
  let ?key = "\<lambda>c. if by_offset then association_start cli (findings ! c) else fl_line (sf_location (findings ! c))"
  have cs: "(pos, c) \<in> set cs \<longleftrightarrow>
      c \<in> ?live \<and> sf_rule_id (findings ! c) = dep_rule_id ?dep \<and> pos = ?key c \<and> in_range pos r" for pos c
    using ok by (auto simp: cs_def set_candidates indexes_ok_def indexed_def indexed_lines_def image_iff)
  have covers: "in_range (?key c) r" if "c < length findings" "?accept c" for c
    using search_range_covers [OF _ _ that(2) range] ok that(1)
    by (simp add: indexes_ok_def list_all_length)
  have live: "?live \<subseteq> {..<length findings}" using ok by (simp add: indexes_ok_def)
  have eq: "find_component cli bs (line_starts_of bs) findings indexes p d = first_component ?accept cs"
    by (simp add: find_component_def range cs_def Let_def)
  show ?thesis unfolding eq
  proof (rule ensures_weaken [OF first_component_ensures])
    fix x
    assume x: "case x of Some c \<Rightarrow> (\<exists>p. (p, c) \<in> set cs) \<and> ?accept c
      | None \<Rightarrow> \<forall>(p, c) \<in> set cs. \<not> ?accept c"
    show "case x of Some c \<Rightarrow> c \<in> components_of cli bs findings p d \<inter> ?live
      | None \<Rightarrow> components_of cli bs findings p d \<inter> ?live = {}"
    proof (cases x)
      case (Some c)
      with x live show ?thesis by (auto simp: cs components_of_def)
    next
      case None
      have "\<not> ?accept c" if "c \<in> ?live" "sf_rule_id (findings ! c) = dep_rule_id ?dep" for c
      proof
        assume acc: "?accept c"
        then have "(?key c, c) \<in> set cs" using cs covers [OF _ acc] that live by blast
        with x None acc show False by auto
      qed
      then show ?thesis using None by (auto simp: components_of_def)
    qed
  qed
qed

lemma remove_component_law:
  assumes ok: "indexes_ok cli bs findings indexes"
  shows "indexes_ok cli bs findings (remove_component cli findings indexes p)"
    and "live_components (remove_component cli findings indexes p) = live_components indexes - {p}"
proof -
  let ?r = "remove_component cli findings indexes p" and ?live = "live_components indexes"
  have sets: "rmi_set (fst ?r) = indexed cli findings (?live - {p})"
    "rmi_set (snd ?r) = indexed_lines findings (?live - {p})"
    using ok by (auto simp: remove_component_def Let_def indexes_ok_def indexed_def indexed_lines_def)
  show live: "live_components ?r = ?live - {p}" using sets(1) by (rule live_of_rmi_set)
  from sets live ok show "indexes_ok cli bs findings ?r" by (auto simp: indexes_ok_def)
qed

interpretation enforced: component_index
  "dependency_counts findings" "components_of cli bs findings" live_components
  "indexes_ok cli bs findings" "find_component cli bs (line_starts_of bs) findings"
  "remove_component cli findings"
  for cli bs findings
  by unfold_locales
    (simp_all add: dependency_counts_def find_component_law remove_component_law)

section \<open>What is kept\<close>

lemma retain_map_nths: "retain (map (\<lambda>p. p \<in> A) [0..<length xs]) xs = nths xs A"
proof (induction xs rule: rev_induct)
  case (snoc x xs)
  then show ?case by (auto simp: retain_def nths_append nths_singleton)
qed (simp add: retain_def)

lemma initial_indexes:
  "rmi_set (offsets_index cli findings) = indexed cli findings {..<length findings}"
  "rmi_set (lines_index findings) = indexed_lines findings {..<length findings}"
  by (auto simp: offsets_index_def lines_index_def indexed_def indexed_lines_def in_set_enumerate_eq image_iff)

lemma all_supported_without_dependencies:
  assumes "\<not> list_ex (\<lambda>f. list_ex required (flatten (rl_depends_on (sf_rule f)))) findings"
  shows "supported_findings (dependency_counts findings) S = {..<length findings}"
proof -
  have "dependencies f = []" if "f \<in> set findings" for f
    using assms that by (auto simp: dependencies_def list_ex_iff filter_empty_conv)
  then have "self_supporting (dependency_counts findings) S {..<length findings}"
    by (auto simp: self_supporting_def dependency_counts_def)
  moreover have "supported_findings (dependency_counts findings) S \<subseteq> {..<length findings}"
    using supported_findings_self_supporting [of "dependency_counts findings" S]
    by (simp add: self_supporting_def dependency_counts_def)
  ultimately show ?thesis using supported_findings_greatest by blast
qed

lemma enforce_components_yields:
  assumes "length bs \<le> isize_max" and "list_all (placed cli bs) findings"
  shows "yields (enforce_betterleaks_components cli bs findings)
     (nths findings (supported_findings (dependency_counts findings) (components_of cli bs findings)))"
proof (cases "list_ex (\<lambda>f. list_ex required (flatten (rl_depends_on (sf_rule f)))) findings")
  case False
  then show ?thesis
    by (simp add: enforce_betterleaks_components_def all_supported_without_dependencies yields_ret nths_all)
next
  case True
  let ?ix = "(offsets_index cli findings, lines_index findings)"
  have live: "live_components ?ix = {..<length findings}"
    using live_of_rmi_set [of ?ix cli findings "{..<length findings}"] by (simp add: initial_indexes)
  have ok: "indexes_ok cli bs findings ?ix"
    using assms by (simp add: indexes_ok_def live initial_indexes)
  have "yields (dependency_keep (dependency_counts findings) ?ix
      (find_component cli bs (line_starts_of bs) findings) (remove_component cli findings))
      (map (\<lambda>p. p \<in> supported_findings (dependency_counts findings) (components_of cli bs findings))
        [0..<length (dependency_counts findings)])"
    by (rule enforced.dependency_keep_supported [OF ok])
      (auto simp: live components_of_def dependency_counts_def)
  then have "yields (bind (dependency_keep (dependency_counts findings) ?ix
      (find_component cli bs (line_starts_of bs) findings) (remove_component cli findings))
      (\<lambda>keep. ret (retain keep findings)))
      (nths findings (supported_findings (dependency_counts findings) (components_of cli bs findings)))"
    by (rule yields_bind) (simp add: dependency_counts_def retain_map_nths yields_ret)
  then show ?thesis using True
    unfolding enforce_betterleaks_components_def
    by (simp add: yields_bind [OF line_starts_yields])
qed

text \<open>
  C1. Required components: for findings whose locations are those of their offsets, enforcement
  keeps exactly the findings of the greatest set in which every required dependency has a component
  of the right rule inside its window that is itself in the set; in particular cycles of mutually
  supporting findings survive and a finding whose support disappears is removed with everything
  that depended on it.  It aborts only under a limited control and never returns a partial result.
\<close>

theorem enforce_components_keeps_supported:
  assumes "length bs \<le> isize_max" and "list_all (placed cli bs) findings"
  shows "yields (enforce_betterleaks_components cli bs findings)
     (nths findings (supported_findings (dependency_counts findings) (components_of cli bs findings)))"
  using assms by (rule enforce_components_yields)

definition sample_finding :: "bytes \<Rightarrow> depends_on_rule option list \<Rightarrow> nat \<Rightarrow> scan_finding" where
  "sample_finding rid deps start =
     \<lparr>sf_rule = \<lparr>rl_id = rid, rl_visible = True, rl_specificity = 0, rl_validation = None, rl_depends_on = deps\<rparr>,
      sf_rule_id = rid,
      sf_location = \<lparr>start_offset = start, end_offset = start + 2, fl_line = 1, fl_column = start,
        end_line = 1, end_column = start + 2\<rparr>,
      sf_secret = ''xx'', sf_association_span = from_offsets start (start + 2),
      sf_secret_span = from_offsets start (start + 2)\<rparr>"

definition sample_findings :: "scan_finding list" where
  "sample_findings =
     [sample_finding ''key'' [Some \<lparr>dep_verify_candidates = False, dep_rule_id = ''id'', dep_variable = ''ID'',
        dep_optional = False, dep_within = Some ''4''\<rparr>, None] 0,
      sample_finding ''id'' [] 3]"

theorem enforce_components_keeps_supported_witness:
  "length ''xx xx'' \<le> isize_max \<and> list_all (placed False ''xx xx'') sample_findings \<and>
   run_unlimited (enforce_betterleaks_components False ''xx xx'' sample_findings) =
     Some (nths sample_findings (supported_findings (dependency_counts sample_findings)
       (components_of False ''xx xx'' sample_findings)))"
proof -
  have "length ''xx xx'' \<le> isize_max" "list_all (placed False ''xx xx'') sample_findings"
    by (simp_all add: isize_max_def sample_findings_def sample_finding_def placed_def line_starts_of_def
        newline_def usize_max_def Let_def)
  then show ?thesis
    using yields_run [OF enforce_components_keeps_supported [of "''xx xx''" False sample_findings]] by blast
qed

end
