(* ===== verification/Overlap_Index.thy ===== *)
theory Overlap_Index
  imports Component_Index
begin

text \<open>
  The static interval tree \<open>OverlapIndex\<close> and the elimination of credential-URI fallbacks,
  \<open>credential_uri_keep\<close>, of \<open>crates/kingfisher-scanner/src/postprocess.rs\<close>.

  The tree is an implicit binary heap over the entries sorted by start: node \<open>n\<close> of width \<open>w\<close>
  covers the leaves \<open>s ..< s + w\<close> with \<open>n * w = leaves + s\<close>.  The theory shows that a search reports
  exactly the overlapping entries, in order, and that the URI fallbacks removed are exactly those of
  the all-pairs definition.
\<close>

section \<open>The code\<close>

record overlap_index =
  oi_spans :: "(offset_span \<times> nat) list"
  oi_max_end :: "nat list"
  oi_leaves :: nat
  oi_uniform_rule :: "nat list"

text \<open>\<open>usize::next_power_of_two\<close>, by doubling from \<open>p > 0\<close>.\<close>

function power_above :: "nat \<Rightarrow> nat \<Rightarrow> nat" where
  "power_above p n = (if n \<le> p \<or> p = 0 then p else power_above (2 * p) n)"
  by pat_completeness auto
termination by (relation "measure (\<lambda>(p, n). n - p)") auto

declare power_above.simps [simp del]

definition next_power_of_two :: "nat \<Rightarrow> nat" where
  "next_power_of_two n = power_above 1 n"

text \<open>The loops \<open>for index in (1..leaves).rev()\<close> that fill the inner nodes from their children.\<close>

definition fill_nodes :: "('a \<Rightarrow> 'a \<Rightarrow> 'a \<Rightarrow> 'a) \<Rightarrow> nat \<Rightarrow> 'a list \<Rightarrow> 'a list" where
  "fill_nodes combine leaves heap =
     foldl (\<lambda>h index. h[index := combine (h ! (index * 2)) (h ! (index * 2 + 1)) (h ! index)])
       heap (rev [1..<leaves])"

definition from_sorted_spans :: "(offset_span \<times> nat) list \<Rightarrow> overlap_index" where
  "from_sorted_spans spans =
     (let leaves = next_power_of_two (max (length spans) 1);
          max_end = replicate leaves 0 @ map (\<lambda>(span, _). os_end span) spans
                    @ replicate (leaves - length spans) 0
      in \<lparr>oi_spans = spans,
          oi_max_end = fill_nodes (\<lambda>left right _. max left right) leaves max_end,
          oi_leaves = leaves, oi_uniform_rule = []\<rparr>)"

definition overlap_index_new :: "(offset_span \<times> nat) list \<Rightarrow> overlap_index" where
  "overlap_index_new entries = from_sorted_spans (sort_key (\<lambda>(span, index). (os_start span, index)) entries)"

definition with_rules :: "(offset_span \<times> nat) list \<Rightarrow> nat list \<Rightarrow> overlap_index" where
  "with_rules entries rules =
     (let spans = sort_key (\<lambda>(span, index). (os_start span, rules ! index, index)) entries;
          index = from_sorted_spans spans;
          leaves = oi_leaves index;
          uniform = replicate leaves usize_max @ map (\<lambda>(_, finding). rules ! finding) spans
                    @ replicate (leaves - length spans) usize_max
      in index\<lparr>oi_uniform_rule :=
           fill_nodes (\<lambda>left right old. if left = right then left else old) leaves uniform\<rparr>)"

text \<open>\<open>self.spans.get(start).is_none_or(|(entry, _)| entry.start >= span.end)\<close>\<close>

definition starts_after :: "overlap_index \<Rightarrow> nat \<Rightarrow> offset_span \<Rightarrow> bool" where
  "starts_after ix start span =
     (case slice_get (oi_spans ix) start of None \<Rightarrow> True | Some (entry, _) \<Rightarrow> os_end span \<le> os_start entry)"

text \<open>
  The searches.  The code tests \<open>end - start == 1\<close>; a width of 0, which no call reaches, is treated
  like a leaf.
\<close>

function visit :: "overlap_index \<Rightarrow> nat \<Rightarrow> nat \<Rightarrow> nat \<Rightarrow> offset_span \<Rightarrow> nat list" where
  "visit ix node start stop span =
     (if oi_max_end ix ! node \<le> os_start span \<or> starts_after ix start span then []
      else if stop - start \<le> 1 then [snd (oi_spans ix ! start)]
      else
        let middle = start + (stop - start) div 2 in
        visit ix (node * 2) start middle span @ visit ix (node * 2 + 1) middle stop span)"
  by pat_completeness auto
termination by (relation "measure (\<lambda>(ix, node, start, stop, span). stop - start)") auto

declare visit.simps [simp del]

definition overlapping :: "overlap_index \<Rightarrow> offset_span \<Rightarrow> nat list" where
  "overlapping ix span = visit ix 1 0 (oi_leaves ix) span"

function visit_excluding ::
  "overlap_index \<Rightarrow> nat \<Rightarrow> nat \<Rightarrow> nat \<Rightarrow> offset_span \<Rightarrow> nat \<Rightarrow> (nat \<Rightarrow> bool) \<Rightarrow> bool ctl" where
  "visit_excluding ix node start stop span rule predicate =
     checked
      (if oi_max_end ix ! node \<le> os_start span \<or> starts_after ix start span \<or>
          oi_uniform_rule ix ! node = rule then ret False
       else if stop - start \<le> 1 then ret (predicate (snd (oi_spans ix ! start)))
       else
         let middle = start + (stop - start) div 2 in
         bind (visit_excluding ix (node * 2) start middle span rule predicate) (\<lambda>found.
           if found then ret True
           else visit_excluding ix (node * 2 + 1) middle stop span rule predicate))"
  by pat_completeness auto
termination
  by (relation "measure (\<lambda>(ix, node, start, stop, span, rule, predicate). stop - start)") auto

declare visit_excluding.simps [simp del]

definition any_overlapping_excluding ::
  "overlap_index \<Rightarrow> offset_span \<Rightarrow> nat \<Rightarrow> (nat \<Rightarrow> bool) \<Rightarrow> bool ctl" where
  "any_overlapping_excluding ix span rule predicate =
     visit_excluding ix 1 0 (oi_leaves ix) span rule predicate"

type_synonym uri_entry = "rule \<times> offset_span \<times> bytes"

definition eligible :: "rule \<Rightarrow> bool" where
  "eligible r \<longleftrightarrow> rl_visible r \<and> prefix ''betterleaks.'' (rl_id r)"

text \<open>
  The numbering of rule identifiers: \<open>*rule_ids.entry(rule.id()).or_insert(rule_ids.len())\<close>.  The
  hash map is the list of its entries.
\<close>

fun number_rules :: "(bytes \<times> nat) list \<Rightarrow> uri_entry list \<Rightarrow> nat list \<Rightarrow> nat list ctl" where
  "number_rules rule_ids [] rules = ret rules"
| "number_rules rule_ids ((rule, _, _) # rest) rules =
     checked (case map_of rule_ids (rl_id rule) of
        Some number \<Rightarrow> number_rules rule_ids rest (rules @ [number])
      | None \<Rightarrow> number_rules ((rl_id rule, length rule_ids) # rule_ids) rest (rules @ [length rule_ids]))"

definition is_uri_rule :: "rule \<Rightarrow> bool" where
  "is_uri_rule r \<longleftrightarrow> rl_validation r = Some CredentialUri"

fun uri_keep_loop ::
  "uri_entry list \<Rightarrow> nat list \<Rightarrow> overlap_index \<Rightarrow> (nat \<times> uri_entry) list \<Rightarrow> bool list \<Rightarrow> bool list ctl" where
  "uri_keep_loop entries rules overlaps [] keep = ret keep"
| "uri_keep_loop entries rules overlaps ((index, rule, span, secret) # rest) keep =
     checked
      (if \<not> eligible rule \<or> \<not> is_uri_rule rule \<or> secret = [] then
         uri_keep_loop entries rules overlaps rest keep
       else
         bind (any_overlapping_excluding overlaps span (rules ! index)
                 (\<lambda>candidate. contains_slice secret (snd (snd (entries ! candidate))))) (\<lambda>covered.
           uri_keep_loop entries rules overlaps rest (keep[index := \<not> covered])))"

definition credential_uri_keep :: "uri_entry list \<Rightarrow> bool list ctl" where
  "credential_uri_keep entries =
     (let keep = replicate (length entries) True in
      if \<not> list_ex (\<lambda>(rule, _, _). is_uri_rule rule) entries then ret keep
      else
        bind (number_rules [] entries []) (\<lambda>rules.
        let overlaps = with_rules
              (map (\<lambda>(i, _, span, _). (span, i)) (filter (\<lambda>(_, rule, _, _). eligible rule) (enumerate 0 entries)))
              rules
        in uri_keep_loop entries rules overlaps (enumerate 0 entries) keep))"

section \<open>The heap\<close>

lemma power_above_power: "\<exists>k. power_above (2 ^ j) n = 2 ^ k \<and> n \<le> 2 ^ k"
proof (induction "2 ^ j :: nat" n arbitrary: j rule: power_above.induct)
  case (1 n)
  show ?case
  proof (cases "n \<le> 2 ^ j")
    case True
    then show ?thesis by (auto simp: power_above.simps [of "2 ^ j"])
  next
    case False
    with 1 [of "Suc j"] show ?thesis by (simp add: power_above.simps [of "2 ^ j"])
  qed
qed

lemma next_power_of_two_power: obtains k where "next_power_of_two n = 2 ^ k" "n \<le> 2 ^ k"
  using power_above_power [of 0 n] by (auto simp: next_power_of_two_def)

text \<open>Filling downwards leaves every inner node the combination of its final children.\<close>

lemma fill_nodes_step:
  fixes combine :: "'a \<Rightarrow> 'a \<Rightarrow> 'a \<Rightarrow> 'a"
  assumes "leaves * 2 \<le> length heap" and "0 < k" and "k \<le> leaves"
  defines "h \<equiv> foldl (\<lambda>h index. h[index := combine (h ! (index * 2)) (h ! (index * 2 + 1)) (h ! index)])
       heap (rev [k..<leaves])"
  shows "length h = length heap \<and> (\<forall>i. i < k \<or> leaves \<le> i \<longrightarrow> h ! i = heap ! i) \<and>
    (\<forall>i. k \<le> i \<and> i < leaves \<longrightarrow> h ! i = combine (h ! (i * 2)) (h ! (i * 2 + 1)) (heap ! i))"
  using assms(2,3) unfolding h_def
proof (induction "leaves - k" arbitrary: k)
  case 0
  then show ?case by auto
next
  case (Suc n)
  let ?f = "\<lambda>h index. h[index := combine (h ! (index * 2)) (h ! (index * 2 + 1)) (h ! index)]"
  define g where "g = foldl ?f heap (rev [Suc k..<leaves])"
  have IH: "length g = length heap" "\<And>i. i < Suc k \<or> leaves \<le> i \<Longrightarrow> g ! i = heap ! i"
    "\<And>i. Suc k \<le> i \<Longrightarrow> i < leaves \<Longrightarrow> g ! i = combine (g ! (i * 2)) (g ! (i * 2 + 1)) (heap ! i)"
    using Suc.hyps(1) [of "Suc k"] Suc.hyps(2) unfolding g_def by auto
  have k: "k < leaves" using Suc.hyps(2) by simp
  then have "[k..<leaves] = k # [Suc k..<leaves]" by (simp add: upt_conv_Cons)
  then have res: "foldl ?f heap (rev [k..<leaves]) = ?f g k" by (simp add: g_def)
  have "k < length g" using IH(1) assms(1) k by simp
  then have nth: "?f g k ! i = (if i = k then combine (g ! (k * 2)) (g ! (k * 2 + 1)) (heap ! k) else g ! i)" for i
    using IH(2) [of k] by (simp add: nth_list_update)
  have "?f g k ! i = combine (?f g k ! (i * 2)) (?f g k ! (i * 2 + 1)) (heap ! i)"
    if "k \<le> i" "i < leaves" for i
    using that Suc.prems IH(3) [of i] unfolding nth by (cases "i = k") auto
  then show ?case unfolding res using IH(1,2) nth k by (auto simp del: One_nat_def)
qed

lemma fill_nodes_facts:
  fixes combine :: "'a \<Rightarrow> 'a \<Rightarrow> 'a \<Rightarrow> 'a"
  assumes "leaves * 2 \<le> length heap" and "0 < leaves"
  defines "h \<equiv> fill_nodes combine leaves heap"
  shows "length h = length heap" and "leaves \<le> i \<Longrightarrow> h ! i = heap ! i"
    and "0 < i \<Longrightarrow> i < leaves \<Longrightarrow> h ! i = combine (h ! (i * 2)) (h ! (i * 2 + 1)) (heap ! i)"
  using fill_nodes_step [OF assms(1), of 1 combine] assms(2) by (auto simp: h_def fill_nodes_def)

text \<open>Node \<open>node\<close> of width \<open>2 ^ k\<close> covers the leaves from \<open>s\<close>.\<close>

definition covers :: "nat \<Rightarrow> nat \<Rightarrow> nat \<Rightarrow> nat \<Rightarrow> bool" where
  "covers leaves node k s \<longleftrightarrow> node * 2 ^ k = leaves + s \<and> s + 2 ^ k \<le> leaves"

lemma covers_children:
  assumes "covers leaves node (Suc k) s"
  shows "covers leaves (node * 2) k s" and "covers leaves (node * 2 + 1) k (s + 2 ^ k)"
    and "0 < node" and "node < leaves"
proof -
  have eq: "2 * (node * 2 ^ k) = leaves + s" and le: "s + 2 * 2 ^ k \<le> leaves"
    using assms by (simp_all add: covers_def)
  then show "covers leaves (node * 2) k s" "covers leaves (node * 2 + 1) k (s + 2 ^ k)"
    by (simp_all add: covers_def algebra_simps)
  have "0 < leaves" using le by (metis add_is_0 gr0I le_zero_eq mult_is_0 power_not_zero zero_neq_numeral)
  then show "0 < node" using eq by (cases node) auto
  have "(0::nat) < 2 ^ k" by simp
  with eq le have "node * 2 ^ k < leaves" by linarith
  moreover have "node \<le> node * 2 ^ k" by simp
  ultimately show "node < leaves" by linarith
qed

lemma heap_invariant:
  assumes leaf: "\<And>i. i < leaves \<Longrightarrow> P (h ! (leaves + i)) i (Suc i)"
    and inner: "\<And>i a b c. 0 < i \<Longrightarrow> i < leaves \<Longrightarrow> P (h ! (i * 2)) a b \<Longrightarrow> P (h ! (i * 2 + 1)) b c \<Longrightarrow> P (h ! i) a c"
    and "covers leaves node k s"
  shows "P (h ! node) s (s + 2 ^ k)"
  using assms(3)
proof (induction k arbitrary: node s)
  case 0
  then show ?case using leaf [of s] by (simp add: covers_def)
next
  case (Suc k)
  note c = covers_children [OF Suc.prems]
  have "P (h ! node) s (s + 2 ^ k + 2 ^ k)"
    using inner [OF c(3,4) Suc.IH [OF c(1)] Suc.IH [OF c(2)]] .
  then show ?case by (simp add: algebra_simps mult_2)
qed

section \<open>A well-formed index\<close>

definition overlaps :: "offset_span \<Rightarrow> offset_span \<Rightarrow> bool" where
  "overlaps a b \<longleftrightarrow> os_start a < os_end b \<and> os_start b < os_end a"

definition index_ok :: "overlap_index \<Rightarrow> bool" where
  "index_ok ix \<longleftrightarrow>
     (\<exists>k. oi_leaves ix = 2 ^ k) \<and> length (oi_spans ix) \<le> oi_leaves ix \<and>
     sorted (map (\<lambda>e. os_start (fst e)) (oi_spans ix)) \<and>
     (\<forall>node k s. covers (oi_leaves ix) node k s \<longrightarrow>
        (\<forall>j. s \<le> j \<and> j < s + 2 ^ k \<and> j < length (oi_spans ix) \<longrightarrow>
           os_end (fst (oi_spans ix ! j)) \<le> oi_max_end ix ! node)) \<and>
     (\<forall>j < length (oi_spans ix). oi_max_end ix ! (oi_leaves ix + j) = os_end (fst (oi_spans ix ! j)))"

lemma heap_leaf:
  assumes "j < length xs" and "length xs \<le> leaves"
  shows "(replicate leaves z @ map f xs @ replicate (leaves - length xs) z) ! (leaves + j) = f (xs ! j)"
  using assms by (simp add: nth_append)

lemma from_sorted_spans_ok:
  assumes "sorted (map (\<lambda>e. os_start (fst e)) spans)"
  shows "index_ok (from_sorted_spans spans)"
proof -
  obtain k where k: "next_power_of_two (max (length spans) 1) = 2 ^ k" "length spans \<le> 2 ^ k"
    using next_power_of_two_power [of "max (length spans) 1"] by auto
  let ?init = "replicate (2 ^ k) 0 @ map (\<lambda>(span, _). os_end span) spans @ replicate (2 ^ k - length spans) 0"
  define h where "h = fill_nodes (\<lambda>left right _. max left right) (2 ^ k) ?init"
  have ix: "from_sorted_spans spans = \<lparr>oi_spans = spans, oi_max_end = h, oi_leaves = 2 ^ k, oi_uniform_rule = []\<rparr>"
    unfolding from_sorted_spans_def Let_def k(1) h_def ..
  have len: "2 ^ k * 2 \<le> length ?init" using k(2) by simp
  have leaf: "h ! (2 ^ k + j) = ?init ! (2 ^ k + j)" for j
    using fill_nodes_facts(2) [OF len] by (simp add: h_def)
  have exact: "j < length spans \<Longrightarrow> h ! (2 ^ k + j) = os_end (fst (spans ! j))" for j
    unfolding leaf by (simp only: heap_leaf [OF _ k(2)] case_prod_beta)
  have bound: "\<forall>j. s \<le> j \<and> j < s + 2 ^ m \<and> j < length spans \<longrightarrow> os_end (fst (spans ! j)) \<le> h ! node"
    if "covers (2 ^ k) node m s" for node m s
  proof (rule heap_invariant [OF _ _ that, where h = h and
        P = "\<lambda>v a b. \<forall>j. a \<le> j \<and> j < b \<and> j < length spans \<longrightarrow> os_end (fst (spans ! j)) \<le> v"])
    show "\<forall>j. i \<le> j \<and> j < Suc i \<and> j < length spans \<longrightarrow> os_end (fst (spans ! j)) \<le> h ! (2 ^ k + i)" for i
      using exact by (auto simp: less_Suc_eq)
  next
    fix i a b c
    assume i: "0 < i" "i < 2 ^ k"
      and l: "\<forall>j. a \<le> j \<and> j < b \<and> j < length spans \<longrightarrow> os_end (fst (spans ! j)) \<le> h ! (i * 2)"
      and r: "\<forall>j. b \<le> j \<and> j < c \<and> j < length spans \<longrightarrow> os_end (fst (spans ! j)) \<le> h ! (i * 2 + 1)"
    have "h ! i = max (h ! (i * 2)) (h ! (i * 2 + 1))"
      using fill_nodes_facts(3) [OF len _ i] by (simp add: h_def)
    with l r show "\<forall>j. a \<le> j \<and> j < c \<and> j < length spans \<longrightarrow> os_end (fst (spans ! j)) \<le> h ! i"
      by (metis le_max_iff_disj not_less)
  qed
  show ?thesis unfolding index_ok_def ix using assms k(2) bound exact by auto
qed

lemma take_drop_split: "take (m + n) (drop s xs) = take m (drop s xs) @ take n (drop (s + m) xs)"
  by (simp add: take_add add.commute)

text \<open>What a pruned node cannot contain.\<close>

lemma pruned:
  assumes ok: "index_ok ix" and c: "covers (oi_leaves ix) node k s"
    and p: "oi_max_end ix ! node \<le> os_start span \<or> starts_after ix s span"
    and e: "e \<in> set (take (2 ^ k) (drop s (oi_spans ix)))"
  shows "\<not> overlaps span (fst e)"
proof -
  let ?xs = "oi_spans ix"
  obtain i where i: "i < 2 ^ k" "s + i < length ?xs" "e = ?xs ! (s + i)"
    using e by (auto simp: in_set_conv_nth)
  from p show ?thesis
  proof
    assume "oi_max_end ix ! node \<le> os_start span"
    moreover have "os_end (fst e) \<le> oi_max_end ix ! node"
      using ok c i unfolding index_ok_def by (metis le_add1 nat_add_left_cancel_less)
    ultimately show ?thesis by (simp add: overlaps_def)
  next
    assume "starts_after ix s span"
    with i have "os_end span \<le> os_start (fst (?xs ! s))"
      by (auto simp: starts_after_def slice_get_def split: if_splits)
    also have "\<dots> \<le> os_start (fst e)"
    proof -
      have "map (\<lambda>e. os_start (fst e)) ?xs ! s \<le> map (\<lambda>e. os_start (fst e)) ?xs ! (s + i)"
        using ok i unfolding index_ok_def by (intro sorted_nth_mono) auto
      with i show ?thesis by simp
    qed
    finally show ?thesis by (simp add: overlaps_def)
  qed
qed

text \<open>A leaf that is not pruned holds one overlapping entry.\<close>

lemma leaf_overlaps:
  assumes ok: "index_ok ix" and c: "covers (oi_leaves ix) node 0 s"
    and p: "\<not> (oi_max_end ix ! node \<le> os_start span \<or> starts_after ix s span)"
  shows "take 1 (drop s (oi_spans ix)) = [oi_spans ix ! s]" and "overlaps span (fst (oi_spans ix ! s))"
proof -
  have s: "s < length (oi_spans ix)" "os_start (fst (oi_spans ix ! s)) < os_end span"
    using p by (auto simp: starts_after_def slice_get_def split: if_splits prod.splits)
  then show "take 1 (drop s (oi_spans ix)) = [oi_spans ix ! s]"
    by (simp add: take_Suc_conv_app_nth hd_drop_conv_nth take_Suc)
  have "oi_max_end ix ! node = os_end (fst (oi_spans ix ! s))"
    using ok c s(1) by (simp add: index_ok_def covers_def)
  with s p show "overlaps span (fst (oi_spans ix ! s))" by (simp add: overlaps_def)
qed

lemma visit_overlapping:
  assumes ok: "index_ok ix" and "covers (oi_leaves ix) node k s"
  shows "visit ix node s (s + 2 ^ k) span =
     map snd (filter (\<lambda>e. overlaps span (fst e)) (take (2 ^ k) (drop s (oi_spans ix))))"
  using assms(2)
proof (induction k arbitrary: node s)
  case 0
  show ?case
  proof (cases "oi_max_end ix ! node \<le> os_start span \<or> starts_after ix s span")
    case True
    then show ?thesis using pruned [OF ok 0] by (subst visit.simps) (auto simp: filter_empty_conv)
  next
    case False
    with leaf_overlaps [OF ok 0 False] show ?thesis by (subst visit.simps) simp
  qed
next
  case (Suc k)
  show ?case
  proof (cases "oi_max_end ix ! node \<le> os_start span \<or> starts_after ix s span")
    case True
    then have "filter (\<lambda>e. overlaps span (fst e)) (take (2 ^ Suc k) (drop s (oi_spans ix))) = []"
      using pruned [OF ok Suc.prems] by (auto simp: filter_empty_conv)
    with True show ?thesis by (subst visit.simps) simp
  next
    case False
    note c = covers_children [OF Suc.prems]
    have "visit ix node s (s + 2 ^ Suc k) span =
        visit ix (node * 2) s (s + 2 ^ k) span @ visit ix (node * 2 + 1) (s + 2 ^ k) (s + 2 ^ k + 2 ^ k) span"
    proof -
      have "(1::nat) \<le> 2 ^ k" by simp
      then have "\<not> 2 * 2 ^ k \<le> Suc 0" by linarith
      with False show ?thesis by (subst visit.simps) (simp add: Let_def mult_2 add.assoc)
    qed
    then show ?thesis
      unfolding Suc.IH [OF c(1)] Suc.IH [OF c(2)]
      using take_drop_split [of "2 ^ k" "2 ^ k" s "oi_spans ix"] by (simp add: mult_2)
  qed
qed

lemma root_covers: "covers (2 ^ k) 1 k 0"
  by (simp add: covers_def)

text \<open>
  C22. The interval tree built from any entries reports for a query span exactly the entries that
  overlap it, each once, ascending by start and finding number; touching edges do not overlap.
\<close>

theorem overlapping_exact:
  "overlapping (overlap_index_new entries) span =
     map snd (filter (\<lambda>e. overlaps span (fst e))
       (sort_key (\<lambda>(span, index). (os_start span, index)) entries))"
proof -
  let ?s = "sort_key (\<lambda>(span, index). (os_start span, index)) entries"
  let ?ix = "overlap_index_new entries"
  have "sorted (map (\<lambda>(span, index). (os_start span, index)) ?s)" by simp
  then have "sorted (map (\<lambda>e. os_start (fst e)) ?s)"
    unfolding sorted_map by (rule sorted_wrt_mono_rel [rotated]) (auto simp: less_eq_prod_def)
  then have ok: "index_ok ?ix" unfolding overlap_index_new_def by (rule from_sorted_spans_ok)
  then obtain k where k: "oi_leaves ?ix = 2 ^ k" and le: "length (oi_spans ?ix) \<le> 2 ^ k"
    by (auto simp: index_ok_def)
  have spans: "oi_spans ?ix = ?s" by (simp add: overlap_index_new_def from_sorted_spans_def Let_def)
  show ?thesis
    using visit_overlapping [OF ok, of 1 k 0 span] root_covers le
    unfolding overlapping_def k spans by simp
qed

section \<open>The search that skips a rule\<close>

definition rules_ok :: "nat list \<Rightarrow> overlap_index \<Rightarrow> bool" where
  "rules_ok rules ix \<longleftrightarrow>
     (\<forall>node k s rule. covers (oi_leaves ix) node k s \<longrightarrow> oi_uniform_rule ix ! node = rule \<longrightarrow> rule < usize_max \<longrightarrow>
        (\<forall>j. s \<le> j \<and> j < s + 2 ^ k \<longrightarrow> j < length (oi_spans ix) \<and> rules ! snd (oi_spans ix ! j) = rule)) \<and>
     (\<forall>j < length (oi_spans ix). oi_uniform_rule ix ! (oi_leaves ix + j) = rules ! snd (oi_spans ix ! j))"

lemma with_rules_ok: "index_ok (with_rules entries rules) \<and> rules_ok rules (with_rules entries rules) \<and>
    set (oi_spans (with_rules entries rules)) = set entries"
proof -
  let ?s = "sort_key (\<lambda>(span, index). (os_start span, rules ! index, index)) entries"
  have "sorted (map (\<lambda>(span, index). (os_start span, rules ! index, index)) ?s)" by simp
  then have "sorted (map (\<lambda>e. os_start (fst e)) ?s)"
    unfolding sorted_map by (rule sorted_wrt_mono_rel [rotated]) (auto simp: less_eq_prod_def)
  then have ok: "index_ok (from_sorted_spans ?s)" by (rule from_sorted_spans_ok)
  then obtain k where k: "oi_leaves (from_sorted_spans ?s) = 2 ^ k" by (auto simp: index_ok_def)
  have sp: "oi_spans (from_sorted_spans ?s) = ?s" by (simp add: from_sorted_spans_def Let_def)
  with ok k have le: "length ?s \<le> 2 ^ k" by (simp add: index_ok_def)
  let ?init = "replicate (2 ^ k) usize_max @ map (\<lambda>(_, finding). rules ! finding) ?s
      @ replicate (2 ^ k - length ?s) usize_max"
  define h where "h = fill_nodes (\<lambda>left right old. if left = right then left else old) (2 ^ k) ?init"
  have ix: "with_rules entries rules = (from_sorted_spans ?s)\<lparr>oi_uniform_rule := h\<rparr>"
    unfolding with_rules_def Let_def k h_def ..
  have len: "2 ^ k * 2 \<le> length ?init" using le by simp
  have leaf: "h ! (2 ^ k + j) = ?init ! (2 ^ k + j)" for j
    using fill_nodes_facts(2) [OF len] by (simp add: h_def)
  have exact: "j < length ?s \<Longrightarrow> h ! (2 ^ k + j) = rules ! snd (?s ! j)" for j
    unfolding leaf by (simp only: heap_leaf [OF _ le] case_prod_beta)
  have missing: "h ! (2 ^ k + j) = usize_max" if "length ?s \<le> j" "j < 2 ^ k" for j
    unfolding leaf using that by (simp add: nth_append)
  define P where "P v a b \<longleftrightarrow> v < usize_max \<longrightarrow>
      (\<forall>j. a \<le> j \<and> j < b \<longrightarrow> j < length ?s \<and> rules ! snd (?s ! j) = v)" for v a b
  have unif: "P (h ! node) s (s + 2 ^ m)" if "covers (2 ^ k) node m s" for node m s
  proof (rule heap_invariant [OF _ _ that])
    show "P (h ! (2 ^ k + i)) i (Suc i)" if "i < 2 ^ k" for i
      using that exact [of i] missing [of i] by (cases "i < length ?s") (auto simp: P_def less_Suc_eq)
  next
    fix i a b c
    assume i: "0 < i" "i < 2 ^ k" and l: "P (h ! (i * 2)) a b" and r: "P (h ! (i * 2 + 1)) b c"
    have "h ! i = (if h ! (i * 2) = h ! (i * 2 + 1) then h ! (i * 2) else ?init ! i)"
      using fill_nodes_facts(3) [OF len _ i] by (simp add: h_def)
    moreover have "?init ! i = usize_max" using i by (simp add: nth_append)
    ultimately have eq: "h ! i < usize_max \<Longrightarrow> h ! (i * 2) = h ! i \<and> h ! (i * 2 + 1) = h ! i"
      by (metis less_irrefl)
    show "P (h ! i) a c" unfolding P_def
    proof (intro impI allI)
      fix j
      assume small: "h ! i < usize_max" and j: "a \<le> j \<and> j < c"
      from eq [OF small] l r have "P (h ! i) a b" "P (h ! i) b c" by simp_all
      with small j show "j < length ?s \<and> rules ! snd (?s ! j) = h ! i"
        unfolding P_def by (cases "j < b") auto
    qed
  qed
  have "rules_ok rules (with_rules entries rules)"
    unfolding rules_ok_def ix using unif exact by (auto simp: k sp P_def covers_def)
  moreover have "index_ok (with_rules entries rules)" using ok by (simp add: ix index_ok_def)
  ultimately show ?thesis by (simp add: ix sp)
qed

definition hit :: "nat list \<Rightarrow> offset_span \<Rightarrow> nat \<Rightarrow> (nat \<Rightarrow> bool) \<Rightarrow> offset_span \<times> nat \<Rightarrow> bool" where
  "hit rules span rule predicate e \<longleftrightarrow>
     overlaps span (fst e) \<and> rules ! snd e \<noteq> rule \<and> predicate (snd e)"

lemma visit_excluding_yields:
  assumes ok: "index_ok ix" and rules: "rules_ok rules ix" and rule: "rule < usize_max"
    and "covers (oi_leaves ix) node k s"
  shows "yields (visit_excluding ix node s (s + 2 ^ k) span rule predicate)
     (list_ex (hit rules span rule predicate) (take (2 ^ k) (drop s (oi_spans ix))))"
  using assms(4)
proof (induction k arbitrary: node s)
  case (0 node s)
  let ?pr = "oi_max_end ix ! node \<le> os_start span \<or> starts_after ix s span"
  have "list_ex (hit rules span rule predicate) (take (2 ^ 0) (drop s (oi_spans ix))) \<longleftrightarrow>
      \<not> ?pr \<and> oi_uniform_rule ix ! node \<noteq> rule \<and> predicate (snd (oi_spans ix ! s))"
  proof (cases ?pr)
    case True
    then show ?thesis using pruned [OF ok 0] by (auto simp: list_ex_iff hit_def)
  next
    case False
    note l = leaf_overlaps [OF ok 0 False]
    have "s < length (oi_spans ix)" using l(1) by (metis drop_all leI list.distinct(1) take_Nil)
    then have "oi_uniform_rule ix ! node = rules ! snd (oi_spans ix ! s)"
      using rules 0 by (simp add: rules_ok_def covers_def)
    with l False show ?thesis by (simp add: hit_def)
  qed
  then show ?case
    by (subst visit_excluding.simps) (auto intro!: yields_checked simp: yields_ret)
next
  case (Suc k)
  let ?xs = "take (2 ^ Suc k) (drop s (oi_spans ix))"
  show ?case
  proof (cases "oi_max_end ix ! node \<le> os_start span \<or> starts_after ix s span \<or> oi_uniform_rule ix ! node = rule")
    case True
    have "\<not> hit rules span rule predicate e" if "e \<in> set ?xs" for e
    proof (cases "oi_uniform_rule ix ! node = rule")
      case True
      obtain i where "i < 2 ^ Suc k" "e = oi_spans ix ! (s + i)" using \<open>e \<in> set ?xs\<close>
        by (auto simp: in_set_conv_nth)
      with rules rule Suc.prems True have "rules ! snd e = rule" unfolding rules_ok_def
        by (metis le_add1 nat_add_left_cancel_less)
      then show ?thesis by (simp add: hit_def)
    next
      case False
      with True pruned [OF ok Suc.prems _ that] show ?thesis by (auto simp: hit_def)
    qed
    then have "\<not> list_ex (hit rules span rule predicate) ?xs" by (auto simp: list_ex_iff)
    with True show ?thesis
      by (subst visit_excluding.simps) (auto intro!: yields_checked simp: yields_ret)
  next
    case False
    note c = covers_children [OF Suc.prems]
    have "(1::nat) \<le> 2 ^ k" by simp
    then have w: "\<not> 2 * 2 ^ k \<le> Suc 0" by linarith
    have xs: "?xs = take (2 ^ k) (drop s (oi_spans ix)) @ take (2 ^ k) (drop (s + 2 ^ k) (oi_spans ix))"
      using take_drop_split [of "2 ^ k" "2 ^ k" s "oi_spans ix"] by (simp add: mult_2)
    have "yields (bind (visit_excluding ix (node * 2) s (s + 2 ^ k) span rule predicate) (\<lambda>found.
           if found then ret True
           else visit_excluding ix (node * 2 + 1) (s + 2 ^ k) (s + 2 ^ k + 2 ^ k) span rule predicate))
        (list_ex (hit rules span rule predicate) ?xs)"
      unfolding xs list_ex_append
      by (rule yields_bind [OF Suc.IH [OF c(1)]])
        (use Suc.IH [OF c(2)] in \<open>auto simp: yields_ret\<close>)
    moreover have e2: "s + 2 ^ Suc k = s + 2 ^ k + 2 ^ k" by simp
    ultimately show ?thesis using False w unfolding e2
      by (subst visit_excluding.simps) (auto intro!: yields_checked simp: Let_def)
  qed
qed

lemma any_overlapping_excluding_yields:
  assumes "index_ok ix" and "rules_ok rules ix" and "rule < usize_max"
  shows "yields (any_overlapping_excluding ix span rule predicate)
     (list_ex (hit rules span rule predicate) (oi_spans ix))"
proof -
  obtain k where k: "oi_leaves ix = 2 ^ k" "length (oi_spans ix) \<le> 2 ^ k"
    using assms(1) by (auto simp: index_ok_def)
  show ?thesis
    using visit_excluding_yields [OF assms, of 1 k 0 span predicate] root_covers [of k] k
    by (simp add: any_overlapping_excluding_def)
qed

section \<open>Rule numbers\<close>

definition numbering :: "(bytes \<times> nat) list \<Rightarrow> bool" where
  "numbering m \<longleftrightarrow>
     (\<forall>a b n. map_of m a = Some n \<and> map_of m b = Some n \<longrightarrow> a = b) \<and>
     (\<forall>a n. map_of m a = Some n \<longrightarrow> n < length m)"

definition numbers_agree :: "uri_entry list \<Rightarrow> nat list \<Rightarrow> bool" where
  "numbers_agree entries rules \<longleftrightarrow>
     length rules = length entries \<and>
     (\<forall>i < length entries. rules ! i < length entries) \<and>
     (\<forall>i < length entries. \<forall>j < length entries.
        rules ! i = rules ! j \<longleftrightarrow> rl_id (fst (entries ! i)) = rl_id (fst (entries ! j)))"

lemma number_rules_ensures:
  assumes "numbering m"
  shows "ensures (number_rules m es acc) (\<lambda>rules. \<exists>m'.
     numbering m' \<and> length m' \<le> length m + length es \<and> map_of m \<subseteq>\<^sub>m map_of m' \<and>
     (\<forall>e \<in> set es. rl_id (fst e) \<in> dom (map_of m')) \<and>
     rules = acc @ map (\<lambda>e. the (map_of m' (rl_id (fst e)))) es)"
  using assms
proof (induction es arbitrary: m acc)
  case Nil
  then show ?case by (auto intro!: ensures_ret)
next
  case (Cons e es)
  obtain r s b where e: "e = (r, s, b)" by (cases e)
  show ?case
  proof (cases "map_of m (rl_id r)")
    case (Some n)
    have "ensures (number_rules m es (acc @ [n])) (\<lambda>rules. \<exists>m'.
       numbering m' \<and> length m' \<le> length m + length (e # es) \<and> map_of m \<subseteq>\<^sub>m map_of m' \<and>
       (\<forall>e \<in> set (e # es). rl_id (fst e) \<in> dom (map_of m')) \<and>
       rules = acc @ map (\<lambda>e. the (map_of m' (rl_id (fst e)))) (e # es))"
    proof (rule ensures_weaken [OF Cons.IH [OF Cons.prems]], elim exE conjE)
      fix rules m'
      assume m': "numbering m'" "length m' \<le> length m + length es" "map_of m \<subseteq>\<^sub>m map_of m'"
        "\<forall>e \<in> set es. rl_id (fst e) \<in> dom (map_of m')"
        "rules = (acc @ [n]) @ map (\<lambda>e. the (map_of m' (rl_id (fst e)))) es"
      then have "map_of m' (rl_id r) = Some n" using Some by (metis domI map_le_def)
      with m' e show "\<exists>m'. numbering m' \<and> length m' \<le> length m + length (e # es) \<and> map_of m \<subseteq>\<^sub>m map_of m' \<and>
         (\<forall>e \<in> set (e # es). rl_id (fst e) \<in> dom (map_of m')) \<and>
         rules = acc @ map (\<lambda>e. the (map_of m' (rl_id (fst e)))) (e # es)"
        by (intro exI [of _ m']) auto
    qed
    then show ?thesis by (simp add: e Some ensures_checked)
  next
    case None
    let ?m = "(rl_id r, length m) # m"
    have num: "numbering ?m" using Cons.prems unfolding numbering_def by (auto simp: less_Suc_eq)
    have "ensures (number_rules ?m es (acc @ [length m])) (\<lambda>rules. \<exists>m'.
       numbering m' \<and> length m' \<le> length m + length (e # es) \<and> map_of m \<subseteq>\<^sub>m map_of m' \<and>
       (\<forall>e \<in> set (e # es). rl_id (fst e) \<in> dom (map_of m')) \<and>
       rules = acc @ map (\<lambda>e. the (map_of m' (rl_id (fst e)))) (e # es))"
    proof (rule ensures_weaken [OF Cons.IH [OF num]], elim exE conjE)
      fix rules m'
      assume m': "numbering m'" "length m' \<le> length ?m + length es" "map_of ?m \<subseteq>\<^sub>m map_of m'"
        "\<forall>e \<in> set es. rl_id (fst e) \<in> dom (map_of m')"
        "rules = (acc @ [length m]) @ map (\<lambda>e. the (map_of m' (rl_id (fst e)))) es"
      have "map_of m \<subseteq>\<^sub>m map_of ?m" using None by (auto simp: map_le_def)
      then have le: "map_of m \<subseteq>\<^sub>m map_of m'" using m'(3) by (rule map_le_trans)
      have "map_of m' (rl_id r) = Some (length m)" using m'(3) unfolding map_le_def by (metis domI fun_upd_same map_of.simps(2) prod.sel)
      with m' e le show "\<exists>m'. numbering m' \<and> length m' \<le> length m + length (e # es) \<and> map_of m \<subseteq>\<^sub>m map_of m' \<and>
         (\<forall>e \<in> set (e # es). rl_id (fst e) \<in> dom (map_of m')) \<and>
         rules = acc @ map (\<lambda>e. the (map_of m' (rl_id (fst e)))) (e # es)"
        by (intro exI [of _ m']) auto
    qed
    then show ?thesis by (simp add: e None ensures_checked)
  qed
qed

lemma number_rules_agree: "ensures (number_rules [] entries []) (numbers_agree entries)"
proof -
  have "numbering []" by (simp add: numbering_def)
  then show ?thesis
  proof (rule ensures_weaken [OF number_rules_ensures], elim exE conjE)
    fix rules m'
    assume m': "numbering m'" "length m' \<le> length [] + length entries"
      "\<forall>e \<in> set entries. rl_id (fst e) \<in> dom (map_of m')"
      "rules = [] @ map (\<lambda>e. the (map_of m' (rl_id (fst e)))) entries"
    have some: "\<exists>n. map_of m' (rl_id (fst (entries ! i))) = Some n" if "i < length entries" for i
      using m'(3) that by (meson domD nth_mem)
    show "numbers_agree entries rules"
      unfolding numbers_agree_def
    proof (intro conjI allI impI)
      show "length rules = length entries" using m'(4) by simp
      show "rules ! i < length entries" if "i < length entries" for i
        using some [OF that] m'(1,2,4) that unfolding numbering_def by fastforce
      show "(rules ! i = rules ! j) = (rl_id (fst (entries ! i)) = rl_id (fst (entries ! j)))"
        if "i < length entries" "j < length entries" for i j
        using some [OF that(1)] some [OF that(2)] m'(1,4) that unfolding numbering_def by fastforce
    qed
  qed
qed

section \<open>Credential URIs\<close>

text \<open>The all-pairs definition: another eligible rule covers the fallback and contains its secret.\<close>

definition covered_fallback :: "uri_entry list \<Rightarrow> nat \<Rightarrow> bool" where
  "covered_fallback entries i \<longleftrightarrow>
     (case entries ! i of (r, span, secret) \<Rightarrow>
        eligible r \<and> is_uri_rule r \<and> secret \<noteq> [] \<and>
        (\<exists>j < length entries. case entries ! j of (other, other_span, value) \<Rightarrow>
           eligible other \<and> rl_id other \<noteq> rl_id r \<and> overlaps span other_span \<and> contains_slice secret value))"

definition eligible_entries :: "uri_entry list \<Rightarrow> (offset_span \<times> nat) list" where
  "eligible_entries entries =
     map (\<lambda>(i, _, span, _). (span, i)) (filter (\<lambda>(_, rule, _, _). eligible rule) (enumerate 0 entries))"

lemma eligible_entries_iff:
  "(span, i) \<in> set (eligible_entries entries) \<longleftrightarrow>
     i < length entries \<and> eligible (fst (entries ! i)) \<and> span = fst (snd (entries ! i))"
  by (auto simp: eligible_entries_def in_set_enumerate_eq image_iff case_prod_beta)

lemma covered_fallback_hit:
  assumes "numbers_agree entries rules" and "i < length entries"
    and e: "entries ! i = (r, span, secret)" and "eligible r" "is_uri_rule r" "secret \<noteq> []"
  shows "list_ex (hit rules span (rules ! i) (\<lambda>c. contains_slice secret (snd (snd (entries ! c)))))
           (oi_spans (with_rules (eligible_entries entries) rules)) \<longleftrightarrow> covered_fallback entries i"
proof -
  have "set (oi_spans (with_rules (eligible_entries entries) rules)) = set (eligible_entries entries)"
    using with_rules_ok by blast
  then have "list_ex (hit rules span (rules ! i) (\<lambda>c. contains_slice secret (snd (snd (entries ! c)))))
        (oi_spans (with_rules (eligible_entries entries) rules)) \<longleftrightarrow>
      (\<exists>sp j. (sp, j) \<in> set (eligible_entries entries) \<and>
         hit rules span (rules ! i) (\<lambda>c. contains_slice secret (snd (snd (entries ! c)))) (sp, j))"
    by (simp add: list_ex_iff Bex_def)
  also have "\<dots> \<longleftrightarrow> (\<exists>j < length entries. eligible (fst (entries ! j)) \<and> rules ! j \<noteq> rules ! i \<and>
      overlaps span (fst (snd (entries ! j))) \<and> contains_slice secret (snd (snd (entries ! j))))"
    by (auto simp: hit_def eligible_entries_iff)
  also have "\<dots> \<longleftrightarrow> (\<exists>j < length entries. eligible (fst (entries ! j)) \<and> rl_id (fst (entries ! j)) \<noteq> rl_id r \<and>
      overlaps span (fst (snd (entries ! j))) \<and> contains_slice secret (snd (snd (entries ! j))))"
    using assms(1-3) by (auto simp: numbers_agree_def)
  also have "\<dots> \<longleftrightarrow> covered_fallback entries i"
    using assms(4-) by (simp add: covered_fallback_def e case_prod_beta)
  finally show ?thesis .
qed

lemma uri_keep_loop_yields:
  assumes agree: "numbers_agree entries rules" and small: "length entries \<le> usize_max"
    and "m \<le> length entries"
  defines "ix \<equiv> with_rules (eligible_entries entries) rules"
  shows "yields (uri_keep_loop entries rules ix (drop m (enumerate 0 entries))
      (map (\<lambda>i. \<not> covered_fallback entries i) [0..<m] @ replicate (length entries - m) True))
     (map (\<lambda>i. \<not> covered_fallback entries i) [0..<length entries])"
  using assms(3)
proof (induction "length entries - m" arbitrary: m)
  case 0
  then show ?case by (simp add: yields_ret)
next
  case (Suc n)
  then have m: "m < length entries" by simp
  obtain r span secret where e: "entries ! m = (r, span, secret)" by (cases "entries ! m")
  have drop: "drop m (enumerate 0 entries) = (m, r, span, secret) # drop (Suc m) (enumerate 0 entries)"
    using m e by (simp add: nth_enumerate_eq flip: Cons_nth_drop_Suc)
  let ?spec = "\<lambda>i. \<not> covered_fallback entries i"
  let ?keep = "map ?spec [0..<m] @ replicate (length entries - m) True"
  let ?next = "map ?spec [0..<Suc m] @ replicate (length entries - Suc m) True"
  have rep: "replicate (length entries - m) True = True # replicate (length entries - Suc m) True"
    using m by (metis Suc_diff_Suc replicate_Suc)
  have upd: "?keep[m := ?spec m] = ?next" by (simp add: list_update_append rep)
  have same: "?keep = ?next" if "?spec m" using that by (simp add: rep)
  have IH: "yields (uri_keep_loop entries rules ix (drop (Suc m) (enumerate 0 entries)) ?next)
      (map ?spec [0..<length entries])"
    using Suc.hyps(1) [of "Suc m"] Suc.hyps(2) m by simp
  have rule: "rules ! m < usize_max" using agree small m by (fastforce simp: numbers_agree_def)
  have ok: "index_ok ix" "rules_ok rules ix" using with_rules_ok by (simp_all add: ix_def)
  show ?case unfolding drop uri_keep_loop.simps
  proof (intro yields_checked)
    show "yields (if \<not> eligible r \<or> \<not> is_uri_rule r \<or> secret = [] then
         uri_keep_loop entries rules ix (drop (Suc m) (enumerate 0 entries)) ?keep
       else
         bind (any_overlapping_excluding ix span (rules ! m)
                 (\<lambda>candidate. contains_slice secret (snd (snd (entries ! candidate))))) (\<lambda>covered.
           uri_keep_loop entries rules ix (drop (Suc m) (enumerate 0 entries)) (?keep[m := \<not> covered])))
       (map ?spec [0..<length entries])"
    proof (cases "\<not> eligible r \<or> \<not> is_uri_rule r \<or> secret = []")
      case True
      then have "?spec m" by (auto simp: covered_fallback_def e)
      with True IH same show ?thesis by simp
    next
      case False
      then have eq: "list_ex (hit rules span (rules ! m) (\<lambda>c. contains_slice secret (snd (snd (entries ! c)))))
          (oi_spans ix) \<longleftrightarrow> covered_fallback entries m"
        using covered_fallback_hit [OF agree m e] unfolding ix_def by blast
      have "yields (any_overlapping_excluding ix span (rules ! m)
           (\<lambda>candidate. contains_slice secret (snd (snd (entries ! candidate)))))
          (covered_fallback entries m)"
        using any_overlapping_excluding_yields [OF ok rule, of span
            "\<lambda>c. contains_slice secret (snd (snd (entries ! c)))"] unfolding eq .
      with False show ?thesis
        by (simp only: if_False) (rule yields_bind, assumption, simp only: upd IH)
    qed
  qed
qed

lemma credential_uri_keep_yields:
  assumes "length entries \<le> usize_max"
  shows "yields (credential_uri_keep entries) (map (\<lambda>i. \<not> covered_fallback entries i) [0..<length entries])"
proof (cases "list_ex (\<lambda>(rule, _, _). is_uri_rule rule) entries")
  case False
  then have "\<not> covered_fallback entries i" if "i < length entries" for i
    using that by (auto simp: covered_fallback_def list_ex_length split: prod.splits)
  then have "map (\<lambda>i. \<not> covered_fallback entries i) [0..<length entries] = replicate (length entries) True"
    by (intro nth_equalityI) simp_all
  with False show ?thesis by (simp add: credential_uri_keep_def yields_ret)
next
  case True
  then show ?thesis
    unfolding credential_uri_keep_def Let_def yields_ensures eligible_entries_def [symmetric]
    using uri_keep_loop_yields [OF _ assms, of _ 0]
    by (auto intro!: ensures_bind [OF number_rules_agree] simp: yields_ensures)
qed

text \<open>
  C18. A credential-URI fallback is dropped exactly when a visible Betterleaks finding of another
  rule overlaps it and contains its secret: the interval tree with its same-rule shortcut changes
  nothing against comparing all pairs.  The result is complete or the scan aborts under a limited
  control.
\<close>

theorem credential_uri_keep_all_pairs:
  assumes "length entries \<le> usize_max"
  shows "yields (credential_uri_keep entries) (map (\<lambda>i. \<not> covered_fallback entries i) [0..<length entries])"
  using assms by (rule credential_uri_keep_yields)

definition sample_rule :: "bytes \<Rightarrow> validation option \<Rightarrow> rule" where
  "sample_rule rid v = \<lparr>rl_id = rid, rl_visible = True, rl_specificity = 0, rl_validation = v, rl_depends_on = []\<rparr>"

theorem credential_uri_keep_all_pairs_witness:
  "run_unlimited (credential_uri_keep
     [(sample_rule ''betterleaks.uri'' (Some CredentialUri), from_offsets 0 9, ''pw''),
      (sample_rule ''betterleaks.db'' None, from_offsets 4 12, ''xpwx'')]) = Some [False, True]"
proof -
  let ?es = "[(sample_rule ''betterleaks.uri'' (Some CredentialUri), from_offsets 0 9, ''pw''),
      (sample_rule ''betterleaks.db'' None, from_offsets 4 12, ''xpwx'')]"
  have "length ?es \<le> usize_max" by (simp add: usize_max_def)
  from yields_run [OF credential_uri_keep_all_pairs [OF this]]
  have "run_unlimited (credential_uri_keep ?es) = Some (map (\<lambda>i. \<not> covered_fallback ?es i) [0, 1])"
    by (simp add: upt_conv_Cons)
  moreover have "covered_fallback ?es 0" "\<not> covered_fallback ?es 1"
    by (auto simp: covered_fallback_def sample_rule_def eligible_def is_uri_rule_def overlaps_def
        from_offsets_def less_Suc_eq)
  ultimately show ?thesis by simp
qed

end
