(* ===== verification/Pyc_Marshal.thy ===== *)
theory Pyc_Marshal
  imports Text_Encoding
begin

text \<open>
  Extraction of string constants from Python bytecode,
  \<open>crates/kingfisher-scanner/src/extraction/pyc.rs\<close>, with the resource limits of
  \<open>crates/kingfisher-scanner/src/archive/limits.rs\<close>.

  The marshal reader walks untrusted input with an explicit work stack.  The theory shows that it
  ends on every input and stays inside the slice, that its output respects the byte budget,
  and that from every marshalled object within the limits it returns exactly the string constants.
\<close>

section \<open>Resource limits\<close>

record resource_limits =
  unlimited_resources :: bool

definition reached :: "resource_limits \<Rightarrow> nat \<Rightarrow> nat \<Rightarrow> bool" where
  "reached l value limit \<longleftrightarrow> \<not> unlimited_resources l \<and> limit \<le> value"

definition exceeds :: "resource_limits \<Rightarrow> nat \<Rightarrow> nat \<Rightarrow> bool" where
  "exceeds l value limit \<longleftrightarrow> \<not> unlimited_resources l \<and> limit < value"

definition cap :: "resource_limits \<Rightarrow> nat \<Rightarrow> nat \<Rightarrow> nat" where
  "cap l value limit = (if unlimited_resources l then value else min value limit)"

section \<open>Formats and constants\<close>

definition MAX_RECURSION_DEPTH :: nat where "MAX_RECURSION_DEPTH = 256"
definition MAX_TOTAL_BYTES :: nat where "MAX_TOTAL_BYTES = 64 * 1024 * 1024"
definition MAX_COLLECTION_LEN :: nat where "MAX_COLLECTION_LEN = 1000000"

datatype code_format = V33 | V38 | V311 | V313

fun leading_longs :: "code_format \<Rightarrow> nat" where
  "leading_longs V33 = 5"
| "leading_longs V38 = 6"
| "leading_longs V311 = 5"
| "leading_longs V313 = 5"

fun middle_objects :: "code_format \<Rightarrow> nat" where
  "middle_objects _ = 8"

fun trailing_objects :: "code_format \<Rightarrow> nat" where
  "trailing_objects V33 = 1"
| "trailing_objects V38 = 1"
| "trailing_objects V311 = 2"
| "trailing_objects V313 = 2"

definition pyc_version_info :: "nat \<Rightarrow> (nat \<times> code_format) option" where
  "pyc_version_info magic =
     (if 3000 \<le> magic \<and> magic \<le> 3189 then Some (8, V33)
      else if 3190 \<le> magic \<and> magic \<le> 3379 then Some (12, V33)
      else if 3380 \<le> magic \<and> magic \<le> 3399 then Some (16, V33)
      else if 3400 \<le> magic \<and> magic \<le> 3494 then Some (16, V38)
      else if 3495 \<le> magic \<and> magic \<le> 3567 then Some (16, V311)
      else if 3568 \<le> magic \<and> magic \<le> 3700 then Some (16, V313)
      else None)"

section \<open>The reader\<close>

datatype extraction_limit_exceeded = Bytes | Rows | BytecodeWork

text \<open>The errors: end of input, a refused or malformed construct, a strict limit, an abort.\<close>

datatype pyc_error =
    UnexpectedEof
  | Malformed bytes
  | LimitExceeded extraction_limit_exceeded
  | Aborted scan_aborted

datatype marshal_work = Objects nat nat | Dictionary nat | Skip nat

text \<open>\<open>mr_checks\<close> counts the control checks made so far, the time that the control observes.\<close>

record marshal_reader =
  mr_data :: bytes
  mr_position :: nat
  mr_code_format :: code_format
  mr_refs :: "unit list"
  mr_strings :: bytes
  mr_total_extracted :: nat
  mr_depth :: nat
  mr_resources :: resource_limits
  mr_max_output :: "nat option"
  mr_control :: scan_control
  mr_checks :: nat

type_synonym 'a mr = "marshal_reader \<Rightarrow> (pyc_error + 'a) \<times> marshal_reader"

definition mr_ret :: "'a \<Rightarrow> 'a mr" where
  "mr_ret x r = (Inr x, r)"

definition mr_fail :: "pyc_error \<Rightarrow> 'a mr" where
  "mr_fail e r = (Inl e, r)"

definition mr_bind :: "'a mr \<Rightarrow> ('a \<Rightarrow> 'b mr) \<Rightarrow> 'b mr" where
  "mr_bind m f r = (case m r of (Inl e, r') \<Rightarrow> (Inl e, r') | (Inr x, r') \<Rightarrow> f x r')"

definition reader_new :: "bytes \<Rightarrow> code_format \<Rightarrow> marshal_reader" where
  "reader_new data fmt =
     \<lparr>mr_data = data, mr_position = 0, mr_code_format = fmt, mr_refs = [], mr_strings = [],
      mr_total_extracted = 0, mr_depth = 0, mr_resources = \<lparr>unlimited_resources = False\<rparr>,
      mr_max_output = None, mr_control = unlimited, mr_checks = 0\<rparr>"

definition mr_check :: "unit mr" where
  "mr_check r =
     (case check (mr_control r) (mr_checks r) of
        Inl e \<Rightarrow> (Inl (Aborted e), r)
      | Inr (_, t) \<Rightarrow> (Inr (), r\<lparr>mr_checks := t\<rparr>))"

definition read_bytes :: "nat \<Rightarrow> bytes mr" where
  "read_bytes len r =
     (if mr_position r + len \<le> length (mr_data r)
      then (Inr (subslice (mr_data r) (mr_position r) (mr_position r + len)),
            r\<lparr>mr_position := mr_position r + len\<rparr>)
      else (Inl UnexpectedEof, r))"

text \<open>
  \<open>Cursor::read_exact\<close> leaves the cursor at the end of the input when there are too few bytes; the
  reader is not used any more after that error except for its strings.
\<close>

definition read_exact :: "nat \<Rightarrow> bytes mr" where
  "read_exact len r =
     (if mr_position r + len \<le> length (mr_data r) then read_bytes len r
      else (Inl UnexpectedEof, r\<lparr>mr_position := max (mr_position r) (length (mr_data r))\<rparr>))"

definition read_u8 :: "byte mr" where
  "read_u8 = mr_bind (read_exact 1) (\<lambda>buf. mr_ret (buf ! 0))"

text \<open>\<open>read_u32\<close> is the unsigned reading of \<open>read_i32\<close>.\<close>

definition read_u32 :: "nat mr" where
  "read_u32 = mr_bind (read_exact 4) (\<lambda>buf. mr_ret (u32_from_le_bytes (buf ! 0, buf ! 1, buf ! 2, buf ! 3)))"

definition read_i32 :: "int mr" where
  "read_i32 = mr_bind read_u32 (\<lambda>v. mr_ret (if v < 2 ^ 31 then int v else int v - 2 ^ 32))"

definition skip_bytes :: "nat \<Rightarrow> unit mr" where
  "skip_bytes n r =
     (if mr_position r + n \<le> length (mr_data r) then (Inr (), r\<lparr>mr_position := mr_position r + n\<rparr>)
      else (Inl UnexpectedEof, r))"

definition collect_string :: "bytes \<Rightarrow> unit mr" where
  "collect_string data = mr_bind mr_check (\<lambda>_ r.
     let separator = (if data \<noteq> [] \<and> mr_strings r \<noteq> [] then 1 else 0) in
     if (case mr_max_output r of
           Some limit \<Rightarrow> limit < mr_total_extracted r + separator + length data
         | None \<Rightarrow> False) then mr_fail (LimitExceeded Bytes) r
     else if reached (mr_resources r) (mr_total_extracted r) MAX_TOTAL_BYTES then mr_ret () r
     else if data = [] then mr_ret () r
     else
       let r = (if mr_strings r \<noteq> [] then
                  r\<lparr>mr_strings := mr_strings r @ [newline],
                    mr_total_extracted := mr_total_extracted r + 1\<rparr>
                else r);
           allowed = MAX_TOTAL_BYTES - mr_total_extracted r;
           take_len = cap (mr_resources r) (length data) allowed
       in mr_ret () (r\<lparr>mr_strings := mr_strings r @ take take_len data,
                      mr_total_extracted := mr_total_extracted r + take_len\<rparr>))"

text \<open>The guard \<open>if resources.exceeds(..) { strict error, or bail }\<close>.\<close>

definition guard_limit :: "nat \<Rightarrow> nat \<Rightarrow> extraction_limit_exceeded \<Rightarrow> bytes \<Rightarrow> unit mr" where
  "guard_limit value limit strict_error message r =
     (if exceeds (mr_resources r) value limit then
        (if mr_max_output r \<noteq> None then mr_fail (LimitExceeded strict_error) r
         else mr_fail (Malformed message) r)
      else mr_ret () r)"

definition read_sized_string :: "bytes \<Rightarrow> unit mr" where
  "read_sized_string message =
     mr_bind read_u32 (\<lambda>len.
     mr_bind (guard_limit len MAX_TOTAL_BYTES Bytes message) (\<lambda>_.
     mr_bind (read_bytes len) collect_string))"

definition read_collection :: "bytes \<Rightarrow> marshal_work list \<Rightarrow> marshal_work list mr" where
  "read_collection message work =
     mr_bind read_u32 (\<lambda>n.
     mr_bind (guard_limit n MAX_COLLECTION_LEN BytecodeWork message) (\<lambda>_ r.
       mr_ret (Objects n (mr_depth r) # work) r))"

text \<open>\<open>raw_type & !FLAG_REF\<close> and \<open>raw_type & FLAG_REF != 0\<close>\<close>

definition strip_flag_ref :: "byte \<Rightarrow> byte" where
  "strip_flag_ref raw = char_of (byte_val raw mod 128)"

definition has_flag_ref :: "byte \<Rightarrow> bool" where
  "has_flag_ref raw \<longleftrightarrow> 128 \<le> byte_val raw"

definition then_work :: "unit mr \<Rightarrow> marshal_work list \<Rightarrow> marshal_work list mr" where
  "then_work m work = mr_bind m (\<lambda>_. mr_ret work)"

definition read_long :: "unit mr" where
  "read_long =
     mr_bind read_i32 (\<lambda>n.
     let words = nat \<bar>n\<bar> in
     mr_bind (guard_limit words MAX_COLLECTION_LEN BytecodeWork ''long size exceeds collection limit'') (\<lambda>_.
     mr_bind (guard_limit (words * 2) MAX_TOTAL_BYTES BytecodeWork ''long size exceeds total bytes limit'') (\<lambda>_.
     skip_bytes (words * 2))))"

text \<open>The stack is a list with its top first; the result is the stack after the pushes.\<close>

definition read_typed :: "byte \<Rightarrow> marshal_work list \<Rightarrow> marshal_work list mr" where
  "read_typed type_byte work =
     (if type_byte \<in> set ''0NS.TF'' then mr_ret work
      else if type_byte = CHR ''i'' then then_work (skip_bytes 4) work
      else if type_byte = CHR ''I'' then then_work (skip_bytes 8) work
      else if type_byte = CHR ''f'' then then_work (mr_bind read_u8 (\<lambda>n. skip_bytes (byte_val n))) work
      else if type_byte = CHR ''g'' then then_work (skip_bytes 8) work
      else if type_byte = CHR ''x'' then
        then_work (mr_bind read_u8 (\<lambda>n1. mr_bind (skip_bytes (byte_val n1)) (\<lambda>_.
          mr_bind read_u8 (\<lambda>n2. skip_bytes (byte_val n2))))) work
      else if type_byte = CHR ''y'' then then_work (skip_bytes 16) work
      else if type_byte = CHR ''l'' then then_work read_long work
      else if type_byte \<in> set ''st'' then then_work (read_sized_string ''string length exceeds limit'') work
      else if type_byte = CHR ''u'' then then_work (read_sized_string ''unicode length exceeds limit'') work
      else if type_byte \<in> set ''aA'' then then_work (read_sized_string ''ascii length exceeds limit'') work
      else if type_byte \<in> set ''zZ'' then
        then_work (mr_bind read_u8 (\<lambda>len. mr_bind (read_bytes (byte_val len)) collect_string)) work
      else if type_byte = CHR ''r'' then then_work (skip_bytes 4) work
      else if type_byte = CHR ''('' then read_collection ''tuple length exceeds limit'' work
      else if type_byte = CHR '')'' then
        mr_bind read_u8 (\<lambda>n r. mr_ret (Objects (byte_val n) (mr_depth r) # work) r)
      else if type_byte = CHR ''['' then read_collection ''list length exceeds limit'' work
      else if type_byte \<in> set ''<>'' then read_collection ''set length exceeds limit'' work
      else if type_byte = CHR ''{'' then (\<lambda>r. mr_ret (Dictionary (mr_depth r) # work) r)
      else if type_byte = CHR '':'' then (\<lambda>r. mr_ret (Objects 3 (mr_depth r) # work) r)
      else if type_byte = CHR ''c'' then
        (\<lambda>r. mr_bind (skip_bytes (4 * leading_longs (mr_code_format r))) (\<lambda>_ r.
           mr_ret (Objects (middle_objects (mr_code_format r)) (mr_depth r) # Skip 4 #
                   Objects (trailing_objects (mr_code_format r)) (mr_depth r) # work) r) r)
      else mr_fail (Malformed ''unknown marshal type''))"

definition push_ref :: "bool \<Rightarrow> unit mr" where
  "push_ref is_ref r = (Inr (), if is_ref then r\<lparr>mr_refs := mr_refs r @ [()]\<rparr> else r)"

definition read_object_inner :: "marshal_work list \<Rightarrow> marshal_work list mr" where
  "read_object_inner work =
     mr_bind read_u8 (\<lambda>raw_type.
     mr_bind (push_ref (has_flag_ref raw_type)) (\<lambda>_.
     read_typed (strip_flag_ref raw_type) work))"

section \<open>Reading never moves back\<close>

definition same_input :: "marshal_reader \<Rightarrow> marshal_reader \<Rightarrow> bool" where
  "same_input r r' \<longleftrightarrow>
     mr_data r' = mr_data r \<and> mr_code_format r' = mr_code_format r \<and> mr_resources r' = mr_resources r \<and>
     mr_max_output r' = mr_max_output r \<and> mr_control r' = mr_control r \<and> mr_depth r' = mr_depth r \<and>
     mr_position r \<le> mr_position r' \<and>
     (mr_position r \<le> length (mr_data r) \<longrightarrow> mr_position r' \<le> length (mr_data r))"

text \<open>A computation all of whose steps are related: the relation is reflexive and transitive.\<close>

definition steps :: "(marshal_reader \<Rightarrow> marshal_reader \<Rightarrow> bool) \<Rightarrow> 'a mr \<Rightarrow> bool" where
  "steps R m \<longleftrightarrow> (\<forall>r. R r (snd (m r)))"

lemma steps_bind:
  assumes "\<And>a b c. R a b \<Longrightarrow> R b c \<Longrightarrow> R a c" and "steps R m" and "\<And>x. steps R (f x)"
  shows "steps R (mr_bind m f)"
  unfolding steps_def
proof
  fix r
  show "R r (snd (mr_bind m f r))"
  proof (cases "m r")
    case (Pair res r')
    have "R r r'" using assms(2) Pair unfolding steps_def by (metis snd_conv)
    moreover have "R r' (snd (f x r'))" for x using assms(3) unfolding steps_def by blast
    ultimately show ?thesis using assms(1) Pair by (cases res) (auto simp: mr_bind_def)
  qed
qed

lemma steps_if: "steps R a \<Longrightarrow> steps R b \<Longrightarrow> steps R (if c then a else b)"
  by simp

lemma steps_reader: "(\<And>x. steps R (F x)) \<Longrightarrow> steps R (\<lambda>r. F r r)"
  by (simp add: steps_def)

text \<open>
  What the elementary operations keep, reading one object keeps: a relation between the reader
  before and after is checked once on them.
\<close>

locale reader_relation =
  fixes R :: "marshal_reader \<Rightarrow> marshal_reader \<Rightarrow> bool"
  assumes R_refl: "R r r"
    and R_trans: "R a b \<Longrightarrow> R b c \<Longrightarrow> R a c"
    and checks: "R r (r\<lparr>mr_checks := t\<rparr>)"
    and refs: "R r (r\<lparr>mr_refs := rs\<rparr>)"
    and position: "mr_position r \<le> p \<Longrightarrow> p \<le> max (mr_position r) (length (mr_data r)) \<Longrightarrow> R r (r\<lparr>mr_position := p\<rparr>)"
    and collect: "steps R (collect_string data)"
begin

lemma bind: "steps R m \<Longrightarrow> (\<And>x. steps R (f x)) \<Longrightarrow> steps R (mr_bind m f)"
  by (rule steps_bind) (blast intro: R_trans)+

lemma results: "steps R (mr_ret x)" "steps R (\<lambda>r. mr_ret (h r) r)" "steps R (mr_fail e)"
  by (simp_all add: steps_def mr_ret_def mr_fail_def R_refl)

lemma elementary:
  "steps R mr_check" "steps R (read_bytes n)" "steps R (read_exact n)" "steps R (skip_bytes n)"
  "steps R (push_ref b)" "steps R (guard_limit v l e s)"
  by (simp_all add: steps_def mr_check_def read_bytes_def read_exact_def skip_bytes_def push_ref_def
      guard_limit_def mr_ret_def mr_fail_def R_refl checks refs position split: sum.split)

lemma reads: "steps R read_u8" "steps R read_u32"
  unfolding read_u8_def read_u32_def by (intro bind results elementary)+

lemma read_integer: "steps R read_i32"
  unfolding read_i32_def by (intro bind results reads)

lemma sized_string: "steps R (read_sized_string s)"
  unfolding read_sized_string_def by (intro bind elementary reads collect)

lemma counted: "steps R (read_collection s work)"
  unfolding read_collection_def by (intro bind elementary reads results)

lemma long: "steps R read_long"
  unfolding read_long_def Let_def by (intro bind elementary read_integer)

lemma then_work: "steps R m \<Longrightarrow> steps R (then_work m work)"
  unfolding then_work_def by (intro bind results)

lemma code:
  "steps R (\<lambda>r. mr_bind (skip_bytes (4 * leading_longs (mr_code_format r))) (\<lambda>_ r. mr_ret (h r) r) r)"
  by (rule steps_reader [where F = "\<lambda>r. mr_bind (skip_bytes (4 * leading_longs (mr_code_format r))) (\<lambda>_ r. mr_ret (h r) r)"])
    (intro bind elementary results)

lemma typed: "steps R (read_typed type_byte work)"
  unfolding read_typed_def
  by (intro steps_if results then_work bind elementary reads sized_string counted long collect code)

lemma inner: "steps R (read_object_inner work)"
  unfolding read_object_inner_def by (intro bind reads elementary typed)

end

lemma same_input_trans: "same_input a b \<Longrightarrow> same_input b c \<Longrightarrow> same_input a c"
  by (auto simp: same_input_def)

lemma same_input_check: "steps same_input mr_check"
  by (simp add: steps_def mr_check_def same_input_def split: sum.split)

lemma same_input_collect: "steps same_input (collect_string data)"
  unfolding collect_string_def
  by (rule steps_bind, erule (1) same_input_trans, rule same_input_check)
    (simp add: steps_def mr_ret_def mr_fail_def same_input_def Let_def split: option.split)

interpretation input: reader_relation same_input
  by unfold_locales (auto simp: same_input_def same_input_collect)

definition remaining :: "marshal_reader \<Rightarrow> nat" where
  "remaining r = length (mr_data r) - mr_position r"

lemma read_u8_Inr:
  assumes "read_u8 r = (Inr b, r')"
  shows "mr_position r < length (mr_data r)" and "r' = r\<lparr>mr_position := mr_position r + 1\<rparr>"
    and "b = mr_data r ! mr_position r"
  using assms
  by (auto simp: read_u8_def mr_bind_def read_exact_def read_bytes_def mr_ret_def subslice_def split: if_splits)

lemma read_object_inner_consumes:
  assumes "read_object_inner work r = (Inr work', r')"
  shows "remaining r' < remaining r"
proof -
  from assms obtain raw r1 where r1: "read_u8 r = (Inr raw, r1)"
    and rest: "mr_bind (push_ref (has_flag_ref raw)) (\<lambda>_. read_typed (strip_flag_ref raw) work) r1 = (Inr work', r')"
    by (auto simp: read_object_inner_def mr_bind_def split: prod.splits sum.splits)
  have "steps same_input (mr_bind (push_ref (has_flag_ref raw)) (\<lambda>_. read_typed (strip_flag_ref raw) work))"
    by (intro input.bind input.elementary input.typed)
  then have "same_input r1 r'" using rest unfolding steps_def by (metis snd_conv)
  with read_u8_Inr [OF r1] show ?thesis by (auto simp: remaining_def same_input_def)
qed

lemma mr_check_remaining: "mr_check r = (res, r') \<Longrightarrow> remaining r' = remaining r"
  by (auto simp: mr_check_def remaining_def split: sum.splits)

lemma mr_check_position: "mr_check r = (res, r') \<Longrightarrow> mr_position r' = mr_position r \<and> mr_data r' = mr_data r"
  by (auto simp: mr_check_def split: sum.splits)

lemma read_u8_remaining:
  "read_u8 r = (Inr b, r') \<Longrightarrow>
     remaining r' < remaining r \<and> remaining (r'\<lparr>mr_position := mr_position r' - Suc 0\<rparr>) = remaining r"
  using read_u8_Inr [of r b r'] by (auto simp: remaining_def)

lemma skip_bytes_remaining: "skip_bytes n r = (Inr u, r') \<Longrightarrow> remaining r' \<le> remaining r"
  by (auto simp: skip_bytes_def remaining_def split: if_splits)

lemma remaining_depth [simp]: "remaining (r\<lparr>mr_depth := d\<rparr>) = remaining r"
  by (simp add: remaining_def)

section \<open>The work loop\<close>

text \<open>How many steps can be made before the next byte is read.\<close>

fun idle_steps :: "marshal_work list \<Rightarrow> nat" where
  "idle_steps [] = 0"
| "idle_steps (Objects n d # work) = (if n = 0 then Suc (idle_steps work) else 0)"
| "idle_steps (Dictionary d # work) = 1"
| "idle_steps (Skip n # work) = Suc (idle_steps work)"

function read_object_loop :: "marshal_work list \<Rightarrow> marshal_reader \<Rightarrow> (pyc_error + unit) \<times> marshal_reader" where
  "read_object_loop [] r = (Inr (), r)"
| "read_object_loop (next_work # work) r =
     (case mr_check r of
        (Inl e, r) \<Rightarrow> (Inl e, r)
      | (Inr _, r) \<Rightarrow>
          if mr_max_output r = None \<and> reached (mr_resources r) (mr_total_extracted r) MAX_TOTAL_BYTES
          then (Inr (), r)
          else
            case next_work of
              Objects count depth \<Rightarrow>
                if count = 0 then read_object_loop work r
                else if exceeds (mr_resources r) depth MAX_RECURSION_DEPTH then
                  (if mr_max_output r \<noteq> None then (Inl (LimitExceeded BytecodeWork), r)
                   else (Inl (Malformed ''marshal recursion depth exceeded''), r))
                else
                  (case read_object_inner (Objects (count - 1) depth # work) (r\<lparr>mr_depth := depth + 1\<rparr>) of
                     (Inl e, r) \<Rightarrow> (Inl e, r)
                   | (Inr work, r) \<Rightarrow> read_object_loop work r)
            | Dictionary depth \<Rightarrow>
                (case read_u8 r of
                   (Inl e, r) \<Rightarrow> (Inl e, r)
                 | (Inr b, r) \<Rightarrow>
                     if b \<noteq> CHR ''0'' then
                       read_object_loop (Objects 2 depth # Dictionary depth # work)
                         (r\<lparr>mr_position := mr_position r - 1\<rparr>)
                     else read_object_loop work r)
            | Skip n \<Rightarrow>
                (case skip_bytes n r of
                   (Inl e, r) \<Rightarrow> (Inl e, r)
                 | (Inr _, r) \<Rightarrow> read_object_loop work r))"
  by pat_completeness auto
termination
  by (relation "measures [\<lambda>(work, r). remaining r, \<lambda>(work, r). idle_steps work]")
    (auto dest!: mr_check_remaining [OF sym] read_object_inner_consumes [OF sym]
      read_u8_remaining [OF sym] skip_bytes_remaining [OF sym])

declare read_object_loop.simps(2) [simp del]

definition read_object :: "unit mr" where
  "read_object = read_object_loop [Objects 1 0]"

section \<open>Extraction\<close>

definition extract_pyc_data ::
  "bytes \<Rightarrow> resource_limits \<Rightarrow> nat option \<Rightarrow> scan_control \<Rightarrow> nat \<Rightarrow> bool \<Rightarrow> pyc_error + bytes" where
  "extract_pyc_data data resources max_bytes control checks strict =
     (if length data < 8 then Inl (Malformed ''file too small to be a valid .pyc'')
      else if data ! 2 \<noteq> CHR 0x0D \<or> data ! 3 \<noteq> CHR 0x0A then Inl (Malformed ''invalid .pyc magic suffix'')
      else (case pyc_version_info (u16_from_le_bytes (data ! 0, data ! 1)) of
        None \<Rightarrow> Inr []
      | Some (header_size, code_format) \<Rightarrow>
          if length data < header_size then Inl (Malformed ''.pyc header too short'')
          else
            let marshal_data = drop header_size data in
            if marshal_data = [] then Inr []
            else
              let reader = (reader_new marshal_data code_format)
                    \<lparr>mr_resources := resources, mr_max_output := max_bytes, mr_control := control,
                     mr_checks := checks\<rparr>
              in (case read_object reader of
                (Inr _, reader) \<Rightarrow> Inr (mr_strings reader)
              | (Inl e, reader) \<Rightarrow>
                  (case mr_check reader of
                     (Inl aborted, _) \<Rightarrow> Inl aborted
                   | (Inr _, _) \<Rightarrow>
                       if strict \<or> (\<exists>l \<in> {Bytes, Rows, BytecodeWork}. e = LimitExceeded l) then Inl e
                       else Inr (mr_strings reader)))))"

text \<open>Extraction from a file, its contents given.\<close>

definition extract_pyc_strings_with_limits :: "bytes \<Rightarrow> resource_limits \<Rightarrow> pyc_error + bytes" where
  "extract_pyc_strings_with_limits data resources = extract_pyc_data data resources None unlimited 0 False"

definition extract_pyc_strings_from_bytes_with_budget ::
  "bytes \<Rightarrow> nat \<Rightarrow> scan_control \<Rightarrow> pyc_error + bytes" where
  "extract_pyc_strings_from_bytes_with_budget data max_bytes control =
     (case check control 0 of
        Inl e \<Rightarrow> Inl (Aborted e)
      | Inr (_, t) \<Rightarrow>
          extract_pyc_data data \<lparr>unlimited_resources = False\<rparr> (Some (min max_bytes MAX_TOTAL_BYTES))
            control t True)"

section \<open>Invariants of the whole parse\<close>

locale loop_relation = reader_relation +
  assumes depth: "R r (r\<lparr>mr_depth := d\<rparr>)"
    and unread: "R r (r\<lparr>mr_position := mr_position r - 1\<rparr>)"
begin

lemma stepD: "steps R m \<Longrightarrow> m r = (res, r') \<Longrightarrow> R r r'"
  unfolding steps_def by (metis snd_conv)

lemma loop: "R r (snd (read_object_loop work r))"
proof (induction work r rule: read_object_loop.induct)
  case (1 r)
  show ?case by (simp add: R_refl)
next
  case (2 next_work work r)
  obtain res r1 where c: "mr_check r = (res, r1)" by force
  have R1: "R r r1" by (rule stepD [OF elementary(1) c])
  show ?case
  proof (cases "(\<exists>e. res = Inl e) \<or> mr_max_output r1 = None \<and> reached (mr_resources r1) (mr_total_extracted r1) MAX_TOTAL_BYTES")
    case True
    with c R1 show ?thesis by (cases res) (auto simp: read_object_loop.simps(2))
  next
    case False
    then obtain u where go: "res = Inr u"
      "\<not> (mr_max_output r1 = None \<and> reached (mr_resources r1) (mr_total_extracted r1) MAX_TOTAL_BYTES)"
      by (cases res) auto
    note IH = "2.IH" [OF c [symmetric] go]
    note loop = read_object_loop.simps(2) [of next_work work r]
    show ?thesis
    proof (cases next_work)
      case (Objects count d)
      show ?thesis
      proof (cases "count = 0 \<or> exceeds (mr_resources r1) d MAX_RECURSION_DEPTH")
        case True
        then show ?thesis
          using R1 R_trans [OF R1 IH(1) [OF Objects]] c go by (auto simp: Objects loop [unfolded Objects])
      next
        case False
        obtain res2 r2 where inner2: "read_object_inner (Objects (count - 1) d # work) (r1\<lparr>mr_depth := d + 1\<rparr>) = (res2, r2)"
          by force
        have R2: "R r r2" using R_trans [OF R1 R_trans [OF depth stepD [OF inner inner2]]] .
        with False c go inner2 show ?thesis
          using R_trans [OF R2 IH(2) [OF Objects _ _ inner2 [symmetric]]]
          by (cases res2) (auto simp: Objects loop [unfolded Objects])
      qed
    next
      case (Dictionary d)
      obtain res2 r2 where u8: "read_u8 r1 = (res2, r2)" by force
      have R2: "R r r2" using R_trans [OF R1 stepD [OF reads(1) u8]] .
      show ?thesis
      proof (cases res2)
        case (Inl e)
        with c go u8 R1 R2 show ?thesis by (simp add: Dictionary loop [unfolded Dictionary])
      next
        case (Inr b)
        show ?thesis
        proof (cases "b = CHR ''0''")
          case True
          with c go u8 Inr R1 R_trans [OF R2 IH(4) [OF Dictionary u8 [symmetric] Inr]] show ?thesis
            by (simp add: Dictionary loop [unfolded Dictionary])
        next
          case False
          with c go u8 Inr R1 R_trans [OF R2 R_trans [OF unread IH(3) [OF Dictionary u8 [symmetric] Inr False]]]
          show ?thesis by (simp add: Dictionary loop [unfolded Dictionary])
        qed
      qed
    next
      case (Skip n)
      obtain res2 r2 where sk: "skip_bytes n r1 = (res2, r2)" by force
      have R2: "R r r2" using R_trans [OF R1 stepD [OF elementary(4) sk]] .
      show ?thesis
        using c go sk R2 R_trans [OF R2 IH(5) [OF Skip sk [symmetric]]]
        by (cases res2) (auto simp: Skip loop [unfolded Skip])
    qed
  qed
qed

end

text \<open>The position stays inside the input and what was configured does not change.\<close>

definition inside :: "marshal_reader \<Rightarrow> marshal_reader \<Rightarrow> bool" where
  "inside r r' \<longleftrightarrow>
     mr_data r' = mr_data r \<and> mr_max_output r' = mr_max_output r \<and> mr_resources r' = mr_resources r \<and>
     mr_control r' = mr_control r \<and>
     (mr_position r \<le> length (mr_data r) \<longrightarrow> mr_position r' \<le> length (mr_data r))"

interpretation inside: loop_relation inside
proof
  show "steps inside (collect_string data)" for data
    using same_input_collect [of data] by (auto simp: steps_def inside_def same_input_def)
qed (auto simp: inside_def)

text \<open>The byte accounting and the output limits.\<close>

definition output_ok :: "marshal_reader \<Rightarrow> bool" where
  "output_ok r \<longleftrightarrow>
     mr_total_extracted r = length (mr_strings r) \<and>
     (case mr_max_output r of
        Some limit \<Rightarrow> mr_total_extracted r \<le> limit
      | None \<Rightarrow> unlimited_resources (mr_resources r) \<or> mr_total_extracted r \<le> MAX_TOTAL_BYTES)"

definition keeps_output :: "marshal_reader \<Rightarrow> marshal_reader \<Rightarrow> bool" where
  "keeps_output r r' \<longleftrightarrow> (output_ok r \<longrightarrow> output_ok r')"

lemma keeps_output_collect: "steps keeps_output (collect_string data)"
  unfolding collect_string_def
proof (rule steps_bind)
  show "keeps_output a b \<Longrightarrow> keeps_output b c \<Longrightarrow> keeps_output a c" for a b c
    by (simp add: keeps_output_def)
  show "steps keeps_output mr_check"
    by (auto simp: steps_def mr_check_def keeps_output_def output_ok_def split: sum.split option.splits)
qed (auto simp: steps_def mr_ret_def mr_fail_def keeps_output_def output_ok_def reached_def cap_def Let_def
      split: option.split)

interpretation accounting: loop_relation keeps_output
  by unfold_locales
    (simp_all add: keeps_output_collect, auto simp: keeps_output_def output_ok_def split: option.splits)

lemma extract_pyc_data_bounded:
  assumes "extract_pyc_data data resources max_bytes control checks strict = Inr out"
  shows "case max_bytes of
     Some limit \<Rightarrow> length out \<le> limit
   | None \<Rightarrow> unlimited_resources resources \<or> length out \<le> MAX_TOTAL_BYTES"
proof (cases "out = []")
  case True
  then show ?thesis by (simp split: option.split)
next
  case False
  let ?r = "\<lambda>h f. (reader_new (drop h data) f)
      \<lparr>mr_resources := resources, mr_max_output := max_bytes, mr_control := control, mr_checks := checks\<rparr>"
  obtain h f where "out = mr_strings (snd (read_object (?r h f)))"
    using assms False
    by (auto simp: extract_pyc_data_def Let_def split: if_splits option.splits prod.splits sum.splits)
       (metis snd_conv)+
  moreover have "output_ok (?r h f)" by (simp add: output_ok_def reader_new_def split: option.split)
  then have "output_ok (snd (read_object (?r h f)))"
    using accounting.loop [of "?r h f" "[Objects 1 0]"] by (simp add: keeps_output_def read_object_def)
  moreover have "inside (?r h f) (snd (read_object (?r h f)))"
    using inside.loop by (simp add: read_object_def)
  ultimately show ?thesis by (auto simp: output_ok_def inside_def reader_new_def split: option.splits)
qed

text \<open>
  C28. Output budget: whatever bytes are given as bytecode, extraction with a byte budget returns at
  most the budget and at most \<open>MAX_TOTAL_BYTES\<close>, separators included, and extraction from a file
  under the default limits at most \<open>MAX_TOTAL_BYTES\<close>; everything else is an error.
\<close>

theorem pyc_output_within_budget:
  "(case extract_pyc_strings_from_bytes_with_budget data max_bytes control of
      Inr out \<Rightarrow> length out \<le> max_bytes \<and> length out \<le> MAX_TOTAL_BYTES
    | Inl _ \<Rightarrow> True) \<and>
   (case extract_pyc_strings_with_limits data \<lparr>unlimited_resources = False\<rparr> of
      Inr out \<Rightarrow> length out \<le> MAX_TOTAL_BYTES
    | Inl _ \<Rightarrow> True)"
  by (auto simp: extract_pyc_strings_from_bytes_with_budget_def extract_pyc_strings_with_limits_def
      split: sum.splits dest!: extract_pyc_data_bounded)

text \<open>
  C36. The parse of any bytes ends with the position inside the input: no type byte, length or
  nesting makes the reader run past the slice or forever.
\<close>

theorem pyc_reader_stays_inside:
  "mr_position (snd (read_object (reader_new data fmt))) \<le> length data \<and>
   mr_data (snd (read_object (reader_new data fmt))) = data"
  using inside.loop [of "reader_new data fmt" "[Objects 1 0]"]
  by (simp add: inside_def read_object_def reader_new_def)

section \<open>Marshalled objects\<close>

text \<open>
  The objects of CPython's marshal format that the reader looks into or passes over: constants
  without payload, fixed-size numbers and references, textual floats and complex numbers, long
  integers (their sign and the bytes of their 15-bit digits), strings, collections, dictionaries
  (their keys and values in turn), slices and code objects.  The first argument is the reference
  flag.  These are all types the reader knows, except the marker that ends a dictionary.
\<close>

datatype pyobj =
    Atom bool byte
  | Fixed bool byte bytes
  | FloatText bool bytes
  | ComplexText bool bytes bytes
  | LongInt bool bool bytes
  | Sized bool byte bytes
  | Short bool byte bytes
  | Coll bool byte "pyobj list"
  | SmallTuple bool "pyobj list"
  | Dict bool "pyobj list"
  | SliceObj bool pyobj pyobj pyobj
  | Code bool bytes "pyobj list" bytes "pyobj list"

definition type_header :: "bool \<Rightarrow> byte \<Rightarrow> byte" where
  "type_header flag c = (if flag then char_of (byte_val c + 128) else c)"

text \<open>The signed number of digits, two bytes each.\<close>

definition long_size :: "bool \<Rightarrow> nat \<Rightarrow> nat" where
  "long_size negative digits = (if negative \<and> digits \<noteq> 0 then 2 ^ 32 - digits else digits)"

fun marshal :: "pyobj \<Rightarrow> bytes" where
  "marshal (Atom f c) = [type_header f c]"
| "marshal (Fixed f c p) = type_header f c # p"
| "marshal (FloatText f p) = type_header f (CHR ''f'') # char_of (length p) # p"
| "marshal (ComplexText f p q) = type_header f (CHR ''x'') # char_of (length p) # p @ char_of (length q) # q"
| "marshal (LongInt f negative p) = type_header f (CHR ''l'') # u32_le (long_size negative (length p div 2)) @ p"
| "marshal (Sized f c p) = type_header f c # u32_le (length p) @ p"
| "marshal (Short f c p) = type_header f c # char_of (length p) # p"
| "marshal (Coll f c os) = type_header f c # u32_le (length os) @ concat (map marshal os)"
| "marshal (SmallTuple f os) = type_header f (CHR '')'') # char_of (length os) # concat (map marshal os)"
| "marshal (Dict f os) = type_header f (CHR ''{'') # concat (map marshal os) @ ''0''"
| "marshal (SliceObj f a b c) = type_header f (CHR '':'') # marshal a @ marshal b @ marshal c"
| "marshal (Code f longs mid line trail) =
     type_header f (CHR ''c'') # longs @ concat (map marshal mid) @ line @ concat (map marshal trail)"

fun string_constants :: "pyobj \<Rightarrow> bytes list" where
  "string_constants (Sized f c p) = [p]"
| "string_constants (Short f c p) = [p]"
| "string_constants (Coll f c os) = concat (map string_constants os)"
| "string_constants (SmallTuple f os) = concat (map string_constants os)"
| "string_constants (Dict f os) = concat (map string_constants os)"
| "string_constants (SliceObj f a b c) = string_constants a @ string_constants b @ string_constants c"
| "string_constants (Code f longs mid line trail) =
     concat (map string_constants mid) @ concat (map string_constants trail)"
| "string_constants _ = []"

text \<open>Well-formed at nesting depth \<open>d\<close>: sizes as the format has them, within the reader's limits.\<close>

fun well_formed :: "code_format \<Rightarrow> nat \<Rightarrow> pyobj \<Rightarrow> bool" where
  "well_formed fmt d (Atom f c) \<longleftrightarrow> d \<le> MAX_RECURSION_DEPTH \<and> c \<in> set ''NS.TF''"
| "well_formed fmt d (Fixed f c p) \<longleftrightarrow> d \<le> MAX_RECURSION_DEPTH \<and>
     (c, length p) \<in> {(CHR ''i'', 4), (CHR ''I'', 8), (CHR ''g'', 8), (CHR ''y'', 16), (CHR ''r'', 4)}"
| "well_formed fmt d (FloatText f p) \<longleftrightarrow> d \<le> MAX_RECURSION_DEPTH \<and> length p < 256"
| "well_formed fmt d (ComplexText f p q) \<longleftrightarrow> d \<le> MAX_RECURSION_DEPTH \<and> length p < 256 \<and> length q < 256"
| "well_formed fmt d (LongInt f negative p) \<longleftrightarrow>
     d \<le> MAX_RECURSION_DEPTH \<and> even (length p) \<and> length p div 2 \<le> MAX_COLLECTION_LEN"
| "well_formed fmt d (Sized f c p) \<longleftrightarrow> d \<le> MAX_RECURSION_DEPTH \<and> c \<in> set ''stuaA''"
| "well_formed fmt d (Short f c p) \<longleftrightarrow> d \<le> MAX_RECURSION_DEPTH \<and> c \<in> set ''zZ'' \<and> length p < 256"
| "well_formed fmt d (Coll f c os) \<longleftrightarrow> d \<le> MAX_RECURSION_DEPTH \<and> c \<in> set ''([<>'' \<and>
     length os \<le> MAX_COLLECTION_LEN \<and> (\<forall>ob \<in> set os. well_formed fmt (Suc d) ob)"
| "well_formed fmt d (SmallTuple f os) \<longleftrightarrow> d \<le> MAX_RECURSION_DEPTH \<and> length os < 256 \<and>
     (\<forall>ob \<in> set os. well_formed fmt (Suc d) ob)"
| "well_formed fmt d (Dict f os) \<longleftrightarrow> d \<le> MAX_RECURSION_DEPTH \<and> even (length os) \<and>
     (\<forall>ob \<in> set os. well_formed fmt (Suc d) ob)"
| "well_formed fmt d (SliceObj f a b c) \<longleftrightarrow> d \<le> MAX_RECURSION_DEPTH \<and>
     well_formed fmt (Suc d) a \<and> well_formed fmt (Suc d) b \<and> well_formed fmt (Suc d) c"
| "well_formed fmt d (Code f longs mid line trail) \<longleftrightarrow> d \<le> MAX_RECURSION_DEPTH \<and>
     length longs = 4 * leading_longs fmt \<and> length mid = middle_objects fmt \<and> length line = 4 \<and>
     length trail = trailing_objects fmt \<and>
     (\<forall>ob \<in> set mid \<union> set trail. well_formed fmt (Suc d) ob)"

text \<open>The string constants that are not empty, separated by newlines.\<close>

definition add_string :: "bytes \<Rightarrow> bytes \<Rightarrow> bytes" where
  "add_string acc s = (if s = [] then acc else if acc = [] then s else acc @ newline # s)"

definition join_strings :: "bytes \<Rightarrow> bytes list \<Rightarrow> bytes" where
  "join_strings acc ss = foldl add_string acc ss"

lemma join_strings_simps [simp]:
  "join_strings acc [] = acc" "join_strings acc (s # ss) = join_strings (add_string acc s) ss"
  "join_strings acc (ss @ ts) = join_strings (join_strings acc ss) ts"
  by (simp_all add: join_strings_def)

lemma length_add_string: "length acc \<le> length (add_string acc s)"
  by (simp add: add_string_def)

lemma length_join_strings: "length acc \<le> length (join_strings acc ss)"
proof (induction ss arbitrary: acc)
  case (Cons s ss)
  then show ?case using length_add_string [of acc s] order_trans by auto
qed simp

section \<open>A reader in front of marshalled input\<close>

definition input :: "marshal_reader \<Rightarrow> bytes" where
  "input r = drop (mr_position r) (mr_data r)"

definition ready :: "nat \<Rightarrow> code_format \<Rightarrow> marshal_reader \<Rightarrow> bool" where
  "ready limit fmt r \<longleftrightarrow>
     mr_max_output r = Some limit \<and> limit \<le> MAX_TOTAL_BYTES \<and> \<not> unlimited_resources (mr_resources r) \<and>
     mr_control r = unlimited \<and> mr_total_extracted r = length (mr_strings r) \<and> mr_code_format r = fmt \<and>
     mr_position r \<le> length (mr_data r)"

text \<open>The reader after consuming input: still ready, the rest in front, these strings collected.\<close>

definition arrived :: "nat \<Rightarrow> code_format \<Rightarrow> bytes \<Rightarrow> bytes \<Rightarrow> nat \<Rightarrow> marshal_reader \<Rightarrow> bool" where
  "arrived limit fmt rest strings depth r \<longleftrightarrow>
     ready limit fmt r \<and> input r = rest \<and> mr_strings r = strings \<and> mr_depth r = depth"

lemma mr_check_unlimited: "mr_control r = unlimited \<Longrightarrow> mr_check r = (Inr (), r\<lparr>mr_checks := Suc (mr_checks r)\<rparr>)"
  by (simp add: mr_check_def check_def unlimited_def)

lemma arrived_check: "arrived l f b s d r \<Longrightarrow> \<exists>r'. mr_check r = (Inr (), r') \<and> arrived l f b s d r'"
  using mr_check_unlimited [of r] by (simp add: arrived_def ready_def input_def)

lemma arrived_bound: "arrived l f (xs @ b) s d r \<Longrightarrow> mr_position r + length xs \<le> length (mr_data r)"
proof -
  assume a: "arrived l f (xs @ b) s d r"
  then have "length (drop (mr_position r) (mr_data r)) = length xs + length b"
    by (simp add: arrived_def input_def)
  moreover have "mr_position r \<le> length (mr_data r)" using a by (simp add: arrived_def ready_def)
  ultimately show ?thesis by simp
qed

lemma arrived_advance:
  "arrived l f (xs @ b) s d r \<Longrightarrow> arrived l f b s d (r\<lparr>mr_position := mr_position r + length xs\<rparr>)"
  using arrived_bound [of l f xs b s d r]
  by (simp add: arrived_def ready_def input_def add.commute flip: drop_drop)

lemma arrived_read_bytes:
  assumes "arrived l f (xs @ b) s d r"
  shows "\<exists>r'. read_bytes (length xs) r = (Inr xs, r') \<and> arrived l f b s d r'"
proof -
  have "subslice (mr_data r) (mr_position r) (mr_position r + length xs) = take (length xs) (input r)"
    by (simp add: subslice_def input_def drop_take)
  with assms have "subslice (mr_data r) (mr_position r) (mr_position r + length xs) = xs"
    by (simp add: arrived_def)
  then show ?thesis
    using arrived_bound [OF assms] arrived_advance [OF assms] by (simp add: read_bytes_def)
qed

lemma arrived_read_exact:
  "arrived l f (xs @ b) s d r \<Longrightarrow> \<exists>r'. read_exact (length xs) r = (Inr xs, r') \<and> arrived l f b s d r'"
  using arrived_read_bytes [of l f xs b s d r] arrived_bound [of l f xs b s d r] by (simp add: read_exact_def)

lemma arrived_skip:
  "arrived l f (xs @ b) s d r \<Longrightarrow> n = length xs \<Longrightarrow> \<exists>r'. skip_bytes n r = (Inr (), r') \<and> arrived l f b s d r'"
  using arrived_bound [of l f xs b s d r] arrived_advance [of l f xs b s d r] by (simp add: skip_bytes_def)

lemma arrived_u8:
  assumes "arrived l f (c # b) s d r"
  shows "\<exists>r'. read_u8 r = (Inr c, r') \<and> arrived l f b s d r'"
  using arrived_read_exact [of l f "[c]" b s d r] assms by (auto simp: read_u8_def mr_bind_def mr_ret_def)

lemma u32_le_roundtrip:
  assumes "n < 2 ^ 32"
  shows "u32_from_le_bytes (u32_le n ! 0, u32_le n ! 1, u32_le n ! 2, u32_le n ! 3) = n"
proof -
  have "n < 4294967296" using assms by simp
  then show ?thesis using u32_split [of n] by (simp add: u32_le_def)
qed

lemma arrived_u32:
  assumes "arrived l f (u32_le n @ b) s d r" and "n < 2 ^ 32"
  shows "\<exists>r'. read_u32 r = (Inr n, r') \<and> arrived l f b s d r'"
proof -
  have "length (u32_le n) = 4" by (simp add: u32_le_def)
  with arrived_read_exact [OF assms(1)] u32_le_roundtrip [OF assms(2)] show ?thesis
    by (auto simp: read_u32_def mr_bind_def mr_ret_def)
qed

lemma arrived_collect:
  assumes "arrived l f b s d r" and "length (add_string s p) \<le> l"
  shows "\<exists>r'. collect_string p r = (Inr (), r') \<and> arrived l f b (add_string s p) d r'"
proof -
  obtain r1 where c: "mr_check r = (Inr (), r1)" and r1: "arrived l f b s d r1"
    using arrived_check [OF assms(1)] by blast
  have "length s < l" if "p \<noteq> []" using assms(2) that by (cases p) (auto simp: add_string_def split: if_splits)
  with r1 assms(2) show ?thesis
    by (auto simp: collect_string_def mr_bind_def c mr_ret_def arrived_def ready_def input_def reached_def
        cap_def add_string_def Let_def min_def split: if_splits)
qed

lemma arrived_guard:
  "arrived l f b s d r \<Longrightarrow> v \<le> m \<Longrightarrow> guard_limit v m e msg r = (Inr (), r)"
  by (simp add: guard_limit_def exceeds_def mr_ret_def)

lemma arrived_push_ref:
  "arrived l f b s d r \<Longrightarrow> \<exists>r'. push_ref flag r = (Inr (), r') \<and> arrived l f b s d r'"
  by (simp add: push_ref_def arrived_def ready_def input_def)

section \<open>One object\<close>

lemma type_header_facts:
  assumes "byte_val c < 128"
  shows "strip_flag_ref (type_header f c) = c"
  using assms by (simp add: strip_flag_ref_def type_header_def byte_val_def)

lemma mr_bind_Inr: "m r = (Inr x, r') \<Longrightarrow> mr_bind m k r = k x r'"
  by (simp add: mr_bind_def)

lemma arrived_inner:
  assumes "arrived l f (type_header flag c # b) s d r" and "byte_val c < 128"
  shows "\<exists>r'. arrived l f b s d r' \<and> read_object_inner work r = read_typed c work r'"
proof -
  obtain r1 where r1: "read_u8 r = (Inr (type_header flag c), r1)" "arrived l f b s d r1"
    using arrived_u8 [OF assms(1)] by blast
  obtain r2 where r2: "push_ref (has_flag_ref (type_header flag c)) r1 = (Inr (), r2)" "arrived l f b s d r2"
    using arrived_push_ref [OF r1(2)] by blast
  have "read_object_inner work r = read_typed c work r2"
    by (simp add: read_object_inner_def mr_bind_def r1(1) r2(1) type_header_facts [OF assms(2)])
  with r2(2) show ?thesis by blast
qed

section \<open>The loop on marshalled input\<close>

definition at_input :: "nat \<Rightarrow> code_format \<Rightarrow> bytes \<Rightarrow> bytes \<Rightarrow> marshal_reader \<Rightarrow> bool" where
  "at_input l f b s r \<longleftrightarrow> (\<exists>d. arrived l f b s d r)"

lemma arrived_max_output: "arrived l f b s d r \<Longrightarrow> mr_max_output r = Some l"
  by (simp add: arrived_def ready_def)

lemma loop_object:
  assumes "at_input l f b s r" and "d \<le> MAX_RECURSION_DEPTH"
  shows "\<exists>r1. arrived l f b s (Suc d) r1 \<and>
     read_object_loop (Objects (Suc n) d # work) r =
       (case read_object_inner (Objects n d # work) r1 of
          (Inl e, r') \<Rightarrow> (Inl e, r')
        | (Inr work', r') \<Rightarrow> read_object_loop work' r')"
proof -
  obtain d0 r0 where c: "mr_check r = (Inr (), r0)" and r0: "arrived l f b s d0 r0"
    using assms(1) arrived_check unfolding at_input_def by blast
  let ?r1 = "r0\<lparr>mr_depth := Suc d\<rparr>"
  have "arrived l f b s (Suc d) ?r1" using r0 by (simp add: arrived_def ready_def input_def)
  moreover have "read_object_loop (Objects (Suc n) d # work) r =
       (case read_object_inner (Objects n d # work) ?r1 of
          (Inl e, r') \<Rightarrow> (Inl e, r')
        | (Inr work', r') \<Rightarrow> read_object_loop work' r')"
    using c assms(2) arrived_max_output [OF r0]
    by (simp add: read_object_loop.simps(2) exceeds_def)
  ultimately show ?thesis by blast
qed

lemma loop_done:
  assumes "at_input l f b s r"
  shows "\<exists>r1. at_input l f b s r1 \<and> read_object_loop (Objects 0 d # work) r = read_object_loop work r1"
proof -
  obtain d0 r0 where "mr_check r = (Inr (), r0)" "arrived l f b s d0 r0"
    using assms(1) arrived_check unfolding at_input_def by blast
  then show ?thesis using arrived_max_output [of l f b s d0 r0]
    by (auto simp: read_object_loop.simps(2) at_input_def)
qed

lemma loop_skip:
  assumes "at_input l f (xs @ b) s r" and "n = length xs"
  shows "\<exists>r1. at_input l f b s r1 \<and> read_object_loop (Skip n # work) r = read_object_loop work r1"
proof -
  obtain d0 r0 where c: "mr_check r = (Inr (), r0)" and r0: "arrived l f (xs @ b) s d0 r0"
    using assms(1) arrived_check unfolding at_input_def by blast
  obtain r1 where "skip_bytes n r0 = (Inr (), r1)" "arrived l f b s d0 r1"
    using arrived_skip [OF r0 assms(2)] by blast
  then show ?thesis using c arrived_max_output [OF r0]
    by (auto simp: read_object_loop.simps(2) at_input_def)
qed

lemma loop_dict_end:
  assumes "at_input l f (CHR ''0'' # b) s r"
  shows "\<exists>r1. at_input l f b s r1 \<and> read_object_loop (Dictionary d # work) r = read_object_loop work r1"
proof -
  obtain d0 r0 where c: "mr_check r = (Inr (), r0)" and r0: "arrived l f (CHR ''0'' # b) s d0 r0"
    using assms(1) arrived_check unfolding at_input_def by blast
  obtain r1 where "read_u8 r0 = (Inr (CHR ''0''), r1)" "arrived l f b s d0 r1"
    using arrived_u8 [OF r0] by blast
  then show ?thesis using c arrived_max_output [OF r0]
    by (auto simp: read_object_loop.simps(2) at_input_def)
qed

lemma loop_dict_more:
  assumes "at_input l f (c # b) s r" and "c \<noteq> CHR ''0''"
  shows "\<exists>r1. at_input l f (c # b) s r1 \<and>
     read_object_loop (Dictionary d # work) r = read_object_loop (Objects 2 d # Dictionary d # work) r1"
proof -
  obtain d0 r0 where c: "mr_check r = (Inr (), r0)" and r0: "arrived l f (c # b) s d0 r0"
    using assms(1) arrived_check unfolding at_input_def by blast
  obtain r1 where u8: "read_u8 r0 = (Inr c, r1)" using arrived_u8 [OF r0] by blast
  then have "r1\<lparr>mr_position := mr_position r1 - 1\<rparr> = r0" using read_u8_Inr(2) [OF u8] by simp
  with u8 c r0 arrived_max_output [OF r0] assms(2) show ?thesis
    by (auto simp: read_object_loop.simps(2) [of "Dictionary d" work r] at_input_def)
qed

text \<open>The loop reads one marshalled object off a counted sequence.\<close>

definition parses :: "code_format \<Rightarrow> nat \<Rightarrow> pyobj \<Rightarrow> bool" where
  "parses fmt d ob \<longleftrightarrow>
     (\<forall>l b s r n work. at_input l fmt (marshal ob @ b) s r \<longrightarrow>
        length (join_strings s (string_constants ob)) \<le> l \<longrightarrow>
        (\<exists>r'. at_input l fmt b (join_strings s (string_constants ob)) r' \<and>
           read_object_loop (Objects (Suc n) d # work) r = read_object_loop (Objects n d # work) r'))"

lemma parsesE:
  assumes "parses fmt d ob" and "at_input l fmt (marshal ob @ b) s r"
    and "length (join_strings s (string_constants ob)) \<le> l"
  obtains r' where "at_input l fmt b (join_strings s (string_constants ob)) r'"
    "read_object_loop (Objects (Suc n) d # work) r = read_object_loop (Objects n d # work) r'"
  using assms unfolding parses_def by blast

lemma parses_sequence:
  assumes "\<forall>ob \<in> set os. parses fmt d ob"
    and "at_input l fmt (concat (map marshal os) @ b) s r"
    and "length (join_strings s (concat (map string_constants os))) \<le> l"
  shows "\<exists>r'. at_input l fmt b (join_strings s (concat (map string_constants os))) r' \<and>
     read_object_loop (Objects (length os) d # work) r = read_object_loop work r'"
  using assms
proof (induction os arbitrary: s r)
  case Nil
  then show ?case using loop_done [of l fmt b s r d work] by simp
next
  case (Cons ob os)
  let ?s = "join_strings s (string_constants ob)"
  have "length ?s \<le> l"
    using Cons.prems(3) length_join_strings [of ?s "concat (map string_constants os)"] by simp
  then obtain r1 where r1: "at_input l fmt (concat (map marshal os) @ b) ?s r1"
    "read_object_loop (Objects (Suc (length os)) d # work) r = read_object_loop (Objects (length os) d # work) r1"
    using parsesE [of fmt d ob l "concat (map marshal os) @ b" s r "length os" work] Cons.prems(1,2) by auto
  then show ?case using Cons.IH [OF _ r1(1)] Cons.prems by simp
qed

lemma even_induct: "even (length xs) \<Longrightarrow> P [] \<Longrightarrow> (\<And>a b ys. even (length ys) \<Longrightarrow> P ys \<Longrightarrow> P (a # b # ys)) \<Longrightarrow> P xs"
proof (induction "length xs" arbitrary: xs rule: less_induct)
  case less
  show ?case
  proof (cases xs)
    case (Cons a ys)
    then obtain b zs where "ys = b # zs" using less.prems(1) by (cases ys) auto
    with Cons less show ?thesis by simp
  qed (use less in simp)
qed

lemma marshal_not_null: "well_formed fmt d ob \<Longrightarrow> \<exists>c b. marshal ob = c # b \<and> c \<noteq> CHR ''0''"
  by (cases ob) (auto simp: type_header_def byte_val_def char_of_def)

lemma parses_dictionary:
  assumes "even (length os)" and "\<forall>ob \<in> set os. parses fmt d ob" and "\<forall>ob \<in> set os. well_formed fmt d ob"
    and "at_input l fmt (concat (map marshal os) @ CHR ''0'' # b) s r"
    and "length (join_strings s (concat (map string_constants os))) \<le> l"
  shows "\<exists>r'. at_input l fmt b (join_strings s (concat (map string_constants os))) r' \<and>
     read_object_loop (Dictionary d # work) r = read_object_loop work r'"
  using assms
proof (induction os arbitrary: s r rule: even_induct)
  case 1
  then show ?case using assms(1) by simp
next
  case 2
  then show ?case using loop_dict_end [of l fmt b s r d work] by simp
next
  case (3 ka va ys)
  obtain c cs where c: "marshal ka = c # cs" "c \<noteq> CHR ''0''"
    using marshal_not_null [of fmt d ka] 3 by auto
  let ?in = "concat (map marshal ys) @ CHR ''0'' # b"
  let ?s = "join_strings s (concat (map string_constants [ka, va]))"
  have at: "at_input l fmt (c # cs @ marshal va @ ?in) s r" using 3 c by simp
  obtain r1 where r1: "at_input l fmt (c # cs @ marshal va @ ?in) s r1"
    "read_object_loop (Dictionary d # work) r = read_object_loop (Objects 2 d # Dictionary d # work) r1"
    using loop_dict_more [OF at c(2)] by blast
  have "length ?s \<le> l" using 3 length_join_strings [of ?s "concat (map string_constants ys)"] by simp
  moreover have "at_input l fmt (concat (map marshal [ka, va]) @ ?in) s r1" using r1(1) c by simp
  moreover have "\<forall>ob \<in> set [ka, va]. parses fmt d ob" using 3 by simp
  ultimately obtain r2 where r2: "at_input l fmt ?in ?s r2"
    "read_object_loop (Objects (length [ka, va]) d # Dictionary d # work) r1 =
      read_object_loop (Dictionary d # work) r2"
    using parses_sequence [of "[ka, va]" fmt d l ?in s r1] by blast
  show ?case using 3 r2 r1(2) by (simp add: numeral_2_eq_2)
qed

text \<open>Objects read within one step: a fixed or counted payload, or a string.\<close>

lemma parses_leaf:
  assumes "d \<le> MAX_RECURSION_DEPTH" and "byte_val c < 128"
    and m: "marshal ob = type_header flag c # body"
    and typed: "\<And>l b s r work. arrived l fmt (body @ b) s (Suc d) r \<Longrightarrow>
        length (join_strings s (string_constants ob)) \<le> l \<Longrightarrow>
        \<exists>r'. read_typed c work r = (Inr work, r') \<and>
          at_input l fmt b (join_strings s (string_constants ob)) r'"
  shows "parses fmt d ob"
  unfolding parses_def
proof (intro allI impI)
  fix l b s r n work
  assume at: "at_input l fmt (marshal ob @ b) s r" and len: "length (join_strings s (string_constants ob)) \<le> l"
  obtain r1 where r1: "arrived l fmt (type_header flag c # body @ b) s (Suc d) r1"
    "read_object_loop (Objects (Suc n) d # work) r =
       (case read_object_inner (Objects n d # work) r1 of
          (Inl e, r') \<Rightarrow> (Inl e, r') | (Inr work', r') \<Rightarrow> read_object_loop work' r')"
    using loop_object [OF at assms(1)] by (auto simp: m)
  obtain r2 where r2: "arrived l fmt (body @ b) s (Suc d) r2"
    "read_object_inner (Objects n d # work) r1 = read_typed c (Objects n d # work) r2"
    using arrived_inner [OF r1(1) assms(2)] by blast
  from typed [OF r2(1) len, of "Objects n d # work"] r1(2) r2(2)
  show "\<exists>r'. at_input l fmt b (join_strings s (string_constants ob)) r' \<and>
      read_object_loop (Objects (Suc n) d # work) r = read_object_loop (Objects n d # work) r'"
    by auto
qed

text \<open>Objects that push work for their parts: reading the parts is all that remains.\<close>

lemma parses_container:
  assumes "d \<le> MAX_RECURSION_DEPTH" and "byte_val c < 128"
    and m: "marshal ob = type_header flag c # header @ body"
    and typed: "\<And>l b s r work. arrived l fmt (header @ b) s (Suc d) r \<Longrightarrow>
        \<exists>r'. read_typed c work r = (Inr (pushed @ work), r') \<and> at_input l fmt b s r'"
    and parts: "\<And>l b s r work. at_input l fmt (body @ b) s r \<Longrightarrow>
        length (join_strings s (string_constants ob)) \<le> l \<Longrightarrow>
        \<exists>r'. at_input l fmt b (join_strings s (string_constants ob)) r' \<and>
          read_object_loop (pushed @ work) r = read_object_loop work r'"
  shows "parses fmt d ob"
  unfolding parses_def
proof (intro allI impI)
  fix l b s r n work
  assume at: "at_input l fmt (marshal ob @ b) s r" and len: "length (join_strings s (string_constants ob)) \<le> l"
  obtain r1 where r1: "arrived l fmt (type_header flag c # header @ body @ b) s (Suc d) r1"
    "read_object_loop (Objects (Suc n) d # work) r =
       (case read_object_inner (Objects n d # work) r1 of
          (Inl e, r') \<Rightarrow> (Inl e, r') | (Inr work', r') \<Rightarrow> read_object_loop work' r')"
    using loop_object [OF at assms(1)] by (auto simp: m)
  obtain r2 where r2: "arrived l fmt (header @ body @ b) s (Suc d) r2"
    "read_object_inner (Objects n d # work) r1 = read_typed c (Objects n d # work) r2"
    using arrived_inner [OF r1(1) assms(2)] by blast
  obtain r3 where r3: "read_typed c (Objects n d # work) r2 = (Inr (pushed @ Objects n d # work), r3)"
    "at_input l fmt (body @ b) s r3"
    using typed [OF r2(1)] by blast
  from parts [OF r3(2) len, of "Objects n d # work"] r1(2) r2(2) r3(1)
  show "\<exists>r'. at_input l fmt b (join_strings s (string_constants ob)) r' \<and>
      read_object_loop (Objects (Suc n) d # work) r = read_object_loop (Objects n d # work) r'"
    by auto
qed

lemma arrived_at_input: "arrived l f b s d r \<Longrightarrow> at_input l f b s r"
  by (auto simp: at_input_def)

lemma arrived_depth: "arrived l f b s d r \<Longrightarrow> mr_depth r = d"
  by (simp add: arrived_def)

lemma arrived_format: "arrived l f b s d r \<Longrightarrow> mr_code_format r = f"
  by (simp add: arrived_def ready_def)

lemma typed_sized_string:
  assumes "arrived l f (u32_le (length p) @ p @ b) s d r" and "length (add_string s p) \<le> l"
  shows "\<exists>r'. then_work (read_sized_string msg) work r = (Inr work, r') \<and> at_input l f b (add_string s p) r'"
proof -
  have le: "l \<le> MAX_TOTAL_BYTES" using assms(1) by (simp add: arrived_def ready_def)
  have "length p \<le> length (add_string s p)" by (simp add: add_string_def)
  then have p: "length p \<le> MAX_TOTAL_BYTES" using assms(2) le by simp
  then have "length p < 2 ^ 32" by (simp add: MAX_TOTAL_BYTES_def)
  with assms(1) obtain r1 where r1: "read_u32 r = (Inr (length p), r1)" "arrived l f (p @ b) s d r1"
    using arrived_u32 by blast
  obtain r2 where r2: "read_bytes (length p) r1 = (Inr p, r2)" "arrived l f b s d r2"
    using arrived_read_bytes [OF r1(2)] by blast
  obtain r3 where r3: "collect_string p r2 = (Inr (), r3)" "arrived l f b (add_string s p) d r3"
    using arrived_collect [OF r2(2) assms(2)] by blast
  show ?thesis
    using arrived_guard [OF r1(2) p] arrived_at_input [OF r3(2)]
    by (simp add: then_work_def read_sized_string_def mr_bind_def r1(1) r2(1) r3(1) mr_ret_def)
qed

lemma typed_collection:
  assumes "arrived l f (u32_le n @ b) s d r" and "n \<le> MAX_COLLECTION_LEN"
  shows "\<exists>r'. read_collection msg work r = (Inr (Objects n d # work), r') \<and> at_input l f b s r'"
proof -
  have "n < 2 ^ 32" using assms(2) by (simp add: MAX_COLLECTION_LEN_def)
  with assms(1) obtain r1 where r1: "read_u32 r = (Inr n, r1)" "arrived l f b s d r1"
    using arrived_u32 by blast
  then show ?thesis
    using arrived_guard [OF r1(2) assms(2)] arrived_at_input [OF r1(2)] arrived_depth [OF r1(2)]
    by (simp add: read_collection_def mr_bind_def mr_ret_def)
qed

lemma typed_skip:
  assumes "arrived l f (p @ b) s d r" and "n = length p"
  shows "\<exists>r'. then_work (skip_bytes n) work r = (Inr work, r') \<and> at_input l f b s r'"
  using arrived_skip [OF assms] arrived_at_input
  by (fastforce simp: then_work_def mr_bind_def mr_ret_def)

lemma parses_atom: "well_formed fmt d (Atom fl c) \<Longrightarrow> parses fmt d (Atom fl c)"
  by (rule parses_leaf [where c = c and flag = fl and body = "[]"])
    (auto simp: byte_val_def read_typed_def mr_ret_def intro: arrived_at_input)

definition fixed_sizes :: "(byte \<times> nat) set" where
  "fixed_sizes = {(CHR ''i'', 4), (CHR ''I'', 8), (CHR ''g'', 8), (CHR ''y'', 16), (CHR ''r'', 4)}"

lemma read_typed_fixed: "(c, n) \<in> fixed_sizes \<Longrightarrow> read_typed c work = then_work (skip_bytes n) work \<and> byte_val c < 128"
  unfolding fixed_sizes_def by (elim insertE emptyE; simp add: read_typed_def byte_val_def)

lemma read_typed_sized:
  "c \<in> set ''stuaA'' \<Longrightarrow> \<exists>msg. read_typed c = then_work (read_sized_string msg) \<and> byte_val c < 128"
  by (simp, elim disjE) (auto simp: read_typed_def byte_val_def fun_eq_iff)

lemma parses_fixed:
  assumes "well_formed fmt d (Fixed fl c p)"
  shows "parses fmt d (Fixed fl c p)"
proof -
  have d: "d \<le> MAX_RECURSION_DEPTH" and c: "(c, length p) \<in> fixed_sizes"
    using assms by (simp_all add: fixed_sizes_def)
  show ?thesis
    by (rule parses_leaf [where c = c and flag = fl and body = p])
      (simp_all add: d read_typed_fixed [OF c] typed_skip)
qed

lemma parses_float: "well_formed fmt d (FloatText fl p) \<Longrightarrow> parses fmt d (FloatText fl p)"
proof (rule parses_leaf [where c = "CHR ''f''" and flag = fl and body = "char_of (length p) # p"])
  fix l b s r work
  assume wf: "well_formed fmt d (FloatText fl p)"
    and a: "arrived l fmt ((char_of (length p) # p) @ b) s (Suc d) r"
  obtain r1 where r1: "read_u8 r = (Inr (char_of (length p)), r1)" "arrived l fmt (p @ b) s (Suc d) r1"
    using arrived_u8 [of l fmt "char_of (length p)" "p @ b" s "Suc d" r] a by auto
  obtain r2 where "skip_bytes (length p) r1 = (Inr (), r2)" "arrived l fmt b s (Suc d) r2"
    using arrived_skip [OF r1(2) refl] by blast
  with wf r1(1) show "\<exists>r'. read_typed (CHR ''f'') work r = (Inr work, r') \<and>
      at_input l fmt b (join_strings s (string_constants (FloatText fl p))) r'"
    by (auto simp: read_typed_def then_work_def mr_bind_def mr_ret_def intro: arrived_at_input)
qed (auto simp: byte_val_def)

lemma parses_complex: "well_formed fmt d (ComplexText fl p q) \<Longrightarrow> parses fmt d (ComplexText fl p q)"
proof (rule parses_leaf [where c = "CHR ''x''" and flag = fl and body = "char_of (length p) # p @ char_of (length q) # q"])
  fix l b s r work
  assume wf: "well_formed fmt d (ComplexText fl p q)"
    and a: "arrived l fmt ((char_of (length p) # p @ char_of (length q) # q) @ b) s (Suc d) r"
  obtain r1 where r1: "read_u8 r = (Inr (char_of (length p)), r1)" "arrived l fmt (p @ char_of (length q) # q @ b) s (Suc d) r1"
    using arrived_u8 [of l fmt "char_of (length p)" "p @ char_of (length q) # q @ b" s "Suc d" r] a by auto
  obtain r2 where r2: "skip_bytes (length p) r1 = (Inr (), r2)" "arrived l fmt (char_of (length q) # q @ b) s (Suc d) r2"
    using arrived_skip [OF r1(2) refl] by blast
  obtain r3 where r3: "read_u8 r2 = (Inr (char_of (length q)), r3)" "arrived l fmt (q @ b) s (Suc d) r3"
    using arrived_u8 [OF r2(2)] by blast
  obtain r4 where "skip_bytes (length q) r3 = (Inr (), r4)" "arrived l fmt b s (Suc d) r4"
    using arrived_skip [OF r3(2) refl] by blast
  with wf r1(1) r2(1) r3(1) show "\<exists>r'. read_typed (CHR ''x'') work r = (Inr work, r') \<and>
      at_input l fmt b (join_strings s (string_constants (ComplexText fl p q))) r'"
    by (auto simp: read_typed_def then_work_def mr_bind_def mr_ret_def intro: arrived_at_input)
qed (auto simp: byte_val_def)

lemma long_size_signed:
  assumes "digits \<le> MAX_COLLECTION_LEN"
  shows "long_size negative digits < 2 ^ 32"
    "nat \<bar>if long_size negative digits < 2 ^ 31 then int (long_size negative digits) else int (long_size negative digits) - 2 ^ 32\<bar> = digits"
  using assms by (auto simp: long_size_def MAX_COLLECTION_LEN_def of_nat_diff)

lemma parses_long: "well_formed fmt d (LongInt fl negative p) \<Longrightarrow> parses fmt d (LongInt fl negative p)"
proof (rule parses_leaf [where c = "CHR ''l''" and flag = fl and body = "u32_le (long_size negative (length p div 2)) @ p"])
  fix l b s r work
  let ?v = "long_size negative (length p div 2)"
  assume wf: "well_formed fmt d (LongInt fl negative p)" and a: "arrived l fmt ((u32_le ?v @ p) @ b) s (Suc d) r"
  have len: "length p div 2 \<le> MAX_COLLECTION_LEN" "length p div 2 * 2 = length p" "length p \<le> MAX_TOTAL_BYTES"
    using wf by (auto simp: MAX_COLLECTION_LEN_def MAX_TOTAL_BYTES_def)
  obtain r1 where r1: "read_u32 r = (Inr ?v, r1)" "arrived l fmt (p @ b) s (Suc d) r1"
    using arrived_u32 [OF _ long_size_signed(1) [OF len(1)], of l fmt negative "p @ b" s "Suc d" r] a by auto
  obtain r2 where r2: "skip_bytes (length p) r1 = (Inr (), r2)" "arrived l fmt b s (Suc d) r2"
    using arrived_skip [OF r1(2) refl] by blast
  obtain n where n: "read_i32 r = (Inr n, r1)" "nat \<bar>n\<bar> = length p div 2"
    using long_size_signed(2) [OF len(1), of negative] by (simp add: read_i32_def mr_bind_def r1(1) mr_ret_def)
  then have "read_long r = (Inr (), r2)" unfolding read_long_def Let_def
    by (simp add: mr_bind_def arrived_guard [OF r1(2)] len r2(1))
  then show "\<exists>r'. read_typed (CHR ''l'') work r = (Inr work, r') \<and>
      at_input l fmt b (join_strings s (string_constants (LongInt fl negative p))) r'"
    using arrived_at_input [OF r2(2)] by (simp add: read_typed_def then_work_def mr_bind_def mr_ret_def)
qed (auto simp: byte_val_def)

lemma parses_sized:
  assumes "well_formed fmt d (Sized fl c p)"
  shows "parses fmt d (Sized fl c p)"
proof -
  have d: "d \<le> MAX_RECURSION_DEPTH" and "c \<in> set ''stuaA''" using assms by simp_all
  then obtain msg where "read_typed c = then_work (read_sized_string msg)" "byte_val c < 128"
    using read_typed_sized by blast
  then show ?thesis
    by (intro parses_leaf [where c = c and flag = fl and body = "u32_le (length p) @ p"])
      (simp_all add: d typed_sized_string)
qed

lemma read_typed_short:
  "c \<in> set ''zZ'' \<Longrightarrow> read_typed c work =
     then_work (mr_bind read_u8 (\<lambda>len. mr_bind (read_bytes (byte_val len)) collect_string)) work"
  by (simp, elim disjE) (auto simp: read_typed_def)

lemma parses_short: "well_formed fmt d (Short fl c p) \<Longrightarrow> parses fmt d (Short fl c p)"
proof (rule parses_leaf [where c = c and flag = fl and body = "char_of (length p) # p"])
  fix l b s r work
  assume wf: "well_formed fmt d (Short fl c p)"
    and a: "arrived l fmt ((char_of (length p) # p) @ b) s (Suc d) r"
    and len: "length (join_strings s (string_constants (Short fl c p))) \<le> l"
  obtain r1 where r1: "read_u8 r = (Inr (char_of (length p)), r1)" "arrived l fmt (p @ b) s (Suc d) r1"
    using arrived_u8 [of l fmt "char_of (length p)" "p @ b" s "Suc d" r] a by auto
  obtain r2 where r2: "read_bytes (length p) r1 = (Inr p, r2)" "arrived l fmt b s (Suc d) r2"
    using arrived_read_bytes [OF r1(2)] by blast
  obtain r3 where "collect_string p r2 = (Inr (), r3)" "arrived l fmt b (add_string s p) (Suc d) r3"
    using arrived_collect [OF r2(2)] len by auto
  moreover have "c \<in> set ''zZ''" "length p mod 256 = length p" using wf by simp_all
  ultimately show "\<exists>r'. read_typed c work r = (Inr work, r') \<and>
      at_input l fmt b (join_strings s (string_constants (Short fl c p))) r'"
    using r1(1) r2(1) arrived_at_input [of l fmt b "add_string s p" "Suc d" r3]
    by (simp add: read_typed_short then_work_def mr_bind_def mr_ret_def)
qed (auto simp: byte_val_def)

lemma parses_collection:
  assumes "well_formed fmt d (Coll fl c os)" and "\<forall>ob \<in> set os. parses fmt (Suc d) ob"
  shows "parses fmt d (Coll fl c os)"
proof (rule parses_container [where c = c and flag = fl and header = "u32_le (length os)"
      and body = "concat (map marshal os)" and pushed = "[Objects (length os) (Suc d)]"])
  show "\<exists>r'. read_typed c work r = (Inr ([Objects (length os) (Suc d)] @ work), r') \<and> at_input l fmt b s r'"
    if "arrived l fmt (u32_le (length os) @ b) s (Suc d) r" for l b s r work
    using assms(1) typed_collection [OF that] by (auto simp: read_typed_def)
qed (use assms parses_sequence [OF assms(2)] in \<open>auto simp: byte_val_def\<close>)

lemma parses_small_tuple:
  assumes "well_formed fmt d (SmallTuple fl os)" and "\<forall>ob \<in> set os. parses fmt (Suc d) ob"
  shows "parses fmt d (SmallTuple fl os)"
proof (rule parses_container [where c = "CHR '')''" and flag = fl and header = "[char_of (length os)]"
      and body = "concat (map marshal os)" and pushed = "[Objects (length os) (Suc d)]"])
  fix l b s r work
  assume "arrived l fmt ([char_of (length os)] @ b) s (Suc d) r"
  then obtain r1 where "read_u8 r = (Inr (char_of (length os)), r1)" "arrived l fmt b s (Suc d) r1"
    using arrived_u8 by (metis append_Cons append_Nil)
  then show "\<exists>r'. read_typed (CHR '')'') work r = (Inr ([Objects (length os) (Suc d)] @ work), r') \<and> at_input l fmt b s r'"
    using assms(1) arrived_at_input arrived_depth by (fastforce simp: read_typed_def mr_bind_def mr_ret_def)
qed (use assms parses_sequence [OF assms(2)] in \<open>auto simp: byte_val_def\<close>)

lemma parses_dict:
  assumes "well_formed fmt d (Dict fl os)" and "\<forall>ob \<in> set os. parses fmt (Suc d) ob"
  shows "parses fmt d (Dict fl os)"
proof (rule parses_container [where c = "CHR ''{''" and flag = fl and header = "[]"
      and body = "concat (map marshal os) @ ''0''" and pushed = "[Dictionary (Suc d)]"])
  show "\<exists>r'. read_typed (CHR ''{'') work r = (Inr ([Dictionary (Suc d)] @ work), r') \<and> at_input l fmt b s r'"
    if "arrived l fmt ([] @ b) s (Suc d) r" for l b s r work
    using that arrived_at_input arrived_depth by (fastforce simp: read_typed_def mr_ret_def)
qed (use assms parses_dictionary [OF _ assms(2)] in \<open>auto simp: byte_val_def\<close>)

lemma parses_slice:
  assumes "well_formed fmt d (SliceObj fl x y z)"
    and "parses fmt (Suc d) x" "parses fmt (Suc d) y" "parses fmt (Suc d) z"
  shows "parses fmt d (SliceObj fl x y z)"
proof (rule parses_container [where c = "CHR '':''" and flag = fl and header = "[]"
      and body = "concat (map marshal [x, y, z])" and pushed = "[Objects 3 (Suc d)]"])
  show "\<exists>r'. read_typed (CHR '':'') work r = (Inr ([Objects 3 (Suc d)] @ work), r') \<and> at_input l fmt b s r'"
    if "arrived l fmt ([] @ b) s (Suc d) r" for l b s r work
    using that arrived_at_input arrived_depth by (fastforce simp: read_typed_def mr_ret_def)
  show "\<exists>r'. at_input l fmt b (join_strings s (string_constants (SliceObj fl x y z))) r' \<and>
      read_object_loop ([Objects 3 (Suc d)] @ work) r = read_object_loop work r'"
    if "at_input l fmt (concat (map marshal [x, y, z]) @ b) s r"
      "length (join_strings s (string_constants (SliceObj fl x y z))) \<le> l" for l b s r work
    using parses_sequence [of "[x, y, z]" fmt "Suc d", OF _ that(1)] assms that(2)
    by (simp add: numeral_3_eq_3)
qed (use assms in \<open>auto simp: byte_val_def\<close>)

lemma parses_code:
  assumes wf: "well_formed fmt d (Code fl longs mid line trail)"
    and parts: "\<forall>ob \<in> set mid. parses fmt (Suc d) ob" "\<forall>ob \<in> set trail. parses fmt (Suc d) ob"
  shows "parses fmt d (Code fl longs mid line trail)"
proof (rule parses_container [where c = "CHR ''c''" and flag = fl and header = longs
      and body = "concat (map marshal mid) @ line @ concat (map marshal trail)"
      and pushed = "[Objects (length mid) (Suc d), Skip 4, Objects (length trail) (Suc d)]"])
  fix l b s r work
  assume a: "arrived l fmt (longs @ b) s (Suc d) r"
  obtain r1 where "skip_bytes (4 * leading_longs fmt) r = (Inr (), r1)" "arrived l fmt b s (Suc d) r1"
    using arrived_skip [OF a, of "4 * leading_longs fmt"] wf by auto
  then show "\<exists>r'. read_typed (CHR ''c'') work r =
      (Inr ([Objects (length mid) (Suc d), Skip 4, Objects (length trail) (Suc d)] @ work), r') \<and> at_input l fmt b s r'"
    using wf arrived_at_input [of l fmt b s "Suc d" r1] arrived_depth [of l fmt b s "Suc d" r1]
      arrived_format [of l fmt b s "Suc d" r1] arrived_format [OF a]
    by (simp add: read_typed_def mr_bind_def mr_ret_def)
next
  fix l b s r work
  let ?s1 = "join_strings s (concat (map string_constants mid))"
  assume at: "at_input l fmt ((concat (map marshal mid) @ line @ concat (map marshal trail)) @ b) s r"
    and len: "length (join_strings s (string_constants (Code fl longs mid line trail))) \<le> l"
  have len1: "length ?s1 \<le> l"
    using len length_join_strings [of ?s1 "concat (map string_constants trail)"] by simp
  obtain r1 where r1: "at_input l fmt (line @ concat (map marshal trail) @ b) ?s1 r1"
    "read_object_loop (Objects (length mid) (Suc d) # Skip 4 # Objects (length trail) (Suc d) # work) r =
      read_object_loop (Skip 4 # Objects (length trail) (Suc d) # work) r1"
    using parses_sequence [OF parts(1) _ len1] at by (metis append.assoc)
  obtain r2 where r2: "at_input l fmt (concat (map marshal trail) @ b) ?s1 r2"
    "read_object_loop (Skip 4 # Objects (length trail) (Suc d) # work) r1 =
      read_object_loop (Objects (length trail) (Suc d) # work) r2"
    using loop_skip [OF r1(1), of 4] wf by auto
  show "\<exists>r'. at_input l fmt b (join_strings s (string_constants (Code fl longs mid line trail))) r' \<and>
      read_object_loop ([Objects (length mid) (Suc d), Skip 4, Objects (length trail) (Suc d)] @ work) r =
      read_object_loop work r'"
    using parses_sequence [OF parts(2) r2(1)] len r1(2) r2(2) by simp
qed (use wf in \<open>auto simp: byte_val_def\<close>)

lemma well_formed_parses: "well_formed fmt d ob \<Longrightarrow> parses fmt d ob"
proof (induction ob arbitrary: d)
  case (Coll f c os)
  then show ?case by (intro parses_collection) auto
next
  case (SmallTuple f os)
  then show ?case by (intro parses_small_tuple) auto
next
  case (Dict f os)
  then show ?case by (intro parses_dict) auto
next
  case (SliceObj f a b c)
  then show ?case by (intro parses_slice) auto
next
  case (Code f longs mid line trail)
  then show ?case by (intro parses_code) auto
qed (intro parses_atom parses_fixed parses_float parses_complex parses_long parses_sized parses_short; assumption)+

section \<open>A whole file\<close>

lemma read_object_marshalled:
  fixes t :: nat
  assumes wf: "well_formed fmt 0 ob" and len: "length (join_strings [] (string_constants ob)) \<le> limit"
    and "limit \<le> MAX_TOTAL_BYTES"
  defines "r \<equiv> (reader_new (marshal ob) fmt)
      \<lparr>mr_resources := \<lparr>unlimited_resources = False\<rparr>, mr_max_output := Some limit, mr_control := unlimited,
       mr_checks := t\<rparr>"
  shows "\<exists>r'. read_object r = (Inr (), r') \<and> mr_strings r' = join_strings [] (string_constants ob)"
proof -
  have "arrived limit fmt (marshal ob @ []) [] 0 r"
    using assms(3) by (simp add: r_def reader_new_def arrived_def ready_def input_def)
  then obtain r1 where r1: "at_input limit fmt [] (join_strings [] (string_constants ob)) r1"
    "read_object_loop [Objects (Suc 0) 0] r = read_object_loop [Objects 0 0] r1"
    using parsesE [OF well_formed_parses [OF wf] arrived_at_input len] by blast
  obtain r2 where "at_input limit fmt [] (join_strings [] (string_constants ob)) r2"
    "read_object_loop [Objects 0 0] r1 = read_object_loop [] r2"
    using loop_done [OF r1(1)] by blast
  with r1(2) show ?thesis by (auto simp: read_object_def at_input_def arrived_def)
qed

definition pyc_file :: "nat \<Rightarrow> bytes \<Rightarrow> pyobj \<Rightarrow> bytes" where
  "pyc_file magic pad ob = u16_le magic @ [CHR 0x0D, CHR 0x0A] @ pad @ marshal ob"

text \<open>
  C13. From a bytecode file of a supported version, extraction returns exactly the non-empty string
  constants of the marshalled object, in file order and separated by newlines: no constant inside
  tuples, lists, sets, dictionaries, slices or nested code objects is missed, and no other bytes are
  reported, as long as the result fits the budget and the nesting and sizes fit the limits.
\<close>

theorem pyc_extracts_all_string_constants:
  assumes "pyc_version_info magic = Some (header_size, fmt)" and "length pad + 4 = header_size"
    and "well_formed fmt 0 ob"
    and "length (join_strings [] (string_constants ob)) \<le> max_bytes"
    and "length (join_strings [] (string_constants ob)) \<le> MAX_TOTAL_BYTES"
  shows "extract_pyc_strings_from_bytes_with_budget (pyc_file magic pad ob) max_bytes unlimited =
     Inr (join_strings [] (string_constants ob))"
proof -
  let ?data = "pyc_file magic pad ob" and ?limit = "min max_bytes MAX_TOTAL_BYTES"
  have magic: "magic \<le> 3700" and header: "8 \<le> header_size"
    using assms(1) by (auto simp: pyc_version_info_def split: if_splits)
  have m: "marshal ob \<noteq> []" using marshal_not_null [OF assms(3)] by auto
  have nth: "?data ! 0 = char_of (magic mod 256)" "?data ! 1 = char_of (magic div 256)"
    "?data ! 2 = CHR 0x0D" "?data ! 3 = CHR 0x0A"
    by (simp_all add: pyc_file_def u16_le_def nth_Cons')
  have u16: "u16_from_le_bytes (?data ! 0, ?data ! 1) = magic"
  proof -
    have "magic div 256 mod 256 = magic div 256" using magic by simp
    then show ?thesis by (simp only: nth u16_from_le_bytes.simps byte_val_char_of) simp
  qed
  have drop: "drop header_size ?data = marshal ob"
  proof -
    have "header_size = length (u16_le magic @ [CHR 0x0D, CHR 0x0A] @ pad)"
      using assms(2) by (simp add: u16_le_def)
    then show ?thesis
      using append_eq_conv_conj [of "u16_le magic @ [CHR 0x0D, CHR 0x0A] @ pad" "marshal ob" ?data]
      by (simp add: pyc_file_def)
  qed
  have len: "8 \<le> length ?data" "header_size \<le> length ?data"
    using assms(2) header by (auto simp: pyc_file_def u16_le_def)
  have "length (join_strings [] (string_constants ob)) \<le> ?limit" using assms(4,5) by simp
  then obtain r' where r': "read_object ((reader_new (marshal ob) fmt)
      \<lparr>mr_resources := \<lparr>unlimited_resources = False\<rparr>, mr_max_output := Some ?limit, mr_control := unlimited,
       mr_checks := Suc 0\<rparr>) = (Inr (), r')" "mr_strings r' = join_strings [] (string_constants ob)"
    using read_object_marshalled [OF assms(3)] by (metis min.cobounded2)
  have "check unlimited 0 = Inr ((), Suc 0)" by (simp add: check_def unlimited_def)
  moreover have "extract_pyc_data ?data \<lparr>unlimited_resources = False\<rparr> (Some ?limit) unlimited (Suc 0) True =
      Inr (join_strings [] (string_constants ob))"
    unfolding extract_pyc_data_def u16 nth(3,4) Let_def using len m r'
    by (simp add: assms(1) drop not_less)
  ultimately show ?thesis by (simp add: extract_pyc_strings_from_bytes_with_budget_def)
qed

definition sample_object :: pyobj where
  "sample_object = SmallTuple True [Short False (CHR ''z'') ''abc'', Atom False (CHR ''N''),
     LongInt False True [CHR 0x01, CHR 0x00, CHR 0x02, CHR 0x00], ComplexText False ''1'' ''2.5'',
     Dict False [Short True (CHR ''Z'') ''k'', Sized False (CHR ''s'') ''pw'']]"

theorem pyc_extracts_all_string_constants_witness:
  "extract_pyc_strings_from_bytes_with_budget
     (pyc_file 3413 (replicate 12 (CHR 0x00)) sample_object) 100 unlimited =
   Inr (''abc'' @ [newline] @ ''k'' @ [newline] @ ''pw'')"
proof -
  have join: "join_strings [] (string_constants sample_object) = ''abc'' @ [newline] @ ''k'' @ [newline] @ ''pw''"
    by (simp add: sample_object_def add_string_def)
  have "pyc_version_info 3413 = Some (16, V38)" by (simp add: pyc_version_info_def)
  moreover have "length (replicate 12 (CHR 0x00)) + 4 = (16::nat)" by simp
  moreover have "well_formed V38 0 sample_object" by (simp add: sample_object_def MAX_RECURSION_DEPTH_def MAX_COLLECTION_LEN_def)
  moreover have "length (join_strings [] (string_constants sample_object)) \<le> 100"
    "length (join_strings [] (string_constants sample_object)) \<le> MAX_TOTAL_BYTES"
    by (simp_all add: join MAX_TOTAL_BYTES_def)
  ultimately have "extract_pyc_strings_from_bytes_with_budget
      (pyc_file 3413 (replicate 12 (CHR 0x00)) sample_object) 100 unlimited =
      Inr (join_strings [] (string_constants sample_object))"
    by (rule pyc_extracts_all_string_constants)
  then show ?thesis by (simp only: join)
qed

end
