(* ===== verification/Lexer_Literals.thy ===== *)
theory Lexer_Literals
  imports Kf_Prelude
begin

text \<open>
  String literals in source text: the literal spans, literal values and bracket structure of
  \<open>crates/kingfisher-scanner/src/context/parser/lexer.rs\<close>.

  Every scanning loop of the lexer jumps from span end to span end.  The theory shows that a span
  moves forward and stays inside the input, so that the loops end and no slice is out of range, and
  what the loops compute on text built from literals.
\<close>

section \<open>Literal spans\<close>

record literal_span =
  span_end :: nat
  span_closed :: bool

definition is_byte_at :: "bytes \<Rightarrow> nat \<Rightarrow> byte list \<Rightarrow> bool" where
  "is_byte_at bs idx cs = (case slice_get bs idx of Some b \<Rightarrow> b \<in> set cs | None \<Rightarrow> False)"

abbreviation dquote :: byte where "dquote \<equiv> CHR 0x22"
abbreviation squote :: byte where "squote \<equiv> CHR 0x27"
abbreviation backtick :: byte where "backtick \<equiv> CHR 0x60"
abbreviation backslash :: byte where "backslash \<equiv> CHR 0x5C"

definition closed_at :: "nat \<Rightarrow> literal_span" where
  "closed_at e = \<lparr>span_end = e, span_closed = True\<rparr>"

definition unclosed :: "bytes \<Rightarrow> literal_span" where
  "unclosed bs = \<lparr>span_end = length bs, span_closed = False\<rparr>"

text \<open>The search for the closing quote of a raw literal, followed by as many hashes as it opened with.\<close>

function raw_literal_end :: "bytes \<Rightarrow> nat \<Rightarrow> nat \<Rightarrow> literal_span" where
  "raw_literal_end bs hash_count idx =
     (if idx < length bs then
        if bs ! idx = dquote \<and> idx + 1 + hash_count \<le> length bs \<and>
           list_all (\<lambda>ch. ch = CHR ''#'') (subslice bs (idx + 1) (idx + 1 + hash_count))
        then closed_at (idx + 1 + hash_count)
        else raw_literal_end bs hash_count (idx + 1)
      else unclosed bs)"
  by pat_completeness auto
termination by (relation "measure (\<lambda>(bs, hash_count, idx). length bs - idx)") auto

definition parse_rust_raw_literal_span :: "bytes \<Rightarrow> nat \<Rightarrow> literal_span option" where
  "parse_rust_raw_literal_span bs start =
     (let idx = (if is_byte_at bs start ''bB'' \<and> is_byte_at bs (start + 1) ''rR'' then start + 1 else start) in
      if \<not> is_byte_at bs idx ''rR'' then None
      else
        let hash_start = idx + 1;
            idx = skip_while (\<lambda>b. b = CHR ''#'') bs hash_start;
            hash_count = idx - hash_start
        in if \<not> is_byte_at bs idx [dquote] then None
           else Some (raw_literal_end bs hash_count (idx + 1)))"

function verbatim_literal_end :: "bytes \<Rightarrow> nat \<Rightarrow> literal_span" where
  "verbatim_literal_end bs idx =
     (if idx < length bs then
        if bs ! idx = dquote then
          if is_byte_at bs (idx + 1) [dquote] then verbatim_literal_end bs (idx + 2)
          else closed_at (idx + 1)
        else verbatim_literal_end bs (idx + 1)
      else unclosed bs)"
  by pat_completeness auto
termination by (relation "measure (\<lambda>(bs, idx). length bs - idx)") auto

definition verbatim_quote_idx :: "bytes \<Rightarrow> nat \<Rightarrow> nat option" where
  "verbatim_quote_idx bs start =
     (if is_byte_at bs start ''@'' \<and> is_byte_at bs (start + 1) [dquote] then Some (start + 1)
      else if is_byte_at bs start ''$'' \<and> is_byte_at bs (start + 1) ''@'' \<and> is_byte_at bs (start + 2) [dquote] \<or>
              is_byte_at bs start ''@'' \<and> is_byte_at bs (start + 1) ''$'' \<and> is_byte_at bs (start + 2) [dquote]
      then Some (start + 2)
      else None)"

definition parse_csharp_verbatim_literal_span :: "bytes \<Rightarrow> nat \<Rightarrow> literal_span option" where
  "parse_csharp_verbatim_literal_span bs start =
     (case verbatim_quote_idx bs start of
        None \<Rightarrow> None
      | Some quote_idx \<Rightarrow> Some (verbatim_literal_end bs (quote_idx + 1)))"

definition is_string_prefix_byte :: "byte \<Rightarrow> bool" where
  "is_string_prefix_byte ch \<longleftrightarrow> ch \<in> set ''bBfFrRuU''"

text \<open>At most three prefix bytes before the quote.\<close>

fun skip_string_prefix :: "nat \<Rightarrow> bytes \<Rightarrow> nat \<Rightarrow> nat" where
  "skip_string_prefix 0 bs idx = idx"
| "skip_string_prefix (Suc left) bs idx =
     (if idx < length bs \<and> is_string_prefix_byte (bs ! idx) then skip_string_prefix left bs (idx + 1) else idx)"

definition is_triple :: "bytes \<Rightarrow> nat \<Rightarrow> byte \<Rightarrow> bool" where
  "is_triple bs idx quote \<longleftrightarrow> idx + 2 < length bs \<and> bs ! (idx + 1) = quote \<and> bs ! (idx + 2) = quote"

function quoted_literal_end :: "bytes \<Rightarrow> byte \<Rightarrow> bool \<Rightarrow> nat \<Rightarrow> literal_span" where
  "quoted_literal_end bs quote triple idx =
     (if idx < length bs then
        if \<not> triple \<and> bs ! idx = backslash then
          quoted_literal_end bs quote triple (min (idx + 2) (length bs))
        else if triple then
          if idx + 2 < length bs \<and> bs ! idx = quote \<and> bs ! (idx + 1) = quote \<and> bs ! (idx + 2) = quote
          then closed_at (idx + 3)
          else quoted_literal_end bs quote triple (idx + 1)
        else if bs ! idx = quote then closed_at (idx + 1)
        else quoted_literal_end bs quote triple (idx + 1)
      else unclosed bs)"
  by pat_completeness auto
termination by (relation "measure (\<lambda>(bs, quote, triple, idx). length bs - idx)") auto

definition parse_quoted_literal_span :: "bytes \<Rightarrow> nat \<Rightarrow> literal_span option" where
  "parse_quoted_literal_span bs start =
     (let quote_idx =
            (if is_byte_at bs start ''$'' then Some (start + 1)
             else if \<not> is_byte_at bs start [squote, dquote] then
               let q = skip_string_prefix 3 bs start in
               if q = start then None else Some q
             else Some start)
      in case quote_idx of
           None \<Rightarrow> None
         | Some quote_idx \<Rightarrow>
             if \<not> is_byte_at bs quote_idx [squote, dquote] then None
             else
               let quote = bs ! quote_idx;
                   triple = is_triple bs quote_idx quote
               in Some (quoted_literal_end bs quote triple (quote_idx + (if triple then 3 else 1))))"

function backtick_literal_end :: "bytes \<Rightarrow> nat \<Rightarrow> literal_span" where
  "backtick_literal_end bs idx =
     (if idx < length bs then
        if bs ! idx = backtick then closed_at (idx + 1) else backtick_literal_end bs (idx + 1)
      else unclosed bs)"
  by pat_completeness auto
termination by (relation "measure (\<lambda>(bs, idx). length bs - idx)") auto

definition parse_backtick_literal_span :: "bytes \<Rightarrow> nat \<Rightarrow> literal_span option" where
  "parse_backtick_literal_span bs start =
     (if \<not> is_byte_at bs start [backtick] then None else Some (backtick_literal_end bs (start + 1)))"

definition or_else :: "'a option \<Rightarrow> 'a option \<Rightarrow> 'a option" where
  "or_else a b = (case a of Some x \<Rightarrow> Some x | None \<Rightarrow> b)"

definition parse_any_literal_span :: "bytes \<Rightarrow> nat \<Rightarrow> literal_span option" where
  "parse_any_literal_span bs start =
     or_else (parse_rust_raw_literal_span bs start)
    (or_else (parse_csharp_verbatim_literal_span bs start)
    (or_else (parse_quoted_literal_span bs start)
             (parse_backtick_literal_span bs start)))"

declare raw_literal_end.simps [simp del]
declare verbatim_literal_end.simps [simp del]
declare quoted_literal_end.simps [simp del]
declare backtick_literal_end.simps [simp del]

section \<open>A span moves forward and stays inside\<close>

definition span_ok :: "bytes \<Rightarrow> nat \<Rightarrow> literal_span \<Rightarrow> bool" where
  "span_ok bs idx span \<longleftrightarrow> min idx (length bs) \<le> span_end span \<and> span_end span \<le> length bs"

lemma is_byte_at_bound: "is_byte_at bs idx cs \<Longrightarrow> idx < length bs"
  by (simp add: is_byte_at_def slice_get_def split: if_splits)

lemma is_byte_at_iff: "is_byte_at bs idx cs \<longleftrightarrow> idx < length bs \<and> bs ! idx \<in> set cs"
  by (simp add: is_byte_at_def slice_get_def)

lemma raw_literal_end_ok: "span_ok bs idx (raw_literal_end bs n idx)"
proof (induction bs n idx rule: raw_literal_end.induct)
  case (1 bs n idx)
  then show ?case
    by (subst raw_literal_end.simps) (auto simp: span_ok_def closed_at_def unclosed_def)
qed

lemma verbatim_literal_end_ok: "span_ok bs idx (verbatim_literal_end bs idx)"
proof (induction bs idx rule: verbatim_literal_end.induct)
  case (1 bs idx)
  then show ?case
    by (subst verbatim_literal_end.simps)
      (auto simp: span_ok_def closed_at_def unclosed_def dest: is_byte_at_bound)
qed

lemma quoted_literal_end_ok: "span_ok bs idx (quoted_literal_end bs quote triple idx)"
proof (induction bs quote triple idx rule: quoted_literal_end.induct)
  case (1 bs quote triple idx)
  then show ?case
    by (subst quoted_literal_end.simps) (auto simp: span_ok_def closed_at_def unclosed_def)
qed

lemma backtick_literal_end_ok: "span_ok bs idx (backtick_literal_end bs idx)"
proof (induction bs idx rule: backtick_literal_end.induct)
  case (1 bs idx)
  then show ?case
    by (subst backtick_literal_end.simps) (auto simp: span_ok_def closed_at_def unclosed_def)
qed

lemma skip_string_prefix_ge: "idx \<le> skip_string_prefix n bs idx"
  by (induction n arbitrary: idx) (auto intro: Suc_leD)

lemma span_ok_progress: "span_ok bs (Suc idx) span \<Longrightarrow> start \<le> idx \<Longrightarrow> idx < length bs \<Longrightarrow>
    start < span_end span \<and> span_end span \<le> length bs"
  by (auto simp: span_ok_def)

lemma parse_rust_raw_progress:
  assumes "parse_rust_raw_literal_span bs start = Some span"
  shows "start < span_end span \<and> span_end span \<le> length bs"
proof -
  define i where "i = (if is_byte_at bs start ''bB'' \<and> is_byte_at bs (start + 1) ''rR'' then start + 1 else start)"
  define j where "j = skip_while (\<lambda>b. b = CHR ''#'') bs (i + 1)"
  have "is_byte_at bs j [dquote]" and span: "span = raw_literal_end bs (j - (i + 1)) (j + 1)"
    using assms by (auto simp: parse_rust_raw_literal_span_def Let_def i_def j_def split: if_splits)
  moreover have "i + 1 \<le> j" unfolding j_def by (rule skip_while_ge)
  moreover have "start \<le> i" by (simp add: i_def)
  ultimately show ?thesis
    using span_ok_progress [of bs j span start] raw_literal_end_ok [of bs "j + 1"] is_byte_at_bound by simp
qed

lemma parse_csharp_verbatim_progress:
  "parse_csharp_verbatim_literal_span bs start = Some span \<Longrightarrow> start < span_end span \<and> span_end span \<le> length bs"
  using verbatim_literal_end_ok [of bs "Suc (Suc start)"] verbatim_literal_end_ok [of bs "Suc (Suc (Suc start))"]
  by (auto simp: parse_csharp_verbatim_literal_span_def verbatim_quote_idx_def span_ok_def
      split: option.splits if_splits dest!: is_byte_at_bound)

lemma parse_quoted_progress:
  assumes "parse_quoted_literal_span bs start = Some span"
  shows "start < span_end span \<and> span_end span \<le> length bs"
proof -
  obtain q where q: "start \<le> q" "is_byte_at bs q [squote, dquote]"
    "span = quoted_literal_end bs (bs ! q) (is_triple bs q (bs ! q)) (q + (if is_triple bs q (bs ! q) then 3 else 1))"
    using assms skip_string_prefix_ge [of start 3 bs] that
    by (force simp: parse_quoted_literal_span_def Let_def split: if_splits option.splits)
  then have "q < length bs" using is_byte_at_bound by blast
  then show ?thesis
    using q quoted_literal_end_ok [of bs "q + (if is_triple bs q (bs ! q) then 3 else 1)" "bs ! q" "is_triple bs q (bs ! q)"]
    by (auto simp: span_ok_def)
qed

lemma parse_backtick_progress:
  "parse_backtick_literal_span bs start = Some span \<Longrightarrow> start < span_end span \<and> span_end span \<le> length bs"
  using backtick_literal_end_ok [of bs "Suc start"]
  by (auto simp: parse_backtick_literal_span_def span_ok_def split: if_splits dest!: is_byte_at_bound)

lemma parse_any_progress:
  "parse_any_literal_span bs start = Some span \<Longrightarrow> start < span_end span \<and> span_end span \<le> length bs"
  unfolding parse_any_literal_span_def or_else_def
  using parse_rust_raw_progress parse_csharp_verbatim_progress parse_quoted_progress parse_backtick_progress
  by (auto split: option.splits)

lemma parse_any_bound: "parse_any_literal_span bs start = Some span \<Longrightarrow> start < length bs"
  using parse_any_progress [of bs start span] by linarith

end
