(* ===== verification/Literal_Values.thy ===== *)
theory Literal_Values
  imports Lexer_Literals
begin

text \<open>
  The values of literals: \<open>extract_literal_values\<close>, the stripping of quotes, the normalisation of keys
  and values and the splitting of mapping lines of
  \<open>crates/kingfisher-scanner/src/context/parser/lexer.rs\<close>.

  Text is UTF-8, so a slice whose ends are out of order, out of range or inside a character panics;
  \<open>None\<close> stands for that panic.  The theory shows that no slice of the lexer panics on well-formed
  text, that nested literal lists are read back exactly, and that the strip functions undo the
  quoting of their languages.
\<close>

section \<open>Slices of text\<close>

definition is_continuation :: "byte \<Rightarrow> bool" where
  "is_continuation b \<longleftrightarrow> 128 \<le> byte_val b \<and> byte_val b < 192"

definition is_ascii :: "byte \<Rightarrow> bool" where
  "is_ascii b \<longleftrightarrow> byte_val b < 128"

definition is_char_boundary :: "bytes \<Rightarrow> nat \<Rightarrow> bool" where
  "is_char_boundary s i \<longleftrightarrow> i = 0 \<or> i = length s \<or> (i < length s \<and> \<not> is_continuation (s ! i))"

text \<open>\<open>&s[i..j]\<close>, with \<open>None\<close> for the panic.\<close>

definition str_slice :: "bytes \<Rightarrow> nat \<Rightarrow> nat \<Rightarrow> bytes option" where
  "str_slice s i j =
     (if i \<le> j \<and> is_char_boundary s i \<and> is_char_boundary s j then Some (subslice s i j) else None)"

text \<open>The shape of UTF-8 text: every character is a leading byte and the continuation bytes it calls for.\<close>

definition char_width :: "byte \<Rightarrow> nat" where
  "char_width b =
     (let v = byte_val b in
      if v < 128 then 1 else if v < 192 then 0 else if v < 224 then 2 else if v < 240 then 3
      else if v < 248 then 4 else 0)"

function str_ok :: "bytes \<Rightarrow> bool" where
  "str_ok [] = True"
| "str_ok (b # s) =
     (let n = char_width b in
      0 < n \<and> n - 1 \<le> length s \<and> list_all is_continuation (take (n - 1) s) \<and> str_ok (drop (n - 1) s))"
  by pat_completeness auto
termination by (relation "measure length") auto

section \<open>The values in a list of literals\<close>

definition close_of :: "byte \<Rightarrow> byte" where
  "close_of ch = (if ch = CHR ''['' then CHR '']'' else if ch = CHR ''('' then CHR '')'' else CHR ''}'')"

text \<open>The loop over a bracketed group: the end of its content when the group closes, and the index
  after the loop.\<close>

function scan_group :: "bytes \<Rightarrow> byte \<Rightarrow> byte \<Rightarrow> nat \<Rightarrow> nat \<Rightarrow> nat option \<times> nat" where
  "scan_group bs opn close idx depth =
     (if idx < length bs \<and> 0 < depth then
        case parse_any_literal_span bs idx of
          Some span \<Rightarrow> scan_group bs opn close (span_end span) depth
        | None \<Rightarrow>
            if bs ! idx = opn then scan_group bs opn close (idx + 1) (depth + 1)
            else if bs ! idx = close then
              if depth - 1 = 0 then (Some idx, idx + 1)
              else scan_group bs opn close (idx + 1) (depth - 1)
            else scan_group bs opn close (idx + 1) depth
      else (None, idx))"
  by pat_completeness auto
termination
  by (relation "measure (\<lambda>(bs, opn, close, idx, depth). length bs - idx)")
    (auto dest!: parse_any_progress)

declare scan_group.simps [simp del]

lemma scan_group_stop: "\<not> (idx < length bs \<and> 0 < depth) \<Longrightarrow> scan_group bs opn close idx depth = (None, idx)"
  by (subst scan_group.simps) auto

lemma scan_group_literal:
  "idx < length bs \<Longrightarrow> 0 < depth \<Longrightarrow> parse_any_literal_span bs idx = Some span \<Longrightarrow>
   scan_group bs opn close idx depth = scan_group bs opn close (span_end span) depth"
  by (subst scan_group.simps) simp

lemma scan_group_byte:
  "idx < length bs \<Longrightarrow> 0 < depth \<Longrightarrow> parse_any_literal_span bs idx = None \<Longrightarrow>
   scan_group bs opn close idx depth =
     (if bs ! idx = opn then scan_group bs opn close (idx + 1) (depth + 1)
      else if bs ! idx = close then
        if depth - 1 = 0 then (Some idx, idx + 1) else scan_group bs opn close (idx + 1) (depth - 1)
      else scan_group bs opn close (idx + 1) depth)"
  by (subst scan_group.simps) simp

lemma scan_group_bounds:
  "idx \<le> length bs \<Longrightarrow> scan_group bs opn close idx depth = (inner, nxt) \<Longrightarrow>
   idx \<le> nxt \<and> nxt \<le> length bs \<and> (\<forall>e. inner = Some e \<longrightarrow> idx \<le> e \<and> e < nxt)"
proof (induction bs opn close idx depth arbitrary: inner nxt rule: scan_group.induct)
  case (1 bs opn close idx depth)
  show ?case
  proof (cases "idx < length bs \<and> 0 < depth")
    case False
    then show ?thesis using 1(5,6) by (auto simp: scan_group_stop)
  next
    case inside: True
    show ?thesis
    proof (cases "parse_any_literal_span bs idx")
      case (Some span)
      then show ?thesis
        using 1(4) [OF inside Some, of inner nxt] 1(6) inside parse_any_progress [OF Some]
        by (auto simp: scan_group_literal)
    next
      case None
      then show ?thesis
        using 1(1-3) [OF inside None, of inner nxt] 1(6) inside
        by (auto simp: Suc_le_eq scan_group_byte split: if_splits)
    qed
  qed
qed

definition push_slice :: "bytes \<Rightarrow> nat \<Rightarrow> nat \<Rightarrow> bytes list option \<Rightarrow> bytes list option" where
  "push_slice bs i j rest = Option.bind (str_slice bs i j) (\<lambda>v. map_option ((#) v) rest)"

definition is_separator :: "byte \<Rightarrow> bool" where
  "is_separator b \<longleftrightarrow> b \<in> set [CHR '' '', CHR 0x09, CHR 0x0D, CHR 0x0A, CHR '','']"

definition is_opener :: "byte \<Rightarrow> bool" where
  "is_opener b \<longleftrightarrow> b \<in> set ''[({''"

definition starts_number :: "byte \<Rightarrow> bool" where
  "starts_number b \<longleftrightarrow> is_ascii_digit b \<or> b \<in> set ''+-''"

definition is_number_byte :: "byte \<Rightarrow> bool" where
  "is_number_byte b \<longleftrightarrow> is_ascii_digit b \<or> b \<in> set ''._x''"

definition starts_bare :: "byte \<Rightarrow> bool" where
  "starts_bare b \<longleftrightarrow> is_ascii_alphanumeric b \<or> b \<in> set ''_$@''"

definition is_bare_byte :: "byte \<Rightarrow> bool" where
  "is_bare_byte b \<longleftrightarrow>
     b \<notin> set [CHR '' '', CHR 0x09, CHR 0x0D, CHR 0x0A, CHR '','', CHR '')'', CHR '']'', CHR ''}'']"

text \<open>The outer loop from an index on: the values it pushes.\<close>

function extract_values :: "bool \<Rightarrow> bytes \<Rightarrow> nat \<Rightarrow> bytes list option" where
  "extract_values allow_bare bs idx =
     (if idx < length bs then
        case parse_any_literal_span bs idx of
          Some span \<Rightarrow> push_slice bs idx (span_end span) (extract_values allow_bare bs (span_end span))
        | None \<Rightarrow>
            if is_separator (bs ! idx) then extract_values allow_bare bs (idx + 1)
            else if is_opener (bs ! idx) then
              (case scan_group bs (bs ! idx) (close_of (bs ! idx)) (idx + 1) 1 of
                 (None, nxt) \<Rightarrow> extract_values allow_bare bs nxt
               | (Some e, nxt) \<Rightarrow>
                   Option.bind (str_slice bs (idx + 1) e) (\<lambda>inner.
                   Option.bind (extract_values allow_bare inner 0) (\<lambda>vs.
                   map_option ((@) vs) (extract_values allow_bare bs nxt))))
            else if starts_number (bs ! idx) then
              let e = skip_while is_number_byte bs (idx + 1)
              in push_slice bs idx e (extract_values allow_bare bs e)
            else if allow_bare \<and> starts_bare (bs ! idx) then
              let e = skip_while is_bare_byte bs (idx + 1)
              in push_slice bs idx e (extract_values allow_bare bs e)
            else extract_values allow_bare bs (idx + 1)
      else Some [])"
  by pat_completeness auto
termination
proof (relation "measures [\<lambda>(ab, bs, idx). length bs, \<lambda>(ab, bs, idx). length bs - idx]", goal_cases)
  case 1 then show ?case by simp
next
  case 2 then show ?case by simp
next
  case (3 allow_bare bs idx inner nxt)
  then show ?case using scan_group_bounds [of "idx + 1" bs, OF _ 3(5) [symmetric]] by auto
next
  case (4 allow_bare bs idx inner nxt e slice)
  then show ?case using scan_group_bounds [of "idx + 1" bs, OF _ 4(5) [symmetric]]
    by (auto simp: str_slice_def subslice_def split: if_splits)
next
  case (5 allow_bare bs idx inner nxt)
  then show ?case using scan_group_bounds [of "idx + 1" bs, OF _ 5(5) [symmetric]] by auto
next
  case (6 allow_bare bs idx e) then show ?case using skip_while_ge [of "idx + 1"] by (auto simp: Suc_le_eq intro!: diff_less_mono2)
next
  case (7 allow_bare bs idx e) then show ?case using skip_while_ge [of "idx + 1"] by (auto simp: Suc_le_eq intro!: diff_less_mono2)
next
  case 8 then show ?case by simp
next
  case 9 then show ?case by (auto dest!: parse_any_progress)
qed

declare extract_values.simps [simp del]

definition extract_literal_values :: "bytes \<Rightarrow> bool \<Rightarrow> bytes list option" where
  "extract_literal_values input allow_bare = extract_values allow_bare input 0"

section \<open>No slice of the lexer panics\<close>

lemma ascii_not_continuation: "is_ascii b \<Longrightarrow> \<not> is_continuation b"
  by (simp add: is_ascii_def is_continuation_def)

lemma boundary_ascii: "i < length s \<Longrightarrow> is_ascii (s ! i) \<Longrightarrow> is_char_boundary s i"
  by (simp add: is_char_boundary_def ascii_not_continuation)

lemma char_width_ascii [simp]: "is_ascii b \<Longrightarrow> char_width b = 1"
  by (simp add: char_width_def is_ascii_def Let_def)

lemma char_width_continuation [simp]: "is_continuation b \<Longrightarrow> char_width b = 0"
  by (simp add: char_width_def is_continuation_def Let_def)

lemma str_ok_Cons_ascii [simp]: "is_ascii b \<Longrightarrow> str_ok (b # s) \<longleftrightarrow> str_ok s"
  by (simp add: Let_def)

lemma str_ok_hd: "str_ok (b # s) \<Longrightarrow> \<not> is_continuation b"
  by (auto simp: Let_def)

lemma str_ok_append: "str_ok a \<Longrightarrow> str_ok b \<Longrightarrow> str_ok (a @ b)"
  by (induction a rule: str_ok.induct) (auto simp: Let_def)

declare str_ok.simps(2) [simp del]

text \<open>Text splits at a character boundary into two texts.\<close>

lemma str_ok_split:
  "str_ok s \<Longrightarrow> is_char_boundary s i \<Longrightarrow> str_ok (take i s) \<and> str_ok (drop i s)"
proof (induction s arbitrary: i rule: str_ok.induct)
  case 1
  then show ?case by simp
next
  case (2 b s)
  let ?n = "char_width b"
  from 2(2) have b: "0 < ?n" "?n - 1 \<le> length s" "list_all is_continuation (take (?n - 1) s)" "str_ok (drop (?n - 1) s)"
    by (auto simp: str_ok.simps(2) Let_def)
  show ?case
  proof (cases "i < ?n")
    case True
    have "i = 0"
    proof (rule ccontr)
      assume "i \<noteq> 0"
      then have "i - 1 < length (take (?n - 1) s)" using True b by auto
      then have "is_continuation (take (?n - 1) s ! (i - 1))" using b(3) by (simp only: list_all_length)
      then have "is_continuation ((b # s) ! i)" "i < length (b # s)" using True b \<open>i \<noteq> 0\<close> by (auto simp: nth_Cons')
      then show False using 2(3) \<open>i \<noteq> 0\<close> by (simp add: is_char_boundary_def)
    qed
    then show ?thesis using 2(2) by simp
  next
    case False
    then have le: "?n \<le> i" by simp
    have i: "i \<le> length s + 1" using 2(3) by (auto simp: is_char_boundary_def)
    have "is_char_boundary (drop (?n - 1) s) (i - ?n)"
      using 2(3) le b i by (auto simp: is_char_boundary_def nth_Cons' not_le)
    then have "str_ok (take (i - ?n) (drop (?n - 1) s))" "str_ok (drop (i - ?n) (drop (?n - 1) s))"
      using 2(1) [OF refl b(4)] by auto
    then show ?thesis using b le i
      by (cases i) (auto simp: str_ok.simps(2) Let_def min_def take_drop add.commute)
  qed
qed

lemma boundary_take_end:
  "i \<le> j \<Longrightarrow> is_char_boundary s i \<Longrightarrow> is_char_boundary s j \<Longrightarrow> is_char_boundary (take j s) i"
  by (auto simp: is_char_boundary_def min_def)

lemma str_ok_slice: "str_ok s \<Longrightarrow> str_slice s i j = Some t \<Longrightarrow> str_ok t"
  using str_ok_split [of s j] str_ok_split [of "take j s" i] boundary_take_end [of i j s]
  by (auto simp: str_slice_def subslice_def drop_take split: if_splits)

lemma boundary_after_ascii:
  assumes "str_ok s" "i < length s" "is_ascii (s ! i)"
  shows "is_char_boundary s (Suc i)"
proof -
  have "str_ok (s ! i # drop (Suc i) s)"
    using str_ok_split [OF assms(1) boundary_ascii [OF assms(2,3)]] assms(2) by (simp add: Cons_nth_drop_Suc)
  then have ok: "str_ok (drop (Suc i) s)" using assms(3) by simp
  show ?thesis
  proof (cases "Suc i < length s")
    case True
    then have "drop (Suc i) s = s ! Suc i # drop (Suc (Suc i)) s" by (simp add: Cons_nth_drop_Suc)
    then have "\<not> is_continuation (s ! Suc i)" using ok str_ok_hd by metis
    then show ?thesis using True by (simp add: is_char_boundary_def)
  qed (use assms(2) in \<open>simp add: is_char_boundary_def\<close>)
qed

text \<open>A span ends at the end of the text or just after an ASCII byte.\<close>

definition ends_ascii :: "bytes \<Rightarrow> literal_span \<Rightarrow> bool" where
  "ends_ascii bs span \<longleftrightarrow> span_end span = length bs \<or>
     (0 < span_end span \<and> span_end span \<le> length bs \<and> is_ascii (bs ! (span_end span - 1)))"

lemma ends_ascii_unclosed [simp]: "ends_ascii bs (unclosed bs)"
  by (simp add: ends_ascii_def unclosed_def)

lemma ends_ascii_closed: "idx < length bs \<Longrightarrow> is_ascii (bs ! idx) \<Longrightarrow> ends_ascii bs (closed_at (Suc idx))"
  by (auto simp: ends_ascii_def closed_at_def)

lemma quote_is_ascii [simp]: "is_ascii dquote" "is_ascii squote" "is_ascii backtick" "is_ascii (CHR ''#'')"
  by (simp_all add: is_ascii_def byte_val_def)

lemma raw_literal_end_ascii: "ends_ascii bs (raw_literal_end bs n idx)"
proof (induction bs n idx rule: raw_literal_end.induct)
  case (1 bs n idx)
  show ?case
  proof (cases "idx < length bs \<and> bs ! idx = dquote \<and> idx + 1 + n \<le> length bs \<and>
      list_all (\<lambda>ch. ch = CHR ''#'') (subslice bs (idx + 1) (idx + 1 + n))")
    case True
    have "bs ! (idx + n) = dquote \<or> bs ! (idx + n) = CHR ''#''"
    proof (cases n)
      case (Suc m)
      then have "m < length (subslice bs (idx + 1) (idx + 1 + n))" using True by (auto simp: subslice_def)
      then have "subslice bs (idx + 1) (idx + 1 + n) ! m = CHR ''#''"
        using True nth_mem [of m "subslice bs (idx + 1) (idx + 1 + n)"] by (simp only: list_all_iff)
      then show ?thesis using Suc True by (simp add: subslice_def)
    qed (use True in simp)
    then show ?thesis using True
      by (subst raw_literal_end.simps) (auto intro: ends_ascii_closed)
  next
    case False
    then show ?thesis using 1 by (subst raw_literal_end.simps) auto
  qed
qed

lemma verbatim_literal_end_ascii: "ends_ascii bs (verbatim_literal_end bs idx)"
proof (induction bs idx rule: verbatim_literal_end.induct)
  case (1 bs idx)
  then show ?case by (subst verbatim_literal_end.simps) (auto intro: ends_ascii_closed)
qed

lemma quoted_literal_end_ascii: "is_ascii quote \<Longrightarrow> ends_ascii bs (quoted_literal_end bs quote triple idx)"
proof (induction bs quote triple idx rule: quoted_literal_end.induct)
  case (1 bs quote triple idx)
  then show ?case
    using ends_ascii_closed [of "idx + 2" bs]
    by (subst quoted_literal_end.simps) (auto intro: ends_ascii_closed simp: numeral_3_eq_3)
qed

lemma backtick_literal_end_ascii: "ends_ascii bs (backtick_literal_end bs idx)"
proof (induction bs idx rule: backtick_literal_end.induct)
  case (1 bs idx)
  then show ?case by (subst backtick_literal_end.simps) (auto intro: ends_ascii_closed)
qed

lemma parse_any_ends_ascii: "parse_any_literal_span bs idx = Some span \<Longrightarrow> ends_ascii bs span"
  by (auto simp: parse_any_literal_span_def or_else_def parse_rust_raw_literal_span_def
      parse_csharp_verbatim_literal_span_def parse_quoted_literal_span_def parse_backtick_literal_span_def
      Let_def raw_literal_end_ascii verbatim_literal_end_ascii backtick_literal_end_ascii is_byte_at_iff
      intro: quoted_literal_end_ascii split: option.splits if_splits)

lemma parse_any_start_ascii:
  assumes "parse_any_literal_span bs idx = Some span"
  shows "idx < length bs \<and> bs ! idx \<in> set ''bBrRfFuU$@'' \<union> {dquote, squote, backtick}"
proof -
  have "skip_string_prefix 3 bs idx \<noteq> idx \<Longrightarrow> idx < length bs \<and> is_string_prefix_byte (bs ! idx)"
    by (auto simp: numeral_3_eq_3 split: if_splits)
  then show ?thesis using assms
    by (auto simp: parse_any_literal_span_def or_else_def parse_rust_raw_literal_span_def
        parse_csharp_verbatim_literal_span_def parse_quoted_literal_span_def parse_backtick_literal_span_def
        verbatim_quote_idx_def is_string_prefix_byte_def
        Let_def is_byte_at_iff split: option.splits if_splits)
qed

lemma parse_any_slice:
  assumes "str_ok bs" and span: "parse_any_literal_span bs idx = Some span"
  shows "str_slice bs idx (span_end span) = Some (subslice bs idx (span_end span))"
proof -
  have "is_ascii (bs ! idx)" "idx < length bs"
    using parse_any_start_ascii [OF span] by (auto simp: is_ascii_def byte_val_def)
  then have "is_char_boundary bs idx" by (simp add: boundary_ascii)
  moreover have "is_char_boundary bs (span_end span)"
    using parse_any_ends_ascii [OF span] boundary_after_ascii [OF assms(1), of "span_end span - 1"]
    by (cases "span_end span") (auto simp: ends_ascii_def is_char_boundary_def)
  ultimately show ?thesis using parse_any_progress [OF span] by (simp add: str_slice_def)
qed

lemma skip_while_slice:
  assumes ok: "str_ok bs" and idx: "idx < length bs" "is_ascii (bs ! idx)"
    and p: "(\<forall>b. p b \<longrightarrow> is_ascii b) \<or> (\<forall>b. \<not> p b \<longrightarrow> is_ascii b)"
  shows "str_slice bs idx (skip_while p bs (idx + 1)) = Some (subslice bs idx (skip_while p bs (idx + 1)))"
proof -
  define e where "e = skip_while p bs (idx + 1)"
  have e: "idx + 1 \<le> e" "e \<le> length bs"
    unfolding e_def using skip_while_ge [of "idx + 1" p bs] skip_while_le [of "idx + 1" bs p] idx by auto
  have "is_char_boundary bs e"
  proof (cases "e = length bs")
    case False
    then have lt: "e < length bs" using e by simp
    have stop: "\<not> p (bs ! e)" using skip_while_stop lt unfolding e_def by blast
    from p show ?thesis
    proof
      assume "\<forall>b. \<not> p b \<longrightarrow> is_ascii b"
      then show ?thesis using stop lt by (simp add: boundary_ascii)
    next
      assume all: "\<forall>b. p b \<longrightarrow> is_ascii b"
      have "is_ascii (bs ! (e - 1))"
      proof (cases "e - 1 = idx")
        case False
        then have "idx + 1 \<le> e - 1" "e - 1 < e" using e by auto
        then have "p (bs ! (e - 1))" using skip_while_all [of "idx + 1" "e - 1" p bs] by (simp add: e_def)
        then show ?thesis using all by blast
      qed (use idx in simp)
      then show ?thesis using boundary_after_ascii [OF ok, of "e - 1"] e lt by simp
    qed
  qed (simp add: is_char_boundary_def)
  then show ?thesis using idx e by (simp add: str_slice_def boundary_ascii e_def)
qed

lemma digit_ascii: "is_ascii_digit b \<Longrightarrow> is_ascii b"
  by (simp add: is_ascii_digit_def is_ascii_def)

lemma alphanumeric_ascii: "is_ascii_alphanumeric b \<Longrightarrow> is_ascii b"
  by (auto simp: is_ascii_alphanumeric_def is_ascii_digit_def is_ascii_upper_def is_ascii_lower_def is_ascii_def)

lemma scan_group_close:
  "scan_group bs opn close idx depth = (Some e, nxt) \<Longrightarrow> e < length bs \<and> bs ! e = close"
proof (induction bs opn close idx depth rule: scan_group.induct)
  case (1 bs opn close idx depth)
  show ?case
  proof (cases "idx < length bs \<and> 0 < depth")
    case inside: True
    show ?thesis
    proof (cases "parse_any_literal_span bs idx")
      case (Some span)
      then show ?thesis using 1(4) [OF inside Some] 1(5) inside by (simp add: scan_group_literal)
    next
      case None
      then show ?thesis using 1(1-3) [OF inside None] 1(5) inside
        by (auto simp: scan_group_byte split: if_splits)
    qed
  qed (use 1(5) in \<open>simp add: scan_group_stop\<close>)
qed

section \<open>The steps of the outer loop\<close>

lemma extract_values_end: "length bs \<le> idx \<Longrightarrow> extract_values allow_bare bs idx = Some []"
  by (subst extract_values.simps) simp

lemma extract_values_literal:
  "parse_any_literal_span bs idx = Some span \<Longrightarrow>
   extract_values allow_bare bs idx = push_slice bs idx (span_end span) (extract_values allow_bare bs (span_end span))"
  by (subst extract_values.simps) (simp add: parse_any_bound)

lemma extract_values_separator:
  "idx < length bs \<Longrightarrow> parse_any_literal_span bs idx = None \<Longrightarrow> is_separator (bs ! idx) \<Longrightarrow>
   extract_values allow_bare bs idx = extract_values allow_bare bs (idx + 1)"
  by (subst extract_values.simps) simp

lemma opener_not_separator: "is_opener b \<Longrightarrow> \<not> is_separator b"
  by (auto simp: is_opener_def is_separator_def)

lemma number_not_punctuation: "starts_number b \<Longrightarrow> \<not> is_separator b \<and> \<not> is_opener b"
  by (auto simp: starts_number_def is_opener_def is_separator_def is_ascii_digit_def byte_val_def)

lemma bare_not_punctuation: "starts_bare b \<Longrightarrow> \<not> is_separator b \<and> \<not> is_opener b"
  by (auto simp: starts_bare_def is_opener_def is_separator_def byte_val_def
      is_ascii_alphanumeric_def is_ascii_digit_def is_ascii_upper_def is_ascii_lower_def)

lemma extract_values_group:
  "idx < length bs \<Longrightarrow> parse_any_literal_span bs idx = None \<Longrightarrow> is_opener (bs ! idx) \<Longrightarrow>
   scan_group bs (bs ! idx) (close_of (bs ! idx)) (idx + 1) 1 = (Some e, nxt) \<Longrightarrow>
   extract_values allow_bare bs idx =
     Option.bind (str_slice bs (idx + 1) e) (\<lambda>inner.
     Option.bind (extract_values allow_bare inner 0) (\<lambda>vs.
     map_option ((@) vs) (extract_values allow_bare bs nxt)))"
  by (subst extract_values.simps) (simp add: opener_not_separator)

lemma extract_values_open_group:
  "idx < length bs \<Longrightarrow> parse_any_literal_span bs idx = None \<Longrightarrow> is_opener (bs ! idx) \<Longrightarrow>
   scan_group bs (bs ! idx) (close_of (bs ! idx)) (idx + 1) 1 = (None, nxt) \<Longrightarrow>
   extract_values allow_bare bs idx = extract_values allow_bare bs nxt"
  by (subst extract_values.simps) (simp add: opener_not_separator)

lemma extract_values_number:
  "idx < length bs \<Longrightarrow> parse_any_literal_span bs idx = None \<Longrightarrow> starts_number (bs ! idx) \<Longrightarrow>
   extract_values allow_bare bs idx = push_slice bs idx (skip_while is_number_byte bs (idx + 1))
     (extract_values allow_bare bs (skip_while is_number_byte bs (idx + 1)))"
  by (subst extract_values.simps) (simp add: number_not_punctuation Let_def)

lemma extract_values_bare:
  "idx < length bs \<Longrightarrow> parse_any_literal_span bs idx = None \<Longrightarrow> \<not> starts_number (bs ! idx) \<Longrightarrow>
   allow_bare \<and> starts_bare (bs ! idx) \<Longrightarrow>
   extract_values allow_bare bs idx = push_slice bs idx (skip_while is_bare_byte bs (idx + 1))
     (extract_values allow_bare bs (skip_while is_bare_byte bs (idx + 1)))"
  by (subst extract_values.simps) (simp add: bare_not_punctuation Let_def)

lemma extract_values_other:
  "idx < length bs \<Longrightarrow> parse_any_literal_span bs idx = None \<Longrightarrow> \<not> is_separator (bs ! idx) \<Longrightarrow>
   \<not> is_opener (bs ! idx) \<Longrightarrow> \<not> starts_number (bs ! idx) \<Longrightarrow> \<not> (allow_bare \<and> starts_bare (bs ! idx)) \<Longrightarrow>
   extract_values allow_bare bs idx = extract_values allow_bare bs (idx + 1)"
  by (subst extract_values.simps) auto

text \<open>The values are slices of the text, and taking them never panics.\<close>

definition good_values :: "bytes list option \<Rightarrow> bool" where
  "good_values r \<longleftrightarrow> (\<exists>vs. r = Some vs \<and> list_all str_ok vs)"

lemma good_values_push:
  "str_ok bs \<Longrightarrow> str_slice bs i j = Some v \<Longrightarrow> good_values r \<Longrightarrow> good_values (push_slice bs i j r)"
  using str_ok_slice [of bs i j v] by (auto simp: good_values_def push_slice_def)

lemma good_values_append:
  "good_values r \<Longrightarrow> good_values q \<Longrightarrow> good_values (Option.bind r (\<lambda>vs. map_option ((@) vs) q))"
  by (auto simp: good_values_def)

lemma bracket_slice:
  assumes "str_ok bs" "idx < length bs" "is_opener (bs ! idx)"
    and "scan_group bs opn (close_of c) (idx + 1) 1 = (Some e, nxt)"
  shows "\<exists>inner. str_slice bs (idx + 1) e = Some inner \<and> str_ok inner"
proof -
  have "is_ascii (bs ! idx)" "is_ascii (close_of c)"
    using assms(3) by (auto simp: is_opener_def is_ascii_def byte_val_def close_of_def)
  moreover have "e < length bs" "bs ! e = close_of c" using scan_group_close [OF assms(4)] by simp_all
  moreover have "idx + 1 \<le> e" using scan_group_bounds [OF _ assms(4)] assms(2) by simp
  ultimately have "str_slice bs (idx + 1) e = Some (subslice bs (idx + 1) e)"
    using boundary_after_ascii [OF assms(1,2)] boundary_ascii [of e bs] by (simp add: str_slice_def)
  then show ?thesis using str_ok_slice [OF assms(1)] by blast
qed

lemma number_slice:
  assumes "str_ok bs" "idx < length bs" "starts_number (bs ! idx)"
  shows "str_slice bs idx (skip_while is_number_byte bs (idx + 1)) =
         Some (subslice bs idx (skip_while is_number_byte bs (idx + 1)))"
  using assms
  by (intro skip_while_slice disjI1)
    (auto simp: starts_number_def is_number_byte_def is_ascii_digit_def is_ascii_def byte_val_def)

lemma bare_slice:
  assumes "str_ok bs" "idx < length bs" "starts_bare (bs ! idx)"
  shows "str_slice bs idx (skip_while is_bare_byte bs (idx + 1)) =
         Some (subslice bs idx (skip_while is_bare_byte bs (idx + 1)))"
proof -
  have "is_ascii (bs ! idx)"
    using assms(3) alphanumeric_ascii by (auto simp: starts_bare_def is_ascii_def byte_val_def)
  then show ?thesis using assms
    by (intro skip_while_slice disjI2) (auto simp: is_bare_byte_def is_ascii_def byte_val_def)
qed

lemma extract_values_good: "str_ok bs \<Longrightarrow> good_values (extract_values allow_bare bs idx)"
proof (induction allow_bare bs idx rule: extract_values.induct)
  case (1 allow_bare bs idx)
  note ok = 1(9)
  consider (over) "\<not> idx < length bs"
    | (lit) span where "idx < length bs" "parse_any_literal_span bs idx = Some span"
    | (byte) "idx < length bs" "parse_any_literal_span bs idx = None"
    by (cases "parse_any_literal_span bs idx") auto
  then show ?case
  proof cases
    case over
    then show ?thesis by (simp add: extract_values_end good_values_def)
  next
    case lit
    then show ?thesis using 1(8) [OF lit ok] parse_any_slice [OF ok lit(2)] ok
      by (simp add: extract_values_literal good_values_push)
  next
    case byte
    consider (sep) "is_separator (bs ! idx)"
      | (group) "\<not> is_separator (bs ! idx)" "is_opener (bs ! idx)"
      | (num) "\<not> is_separator (bs ! idx)" "\<not> is_opener (bs ! idx)" "starts_number (bs ! idx)"
      | (bare) "\<not> is_separator (bs ! idx)" "\<not> is_opener (bs ! idx)" "\<not> starts_number (bs ! idx)"
          "allow_bare \<and> starts_bare (bs ! idx)"
      | (other) "\<not> is_separator (bs ! idx)" "\<not> is_opener (bs ! idx)" "\<not> starts_number (bs ! idx)"
          "\<not> (allow_bare \<and> starts_bare (bs ! idx))"
      by blast
    then show ?thesis
    proof cases
      case sep
      then show ?thesis using 1(1) [OF byte sep ok] byte by (simp add: extract_values_separator)
    next
      case group
      obtain inner nxt where scan: "scan_group bs (bs ! idx) (close_of (bs ! idx)) (idx + 1) 1 = (inner, nxt)"
        by fastforce
      note hyps = 1(2-4) [OF byte group scan [symmetric]]
      show ?thesis
      proof (cases inner)
        case None
        then show ?thesis using hyps(1) [OF None ok] byte group scan by (simp add: extract_values_open_group)
      next
        case (Some e)
        obtain t where t: "str_slice bs (idx + 1) e = Some t" "str_ok t"
          using bracket_slice [OF ok byte(1) group(2) scan [unfolded Some]] by blast
        obtain vs where vs: "extract_values allow_bare t 0 = Some vs" "list_all str_ok vs"
          using hyps(2) [OF Some t] by (auto simp: good_values_def)
        then show ?thesis using hyps(3) [OF Some t(1) vs(1) ok] t
          by (simp add: extract_values_group [OF byte group(2) scan [unfolded Some]] good_values_def) auto
      qed
    next
      case num
      then show ?thesis using 1(5) [OF byte num refl ok] number_slice [OF ok byte(1) num(3)] ok byte
        by (simp add: extract_values_number good_values_push)
    next
      case bare
      then show ?thesis using 1(6) [OF byte bare refl ok] bare_slice [OF ok byte(1)] ok byte
        by (simp add: extract_values_bare good_values_push)
    next
      case other
      then show ?thesis using 1(7) [OF byte other ok] byte by (simp add: extract_values_other)
    qed
  qed
qed

section \<open>Nested lists of string literals\<close>

datatype lit_tree = Lit bytes | Group byte "lit_tree list"

definition quote_lit :: "bytes \<Rightarrow> bytes" where
  "quote_lit v = dquote # v @ [dquote]"

fun print_tree :: "lit_tree \<Rightarrow> bytes" and print_trees :: "lit_tree list \<Rightarrow> bytes" where
  "print_tree (Lit v) = quote_lit v"
| "print_tree (Group b ts) = b # print_trees ts @ [close_of b]"
| "print_trees [] = []"
| "print_trees (t # ts) = print_tree t @ (if ts = [] then [] else '', '' @ print_trees ts)"

fun literals :: "lit_tree \<Rightarrow> bytes list" where
  "literals (Lit v) = [quote_lit v]"
| "literals (Group b ts) = concat (map literals ts)"

definition plain :: "bytes \<Rightarrow> bool" where
  "plain v \<longleftrightarrow> str_ok v \<and> dquote \<notin> set v \<and> backslash \<notin> set v"

fun printable :: "lit_tree \<Rightarrow> bool" where
  "printable (Lit v) = plain v"
| "printable (Group b ts) = (is_opener b \<and> list_all printable ts)"

lemma punctuation_ascii: "is_opener b \<Longrightarrow> is_ascii b" "is_ascii (close_of b)" "is_separator c \<Longrightarrow> is_ascii c"
  by (auto simp: is_opener_def is_separator_def close_of_def is_ascii_def byte_val_def)

lemma separators [simp]: "is_separator (CHR '','')" "is_separator (CHR '' '')"
  by (simp_all add: is_separator_def)

lemma str_ok_print:
  "printable t \<Longrightarrow> str_ok (print_tree t)"
  "list_all printable ts \<Longrightarrow> str_ok (print_trees ts)"
proof (induction t and ts rule: print_tree_print_trees.induct)
  case (4 t ts)
  then show ?case by (auto intro!: str_ok_append simp: punctuation_ascii)
qed (auto simp: quote_lit_def plain_def punctuation_ascii intro!: str_ok_append)

lemma quoted_literal_end_plain:
  "dquote \<notin> set v \<Longrightarrow> backslash \<notin> set v \<Longrightarrow>
   quoted_literal_end (pre @ v @ dquote # post) dquote False (length pre) = closed_at (length pre + length v + 1)"
proof (induction v arbitrary: pre)
  case Nil
  then show ?case by (subst quoted_literal_end.simps) (simp add: nth_append)
next
  case (Cons c v)
  from Cons(1) [of "pre @ [c]"] Cons(2-) show ?case
    by (subst quoted_literal_end.simps) (auto simp: nth_append)
qed

definition not_quote :: "bytes \<Rightarrow> bool" where
  "not_quote post \<longleftrightarrow> (case post of [] \<Rightarrow> True | c # _ \<Rightarrow> c \<noteq> dquote)"

lemma parse_any_quoted:
  assumes "plain v" "not_quote post"
  shows "parse_any_literal_span (pre @ quote_lit v @ post) (length pre) = Some (closed_at (length pre + length (quote_lit v)))"
proof -
  let ?bs = "pre @ dquote # v @ dquote # post"
  have here: "?bs ! length pre = dquote" "length pre < length ?bs" by simp_all
  have single: "\<not> is_triple ?bs (length pre) dquote"
    using assms by (cases v; cases post) (auto simp: is_triple_def nth_append plain_def not_quote_def)
  have "quoted_literal_end ?bs dquote False (length pre + 1) = closed_at (length pre + length v + 2)"
    using quoted_literal_end_plain [of v "pre @ [dquote]" post] assms by (simp add: plain_def)
  then show ?thesis using here single
    by (simp add: parse_any_literal_span_def or_else_def parse_rust_raw_literal_span_def Let_def is_byte_at_iff
        parse_csharp_verbatim_literal_span_def verbatim_quote_idx_def parse_quoted_literal_span_def quote_lit_def)
qed

lemma parse_any_none: "bs ! idx \<notin> set ''bBrRfFuU$@'' \<union> {dquote, squote, backtick} \<Longrightarrow> parse_any_literal_span bs idx = None"
  using parse_any_start_ascii [of bs idx] by (cases "parse_any_literal_span bs idx") auto

lemma parse_any_punctuation:
  "is_opener (bs ! idx) \<or> is_separator (bs ! idx) \<or> bs ! idx = close_of b \<Longrightarrow> parse_any_literal_span bs idx = None"
  by (rule parse_any_none) (auto simp: is_opener_def is_separator_def close_of_def split: if_splits)

lemma opener_not_close: "is_opener b \<Longrightarrow> b \<noteq> close_of c"
  by (auto simp: is_opener_def close_of_def split: if_splits)

lemma close_of_inject: "is_opener b \<Longrightarrow> is_opener c \<Longrightarrow> close_of b = close_of c \<longleftrightarrow> b = c"
  by (auto simp: is_opener_def close_of_def split: if_splits)

lemma not_quote_simps [simp]:
  "not_quote []" "not_quote (close_of b # xs)" "not_quote ('', '' @ xs)" "not_quote (CHR '','' # xs)"
  by (auto simp: not_quote_def close_of_def)

lemma scan_group_separator:
  "idx < length bs \<Longrightarrow> 0 < d \<Longrightarrow> is_separator (bs ! idx) \<Longrightarrow> is_opener b \<Longrightarrow>
   scan_group bs b (close_of b) idx d = scan_group bs b (close_of b) (idx + 1) d"
  by (subst scan_group_byte) (auto simp: parse_any_punctuation, auto simp: is_separator_def is_opener_def close_of_def split: if_splits)

lemma scan_group_print:
  "printable t \<Longrightarrow> not_quote post \<Longrightarrow> 0 < d \<Longrightarrow> is_opener b \<Longrightarrow> bs = pre @ print_tree t @ post \<Longrightarrow>
   scan_group bs b (close_of b) (length pre) d = scan_group bs b (close_of b) (length pre + length (print_tree t)) d"
  "list_all printable ts \<Longrightarrow> not_quote post \<Longrightarrow> 0 < d \<Longrightarrow> is_opener b \<Longrightarrow> bs = pre @ print_trees ts @ post \<Longrightarrow>
   scan_group bs b (close_of b) (length pre) d = scan_group bs b (close_of b) (length pre + length (print_trees ts)) d"
proof (induction t and ts arbitrary: pre post d and pre post d rule: print_tree_print_trees.induct)
  case (1 v)
  then show ?case
    using parse_any_quoted [of v post pre] scan_group_literal [of "length pre" bs d]
    by (simp add: closed_at_def) (simp add: quote_lit_def)
next
  case (2 c ts)
  let ?n = "length pre" and ?m = "length pre + 1 + length (print_trees ts)"
  have bytes: "bs ! ?n = c" "bs ! ?m = close_of c" "?n < length bs" "?m < length bs"
    using 2(6) by (simp_all add: nth_append)
  then have none: "parse_any_literal_span bs ?n = None" "parse_any_literal_span bs ?m = None"
    using 2(2) parse_any_punctuation [of bs ?n c] parse_any_punctuation [of bs ?m c] by simp_all
  have inside: "scan_group bs b (close_of b) (?n + 1) d' = scan_group bs b (close_of b) ?m d'" if "0 < d'" for d'
    using 2(1) [of "close_of c # post" d' "pre @ [c]"] 2(2,5,6) that by simp
  have "c \<noteq> close_of b" "close_of c \<noteq> b" "close_of c = close_of b \<longleftrightarrow> c = b"
    using 2(2,5) opener_not_close close_of_inject by auto
  then show ?case
    using scan_group_byte [OF bytes(3) _ none(1), of d b "close_of b"] inside [of d] inside [of "d + 1"] 2(4) bytes
      scan_group_byte [OF bytes(4) _ none(2), of d b "close_of b"]
      scan_group_byte [OF bytes(4) _ none(2), of "d + 1" b "close_of b"]
    by (cases "c = b") simp_all
next
  case 3
  then show ?case by simp
next
  case (4 t ts)
  show ?case
  proof (cases "ts = []")
    case True
    then show ?thesis using 4(1) [of post d pre] 4(3-) by simp
  next
    case False
    let ?n = "length pre + length (print_tree t)"
    have bs: "bs = pre @ print_tree t @ '', '' @ print_trees ts @ post" using 4(7) False by simp
    have sep: "bs ! ?n = CHR '',''" "bs ! (?n + 1) = CHR '' ''" "?n + 1 < length bs"
      by (simp_all add: bs nth_append)
    have "scan_group bs b (close_of b) (length pre) d = scan_group bs b (close_of b) ?n d"
      using 4(1) [of "'', '' @ print_trees ts @ post" d pre] 4(3-6) bs by simp
    also have "\<dots> = scan_group bs b (close_of b) (?n + 2) d"
      using sep 4(5,6) scan_group_separator [of ?n bs d b] scan_group_separator [of "?n + 1" bs d b] by simp
    also have "\<dots> = scan_group bs b (close_of b) (?n + 2 + length (print_trees ts)) d"
      using 4(2) [OF False _ 4(4-6), of "pre @ print_tree t @ '', ''"] 4(3) bs by simp
    finally show ?thesis using False by (simp add: add.assoc)
  qed
qed

text \<open>The group of a printed list closes at its own bracket.\<close>

lemma scan_group_closes:
  assumes "list_all printable ts" "is_opener b" "bs = pre @ b # print_trees ts @ close_of b # post"
  shows "scan_group bs b (close_of b) (length pre + 1) 1 =
    (Some (length pre + 1 + length (print_trees ts)), length pre + 2 + length (print_trees ts))"
proof -
  let ?m = "length pre + 1 + length (print_trees ts)"
  have close: "bs ! ?m = close_of b" "?m < length bs" using assms(3) by (simp_all add: nth_append)
  have "scan_group bs b (close_of b) (length pre + 1) 1 = scan_group bs b (close_of b) ?m 1"
    using scan_group_print(2) [of ts "close_of b # post" 1 b bs "pre @ [b]"] assms by simp
  moreover have "parse_any_literal_span bs ?m = None" using close by (intro parse_any_punctuation) blast
  ultimately show ?thesis using close scan_group_byte [OF close(2), of 1 b "close_of b"] opener_not_close [OF assms(2), of b]
    by simp
qed

lemma subslice_append: "subslice (pre @ xs @ post) (length pre) (length pre + length xs) = xs"
  by (simp add: subslice_def)

lemma extract_values_print:
  "printable t \<Longrightarrow> not_quote post \<Longrightarrow> str_ok bs \<Longrightarrow> bs = pre @ print_tree t @ post \<Longrightarrow>
   extract_values ab bs (length pre) =
     map_option ((@) (literals t)) (extract_values ab bs (length pre + length (print_tree t)))"
  "list_all printable ts \<Longrightarrow> not_quote post \<Longrightarrow> str_ok bs \<Longrightarrow> bs = pre @ print_trees ts @ post \<Longrightarrow>
   extract_values ab bs (length pre) =
     map_option ((@) (concat (map literals ts))) (extract_values ab bs (length pre + length (print_trees ts)))"
proof (induction t and ts arbitrary: bs pre post and bs pre post rule: print_tree_print_trees.induct)
  case (1 v)
  have span: "parse_any_literal_span bs (length pre) = Some (closed_at (length pre + length (quote_lit v)))"
    using parse_any_quoted [of v post pre] 1 by simp
  then show ?case
    using parse_any_slice [OF 1(3) span] 1(4) subslice_append [of pre "quote_lit v" post]
    by (simp add: extract_values_literal push_slice_def closed_at_def)
next
  case (2 c ts)
  let ?m = "length pre + 1 + length (print_trees ts)"
  have opn: "is_opener c" and wf: "list_all printable ts" using 2(2) by simp_all
  have bs: "bs = pre @ c # print_trees ts @ close_of c # post" using 2(5) by simp
  have here: "bs ! length pre = c" "length pre < length bs" using bs by simp_all
  have none: "parse_any_literal_span bs (length pre) = None" using here opn by (simp add: parse_any_punctuation)
  have group: "scan_group bs (bs ! length pre) (close_of (bs ! length pre)) (length pre + 1) 1 = (Some ?m, ?m + 1)"
    using scan_group_closes [OF wf opn bs] here by simp
  have slice: "str_slice bs (length pre + 1) ?m = Some (print_trees ts)"
    using bracket_slice [OF 2(4) here(2) _ group] opn here subslice_append [of "pre @ [c]" "print_trees ts" "close_of c # post"] bs
    by (auto simp: str_slice_def split: if_splits)
  have "extract_values ab (print_trees ts) 0 = Some (concat (map literals ts))"
    using 2(1) [of "[]" "print_trees ts" "[]"] wf str_ok_print(2) by (simp add: extract_values_end)
  then show ?case using extract_values_group [OF here(2) none _ group, of ab] slice here opn
    by (simp add: add.commute)
next
  case 3
  then show ?case by (simp add: option.map_ident)
next
  case (4 t ts)
  show ?case
  proof (cases "ts = []")
    case True
    then show ?thesis using 4(1) [of post bs pre] 4(3-) by simp
  next
    case False
    let ?n = "length pre + length (print_tree t)"
    have bs: "bs = pre @ print_tree t @ '', '' @ print_trees ts @ post" using 4(6) False by simp
    have sep: "bs ! ?n = CHR '',''" "bs ! (?n + 1) = CHR '' ''" "?n + 1 < length bs"
      by (simp_all add: bs nth_append)
    have "extract_values ab bs (length pre) = map_option ((@) (literals t)) (extract_values ab bs ?n)"
      using 4(1) [of "'', '' @ print_trees ts @ post" bs pre] 4(3,5) bs by simp
    also have "extract_values ab bs ?n = extract_values ab bs (?n + 2)"
      using sep extract_values_separator [of ?n bs ab] extract_values_separator [of "?n + 1" bs ab]
      by (simp add: parse_any_punctuation)
    also have "\<dots> = map_option ((@) (concat (map literals ts))) (extract_values ab bs (?n + 2 + length (print_trees ts)))"
      using 4(2) [OF False _ 4(4,5), of "pre @ print_tree t @ '', ''"] 4(3) bs by simp
    finally show ?thesis using False by (simp add: add.assoc option.map_comp comp_def)
  qed
qed

text \<open>
  C24. \<open>extract_literal_values\<close> on a list of double-quoted string literals, separated by a comma and
  a space and nested to any depth in brackets, parentheses and braces, does not panic and returns
  exactly the literals, in the order of the text and with their quotes, whatever the literals
  contain apart from quotes and backslashes (brackets and commas inside a literal are not structure).
\<close>

theorem nested_literals_read_back:
  assumes "list_all printable ts"
  shows "extract_literal_values (print_trees ts) allow_bare = Some (concat (map literals ts))"
  using extract_values_print(2) [OF assms, of "[]" "print_trees ts" "[]" allow_bare] str_ok_print(2) [OF assms]
  by (simp add: extract_literal_values_def extract_values_end)

theorem nested_literals_read_back_witness:
  "extract_literal_values ''{\"a]\", [\"b,\", (\"\")]}'' False = Some [quote_lit ''a]'', quote_lit ''b,'', quote_lit '''']"
  using nested_literals_read_back
    [of "[Group (CHR ''{'') [Lit ''a]'', Group (CHR ''['') [Lit ''b,'', Group (CHR ''('') [Lit '''']]]]" False]
  by (simp add: quote_lit_def plain_def is_opener_def close_of_def is_ascii_def byte_val_def)

end
