(* ===== verification/Literal_Normalize.thy ===== *)
theory Literal_Normalize
  imports Literal_Values
begin

text \<open>
  Keys and values of context candidates: stripping of literals, \<open>normalize_key\<close>,
  \<open>normalize_value\<close>, the number and key heuristics, the splitting of mapping lines and the bracket
  structure of \<open>crates/kingfisher-scanner/src/context/parser/lexer.rs\<close>.  \<open>None\<close> in the outer option
  is a panic of a slice.
\<close>

section \<open>Operations on text\<close>

definition starts_with :: "byte \<Rightarrow> bytes \<Rightarrow> bool" where
  "starts_with c s \<longleftrightarrow> s \<noteq> [] \<and> hd s = c"

definition ends_with :: "byte \<Rightarrow> bytes \<Rightarrow> bool" where
  "ends_with c s \<longleftrightarrow> s \<noteq> [] \<and> last s = c"

definition trim_end_matches :: "byte list \<Rightarrow> bytes \<Rightarrow> bytes" where
  "trim_end_matches cs s = rev (dropWhile (\<lambda>c. c \<in> set cs) (rev s))"

definition trim_start_matches :: "byte list \<Rightarrow> bytes \<Rightarrow> bytes" where
  "trim_start_matches cs s = dropWhile (\<lambda>c. c \<in> set cs) s"

definition trim_matches :: "byte list \<Rightarrow> bytes \<Rightarrow> bytes" where
  "trim_matches cs s = trim_end_matches cs (trim_start_matches cs s)"

fun split_on :: "byte list \<Rightarrow> bytes \<Rightarrow> bytes list" where
  "split_on cs [] = [[]]"
| "split_on cs (c # s) =
     (if c \<in> set cs then [] # split_on cs s
      else case split_on cs s of seg # segs \<Rightarrow> (c # seg) # segs | [] \<Rightarrow> [[c]])"

text \<open>\<open>s.replace("\"\"", "\"")\<close>\<close>

fun undouble_quotes :: "bytes \<Rightarrow> bytes" where
  "undouble_quotes (a # b # s) =
     (if a = dquote \<and> b = dquote then dquote # undouble_quotes s else a # undouble_quotes (b # s))"
| "undouble_quotes s = s"

definition str_strip_prefix :: "bytes \<Rightarrow> bytes \<Rightarrow> bytes option" where
  "str_strip_prefix p s = (if prefix p s then Some (drop (length p) s) else None)"

text \<open>\<open>a.or_else(|| b)\<close> where both may panic\<close>

definition or_try :: "'a option option \<Rightarrow> 'a option option \<Rightarrow> 'a option option" where
  "or_try a b = Option.bind a (\<lambda>r. case r of Some v \<Rightarrow> Some (Some v) | None \<Rightarrow> b)"

section \<open>Stripping the quotes of a literal\<close>

definition strip_rust_raw_literal :: "bytes \<Rightarrow> bytes option option" where
  "strip_rust_raw_literal v =
     (case parse_rust_raw_literal_span v 0 of
        None \<Rightarrow> Some None
      | Some span \<Rightarrow>
          if \<not> span_closed span \<or> span_end span \<noteq> length v then Some None
          else
            let idx = (if is_byte_at v 0 ''bB'' then 1 else 0);
                hash_start = idx + 1;
                idx = skip_while (\<lambda>b. b = CHR ''#'') v hash_start;
                hash_count = idx - hash_start
            in map_option Some (str_slice v (idx + 1) (length v - 1 - hash_count)))"

definition strip_csharp_verbatim_literal :: "bytes \<Rightarrow> bytes option option" where
  "strip_csharp_verbatim_literal v =
     (case parse_csharp_verbatim_literal_span v 0 of
        None \<Rightarrow> Some None
      | Some span \<Rightarrow>
          if \<not> span_closed span \<or> span_end span \<noteq> length v then Some None
          else
            let quote_idx =
              (if prefix [CHR ''@'', dquote] v then Some 1
               else if prefix [CHR ''$'', CHR ''@'', dquote] v \<or> prefix [CHR ''@'', CHR ''$'', dquote] v then Some 2
               else None)
            in case quote_idx of
                 None \<Rightarrow> Some None
               | Some quote_idx \<Rightarrow>
                   map_option (\<lambda>s. Some (undouble_quotes s)) (str_slice v (quote_idx + 1) (length v - 1)))"

definition strip_quoted_literal :: "bytes \<Rightarrow> bytes option option" where
  "strip_quoted_literal v =
     (case parse_quoted_literal_span v 0 of
        None \<Rightarrow> Some None
      | Some span \<Rightarrow>
          if \<not> span_closed span \<or> span_end span \<noteq> length v then Some None
          else
            let quote_idx = (if is_byte_at v 0 ''$'' then 1 else skip_while is_string_prefix_byte v 0)
            in case slice_get v quote_idx of
                 None \<Rightarrow> Some None
               | Some quote \<Rightarrow>
                   if quote \<notin> set [squote, dquote] then Some None
                   else
                     let n = (if is_triple v quote_idx quote then 3 else 1)
                     in map_option Some (str_slice v (quote_idx + n) (length v - n)))"

definition strip_backtick_literal :: "bytes \<Rightarrow> bytes option" where
  "strip_backtick_literal v =
     Option.bind (str_strip_prefix [backtick] v) (\<lambda>s. if ends_with backtick s then Some (butlast s) else None)"

definition trim_wrapped_literal :: "bytes \<Rightarrow> bytes option option" where
  "trim_wrapped_literal v =
     or_try (strip_rust_raw_literal v)
    (or_try (strip_csharp_verbatim_literal v)
    (or_try (strip_quoted_literal v)
            (Some (strip_backtick_literal v))))"

section \<open>Keys, values and calls\<close>

fun decimal_number :: "bool \<Rightarrow> bool \<Rightarrow> bytes \<Rightarrow> bool" where
  "decimal_number seen_digit seen_dot [] = seen_digit"
| "decimal_number seen_digit seen_dot (ch # s) =
     (if is_ascii_digit ch then decimal_number True seen_dot s
      else if ch = CHR ''.'' \<and> \<not> seen_dot then decimal_number seen_digit True s
      else False)"

definition looks_like_number :: "bytes \<Rightarrow> bool" where
  "looks_like_number v =
     (let v = filter (\<lambda>c. c \<noteq> CHR ''_'') (str_trim v);
          v = (if starts_with (CHR ''-'') v \<or> starts_with (CHR ''+'') v then tl v else v)
      in if v = [] then False
         else case or_else (str_strip_prefix ''0x'' v) (str_strip_prefix ''0X'' v) of
                Some hex \<Rightarrow> hex \<noteq> [] \<and> list_all is_ascii_hexdigit hex
              | None \<Rightarrow> decimal_number False False v)"

definition last_segment :: "bytes \<Rightarrow> bytes" where
  "last_segment key =
     (case find (\<lambda>seg. seg \<noteq> []) (rev (split_on ''.:>'' key)) of Some seg \<Rightarrow> seg | None \<Rightarrow> key)"

definition normalize_key :: "bytes \<Rightarrow> bool \<Rightarrow> bytes option" where
  "normalize_key key keep_full_key =
     (let key = trim_start_matches ''@'' (trim_start_matches ''$'' (str_trim key)) in
      Option.bind
        (if starts_with dquote key \<and> ends_with dquote key \<or> starts_with squote key \<and> ends_with squote key
         then str_slice key 1 (length key - 1) else Some key)
        (\<lambda>key. if keep_full_key then Some key else Some (trim_matches ''-'' (last_segment key))))"

definition normalize_value :: "bytes \<Rightarrow> bool \<Rightarrow> bytes option" where
  "normalize_value v allow_bare =
     (let trimmed = trim_end_matches '',;'' (str_trim v) in
      if trimmed = [] then Some []
      else Option.bind (trim_wrapped_literal trimmed) (\<lambda>stripped.
        case stripped of
          Some s \<Rightarrow> Some s
        | None \<Rightarrow>
            if allow_bare \<or> looks_like_number trimmed then Some (trim_matches '')]}'' trimmed) else Some []))"

definition normalize_call_name :: "bytes \<Rightarrow> bytes" where
  "normalize_call_name call =
     (let call = str_trim (strip_prefixes [''new ''] (str_trim call)) in trim_matches ''-'' (last_segment call))"

definition looks_like_embedded_key :: "bytes \<Rightarrow> bool" where
  "looks_like_embedded_key v =
     (let lower = map to_ascii_lowercase (trim_end_matches ''='' (str_trim v)) in
      lower \<noteq> [] \<and>
      list_all (\<lambda>ch. is_ascii_alphanumeric ch \<or> ch \<in> set ''_-.'') lower \<and>
      list_ex (\<lambda>needle. contains_slice needle lower)
        [''api'', ''auth'', ''credential'', ''key'', ''pass'', ''password'', ''secret'', ''token''])"

definition looks_like_cpp_ctor_initializer_line :: "bytes \<Rightarrow> bool" where
  "looks_like_cpp_ctor_initializer_line line =
     (let trimmed = trim_start line in
      contains_slice '') :'' trimmed \<or> starts_with (CHR '':'') trimmed \<or> starts_with (CHR '','') trimmed)"

section \<open>Mapping lines\<close>

text \<open>The loop of \<open>split_mapping_pair\<close> and \<open>split_assignment\<close>: the text before and after the first
  needle outside quotes.\<close>

fun split_unquoted :: "byte \<Rightarrow> bool \<Rightarrow> bool \<Rightarrow> bytes \<Rightarrow> (bytes \<times> bytes) option" where
  "split_unquoted needle in_single in_double [] = None"
| "split_unquoted needle in_single in_double (ch # s) =
     (let cont = (\<lambda>a b. map_option (\<lambda>(k, v). (ch # k, v)) (split_unquoted needle a b s)) in
      if ch = squote \<and> \<not> in_double then cont (\<not> in_single) in_double
      else if ch = dquote \<and> \<not> in_single then cont in_single (\<not> in_double)
      else if ch = needle \<and> \<not> in_single \<and> \<not> in_double then Some ([], s)
      else cont in_single in_double)"

definition split_mapping_pair :: "bytes \<Rightarrow> (bytes \<times> bytes) option" where
  "split_mapping_pair line = split_unquoted (CHR '':'') False False line"

definition split_assignment :: "bytes \<Rightarrow> byte \<Rightarrow> (bytes \<times> bytes) option" where
  "split_assignment line needle = split_unquoted needle False False line"

section \<open>Bracket structure and assignment operators\<close>

record line_structure =
  depth :: int
  unclosed_literal :: bool

definition bracket_delta :: "byte \<Rightarrow> int" where
  "bracket_delta b = (if b \<in> set ''([{'' then 1 else if b \<in> set '')]}'' then -1 else 0)"

function scan_structure_loop :: "bytes \<Rightarrow> nat \<Rightarrow> line_structure \<Rightarrow> line_structure" where
  "scan_structure_loop bs idx st =
     (if idx < length bs then
        case parse_any_literal_span bs idx of
          Some span \<Rightarrow>
            scan_structure_loop bs (span_end span)
              (st\<lparr>unclosed_literal := unclosed_literal st \<or> \<not> span_closed span\<rparr>)
        | None \<Rightarrow> scan_structure_loop bs (idx + 1) (st\<lparr>depth := depth st + bracket_delta (bs ! idx)\<rparr>)
      else st)"
  by pat_completeness auto
termination
  by (relation "measure (\<lambda>(bs, idx, st). length bs - idx)") (auto dest!: parse_any_progress)

definition scan_structure :: "bytes \<Rightarrow> line_structure" where
  "scan_structure input = scan_structure_loop input 0 \<lparr>depth = 0, unclosed_literal = False\<rparr>"

function assignment_operator_from :: "bytes \<Rightarrow> nat \<Rightarrow> bool" where
  "assignment_operator_from bs idx =
     (if idx < length bs then
        case parse_any_literal_span bs idx of
          Some span \<Rightarrow> assignment_operator_from bs (span_end span)
        | None \<Rightarrow>
            if bs ! idx = CHR ''='' then
              let prev = (case checked_sub idx 1 of Some pos \<Rightarrow> slice_get bs pos | None \<Rightarrow> None);
                  follow = slice_get bs (idx + 1)
              in if follow = Some (CHR ''='') \<or> (case prev of Some p \<Rightarrow> p \<in> set ''!<>'' | None \<Rightarrow> False)
                 then assignment_operator_from bs (idx + 1)
                 else True
            else assignment_operator_from bs (idx + 1)
      else False)"
  by pat_completeness auto
termination
  by (relation "measure (\<lambda>(bs, idx). length bs - idx)") (auto dest!: parse_any_progress)

definition contains_assignment_operator :: "bytes \<Rightarrow> bool" where
  "contains_assignment_operator line = assignment_operator_from line 0"

declare scan_structure_loop.simps [simp del]
declare assignment_operator_from.simps [simp del]

section \<open>Trimming keeps text\<close>

lemma strip_prefixes_invariant:
  assumes "\<And>w t. w \<in> set ws \<Longrightarrow> w \<noteq> [] \<Longrightarrow> P (w @ t) \<Longrightarrow> P t"
  shows "P s \<Longrightarrow> P (strip_prefixes ws s)"
proof (induction s rule: length_induct)
  case (1 s)
  show ?case
  proof (cases "find (\<lambda>w. w \<noteq> [] \<and> prefix w s) ws")
    case None
    then show ?thesis using 1(2) by (subst strip_prefixes.simps) simp
  next
    case (Some w)
    then have w: "w \<in> set ws" "w \<noteq> []" "prefix w s" by (auto simp: find_Some_iff)
    then obtain t where t: "s = w @ t" by (auto simp: prefix_def)
    then have "P (strip_prefixes ws t)" using 1(1) [rule_format, of t] assms [OF w(1,2), of t] 1(2) w(2) by simp
    then show ?thesis using Some t by (subst strip_prefixes.simps) simp
  qed
qed

lemma str_ok_cancel: "str_ok w \<Longrightarrow> str_ok (w @ r) \<longleftrightarrow> str_ok r"
  by (induction w rule: str_ok.induct) (auto simp: Let_def str_ok.simps(2))

lemma str_ok_cancel_end: "str_ok w \<Longrightarrow> str_ok (r @ w) \<Longrightarrow> str_ok r"
proof (cases w)
  case (Cons b t)
  assume "str_ok w" "str_ok (r @ w)"
  then have "is_char_boundary (r @ w) (length r)"
    using str_ok_hd [of b t] Cons by (auto simp: is_char_boundary_def)
  then show ?thesis using str_ok_split [of "r @ w" "length r"] \<open>str_ok (r @ w)\<close> by simp
qed simp

lemma str_ok_whitespace: "w \<in> set unicode_whitespace \<Longrightarrow> str_ok w"
  by (auto simp: unicode_whitespace_def is_continuation_def char_width_def byte_val_def Let_def str_ok.simps(2))

lemma str_ok_trim_start: "str_ok s \<Longrightarrow> str_ok (trim_start s)"
  unfolding trim_start_def
  by (rule strip_prefixes_invariant [where P = str_ok]) (simp_all add: str_ok_cancel str_ok_whitespace)

lemma str_ok_trim_end: "str_ok s \<Longrightarrow> str_ok (trim_end s)"
  unfolding trim_end_def
  by (rule strip_prefixes_invariant [where P = "\<lambda>t. str_ok (rev t)"])
    (auto intro: str_ok_cancel_end str_ok_whitespace)

lemma str_ok_trim: "str_ok s \<Longrightarrow> str_ok (str_trim s)"
  by (simp add: str_trim_def str_ok_trim_start str_ok_trim_end)

lemma str_ok_ascii: "list_all is_ascii s \<Longrightarrow> str_ok s"
  by (induction s) auto

lemma str_ok_trim_start_matches: "list_all is_ascii cs \<Longrightarrow> str_ok s \<Longrightarrow> str_ok (trim_start_matches cs s)"
  unfolding trim_start_matches_def by (induction s) (auto simp: list_all_iff)

lemma str_ok_trim_end_matches:
  assumes "list_all is_ascii cs" "str_ok s"
  shows "str_ok (trim_end_matches cs s)"
proof -
  let ?p = "\<lambda>c. c \<in> set cs"
  have "s = trim_end_matches cs s @ rev (takeWhile ?p (rev s))"
    by (metis trim_end_matches_def rev_append rev_rev_ident takeWhile_dropWhile_id)
  moreover have "str_ok (rev (takeWhile ?p (rev s)))"
    using assms(1) by (intro str_ok_ascii) (auto simp: list_all_iff dest: set_takeWhileD)
  ultimately show ?thesis using assms(2) str_ok_cancel_end by metis
qed

lemma str_ok_trim_matches: "list_all is_ascii cs \<Longrightarrow> str_ok s \<Longrightarrow> str_ok (trim_matches cs s)"
  by (simp add: trim_matches_def str_ok_trim_start_matches str_ok_trim_end_matches)

lemma str_ok_cut: "str_ok (a @ c # r) \<Longrightarrow> is_ascii c \<Longrightarrow> str_ok a \<and> str_ok (c # r)"
  using str_ok_split [of "a @ c # r" "length a"] boundary_ascii [of "length a" "a @ c # r"] by simp

lemma split_on_span:
  "split_on cs s = (case dropWhile (\<lambda>c. c \<notin> set cs) s of
     [] \<Rightarrow> [s] | _ # r \<Rightarrow> takeWhile (\<lambda>c. c \<notin> set cs) s # split_on cs r)"
  by (induction s) (auto split: list.splits simp del: dropWhile_eq_Nil_conv)

lemma split_on_ok: "list_all is_ascii cs \<Longrightarrow> str_ok s \<Longrightarrow> seg \<in> set (split_on cs s) \<Longrightarrow> str_ok seg"
proof (induction s rule: length_induct)
  case (1 s)
  let ?p = "\<lambda>c. c \<notin> set cs"
  show ?case
  proof (cases "dropWhile ?p s")
    case Nil
    then show ?thesis using 1(3,4) by (simp add: split_on_span [of cs s] del: dropWhile_eq_Nil_conv)
  next
    case (Cons c r)
    have c: "is_ascii c" using 1(2) hd_dropWhile [of ?p s] Cons by (auto simp: list_all_iff)
    have s: "s = takeWhile ?p s @ c # r" using takeWhile_dropWhile_id [of ?p s] Cons by simp
    have "str_ok (takeWhile ?p s)" "str_ok (c # r)"
      using str_ok_cut [of "takeWhile ?p s" c r] 1(3) c by (simp_all add: s [symmetric])
    moreover have "length r < length s" using s by (metis length_append length_Cons less_add_Suc2 add_Suc_right)
    ultimately show ?thesis using 1 c Cons by (auto simp: split_on_span [of cs s])
  qed
qed

lemma find_SomeD: "find P xs = Some x \<Longrightarrow> x \<in> set xs \<and> P x"
  by (induction xs) (auto split: if_splits)

lemma str_ok_last_segment: "str_ok s \<Longrightarrow> str_ok (last_segment s)"
  using split_on_ok [of "''.:>''" s]
  by (auto simp: last_segment_def is_ascii_def byte_val_def dest!: find_SomeD split: option.splits)

section \<open>Stripping never panics\<close>

lemma raw_literal_end_closed:
  "span_closed (raw_literal_end bs n idx) \<Longrightarrow>
   \<exists>e. idx \<le> e \<and> e < length bs \<and> bs ! e = dquote \<and> span_end (raw_literal_end bs n idx) = e + 1 + n"
proof (induction bs n idx rule: raw_literal_end.induct)
  case (1 bs n idx)
  show ?case
  proof (cases "idx < length bs \<and> \<not> (bs ! idx = dquote \<and> idx + 1 + n \<le> length bs \<and>
      list_all (\<lambda>ch. ch = CHR ''#'') (subslice bs (idx + 1) (idx + 1 + n)))")
    case True
    then have "raw_literal_end bs n idx = raw_literal_end bs n (idx + 1)" by (subst raw_literal_end.simps) auto
    then show ?thesis using 1 True by (metis Suc_eq_plus1 Suc_leD)
  next
    case False
    then show ?thesis using 1(2) by (auto simp: raw_literal_end.simps [of bs n idx] closed_at_def unclosed_def split: if_splits)
  qed
qed

lemma verbatim_literal_end_closed:
  "span_closed (verbatim_literal_end bs idx) \<Longrightarrow>
   \<exists>e. idx \<le> e \<and> e < length bs \<and> bs ! e = dquote \<and> span_end (verbatim_literal_end bs idx) = e + 1"
proof (induction bs idx rule: verbatim_literal_end.induct)
  case (1 bs idx)
  show ?case
    using 1 by (subst (1) verbatim_literal_end.simps, subst (asm) (4) verbatim_literal_end.simps)
      (auto simp: closed_at_def unclosed_def split: if_splits)
qed

lemma quoted_literal_end_closed:
  "span_closed (quoted_literal_end bs quote triple idx) \<Longrightarrow>
   \<exists>e. idx \<le> e \<and> e + (if triple then 3 else 1) \<le> length bs \<and> bs ! e = quote \<and>
       span_end (quoted_literal_end bs quote triple idx) = e + (if triple then 3 else 1)"
proof (induction bs quote triple idx rule: quoted_literal_end.induct)
  case (1 bs quote triple idx)
  let ?n = "if triple then 3 else 1 :: nat" and ?E = "quoted_literal_end bs quote triple"
  have up: "?E idx = ?E i \<Longrightarrow> \<exists>e. i \<le> e \<and> e + ?n \<le> length bs \<and> bs ! e = quote \<and> span_end (?E i) = e + ?n \<Longrightarrow>
      idx \<le> i \<Longrightarrow> ?case" for i
    using le_trans by metis
  show ?case
  proof (cases "idx < length bs")
    case False
    then show ?thesis using 1(4) by (subst (asm) quoted_literal_end.simps) (simp add: unclosed_def)
  next
    case inside: True
    consider (esc) "\<not> triple" "bs ! idx = backslash"
      | (end3) "triple" "idx + 2 < length bs \<and> bs ! idx = quote \<and> bs ! (idx + 1) = quote \<and> bs ! (idx + 2) = quote"
      | (go3) "triple" "\<not> (idx + 2 < length bs \<and> bs ! idx = quote \<and> bs ! (idx + 1) = quote \<and> bs ! (idx + 2) = quote)"
      | (end1) "\<not> triple" "bs ! idx \<noteq> backslash" "bs ! idx = quote"
      | (go1) "\<not> triple" "bs ! idx \<noteq> backslash" "bs ! idx \<noteq> quote"
      by blast
    then show ?thesis
    proof cases
      case esc
      then have "?E idx = ?E (min (idx + 2) (length bs))" using inside by (subst quoted_literal_end.simps) simp
      then show ?thesis using up [of "min (idx + 2) (length bs)"] 1(1) [OF inside] 1(4) esc inside by simp
    next
      case end3
      then have "?E idx = closed_at (idx + 3)" using inside by (subst quoted_literal_end.simps) simp
      then show ?thesis using end3 by (intro exI [of _ idx]) (simp add: closed_at_def)
    next
      case go3
      then have "?E idx = ?E (idx + 1)" using inside by (subst quoted_literal_end.simps) auto
      then show ?thesis using up [of "idx + 1"] 1(2) [OF inside _ go3] 1(4) go3 by simp
    next
      case end1
      then have "?E idx = closed_at (idx + 1)" using inside by (subst quoted_literal_end.simps) simp
      then show ?thesis using end1 inside by (intro exI [of _ idx]) (simp add: closed_at_def)
    next
      case go1
      then have "?E idx = ?E (idx + 1)" using inside by (subst quoted_literal_end.simps) simp
      then show ?thesis using up [of "idx + 1"] 1(3) [OF inside] 1(4) go1 by simp
    qed
  qed
qed

lemma slice_between_ascii:
  assumes "str_ok v" "0 < i" "i \<le> j" "j < length v" "is_ascii (v ! (i - 1))" "is_ascii (v ! j)"
  shows "str_slice v i j = Some (subslice v i j)"
  using assms boundary_after_ascii [of v "i - 1"] boundary_ascii [of j v] by (simp add: str_slice_def)

definition no_panic :: "'a option \<Rightarrow> bool" where
  "no_panic r \<longleftrightarrow> r \<noteq> None"

lemma no_panic_Some [simp]: "no_panic (Some x)"
  by (simp add: no_panic_def)

lemma no_panic_map [simp]: "no_panic (map_option f r) = no_panic r"
  by (simp add: no_panic_def)

lemma no_panic_bind: "no_panic a \<Longrightarrow> (\<And>x. a = Some x \<Longrightarrow> no_panic (f x)) \<Longrightarrow> no_panic (Option.bind a f)"
  by (auto simp: no_panic_def)

lemma no_panic_or_try: "no_panic a \<Longrightarrow> no_panic b \<Longrightarrow> no_panic (or_try a b)"
  by (auto simp: or_try_def no_panic_def split: option.splits)

lemma strip_rust_raw_total:
  assumes "str_ok v"
  shows "no_panic (strip_rust_raw_literal v)"
proof (cases "parse_rust_raw_literal_span v 0")
  case (Some span)
  define i where "i = (if is_byte_at v 0 ''bB'' then 1 else 0 :: nat)"
  define j where "j = skip_while (\<lambda>b. b = CHR ''#'') v (i + 1)"
  have first: "is_byte_at v i ''rR''" "(if is_byte_at v 0 ''bB'' \<and> is_byte_at v 1 ''rR'' then 1 else 0) = i"
    using Some by (auto simp: parse_rust_raw_literal_span_def Let_def i_def is_byte_at_iff split: if_splits)
  then have q: "is_byte_at v j [dquote]" "span = raw_literal_end v (j - (i + 1)) (j + 1)"
    using Some by (auto simp: parse_rust_raw_literal_span_def Let_def j_def split: if_splits)
  show ?thesis
  proof (cases "span_closed span \<and> span_end span = length v")
    case True
    then obtain e where e: "j + 1 \<le> e" "e < length v" "v ! e = dquote" "length v = e + 1 + (j - (i + 1))"
      using raw_literal_end_closed [of v "j - (i + 1)" "j + 1"] q by auto
    then have "str_slice v (j + 1) (length v - 1 - (j - (i + 1))) \<noteq> None"
      using slice_between_ascii [OF assms, of "j + 1" e] q(1) by (simp add: is_byte_at_iff)
    then show ?thesis using Some True
      by (simp add: strip_rust_raw_literal_def Let_def no_panic_def j_def flip: i_def)
  qed (auto simp: strip_rust_raw_literal_def Some)
qed (simp add: strip_rust_raw_literal_def)

lemma prefix_bytes:
  "prefix [a, b] v \<longleftrightarrow> is_byte_at v 0 [a] \<and> is_byte_at v 1 [b]"
  "prefix [a, b, c] v \<longleftrightarrow> is_byte_at v 0 [a] \<and> is_byte_at v 1 [b] \<and> is_byte_at v 2 [c]"
  by (cases v; cases "tl v"; cases "tl (tl v)"; auto simp: is_byte_at_iff)+

lemma strip_csharp_verbatim_total:
  assumes "str_ok v"
  shows "no_panic (strip_csharp_verbatim_literal v)"
proof (cases "parse_csharp_verbatim_literal_span v 0")
  case (Some span)
  then obtain q where q: "verbatim_quote_idx v 0 = Some q" "span = verbatim_literal_end v (q + 1)"
    by (auto simp: parse_csharp_verbatim_literal_span_def split: option.splits)
  show ?thesis
  proof (cases "span_closed span \<and> span_end span = length v")
    case True
    then obtain e where e: "q + 1 \<le> e" "v ! e = dquote" "length v = e + 1"
      using verbatim_literal_end_closed [of v "q + 1"] q by auto
    have "is_ascii (v ! q)" using q(1) by (auto simp: verbatim_quote_idx_def is_byte_at_iff numeral_2_eq_2 split: if_splits)
    then have "str_slice v (q + 1) (length v - 1) \<noteq> None"
      using e slice_between_ascii [OF assms, of "q + 1" e] by simp
    moreover have "(if prefix [CHR ''@'', dquote] v then Some 1
        else if prefix [CHR ''$'', CHR ''@'', dquote] v \<or> prefix [CHR ''@'', CHR ''$'', dquote] v then Some 2
        else None) = Some q"
      using q(1) by (simp only: verbatim_quote_idx_def prefix_bytes add_0)
    ultimately show ?thesis using Some True
      by (simp add: strip_csharp_verbatim_literal_def Let_def no_panic_def)
  qed (auto simp: strip_csharp_verbatim_literal_def Some)
qed (simp add: strip_csharp_verbatim_literal_def)

lemma skip_while_prefix:
  "q = skip_string_prefix n v i \<Longrightarrow> q < length v \<Longrightarrow> \<not> is_string_prefix_byte (v ! q) \<Longrightarrow>
   skip_while is_string_prefix_byte v i = q"
proof (induction n arbitrary: i)
  case 0
  then show ?case by (simp add: skip_while_unfold)
next
  case (Suc n)
  then show ?case by (auto simp: skip_while_unfold [of _ v i] split: if_splits)
qed

lemma quote_not_prefix: "c \<in> set [squote, dquote] \<Longrightarrow> \<not> is_string_prefix_byte c \<and> is_ascii c"
  by (auto simp: is_string_prefix_byte_def)

lemma strip_quote_idx:
  assumes "parse_quoted_literal_span v 0 = Some span"
  defines "q \<equiv> if is_byte_at v 0 ''$'' then 1 else skip_while is_string_prefix_byte v 0"
  shows "q < length v \<and> v ! q \<in> set [squote, dquote] \<and>
    span = quoted_literal_end v (v ! q) (is_triple v q (v ! q)) (q + (if is_triple v q (v ! q) then 3 else 1))"
proof -
  define r where "r = (if is_byte_at v 0 ''$'' then 1
    else if \<not> is_byte_at v 0 [squote, dquote] then skip_string_prefix 3 v 0 else 0)"
  have r: "is_byte_at v r [squote, dquote] \<and>
    span = quoted_literal_end v (v ! r) (is_triple v r (v ! r)) (r + (if is_triple v r (v ! r) then 3 else 1))"
    using assms(1) unfolding parse_quoted_literal_span_def Let_def r_def
    by (cases "is_byte_at v 0 ''$''"; cases "is_byte_at v 0 [squote, dquote]") (simp_all split: if_splits)
  then have stop: "r < length v" "\<not> is_string_prefix_byte (v ! r)"
    using quote_not_prefix [of "v ! r"] by (auto simp only: is_byte_at_iff)
  consider (dollar) "is_byte_at v 0 ''$''" | (quote) "\<not> is_byte_at v 0 ''$''" "is_byte_at v 0 [squote, dquote]"
    | (skip) "\<not> is_byte_at v 0 ''$''" "\<not> is_byte_at v 0 [squote, dquote]" by blast
  then have "q = r"
  proof cases
    case dollar
    then show ?thesis by (simp only: q_def r_def if_True)
  next
    case quote
    then have "r = 0" by (simp only: r_def if_True if_False not_True_eq_False)
    then show ?thesis using quote stop by (simp add: q_def skip_while_unfold)
  next
    case skip
    then have "r = skip_string_prefix 3 v 0" by (simp only: r_def if_True if_False not_False_eq_True)
    then show ?thesis using skip skip_while_prefix [OF _ stop, of 3 0] by (simp only: q_def if_False)
  qed
  then show ?thesis using r by (simp only: is_byte_at_iff)
qed

lemma strip_quoted_total:
  assumes "str_ok v"
  shows "no_panic (strip_quoted_literal v)"
proof (cases "parse_quoted_literal_span v 0")
  case (Some span)
  define q where "q = (if is_byte_at v 0 ''$'' then 1 else skip_while is_string_prefix_byte v 0)"
  define n where "n = (if is_triple v q (v ! q) then 3 else 1 :: nat)"
  have q: "q < length v" "v ! q \<in> set [squote, dquote]"
    "span = quoted_literal_end v (v ! q) (is_triple v q (v ! q)) (q + n)"
    using strip_quote_idx [OF Some] by (simp_all only: q_def n_def)
  show ?thesis
  proof (cases "span_closed span \<and> span_end span = length v")
    case True
    then obtain e where e: "q + n \<le> e" "v ! e = v ! q" "length v = e + n"
      using quoted_literal_end_closed [of v "v ! q" "is_triple v q (v ! q)" "q + n"] q(3) unfolding n_def by auto
    have "v ! (q + n - 1) = v ! q" by (auto simp: n_def is_triple_def numeral_3_eq_3 numeral_2_eq_2)
    then have "str_slice v (q + n) (length v - n) \<noteq> None"
      using e slice_between_ascii [OF assms, of "q + n" e] quote_not_prefix [OF q(2)] by (auto simp: n_def)
    then show ?thesis using Some True q
      by (simp add: strip_quoted_literal_def Let_def no_panic_def slice_get_def flip: q_def)
        (cases "is_triple v q (v ! q)"; simp add: n_def)
  qed (auto simp: strip_quoted_literal_def Some)
qed (simp add: strip_quoted_literal_def)

lemma trim_wrapped_literal_total: "str_ok v \<Longrightarrow> no_panic (trim_wrapped_literal v)"
  unfolding trim_wrapped_literal_def
  by (intro no_panic_or_try strip_rust_raw_total strip_csharp_verbatim_total strip_quoted_total) simp_all

lemma normalize_value_total:
  assumes "str_ok v"
  shows "no_panic (normalize_value v allow_bare)"
proof -
  have "str_ok (trim_end_matches '',;'' (str_trim v))"
    using assms by (intro str_ok_trim_end_matches str_ok_trim) (simp_all add: is_ascii_def byte_val_def)
  then show ?thesis
    unfolding normalize_value_def Let_def
    by (auto intro!: no_panic_bind trim_wrapped_literal_total split: option.splits)
qed

section \<open>Keys\<close>

text \<open>
  \<open>normalize_key\<close> panics on a lone quote.  A key that has no quote or more than one is safe; every key
  the lexer passes is of this kind.
\<close>

definition is_quote :: "byte \<Rightarrow> bool" where
  "is_quote c \<longleftrightarrow> c \<in> set [squote, dquote]"

definition key_ok :: "bytes \<Rightarrow> bool" where
  "key_ok key \<longleftrightarrow> str_ok key \<and> length (filter is_quote key) \<noteq> 1"

lemma filter_quote_strip:
  assumes "\<And>w. w \<in> set ws \<Longrightarrow> filter is_quote w = []"
  shows "filter is_quote (strip_prefixes ws s) = filter is_quote s"
  by (rule strip_prefixes_invariant [where P = "\<lambda>t. filter is_quote t = filter is_quote s"]) (simp_all add: assms)

lemma filter_rev_nil: "filter p w = [] \<Longrightarrow> filter p (rev w) = []"
  by (simp add: rev_filter [symmetric])

lemma whitespace_no_quote: "w \<in> set unicode_whitespace \<Longrightarrow> filter is_quote w = []"
  by (auto simp: unicode_whitespace_def is_quote_def)

lemma filter_quote_trim: "filter is_quote (str_trim s) = filter is_quote s"
proof -
  have "filter is_quote (trim_end t) = filter is_quote t" for t
  proof -
    have "filter is_quote w = []" if "w \<in> set (map rev unicode_whitespace)" for w
      using that filter_rev_nil [OF whitespace_no_quote] by auto
    then have "filter is_quote (strip_prefixes (map rev unicode_whitespace) (rev t)) = filter is_quote (rev t)"
      by (rule filter_quote_strip)
    then show ?thesis by (simp add: trim_end_def flip: rev_filter)
  qed
  then show ?thesis using filter_quote_strip [OF whitespace_no_quote] by (simp add: str_trim_def trim_start_def)
qed

lemma filter_dropWhile: "(\<And>c. p c \<Longrightarrow> \<not> q c) \<Longrightarrow> filter q (dropWhile p s) = filter q s"
  by (induction s) auto

lemma filter_quote_trim_matches:
  assumes "filter is_quote cs = []"
  shows "filter is_quote (trim_start_matches cs s) = filter is_quote s"
    "filter is_quote (trim_end_matches cs s) = filter is_quote s"
    "filter is_quote (trim_matches cs s) = filter is_quote s"
proof -
  have p: "c \<in> set cs \<Longrightarrow> \<not> is_quote c" for c using assms by (auto simp: filter_empty_conv)
  show start: "filter is_quote (trim_start_matches cs s) = filter is_quote s" for s
    unfolding trim_start_matches_def using p by (rule filter_dropWhile)
  show stop: "filter is_quote (trim_end_matches cs s) = filter is_quote s" for s
    unfolding trim_end_matches_def rev_filter [symmetric]
    using filter_dropWhile [of "\<lambda>c. c \<in> set cs" is_quote "rev s"] p by (simp add: rev_filter)
  show "filter is_quote (trim_matches cs s) = filter is_quote s"
    unfolding trim_matches_def by (simp only: start stop)
qed

lemma normalize_key_total:
  assumes "key_ok key"
  shows "no_panic (normalize_key key keep)"
proof -
  define k where "k = trim_start_matches ''@'' (trim_start_matches ''$'' (str_trim key))"
  have ok: "str_ok k" using assms
    by (auto simp: k_def key_ok_def is_ascii_def byte_val_def intro!: str_ok_trim_start_matches str_ok_trim)
  have "filter is_quote k = filter is_quote key"
    unfolding k_def by (simp add: filter_quote_trim_matches filter_quote_trim is_quote_def)
  then have many: "length (filter is_quote k) \<noteq> 1" using assms by (simp add: key_ok_def)
  have "no_panic (str_slice k 1 (length k - 1))" if q: "starts_with c k" "ends_with c k" "is_quote c" for c
  proof -
    obtain r where k: "k = c # r" using q(1) by (cases k) (auto simp: starts_with_def)
    have "r \<noteq> []" using many k q(3) by auto
    then have "str_slice k 1 (length k - 1) \<noteq> None"
      using slice_between_ascii [OF ok, of 1 "length k - 1"] q k quote_not_prefix [of c]
      by (auto simp: ends_with_def is_quote_def last_conv_nth Suc_le_eq)
    then show ?thesis by (simp add: no_panic_def)
  qed
  then have "no_panic (if starts_with dquote k \<and> ends_with dquote k \<or> starts_with squote k \<and> ends_with squote k
      then str_slice k 1 (length k - 1) else Some k)" by (auto simp: is_quote_def)
  then show ?thesis unfolding normalize_key_def Let_def k_def [symmetric] by (rule no_panic_bind) simp
qed

fun quote_state :: "bool \<times> bool \<Rightarrow> bytes \<Rightarrow> bool \<times> bool" where
  "quote_state st [] = st"
| "quote_state (in_single, in_double) (ch # s) =
     quote_state (if ch = squote \<and> \<not> in_double then (\<not> in_single, in_double)
       else if ch = dquote \<and> \<not> in_single then (in_single, \<not> in_double) else (in_single, in_double)) s"

lemma quote_state_filter: "quote_state st s = quote_state st (filter is_quote s)"
  by (induction st s rule: quote_state.induct) (auto simp: is_quote_def)

lemma quote_state_closed: "quote_state (False, False) s = (False, False) \<Longrightarrow> length (filter is_quote s) \<noteq> 1"
proof
  assume closed: "quote_state (False, False) s = (False, False)" and "length (filter is_quote s) = 1"
  then obtain c where c: "filter is_quote s = [c]" by (auto simp: length_Suc_conv)
  then have "is_quote c" using filter_set [of is_quote s] by auto
  then show False using closed c quote_state_filter [of "(False, False)" s] by (auto simp: is_quote_def)
qed

lemma split_unquoted_state:
  "split_unquoted needle a b s = Some (k, v) \<Longrightarrow> \<not> is_quote needle \<Longrightarrow>
   s = k @ needle # v \<and> quote_state (a, b) k = (False, False)"
proof (induction needle a b s arbitrary: k v rule: split_unquoted.induct)
  case (2 needle a b ch s)
  then show ?case by (auto simp: Let_def is_quote_def split: if_splits)
qed simp

lemma split_unquoted_key_ok:
  assumes "split_unquoted needle False False s = Some (k, v)" "\<not> is_quote needle" "is_ascii needle" "str_ok s"
  shows "key_ok k \<and> str_ok v"
proof -
  have s: "s = k @ needle # v" "quote_state (False, False) k = (False, False)"
    using split_unquoted_state [OF assms(1,2)] by simp_all
  then show ?thesis using str_ok_cut [of k needle v] assms(3,4) quote_state_closed [of k] by (simp add: key_ok_def)
qed

lemma quote_not_key:
  "is_quote c \<Longrightarrow> \<not> is_ascii_alphanumeric (to_ascii_lowercase c) \<and> to_ascii_lowercase c \<notin> set ''_-.''"
  by (auto simp: is_quote_def to_ascii_lowercase_def ascii_class_defs byte_val_def)

lemma embedded_key_ok: "looks_like_embedded_key v \<Longrightarrow> str_ok v \<Longrightarrow> key_ok v"
proof -
  assume v: "looks_like_embedded_key v" "str_ok v"
  let ?t = "trim_end_matches ''='' (str_trim v)"
  have "filter is_quote ?t = []"
    using v(1) quote_not_key unfolding looks_like_embedded_key_def Let_def
    by (force simp: list_all_iff filter_empty_conv)
  then have "filter is_quote v = []" by (simp add: filter_quote_trim_matches filter_quote_trim is_quote_def)
  then show ?thesis using v(2) by (simp add: key_ok_def)
qed

lemma set_strip_prefixes: "set (strip_prefixes ws s) \<subseteq> set s"
  by (rule strip_prefixes_invariant [where P = "\<lambda>t. set t \<subseteq> set s"]) auto

lemma set_split_on: "\<forall>seg \<in> set (split_on cs s). set seg \<subseteq> set s"
  by (induction s) (auto split: if_splits list.splits)

lemma last_segment_set: "set (last_segment s) \<subseteq> set s"
  using set_split_on [of "''.:>''" s] by (auto simp: last_segment_def dest!: find_SomeD split: option.splits)

lemma call_name_ok:
  assumes "str_ok call" "filter is_quote call = []"
  shows "key_ok (normalize_call_name call)"
proof -
  let ?c = "str_trim (strip_prefixes [''new ''] (str_trim call))"
  have "str_ok (strip_prefixes [''new ''] (str_trim call))"
    using str_ok_trim [OF assms(1)]
    by (rule strip_prefixes_invariant [where P = str_ok, rotated]) (auto simp: is_ascii_def byte_val_def)
  then have "str_ok (normalize_call_name call)"
    unfolding normalize_call_name_def Let_def
    by (intro str_ok_trim_matches str_ok_last_segment str_ok_trim) (simp_all add: is_ascii_def byte_val_def)
  moreover have "filter is_quote ?c = []"
    using filter_quote_strip [of "[''new '']" "str_trim call"] assms(2) by (simp add: filter_quote_trim is_quote_def)
  then have "filter is_quote (last_segment ?c) = []" using last_segment_set [of ?c] by (auto simp: filter_empty_conv)
  then have "filter is_quote (normalize_call_name call) = []"
    unfolding normalize_call_name_def Let_def by (simp add: filter_quote_trim_matches is_quote_def)
  ultimately show ?thesis by (simp add: key_ok_def)
qed

section \<open>Stripping undoes quoting\<close>

lemma strip_prefixes_none:
  "(\<And>w. w \<in> set ws \<Longrightarrow> w \<noteq> [] \<Longrightarrow> \<not> prefix w s) \<Longrightarrow> strip_prefixes ws s = s"
  by (subst strip_prefixes.simps) (auto simp: find_None_iff split: option.splits dest!: find_SomeD)

definition bounded_by :: "byte list \<Rightarrow> bytes \<Rightarrow> bool" where
  "bounded_by cs s \<longleftrightarrow> s \<noteq> [] \<and> hd s \<in> set cs \<and> last s \<in> set cs"

abbreviation literal_edges :: "byte list" where
  "literal_edges \<equiv> [dquote, squote, backtick, CHR ''@'', CHR ''r'', CHR ''#'']"

lemma str_trim_literal:
  assumes "bounded_by literal_edges s"
  shows "str_trim s = s"
proof -
  have ws: "hd w \<notin> set literal_edges \<and> last w \<notin> set literal_edges \<and> w \<noteq> []" if "w \<in> set unicode_whitespace" for w
    using that by (auto simp: unicode_whitespace_def)
  have "\<not> prefix w s" if "w \<in> set unicode_whitespace" for w
    using ws [OF that] assms by (cases w; cases s) (auto simp: bounded_by_def)
  then have "trim_start s = s" by (auto simp: trim_start_def intro: strip_prefixes_none)
  moreover have "\<not> prefix (rev w) (rev s)" if "w \<in> set unicode_whitespace" for w
    using ws [OF that] assms by (cases w rule: rev_cases; cases s rule: rev_cases) (auto simp: bounded_by_def)
  then have "trim_end s = s" by (simp add: trim_end_def) (subst strip_prefixes_none; auto)
  ultimately show ?thesis by (simp add: str_trim_def)
qed

lemma normalize_literal:
  assumes "bounded_by literal_edges s" "trim_wrapped_literal s = Some (Some v)"
  shows "normalize_value s allow_bare = Some v"
proof -
  have "trim_end_matches '',;'' s = s"
    using assms(1) by (cases s rule: rev_cases) (auto simp: trim_end_matches_def bounded_by_def)
  then show ?thesis using assms str_trim_literal [OF assms(1)]
    by (auto simp: normalize_value_def Let_def bounded_by_def)
qed

definition raw_lit :: "nat \<Rightarrow> bytes \<Rightarrow> bytes" where
  "raw_lit n v = CHR ''r'' # replicate n (CHR ''#'') @ dquote # v @ dquote # replicate n (CHR ''#'')"

fun double_quotes :: "bytes \<Rightarrow> bytes" where
  "double_quotes [] = []"
| "double_quotes (c # s) = (if c = dquote then [dquote, dquote] else [c]) @ double_quotes s"

definition verbatim_lit :: "bytes \<Rightarrow> bytes" where
  "verbatim_lit v = CHR ''@'' # dquote # double_quotes v @ [dquote]"

lemma undouble_double: "undouble_quotes (double_quotes v) = v"
proof (induction v)
  case (Cons c v)
  then show ?case by (cases "double_quotes v") auto
qed simp

lemma list_all_memberD: "list_all P xs \<Longrightarrow> x \<in> set xs \<Longrightarrow> P x"
  by (auto simp: list_all_iff)

lemma double_quotes_append: "double_quotes (a @ b) = double_quotes a @ double_quotes b"
  by (induction a) auto

lemma double_quotes_id: "dquote \<notin> set a \<Longrightarrow> double_quotes a = a"
  by (induction a) auto

lemma str_ok_double: "str_ok v \<Longrightarrow> str_ok (double_quotes v)"
proof (induction v rule: str_ok.induct)
  case (2 b s)
  let ?k = "char_width b - 1"
  have b: "0 < char_width b" "?k \<le> length s" "list_all is_continuation (take ?k s)" "str_ok (drop ?k s)"
    using 2(2) by (auto simp: str_ok.simps(2) Let_def)
  show ?case
  proof (cases "b = dquote")
    case True
    then show ?thesis using 2(1) [OF refl b(4)] by simp
  next
    case False
    have "dquote \<notin> set (take ?k s)"
    proof
      assume "dquote \<in> set (take ?k s)"
      then have "is_continuation dquote" using b(3) by (rule list_all_memberD [rotated])
      then show False using ascii_not_continuation [of dquote] by simp
    qed
    then have "double_quotes s = take ?k s @ double_quotes (drop ?k s)"
      using double_quotes_append [of "take ?k s" "drop ?k s"] by (simp add: double_quotes_id)
    then show ?thesis using 2(1) [OF refl b(4)] b False by (simp add: str_ok.simps(2) Let_def)
  qed
qed simp

lemma raw_literal_end_content:
  assumes "\<not> contains_slice (dquote # replicate n (CHR ''#'')) v"
  shows "raw_literal_end (pre @ v @ dquote # replicate n (CHR ''#'')) n (length pre) =
    closed_at (length pre + length v + 1 + n)"
  using assms
proof (induction v arbitrary: pre)
  case Nil
  then show ?case
    by (subst raw_literal_end.simps) (simp add: subslice_def list_all_iff)
next
  case (Cons c v)
  let ?bs = "pre @ (c # v) @ dquote # replicate n (CHR ''#'')"
  have "\<not> (c = dquote \<and> list_all (\<lambda>ch. ch = CHR ''#'') (take n (v @ dquote # replicate n (CHR ''#''))))"
  proof
    assume hash: "c = dquote \<and> list_all (\<lambda>ch. ch = CHR ''#'') (take n (v @ dquote # replicate n (CHR ''#'')))"
    have len: "n \<le> length v"
    proof (rule ccontr)
      assume "\<not> n \<le> length v"
      then have "dquote \<in> set (take n (v @ dquote # replicate n (CHR ''#'')))" by (auto simp: take_Cons')
      then show False using hash by (auto simp: list_all_iff)
    qed
    then have "take n v = replicate n (CHR ''#'')"
      using hash by (simp add: replicate_eqI list_all_iff)
    then have "prefix (dquote # replicate n (CHR ''#'')) (c # v)"
      using hash by (simp) (metis append_take_drop_id prefixI)
    then show False using Cons(2) by simp
  qed
  then have "raw_literal_end ?bs n (length pre) = raw_literal_end ?bs n (length pre + 1)"
    by (subst raw_literal_end.simps) (auto simp: subslice_def)
  then show ?case using Cons(1) [of "pre @ [c]"] Cons(2) by simp
qed

lemma verbatim_literal_end_content:
  "verbatim_literal_end (pre @ double_quotes v @ [dquote]) (length pre) =
   closed_at (length pre + length (double_quotes v) + 1)"
proof (induction v arbitrary: pre)
  case Nil
  then show ?case by (subst verbatim_literal_end.simps) (simp add: is_byte_at_iff)
next
  case (Cons c v)
  show ?case
    using Cons [of "pre @ [dquote, dquote]"] Cons [of "pre @ [c]"]
    by (subst verbatim_literal_end.simps) (auto simp: is_byte_at_iff nth_append)
qed

lemma subslice_middle: "subslice (a @ m @ z) (length a) (length a + length m) = m"
  by (simp add: subslice_def)

lemma trim_quoted:
  assumes "plain v"
  shows "trim_wrapped_literal (quote_lit v) = Some (Some v)"
proof -
  have end_q: "quoted_literal_end (quote_lit v) dquote False 1 = closed_at (length v + 2)"
    using quoted_literal_end_plain [of v "[dquote]" "[]"] assms by (simp add: plain_def quote_lit_def)
  have single: "\<not> is_triple (quote_lit v) 0 dquote"
    using assms by (cases v) (auto simp: is_triple_def quote_lit_def plain_def)
  have parse: "parse_quoted_literal_span (quote_lit v) 0 = Some (closed_at (length v + 2))"
    using end_q single by (simp add: parse_quoted_literal_span_def is_byte_at_iff Let_def quote_lit_def)
  have "str_ok (quote_lit v)" using assms by (simp add: quote_lit_def plain_def str_ok_append)
  then have slice: "str_slice (quote_lit v) 1 (Suc (length v)) = Some v"
    using slice_between_ascii [of "quote_lit v" 1 "Suc (length v)"] subslice_middle [of "[dquote]" v "[dquote]"]
    by (simp add: quote_lit_def)
  have skip: "skip_while is_string_prefix_byte (quote_lit v) 0 = 0"
    by (simp add: quote_lit_def skip_while_unfold is_string_prefix_byte_def)
  have "strip_quoted_literal (quote_lit v) = Some (Some v)"
    using parse single slice skip
    by (simp add: strip_quoted_literal_def closed_at_def Let_def slice_get_def is_byte_at_iff) (simp add: quote_lit_def)
  moreover have "strip_rust_raw_literal (quote_lit v) = Some None" "strip_csharp_verbatim_literal (quote_lit v) = Some None"
    by (simp_all add: strip_rust_raw_literal_def strip_csharp_verbatim_literal_def parse_rust_raw_literal_span_def
        parse_csharp_verbatim_literal_span_def verbatim_quote_idx_def is_byte_at_iff quote_lit_def Let_def)
  ultimately show ?thesis by (simp add: trim_wrapped_literal_def or_try_def)
qed

lemma trim_verbatim:
  assumes "str_ok v"
  shows "trim_wrapped_literal (verbatim_lit v) = Some (Some v)"
proof -
  let ?s = "verbatim_lit v"
  have "verbatim_literal_end ?s 2 = closed_at (length ?s)"
    using verbatim_literal_end_content [of "[CHR ''@'', dquote]" v] by (simp add: verbatim_lit_def numeral_2_eq_2)
  then have parse: "parse_csharp_verbatim_literal_span ?s 0 = Some (closed_at (length ?s))"
    by (simp add: parse_csharp_verbatim_literal_span_def verbatim_quote_idx_def is_byte_at_iff verbatim_lit_def numeral_2_eq_2)
  have ok: "str_ok ?s"
    using str_ok_double [OF assms] by (auto simp: verbatim_lit_def is_ascii_def byte_val_def intro!: str_ok_append)
  have slice: "str_slice ?s 2 (length ?s - 1) = Some (double_quotes v)"
    using slice_between_ascii [OF ok, of 2 "length ?s - 1"] subslice_middle [of "[CHR ''@'', dquote]" "double_quotes v" "[dquote]"]
    by (simp add: verbatim_lit_def numeral_2_eq_2)
  have "strip_csharp_verbatim_literal ?s = Some (Some v)"
    using parse slice by (simp add: strip_csharp_verbatim_literal_def closed_at_def prefix_bytes is_byte_at_iff undouble_double)
      (simp add: verbatim_lit_def numeral_2_eq_2 undouble_double)
  moreover have "strip_rust_raw_literal ?s = Some None"
    by (simp add: strip_rust_raw_literal_def parse_rust_raw_literal_span_def is_byte_at_iff verbatim_lit_def Let_def)
  ultimately show ?thesis by (simp add: trim_wrapped_literal_def or_try_def)
qed

lemma trim_backtick: "trim_wrapped_literal (backtick # v @ [backtick]) = Some (Some v)"
proof -
  let ?s = "backtick # v @ [backtick]"
  have "strip_rust_raw_literal ?s = Some None" "strip_csharp_verbatim_literal ?s = Some None"
    "strip_quoted_literal ?s = Some None" "strip_backtick_literal ?s = Some v"
    by (simp_all add: strip_rust_raw_literal_def strip_csharp_verbatim_literal_def strip_quoted_literal_def
        parse_rust_raw_literal_span_def parse_csharp_verbatim_literal_span_def verbatim_quote_idx_def is_byte_at_iff
        parse_quoted_literal_span_def is_string_prefix_byte_def numeral_3_eq_3 Let_def
        strip_backtick_literal_def str_strip_prefix_def ends_with_def)
  then show ?thesis by (simp add: trim_wrapped_literal_def or_try_def)
qed

lemma skip_hashes: "skip_while (\<lambda>b. b = CHR ''#'') (CHR ''r'' # replicate n (CHR ''#'') @ dquote # r) (Suc 0) = Suc n"
proof -
  have "takeWhile (\<lambda>b. b = CHR ''#'') (replicate n (CHR ''#'') @ dquote # r) = replicate n (CHR ''#'')"
    by (simp add: takeWhile_append)
  then show ?thesis by (simp add: skip_while_def)
qed

lemma trim_raw:
  assumes "str_ok v" "\<not> contains_slice (dquote # replicate n (CHR ''#'')) v"
  shows "trim_wrapped_literal (raw_lit n v) = Some (Some v)"
proof -
  let ?s = "raw_lit n v" and ?pre = "CHR ''r'' # replicate n (CHR ''#'') @ [dquote]"
  have s: "?s = ?pre @ v @ dquote # replicate n (CHR ''#'')" by (simp add: raw_lit_def)
  have skip: "skip_while (\<lambda>b. b = CHR ''#'') ?s (Suc 0) = Suc n"
    unfolding raw_lit_def by (rule skip_hashes)
  have quote: "?s ! Suc n = dquote" "Suc n < length ?s" by (simp_all add: raw_lit_def nth_append)
  have "raw_literal_end ?s n (n + 2) = closed_at (length ?s)"
    using raw_literal_end_content [OF assms(2), of ?pre] by (simp add: s add.assoc)
  then have parse: "parse_rust_raw_literal_span ?s 0 = Some (closed_at (length ?s))"
    using skip quote by (simp add: parse_rust_raw_literal_span_def is_byte_at_iff Let_def) (simp add: raw_lit_def)
  have ok: "str_ok ?s" using assms(1) unfolding s
    by (intro str_ok_append) (auto intro!: str_ok_ascii simp: list_all_iff is_ascii_def byte_val_def)
  have slice: "str_slice ?s (n + 2) (length ?s - 1 - n) = Some v"
    using slice_between_ascii [OF ok, of "n + 2" "n + 2 + length v"] quote subslice_middle [of ?pre v "dquote # replicate n (CHR ''#'')"]
    by (simp add: s nth_append add.commute)
  have "strip_rust_raw_literal ?s = Some (Some v)"
    using parse skip slice by (simp add: strip_rust_raw_literal_def closed_at_def is_byte_at_iff Let_def) (simp add: raw_lit_def)
  then show ?thesis by (simp add: trim_wrapped_literal_def or_try_def)
qed

text \<open>
  C25. A value is unquoted exactly: whatever text a literal holds, the normalised value of the literal
  is that text, for a plain double-quoted literal, a Rust raw literal with any number of hashes (as
  long as the text does not hold its terminator), a C\# verbatim literal with its quotes doubled and
  a backtick literal.
\<close>

theorem normalize_value_unquotes:
  assumes "str_ok v"
  shows "normalize_value (verbatim_lit v) allow_bare = Some v \<and>
    normalize_value (backtick # v @ [backtick]) allow_bare = Some v \<and>
    (\<not> contains_slice (dquote # replicate n (CHR ''#'')) v \<longrightarrow> normalize_value (raw_lit n v) allow_bare = Some v) \<and>
    (dquote \<notin> set v \<and> backslash \<notin> set v \<longrightarrow> normalize_value (quote_lit v) allow_bare = Some v)"
proof (intro conjI impI)
  show "normalize_value (verbatim_lit v) allow_bare = Some v"
    by (rule normalize_literal [OF _ trim_verbatim [OF assms]]) (simp add: bounded_by_def verbatim_lit_def)
  show "normalize_value (backtick # v @ [backtick]) allow_bare = Some v"
    by (rule normalize_literal [OF _ trim_backtick]) (simp add: bounded_by_def)
  show "normalize_value (raw_lit n v) allow_bare = Some v" if "\<not> contains_slice (dquote # replicate n (CHR ''#'')) v"
    by (rule normalize_literal [OF _ trim_raw [OF assms that]]) (simp add: bounded_by_def raw_lit_def last_replicate)
  show "normalize_value (quote_lit v) allow_bare = Some v" if "dquote \<notin> set v \<and> backslash \<notin> set v"
    using that assms
    by (intro normalize_literal [OF _ trim_quoted]) (simp_all add: bounded_by_def quote_lit_def plain_def)
qed

theorem normalize_value_unquotes_witness:
  "normalize_value (raw_lit 1 ''sk\"live'') False = Some ''sk\"live'' \<and>
   normalize_value (verbatim_lit ''sk\"live'') False = Some ''sk\"live''"
  using normalize_value_unquotes [of "''sk\"live''" False 1]
  by (simp add: is_ascii_def byte_val_def)

end
