(* ===== verification/Comment_Strip.thy ===== *)
theory Comment_Strip
  imports Literal_Normalize Text_Encoding "HOL-Library.Sublist"
begin

text \<open>
  Removal of comments: \<open>CommentStyle\<close> and \<open>strip_comments\<close> of
  \<open>crates/kingfisher-scanner/src/context/parser/lexer.rs\<close>.

  The loop is a machine over a string state and a block-comment flag; one step reads at the current
  position, writes bytes, moves on and changes the state.  The theory shows that lines keep their
  numbers, and that on text made of code, string literals and comments exactly the comments go.
\<close>

section \<open>Comment styles\<close>

record comment_style =
  line_comment_hash :: bool
  line_comment_slash :: bool
  block_comments :: bool
  backticks :: bool
  verbatim_strings :: bool
  triple_quotes :: bool

definition c_style :: comment_style where
  "c_style = \<lparr>line_comment_hash = False, line_comment_slash = True, block_comments = True,
     backticks = False, verbatim_strings = False, triple_quotes = False\<rparr>"

definition shell :: comment_style where
  "shell = \<lparr>line_comment_hash = True, line_comment_slash = False, block_comments = False,
     backticks = False, verbatim_strings = False, triple_quotes = False\<rparr>"

definition hash_only :: comment_style where
  "hash_only = \<lparr>line_comment_hash = True, line_comment_slash = False, block_comments = False,
     backticks = False, verbatim_strings = False, triple_quotes = False\<rparr>"

definition php :: comment_style where
  "php = \<lparr>line_comment_hash = True, line_comment_slash = True, block_comments = True,
     backticks = False, verbatim_strings = False, triple_quotes = False\<rparr>"

definition python :: comment_style where
  "python = \<lparr>line_comment_hash = True, line_comment_slash = False, block_comments = False,
     backticks = False, verbatim_strings = False, triple_quotes = True\<rparr>"

definition with_backticks :: "comment_style \<Rightarrow> comment_style" where
  "with_backticks style = style\<lparr>backticks := True\<rparr>"

definition with_verbatim_strings :: "comment_style \<Rightarrow> comment_style" where
  "with_verbatim_strings style = style\<lparr>verbatim_strings := True\<rparr>"

section \<open>The machine\<close>

datatype string_state = Single | Double | Backtick | Verbatim | TripleSingle | TripleDouble

type_synonym strip_state = "string_state option \<times> bool"

text \<open>A step: the bytes written, the bytes read and the next state.\<close>

type_synonym strip_effect = "bytes \<times> nat \<times> strip_state"

definition escaped_step :: "string_state \<Rightarrow> byte \<Rightarrow> bytes \<Rightarrow> strip_effect" where
  "escaped_step st quote bs =
     (if bs ! 0 = backslash \<and> 1 < length bs then ([bs ! 0, bs ! 1], 2, (Some st, False))
      else if bs ! 0 = quote then ([bs ! 0], 1, (None, False))
      else ([bs ! 0], 1, (Some st, False)))"

definition triple_step :: "string_state \<Rightarrow> byte \<Rightarrow> bytes \<Rightarrow> strip_effect" where
  "triple_step st quote bs =
     (if prefix [quote, quote, quote] bs then ([bs ! 0, quote, quote], 3, (None, False))
      else ([bs ! 0], 1, (Some st, False)))"

fun string_step :: "string_state \<Rightarrow> bytes \<Rightarrow> strip_effect" where
  "string_step Single bs = escaped_step Single squote bs"
| "string_step Double bs = escaped_step Double dquote bs"
| "string_step Backtick bs =
     (if bs ! 0 = backtick then ([bs ! 0], 1, (None, False)) else ([bs ! 0], 1, (Some Backtick, False)))"
| "string_step Verbatim bs =
     (if bs ! 0 = dquote then
        if prefix [dquote, dquote] bs then ([bs ! 0, dquote], 2, (Some Verbatim, False))
        else ([bs ! 0], 1, (None, False))
      else ([bs ! 0], 1, (Some Verbatim, False)))"
| "string_step TripleSingle bs = triple_step TripleSingle squote bs"
| "string_step TripleDouble bs = triple_step TripleDouble dquote bs"

definition code_step :: "comment_style \<Rightarrow> bytes \<Rightarrow> strip_effect" where
  "code_step style bs =
     (if block_comments style \<and> prefix ''/*'' bs then ([], 2, (None, True))
      else if line_comment_slash style \<and> prefix ''//'' bs then
        ([], length (takeWhile (\<lambda>b. b \<noteq> newline) bs), (None, False))
      else if line_comment_hash style \<and> bs ! 0 = CHR ''#'' then
        ([], length (takeWhile (\<lambda>b. b \<noteq> newline) bs), (None, False))
      else if verbatim_strings style \<and> prefix [CHR ''@'', dquote] bs then
        ([CHR ''@'', dquote], 2, (Some Verbatim, False))
      else if verbatim_strings style \<and> prefix [CHR ''@'', CHR ''$'', dquote] bs then
        ([CHR ''@'', CHR ''$'', dquote], 3, (Some Verbatim, False))
      else if triple_quotes style \<and> prefix [squote, squote, squote] bs then
        ([squote, squote, squote], 3, (Some TripleSingle, False))
      else if triple_quotes style \<and> prefix [dquote, dquote, dquote] bs then
        ([dquote, dquote, dquote], 3, (Some TripleDouble, False))
      else if bs ! 0 = squote then ([squote], 1, (Some Single, False))
      else if bs ! 0 = dquote then ([dquote], 1, (Some Double, False))
      else if bs ! 0 = backtick \<and> backticks style then ([backtick], 1, (Some Backtick, False))
      else ([bs ! 0], 1, (None, False)))"

fun strip_step :: "comment_style \<Rightarrow> strip_state \<Rightarrow> bytes \<Rightarrow> strip_effect" where
  "strip_step style (st, True) bs =
     (if prefix ''*/'' bs then ([], 2, (st, False))
      else (if bs ! 0 = newline then [newline] else [], 1, (st, True)))"
| "strip_step style (Some st, False) bs = string_step st bs"
| "strip_step style (None, False) bs = code_step style bs"

text \<open>A step copies what it reads, or drops it and then it holds no newline.\<close>

definition copies :: "bytes \<Rightarrow> strip_effect \<Rightarrow> bool" where
  "copies bs e \<longleftrightarrow> (case e of (out, n, st) \<Rightarrow>
     0 < n \<and> n \<le> length bs \<and> (out = take n bs \<or> out = [] \<and> newline \<notin> set (take n bs)))"

lemma take_prefix: "prefix p bs \<Longrightarrow> take (length p) bs = p \<and> length p \<le> length bs"
  by (auto simp: prefix_def)

lemma copies_prefix: "prefix p bs \<Longrightarrow> p \<noteq> [] \<Longrightarrow> n = length p \<Longrightarrow> copies bs (p, n, st)"
  using take_prefix [of p bs] by (simp add: copies_def)

lemma drops_prefix: "prefix p bs \<Longrightarrow> p \<noteq> [] \<Longrightarrow> n = length p \<Longrightarrow> newline \<notin> set p \<Longrightarrow> copies bs ([], n, st)"
  using take_prefix [of p bs] by (simp add: copies_def)

lemma copies_one: "bs \<noteq> [] \<Longrightarrow> bs ! 0 = c \<Longrightarrow> copies bs ([c], Suc 0, st)"
  by (cases bs) (auto simp: copies_def)

lemma drops_line: "bs \<noteq> [] \<Longrightarrow> bs ! 0 \<noteq> newline \<Longrightarrow> copies bs ([], length (takeWhile (\<lambda>b. b \<noteq> newline) bs), st)"
  by (cases bs) (auto simp: copies_def length_takeWhile_le takeWhile_eq_take [symmetric] dest: set_takeWhileD)

lemma copies_if: "(P \<Longrightarrow> copies bs a) \<Longrightarrow> (\<not> P \<Longrightarrow> copies bs b) \<Longrightarrow> copies bs (if P then a else b)"
  by simp

lemma copies_string:
  assumes "bs \<noteq> []"
  shows "copies bs (string_step st bs)"
proof -
  have one: "copies bs ([bs ! 0], Suc 0, st)" for st using copies_one [OF assms refl] .
  have two: "1 < length bs \<Longrightarrow> copies bs ([bs ! 0, bs ! Suc 0], 2, st)" for st
    by (cases bs; cases "tl bs") (auto simp: copies_def)
  have quotes: "prefix [q, q, q] bs \<Longrightarrow> copies bs ([bs ! 0, q, q], 3, st)"
    "prefix [q, q] bs \<Longrightarrow> copies bs ([bs ! 0, q], 2, st)" for q st
    by (auto simp: prefix_def copies_def)
  show ?thesis using one two quotes 
    by (cases st; simp only: string_step.simps escaped_step_def triple_step_def One_nat_def)
      (intro copies_if; (rule one | rule two, simp | rule quotes, simp))+
qed

lemma prefix_first: "prefix (c # p) bs \<Longrightarrow> bs ! 0 = c"
  by (auto simp: prefix_def)

lemma copies_code: "bs \<noteq> [] \<Longrightarrow> copies bs (code_step style bs)"
  unfolding code_step_def
  apply (intro copies_if)
  subgoal by (rule drops_prefix [of "''/*''"]) (simp_all add: newline_def)
  subgoal by (rule drops_line) (auto simp: newline_def dest: prefix_first)
  subgoal by (rule drops_line) (simp_all add: newline_def)
  subgoal by (rule copies_prefix) simp_all
  subgoal by (rule copies_prefix) simp_all
  subgoal by (rule copies_prefix) simp_all
  subgoal by (rule copies_prefix) simp_all
  subgoal by (simp add: copies_one)
  subgoal by (simp add: copies_one)
  subgoal by (simp add: copies_one)
  subgoal by (simp add: copies_one)
  done

lemma copies_step:
  assumes "bs \<noteq> []"
  shows "copies bs (strip_step style st bs)"
proof (cases st)
  case (Pair string block)
  have "copies bs (strip_step style (string, True) bs)"
  proof (cases "prefix ''*/'' bs")
    case True
    then show ?thesis using drops_prefix [of "''*/''" bs 2] by (simp add: newline_def)
  next
    case False
    then show ?thesis using assms by (cases bs) (auto simp: copies_def)
  qed
  then show ?thesis using assms Pair by (cases block; cases string) (simp_all add: copies_string copies_code)
qed

lemma strip_step_moves: "bs \<noteq> [] \<Longrightarrow> strip_step style st bs = (out, n, st') \<Longrightarrow> 0 < n"
  using copies_step [of bs style st] by (simp add: copies_def)

function strip_loop :: "comment_style \<Rightarrow> strip_state \<Rightarrow> bytes \<Rightarrow> bytes" where
  "strip_loop style st bs =
     (if bs = [] then []
      else case strip_step style st bs of (out, n, st') \<Rightarrow> out @ strip_loop style st' (drop n bs))"
  by pat_completeness auto
termination
proof (relation "measure (\<lambda>(style, st, bs). length bs)", goal_cases)
  case (2 style st bs out rest n st')
  then show ?case using strip_step_moves [of bs style st out n st'] by simp
qed simp

declare strip_loop.simps [simp del]

text \<open>\<open>out.push(byte as char)\<close> writes the UTF-8 encoding of the code point with that number.\<close>

definition push_char :: "byte \<Rightarrow> bytes" where
  "push_char b = encode_utf8 (byte_val b)"

definition strip_bytes :: "bytes \<Rightarrow> comment_style \<Rightarrow> bytes" where
  "strip_bytes source style = strip_loop style (None, False) source"

definition strip_comments :: "bytes \<Rightarrow> comment_style \<Rightarrow> bytes" where
  "strip_comments source style = concat (map push_char (strip_bytes source style))"

section \<open>Lines keep their numbers\<close>

lemma split_on_nonempty [simp]: "split_on cs s \<noteq> []"
  by (induction s) (auto split: list.splits)

lemma split_on_append:
  "split_on cs (a @ b) =
   butlast (split_on cs a) @ (last (split_on cs a) @ hd (split_on cs b)) # tl (split_on cs b)"
proof (induction a)
  case (Cons c a)
  then show ?case by (cases "split_on cs a") (auto split: list.splits)
qed simp

lemma split_on_none: "set s \<inter> set cs = {} \<Longrightarrow> split_on cs s = [s]"
  by (induction s) auto

definition line_subseq :: "bytes \<Rightarrow> bytes \<Rightarrow> bool" where
  "line_subseq out source \<longleftrightarrow> list_all2 subseq (split_on [newline] out) (split_on [newline] source)"

lemma line_subseq_append:
  assumes "line_subseq a x" "line_subseq b y"
  shows "line_subseq (a @ b) (x @ y)"
proof -
  have ab: "list_all2 subseq (butlast (split_on [newline] a)) (butlast (split_on [newline] x))"
      "subseq (last (split_on [newline] a)) (last (split_on [newline] x))"
      "subseq (hd (split_on [newline] b)) (hd (split_on [newline] y))"
      "list_all2 subseq (tl (split_on [newline] b)) (tl (split_on [newline] y))"
    using assms unfolding line_subseq_def list_all2_conv_all_nth
    by (auto simp: nth_butlast last_conv_nth hd_conv_nth nth_tl)
  then show ?thesis
    by (simp add: line_subseq_def split_on_append list_all2_appendI list_emb_append_mono)
qed

lemma copies_lines: "copies bs (out, n, st) \<Longrightarrow> line_subseq out (take n bs)"
  by (auto simp: copies_def line_subseq_def split_on_none list_all2_refl)

lemma strip_loop_step:
  "bs \<noteq> [] \<Longrightarrow> strip_step style st bs = (out, n, st') \<Longrightarrow>
   strip_loop style st bs = out @ strip_loop style st' (drop n bs)"
  by (subst strip_loop.simps) simp

lemma strip_loop_nil [simp]: "strip_loop style st [] = []"
  by (subst strip_loop.simps) simp

lemma strip_loop_lines: "line_subseq (strip_loop style st bs) bs"
proof (induction style st bs rule: strip_loop.induct)
  case (1 style st bs)
  show ?case
  proof (cases "bs = []")
    case False
    obtain out n st' where step: "strip_step style st bs = (out, n, st')" by (metis prod_cases3)
    have "line_subseq (out @ strip_loop style st' (drop n bs)) (take n bs @ drop n bs)"
      using 1(1) [OF False step [symmetric] refl] copies_step [OF False, of style st] step
      by (intro line_subseq_append copies_lines) auto
    then show ?thesis using strip_loop_step [OF False step] by simp
  qed (simp add: line_subseq_def)
qed

lemma push_char_ascii: "is_ascii b \<Longrightarrow> push_char b = [b]"
  by (simp add: push_char_def encode_utf8_def is_ascii_def byte_val_def)

lemma push_char_newline: "push_char newline = [newline]"
  by (simp add: push_char_ascii newline_def is_ascii_def byte_val_def)

lemma push_char_wide:
  assumes "\<not> is_ascii b"
  obtains lead cont where "push_char b = [lead, cont]" "192 \<le> byte_val lead" "byte_val lead < 224" "is_continuation cont"
proof -
  let ?v = "byte_val b"
  have v: "128 \<le> ?v" "?v < 256" using assms byte_val_less [of b] by (simp_all add: is_ascii_def)
  then have d: "?v div 64 < 4" "?v mod 64 < 64" by (simp_all add: less_mult_imp_div_less)
  have "push_char b = [char_of (192 + ?v div 64), char_of (128 + ?v mod 64)]"
    using v by (simp add: push_char_def encode_utf8_def)
  moreover have "byte_val (char_of (192 + ?v div 64)) = 192 + ?v div 64"
    "byte_val (char_of (128 + ?v mod 64)) = 128 + ?v mod 64"
    using d by simp_all
  ultimately show ?thesis using that d by (simp add: is_continuation_def)
qed

lemma push_char_no_newline: "b \<noteq> newline \<Longrightarrow> newline \<notin> set (push_char b)"
proof (cases "is_ascii b")
  case False
  then obtain lead cont where "push_char b = [lead, cont]" "192 \<le> byte_val lead" "is_continuation cont"
    by (rule push_char_wide)
  moreover have "byte_val newline = 10" by (simp add: newline_def byte_val_def)
  ultimately show ?thesis by (auto simp: is_continuation_def)
qed (simp add: push_char_ascii)

lemma str_ok_push_char: "str_ok (push_char b)"
proof (cases "is_ascii b")
  case False
  then obtain lead cont where "push_char b = [lead, cont]" "192 \<le> byte_val lead" "byte_val lead < 224" "is_continuation cont"
    by (rule push_char_wide)
  then show ?thesis by (simp add: str_ok.simps(2) char_width_def Let_def)
qed (simp add: push_char_ascii)

definition push_text :: "bytes \<Rightarrow> bytes" where
  "push_text s = concat (map push_char s)"

lemma split_on_push_text: "split_on [newline] (push_text s) = map push_text (split_on [newline] s)"
proof (induction s)
  case (Cons c s)
  show ?case
  proof (cases "c = newline")
    case True
    then show ?thesis using Cons by (simp add: push_text_def push_char_newline)
  next
    case False
    then have "split_on [newline] (push_char c) = [push_char c]"
      using push_char_no_newline by (intro split_on_none) auto
    then show ?thesis using Cons False
      by (cases "split_on [newline] s") (simp_all add: push_text_def split_on_append)
  qed
qed (simp add: push_text_def)

lemma push_text_ascii: "list_all is_ascii s \<Longrightarrow> push_text s = s"
  by (induction s) (simp_all add: push_text_def push_char_ascii)

lemma push_text_subseq: "subseq kept source \<Longrightarrow> list_all is_ascii source \<Longrightarrow> subseq (push_text kept) source"
proof -
  assume k: "subseq kept source" and a: "list_all is_ascii source"
  have "set kept \<subseteq> set source" using k by (auto dest: list_emb_set)
  then have "list_all is_ascii kept" using a by (auto simp: list_all_iff)
  then show ?thesis using k by (simp add: push_text_ascii)
qed

text \<open>
  C23. Removing comments keeps line numbers: for every style and every source the result has as many
  lines as the source.  Each line of the result holds one character per byte that is kept of its source line, in
  order; so of a line in ASCII it holds the bytes themselves, while a byte beyond ASCII is written as the
  character with its number, in two bytes.
\<close>

theorem strip_comments_keeps_lines:
  "list_all2 (\<lambda>out source. (\<exists>kept. subseq kept source \<and> out = push_text kept) \<and> (list_all is_ascii source \<longrightarrow> subseq out source))
     (split_on [newline] (strip_comments source style)) (split_on [newline] source)"
proof -
  have "list_all2 subseq (split_on [newline] (strip_bytes source style)) (split_on [newline] source)"
    using strip_loop_lines [of style "(None, False)" source] by (simp add: strip_bytes_def line_subseq_def)
  then show ?thesis
    unfolding strip_comments_def push_text_def [symmetric] split_on_push_text list_all2_map1
    by (rule list_all2_mono) (blast intro: push_text_subseq)
qed

theorem strip_comments_keeps_lines_witness:
  "list_all2 subseq (split_on [newline] (strip_comments (''a//b'' @ [newline] @ ''c'') c_style)) [''a//b'', ''c'']"
  using strip_comments_keeps_lines [of "''a//b'' @ [newline] @ ''c''" c_style]
  by (simp add: newline_def is_ascii_def byte_val_def list_all2_Cons2) blast

lemma str_ok_push_text: "str_ok (push_text s)"
  by (induction s) (simp_all add: push_text_def str_ok_append str_ok_push_char)

lemma str_ok_strip_comments: "str_ok (strip_comments source style)"
  using str_ok_push_text by (simp add: strip_comments_def push_text_def)

section \<open>Exactly the comments go\<close>

text \<open>Source text as a sequence of tokens.  The body of a quoted string is a list of units, each a
  byte or a backslash with the byte it escapes.\<close>

datatype token =
    Code bytes
  | SlashComment bytes
  | HashComment bytes
  | BlockComment bytes
  | Quoted byte "bytes list"
  | TripleQuoted byte bytes
  | VerbatimString bytes
  | BacktickString bytes

fun print_token :: "token \<Rightarrow> bytes" where
  "print_token (Code s) = s"
| "print_token (SlashComment t) = ''//'' @ t @ [newline]"
| "print_token (HashComment t) = ''#'' @ t @ [newline]"
| "print_token (BlockComment t) = ''/*'' @ t @ ''*/''"
| "print_token (Quoted q units) = q # concat units @ [q]"
| "print_token (TripleQuoted q body) = [q, q, q] @ body @ [q, q, q]"
| "print_token (VerbatimString body) = [CHR ''@'', dquote] @ double_quotes body @ [dquote]"
| "print_token (BacktickString body) = backtick # body @ [backtick]"

fun kept :: "token \<Rightarrow> bytes" where
  "kept (SlashComment t) = [newline]"
| "kept (HashComment t) = [newline]"
| "kept (BlockComment t) = filter (\<lambda>b. b = newline) t"
| "kept tok = print_token tok"

fun code_ok :: "comment_style \<Rightarrow> bytes \<Rightarrow> bool" where
  "code_ok style [] = True"
| "code_ok style (c # s) =
     (\<not> is_quote c \<and> (c = backtick \<longrightarrow> \<not> backticks style) \<and>
      (c = CHR ''#'' \<longrightarrow> \<not> line_comment_hash style) \<and> (c = CHR ''@'' \<longrightarrow> \<not> verbatim_strings style) \<and>
      (c = CHR ''/'' \<longrightarrow> \<not> (line_comment_slash style \<or> block_comments style) \<or> (s \<noteq> [] \<and> hd s \<notin> set ''/*'')) \<and>
      code_ok style s)"

definition unit_ok :: "byte \<Rightarrow> bytes \<Rightarrow> bool" where
  "unit_ok q u \<longleftrightarrow> (\<exists>c. u = [c] \<and> c \<noteq> q \<and> c \<noteq> backslash) \<or> (\<exists>c. u = [backslash, c])"

fun token_ok :: "comment_style \<Rightarrow> token \<Rightarrow> bool" where
  "token_ok style (Code s) = code_ok style s"
| "token_ok style (SlashComment t) = (line_comment_slash style \<and> newline \<notin> set t)"
| "token_ok style (HashComment t) = (line_comment_hash style \<and> newline \<notin> set t)"
| "token_ok style (BlockComment t) = (block_comments style \<and> \<not> contains_slice ''*/'' t)"
| "token_ok style (Quoted q units) =
     (is_quote q \<and> list_all (unit_ok q) units \<and> (triple_quotes style \<longrightarrow> units \<noteq> []))"
| "token_ok style (TripleQuoted q body) =
     (is_quote q \<and> triple_quotes style \<and> \<not> contains_slice [q, q, q] (body @ [q, q]))"
| "token_ok style (VerbatimString body) = verbatim_strings style"
| "token_ok style (BacktickString body) = (backticks style \<and> backtick \<notin> set body)"

fun tokens_ok :: "comment_style \<Rightarrow> token list \<Rightarrow> bool" where
  "tokens_ok style [] = True"
| "tokens_ok style (t # ts) =
     (token_ok style t \<and> tokens_ok style ts \<and>
      (case t of VerbatimString _ \<Rightarrow> not_quote (concat (map print_token ts)) | _ \<Rightarrow> True))"

lemma code_step_plain:
  assumes "code_ok style (c # s)"
  shows "code_step style (c # s @ rest) = ([c], 1, (None, False))"
proof -
  let ?bs = "c # s @ rest"
  have "\<not> (block_comments style \<and> prefix ''/*'' ?bs)" "\<not> (line_comment_slash style \<and> prefix ''//'' ?bs)"
    using assms by (cases s; auto)+
  moreover have "\<not> (line_comment_hash style \<and> ?bs ! 0 = CHR ''#'')"
    "\<not> (verbatim_strings style \<and> prefix [CHR ''@'', dquote] ?bs)"
    "\<not> (verbatim_strings style \<and> prefix [CHR ''@'', CHR ''$'', dquote] ?bs)"
    "\<not> (triple_quotes style \<and> prefix [squote, squote, squote] ?bs)"
    "\<not> (triple_quotes style \<and> prefix [dquote, dquote, dquote] ?bs)"
    "?bs ! 0 \<noteq> squote" "?bs ! 0 \<noteq> dquote" "\<not> (?bs ! 0 = backtick \<and> backticks style)"
    using assms by (auto simp: is_quote_def)
  ultimately show ?thesis by (simp only: code_step_def if_False nth_Cons_0)
qed

lemma strip_code:
  "code_ok style s \<Longrightarrow> strip_loop style (None, False) (s @ rest) = s @ strip_loop style (None, False) rest"
proof (induction s)
  case (Cons c s)
  have "strip_step style (None, False) ((c # s) @ rest) = ([c], 1, (None, False))"
    using code_step_plain [OF Cons(2), of rest] by simp
  then show ?case using Cons strip_loop_step [of "(c # s) @ rest" style "(None, False)"] by simp
qed simp

lemma strip_line_comment:
  assumes "newline \<notin> set t"
    "strip_step style (None, False) (t @ newline # rest) =
       ([], length (takeWhile (\<lambda>b. b \<noteq> newline) (t @ newline # rest)), (None, False))"
  shows "strip_loop style (None, False) (t @ newline # rest) = newline # strip_loop style (None, False) rest"
proof -
  have len: "takeWhile (\<lambda>b. b \<noteq> newline) (t @ newline # rest) = t"
    using assms(1) by (subst takeWhile_append2) auto
  have nl: "strip_step style (None, False) (newline # rest) = ([newline], 1, (None, False))"
    by (simp add: code_step_def newline_def)
  show ?thesis
    using strip_loop_step [OF _ assms(2)] strip_loop_step [OF _ nl] by (simp add: len)
qed

lemma strip_block_comment:
  "\<not> contains_slice ''*/'' t \<Longrightarrow>
   strip_loop style (None, True) (t @ ''*/'' @ rest) = filter (\<lambda>b. b = newline) t @ strip_loop style (None, False) rest"
proof (induction t)
  case Nil
  have "strip_step style (None, True) (''*/'' @ rest) = ([], 2, (None, False))" by simp
  then show ?case using strip_loop_step [of "''*/'' @ rest" style "(None, True)"] by simp
next
  case (Cons c t)
  have "strip_step style (None, True) ((c # t) @ ''*/'' @ rest) = (if c = newline then [newline] else [], 1, (None, True))"
    using Cons(2) by (cases t) auto
  then show ?case using Cons strip_loop_step [of "(c # t) @ ''*/'' @ rest" style "(None, True)"] by auto
qed

lemma strip_quoted:
  assumes "st = Single \<and> q = squote \<or> st = Double \<and> q = dquote" "list_all (unit_ok q) units"
  shows "strip_loop style (Some st, False) (concat units @ q # rest) = concat units @ q # strip_loop style (None, False) rest"
  using assms(2)
proof (induction units)
  case Nil
  have "strip_step style (Some st, False) (q # rest) = ([q], 1, (None, False))"
    using assms(1) by (auto simp: escaped_step_def)
  then show ?case using strip_loop_step [of "q # rest" style] by simp
next
  case (Cons u units)
  have "strip_step style (Some st, False) (u @ concat units @ q # rest) = (u, length u, (Some st, False))" "u \<noteq> []"
    using assms(1) Cons(2) by (auto simp: escaped_step_def unit_ok_def)
  then show ?case using Cons strip_loop_step [of "u @ concat units @ q # rest" style] by simp
qed

lemma strip_triple:
  assumes "st = TripleSingle \<and> q = squote \<or> st = TripleDouble \<and> q = dquote"
  shows "\<not> contains_slice [q, q, q] (body @ [q, q]) \<Longrightarrow>
    strip_loop style (Some st, False) (body @ [q, q, q] @ rest) = body @ [q, q, q] @ strip_loop style (None, False) rest"
proof (induction body)
  case Nil
  have "strip_step style (Some st, False) ([q, q, q] @ rest) = ([q, q, q], 3, (None, False))"
    using assms by (auto simp: triple_step_def)
  then show ?case using strip_loop_step [of "[q, q, q] @ rest" style] by simp
next
  case (Cons c body)
  have "\<not> prefix [q, q, q] (c # body @ [q, q, q] @ rest)"
    using Cons(2) by (cases body; cases "tl body") auto
  then have "strip_step style (Some st, False) (c # body @ [q, q, q] @ rest) = ([c], 1, (Some st, False))"
    using assms by (auto simp: triple_step_def)
  then show ?case using Cons strip_loop_step [of "c # body @ [q, q, q] @ rest" style] by simp
qed

lemma strip_verbatim:
  assumes "not_quote rest"
  shows "strip_loop style (Some Verbatim, False) (double_quotes body @ dquote # rest) =
    double_quotes body @ dquote # strip_loop style (None, False) rest"
proof (induction body)
  case Nil
  have "strip_step style (Some Verbatim, False) (dquote # rest) = ([dquote], 1, (None, False))"
    using assms by (cases rest) (auto simp: not_quote_def)
  then show ?case using strip_loop_step [of "dquote # rest" style] by simp
next
  case (Cons c body)
  let ?u = "if c = dquote then [dquote, dquote] else [c]"
  have "strip_step style (Some Verbatim, False) (?u @ double_quotes body @ dquote # rest) = (?u, length ?u, (Some Verbatim, False))"
    by simp
  then show ?case using Cons strip_loop_step [of "?u @ double_quotes body @ dquote # rest" style] by auto
qed

lemma strip_backtick:
  "backtick \<notin> set body \<Longrightarrow>
   strip_loop style (Some Backtick, False) (body @ backtick # rest) = body @ backtick # strip_loop style (None, False) rest"
proof (induction body)
  case Nil
  then show ?case using strip_loop_step [of "backtick # rest" style "(Some Backtick, False)"] by simp
next
  case (Cons c body)
  then have "strip_step style (Some Backtick, False) (c # body @ backtick # rest) = ([c], 1, (Some Backtick, False))" by auto
  then show ?case using Cons strip_loop_step [of "c # body @ backtick # rest" style "(Some Backtick, False)"] by simp
qed

lemma strip_opens:
  "strip_step style (None, False) bs = (out, n, st) \<Longrightarrow> bs = out @ r \<Longrightarrow> n = length out \<Longrightarrow> out \<noteq> [] \<Longrightarrow>
   strip_loop style (None, False) bs = out @ strip_loop style st r"
  using strip_loop_step [of bs style "(None, False)" out n st] by simp

lemma code_step_quote:
  assumes "is_quote q" "\<not> (triple_quotes style \<and> prefix [q, q, q] (q # r))"
  shows "code_step style (q # r) = ([q], 1, (Some (if q = squote then Single else Double), False))"
  using assms by (auto simp: is_quote_def code_step_def)

lemma code_step_triple:
  assumes "is_quote q" "triple_quotes style"
  shows "code_step style ([q, q, q] @ r) = ([q, q, q], 3, (Some (if q = squote then TripleSingle else TripleDouble), False))"
  using assms by (auto simp: is_quote_def code_step_def)

lemma unit_ok_first: "unit_ok q u \<Longrightarrow> is_quote q \<Longrightarrow> u \<noteq> [] \<and> hd u \<noteq> q"
  by (auto simp: unit_ok_def is_quote_def)

lemma strip_token:
  assumes ok: "token_ok style t" and follow: "case t of VerbatimString _ \<Rightarrow> not_quote rest | _ \<Rightarrow> True"
  shows "strip_loop style (None, False) (print_token t @ rest) = kept t @ strip_loop style (None, False) rest"
proof (cases t)
  case (Code s)
  then show ?thesis using ok by (simp add: strip_code)
next
  case (SlashComment u)
  then show ?thesis using ok strip_line_comment [of "''//'' @ u" style rest] by (simp add: code_step_def newline_def)
next
  case (HashComment u)
  then show ?thesis using ok strip_line_comment [of "''#'' @ u" style rest] by (simp add: code_step_def newline_def)
next
  case (BlockComment u)
  then have "strip_step style (None, False) (''/*'' @ u @ ''*/'' @ rest) = ([], 2, (None, True))"
    using ok by (simp add: code_step_def)
  then show ?thesis using ok BlockComment strip_block_comment [of u style rest] strip_loop_step [of "''/*'' @ u @ ''*/'' @ rest" style]
    by simp
next
  case (Quoted q units)
  have q: "is_quote q" "list_all (unit_ok q) units" using ok Quoted by simp_all
  have "\<not> (triple_quotes style \<and> prefix [q, q, q] (q # concat units @ q # rest))"
    using ok Quoted unit_ok_first [of q "hd units"] by (cases units; cases "hd units") auto
  then show ?thesis
    using strip_opens [OF _ _ _ _, of style "q # concat units @ q # rest" "[q]" 1] code_step_quote [OF q(1)]
      strip_quoted [OF _ q(2), of "if q = squote then Single else Double" style rest] q(1) Quoted
    by (auto simp: is_quote_def)
next
  case (TripleQuoted q body)
  then show ?thesis
    using ok strip_opens [of style "[q, q, q] @ body @ [q, q, q] @ rest" "[q, q, q]" 3] code_step_triple [of q style "body @ [q, q, q] @ rest"]
      strip_triple [of "if q = squote then TripleSingle else TripleDouble" q body style rest]
    by (auto simp: is_quote_def)
next
  case (VerbatimString body)
  then show ?thesis
    using ok follow strip_verbatim [of rest style body]
      strip_opens [of style "[CHR ''@'', dquote] @ double_quotes body @ dquote # rest" "[CHR ''@'', dquote]" 2]
    by (simp add: code_step_def)
next
  case (BacktickString body)
  then show ?thesis
    using ok strip_backtick [of body style rest] strip_opens [of style "backtick # body @ backtick # rest" "[backtick]" 1]
    by (simp add: code_step_def)
qed

lemma strip_tokens:
  "tokens_ok style ts \<Longrightarrow> strip_loop style (None, False) (concat (map print_token ts)) = concat (map kept ts)"
  by (induction ts) (auto simp: strip_token)

text \<open>
  C17. On source text that is a sequence of code, comments and string literals of the style, exactly
  the comments are removed: code and string literals (with comment markers and escaped quotes inside
  them) stay, and of a comment only its newlines stay.  What stays is written one character per byte,
  so that bytes of ASCII are unchanged and others become the character with their number.
\<close>

theorem strip_comments_removes_comments:
  assumes "tokens_ok style ts"
  shows "strip_comments (concat (map print_token ts)) style = push_text (concat (map kept ts))"
  using strip_tokens [OF assms] by (simp add: strip_comments_def strip_bytes_def push_text_def)

theorem strip_comments_removes_comments_witness:
  "strip_comments ''a=\"//x\";//y\<newline>/*z*/b'' c_style = ''a=\"//x\";\<newline>b''"
  using strip_comments_removes_comments
    [of c_style "[Code ''a='', Quoted dquote [''/'', ''/'', ''x''], Code '';'', SlashComment ''y'', BlockComment ''z'', Code ''b'']"]
  by (simp add: c_style_def unit_ok_def is_quote_def newline_def push_text_def push_char_ascii is_ascii_def byte_val_def)

end
