(* ===== verification/Utf8_Lossy.thy ===== *)
theory Utf8_Lossy
  imports Text_Encoding
begin

text \<open>
  The standard library's lossy conversion of bytes to text, which the context lexer and the Git enumerator use:
  maximal invalid sequences become U+FFFD.
\<close>

section \<open>\<open>String::from_utf8_lossy\<close>\<close>

text \<open>\<open>String::from_utf8_lossy\<close>: whether a valid sequence starts the bytes, and the length of it or of
  the maximal part that is replaced by U+FFFD.\<close>

definition second_range :: "nat \<Rightarrow> nat \<times> nat" where
  "second_range lead =
     (if lead = 0xE0 then (0xA0, 0xBF) else if lead = 0xED then (0x80, 0x9F)
      else if lead = 0xF0 then (0x90, 0xBF) else if lead = 0xF4 then (0x80, 0x8F) else (0x80, 0xBF))"

definition byte_in :: "bytes \<Rightarrow> nat \<Rightarrow> nat \<times> nat \<Rightarrow> bool" where
  "byte_in bs i r =
     (case slice_get bs i of Some b \<Rightarrow> fst r \<le> byte_val b \<and> byte_val b \<le> snd r | None \<Rightarrow> False)"

definition utf8_sequence :: "bytes \<Rightarrow> bool \<times> nat" where
  "utf8_sequence bs =
     (let lead = byte_val (bs ! 0); cont = (0x80, 0xBF) in
      if lead < 0x80 then (True, 1)
      else if 0xC2 \<le> lead \<and> lead \<le> 0xDF then
        if byte_in bs 1 cont then (True, 2) else (False, 1)
      else if 0xE0 \<le> lead \<and> lead \<le> 0xEF then
        if \<not> byte_in bs 1 (second_range lead) then (False, 1)
        else if \<not> byte_in bs 2 cont then (False, 2) else (True, 3)
      else if 0xF0 \<le> lead \<and> lead \<le> 0xF4 then
        if \<not> byte_in bs 1 (second_range lead) then (False, 1)
        else if \<not> byte_in bs 2 cont then (False, 2)
        else if \<not> byte_in bs 3 cont then (False, 3) else (True, 4)
      else (False, 1))"

lemma utf8_sequence_moves: "0 < snd (utf8_sequence bs)"
  by (simp add: utf8_sequence_def Let_def)

function from_utf8_lossy :: "bytes \<Rightarrow> bytes" where
  "from_utf8_lossy bs =
     (if bs = [] then []
      else
        let n = snd (utf8_sequence bs)
        in (if fst (utf8_sequence bs) then take n bs else encode_utf8 replacement) @ from_utf8_lossy (drop n bs))"
  by pat_completeness auto
termination by (relation "measure length") (auto simp: utf8_sequence_moves)

declare from_utf8_lossy.simps [simp del]

end
