(* ===== verification/Context_Lexer.thy ===== *)
theory Context_Lexer
  imports Comment_Strip Utf8_Lossy
begin

text \<open>
  Context candidates of source files: the languages, the logical lines, the emitters and the
  extractors of \<open>crates/kingfisher-scanner/src/context/parser/mod.rs\<close> and \<open>lexer.rs\<close>.

  A sink is a function on its state that also says whether to go on.  Emitters and extractors pass the
  state along; \<open>None\<close> is a panic.  The regular expressions are parameters: for a line, the captured
  groups of the matches in order.
\<close>

section \<open>Languages\<close>

datatype language =
    Bash | C | CSharp | Cpp | Css | Go | Html | Java | JavaScript | Php | Python | Ruby | Rust | Toml
  | TypeScript | Yaml

text \<open>
  \<open>to_lowercase\<close> as far as a comparison with ASCII words can see it: the only characters outside
  ASCII with an ASCII lower case are in the word for k (the Kelvin sign).
\<close>

fun lowercase_for_ascii :: "bytes \<Rightarrow> bytes" where
  "lowercase_for_ascii [] = []"
| "lowercase_for_ascii (b # s) =
     (if prefix [CHR 0xE2, CHR 0x84, CHR 0xAA] (b # s) then CHR ''k'' # lowercase_for_ascii (drop 2 s)
      else to_ascii_lowercase b # lowercase_for_ascii s)"

definition from_hint :: "bytes \<Rightarrow> language option" where
  "from_hint hint =
     (let h = lowercase_for_ascii hint in
      if h \<in> set [''bash'', ''shell''] then Some Bash
      else if h = ''c'' then Some C
      else if h \<in> set [''c#'', ''csharp''] then Some CSharp
      else if h \<in> set [''c++'', ''cpp''] then Some Cpp
      else if h = ''css'' then Some Css
      else if h = ''go'' then Some Go
      else if h = ''html'' then Some Html
      else if h = ''java'' then Some Java
      else if h \<in> set [''javascript'', ''js''] then Some JavaScript
      else if h = ''php'' then Some Php
      else if h \<in> set [''python'', ''py'', ''starlark''] then Some Python
      else if h = ''ruby'' then Some Ruby
      else if h \<in> set [''rust'', ''rs''] then Some Rust
      else if h = ''toml'' then Some Toml
      else if h \<in> set [''typescript'', ''ts''] then Some TypeScript
      else if h \<in> set [''yaml'', ''yml''] then Some Yaml
      else None)"

section \<open>Lines\<close>

text \<open>\<open>str::lines\<close>: a line feed, or a carriage return and a line feed, ends a line.\<close>

definition strip_cr :: "bytes \<Rightarrow> bytes" where
  "strip_cr line = (if ends_with (CHR 0x0D) line then butlast line else line)"

definition str_lines :: "bytes \<Rightarrow> bytes list" where
  "str_lines text =
     (let segs = split_on [newline] text in
      map strip_cr (butlast segs) @ (if last segs = [] then [] else [last segs]))"

definition block_keywords :: "bytes list" where
  "block_keywords =
     [''catch'', ''class'', ''def'', ''else'', ''fn'', ''for'', ''function'', ''if'', ''impl'', ''match'',
      ''switch'', ''try'', ''while'']"

definition starts_with_block_keyword :: "bytes \<Rightarrow> bool" where
  "starts_with_block_keyword line =
     list_ex (\<lambda>keyword.
       case str_strip_prefix keyword line of
         Some (ch # _) \<Rightarrow> is_ascii_whitespace ch \<or> ch \<in> set ''({<''
       | _ \<Rightarrow> False) block_keywords"

fun has_whitespace :: "bytes \<Rightarrow> bool" where
  "has_whitespace [] = False"
| "has_whitespace (b # s) = (list_ex (\<lambda>w. prefix w (b # s)) unicode_whitespace \<or> has_whitespace s)"

definition looks_like_multiline_call_start :: "bytes \<Rightarrow> bool" where
  "looks_like_multiline_call_start line =
     (if CHR ''('' \<notin> set line then False
      else
        let call = str_trim (strip_prefixes [''new ''] (str_trim (takeWhile (\<lambda>b. b \<noteq> CHR ''('') line)))
        in if call = [] \<or> has_whitespace call then False
           else list_all (\<lambda>ch. is_ascii_alphanumeric ch \<or> ch \<in> set ''_$@.:>-'') call)"

definition statement_needs_more :: "bytes \<Rightarrow> bool" where
  "statement_needs_more statement =
     (let trimmed = trim_end statement in
      list_ex (\<lambda>c. ends_with c trimmed) [backslash, CHR '','', CHR ''('', CHR ''['', CHR ''{'', CHR ''=''] \<or>
      list_ex (\<lambda>s. suffix s trimmed) ['':='', ''=>'', ''+=''])"

definition starts_multiline_context :: "bytes \<Rightarrow> bool" where
  "starts_multiline_context line =
     (if starts_with_block_keyword line then False
      else if \<not> contains_assignment_operator line \<and> \<not> looks_like_multiline_call_start line then False
      else
        let st = scan_structure line
        in unclosed_literal st \<or> 0 < depth st \<or> statement_needs_more line)"

definition multiline_context_complete :: "bytes \<Rightarrow> line_structure \<Rightarrow> bool option" where
  "multiline_context_complete statement st =
     (if \<not> unclosed_literal st \<and> depth st \<le> 0 \<and> \<not> statement_needs_more statement
      then map_option (\<lambda>vs. vs \<noteq> []) (extract_literal_values statement False)
      else Some False)"

text \<open>
  One source line in the iterator of \<open>context_lines\<close>: the statement it completes, and the statement
  being stitched after it.
\<close>

definition stitch_line :: "bytes \<Rightarrow> bool \<Rightarrow> bytes \<Rightarrow> (bytes option \<times> bytes \<times> bool) option" where
  "stitch_line current active line =
     (let trimmed = str_trim line in
      if trimmed = [] then Some (None, current, active)
      else if active then
        let current = current @ '' '' @ trimmed in
        map_option (\<lambda>complete. if complete then (Some current, [], False) else (None, current, True))
          (multiline_context_complete current (scan_structure current))
      else if starts_multiline_context trimmed then
        let current = current @ trimmed in
        map_option (\<lambda>complete. if complete then (None, [], False) else (None, current, True))
          (multiline_context_complete current (scan_structure current))
      else Some (None, current, active))"

text \<open>What the iterator yields from the remaining source lines: a line comes before the statement it
  completes.\<close>

fun context_lines_from :: "bytes \<Rightarrow> bool \<Rightarrow> bytes list \<Rightarrow> bytes list option" where
  "context_lines_from current active [] =
     (if active \<and> current \<noteq> [] then
        map_option (\<lambda>vs. if vs = [] then [] else [current]) (extract_literal_values current False)
      else Some [])"
| "context_lines_from current active (line # lines) =
     Option.bind (stitch_line current active line) (\<lambda>(pending, current, active).
       map_option (\<lambda>rest. line # (case pending of Some p \<Rightarrow> p # rest | None \<Rightarrow> rest))
         (context_lines_from current active lines))"

definition context_lines :: "bytes \<Rightarrow> bytes list option" where
  "context_lines text = context_lines_from [] False (str_lines text)"

section \<open>Emitting values\<close>

datatype flow = Continue | Break

type_synonym 's sink = "bytes \<Rightarrow> 's \<Rightarrow> bool \<times> 's"
type_synonym 's emitter = "'s \<Rightarrow> (flow \<times> 's) option"

text \<open>The captured groups of one match: key and value (or list body), in the order of the pattern.\<close>

record lexer_regexes =
  assignment_literal_re :: "bytes \<Rightarrow> (bytes option \<times> bytes option) list"
  assignment_any_re :: "bytes \<Rightarrow> (bytes option \<times> bytes option) option"
  typed_assignment_literal_re :: "bytes \<Rightarrow> (bytes option \<times> bytes option) list"
  pair_literal_re :: "bytes \<Rightarrow> (bytes option \<times> bytes option) list"
  type_literal_re :: "bytes \<Rightarrow> (bytes option \<times> bytes option) list"
  call_re :: "bytes \<Rightarrow> (bytes option \<times> bytes option \<times> bytes option) list"
  brace_list_assign_re :: "bytes \<Rightarrow> (bytes option \<times> bytes option) list"

definition proceed :: "'s emitter" where
  "proceed s = Some (Continue, s)"

text \<open>\<open>if a.is_break() { return }\<close> and go on with b\<close>

definition and_emit :: "'s emitter \<Rightarrow> 's emitter \<Rightarrow> 's emitter" where
  "and_emit a b s =
     Option.bind (a s) (\<lambda>(flow, s). case flow of Break \<Rightarrow> Some (Break, s) | Continue \<Rightarrow> b s)"

fun emit_each :: "('a \<Rightarrow> 's emitter) \<Rightarrow> 'a list \<Rightarrow> 's emitter" where
  "emit_each f [] = proceed"
| "emit_each f (x # xs) = and_emit (f x) (emit_each f xs)"

definition emit_value :: "'s sink \<Rightarrow> bytes \<Rightarrow> bytes \<Rightarrow> bool \<Rightarrow> bool \<Rightarrow> 's emitter" where
  "emit_value sink key v keep_full_key allow_bare s =
     Option.bind (normalize_key key keep_full_key) (\<lambda>key.
     Option.bind (normalize_value v allow_bare) (\<lambda>v.
       if key = [] \<or> v = [] then Some (Continue, s)
       else case sink (key @ '' = '' @ v) s of (go_on, s) \<Rightarrow> Some (if go_on then Continue else Break, s)))"

definition emit_capture :: "'s sink \<Rightarrow> bool \<Rightarrow> bytes option \<times> bytes option \<Rightarrow> 's emitter" where
  "emit_capture sink keep_full_key caps =
     (case caps of
        (Some key, Some v) \<Rightarrow> emit_value sink key v keep_full_key False
      | _ \<Rightarrow> proceed)"

definition emit_assignment_literals :: "lexer_regexes \<Rightarrow> 's sink \<Rightarrow> bytes \<Rightarrow> bool \<Rightarrow> 's emitter" where
  "emit_assignment_literals re sink line keep_full_key =
     emit_each (emit_capture sink keep_full_key) (assignment_literal_re re line)"

definition emit_typed_assignment_literals :: "lexer_regexes \<Rightarrow> 's sink \<Rightarrow> bytes \<Rightarrow> 's emitter" where
  "emit_typed_assignment_literals re sink line =
     emit_each (emit_capture sink False) (typed_assignment_literal_re re line)"

text \<open>The loop over the literals of a list value.\<close>

definition emit_list :: "'s sink \<Rightarrow> bytes \<Rightarrow> bytes \<Rightarrow> bool \<Rightarrow> 's emitter" where
  "emit_list sink key body keep_full_key s =
     Option.bind (extract_literal_values body False) (\<lambda>vs.
       emit_each (\<lambda>v. emit_value sink key v keep_full_key False) vs s)"

definition emit_assignment_lists :: "lexer_regexes \<Rightarrow> 's sink \<Rightarrow> bytes \<Rightarrow> bool \<Rightarrow> 's emitter" where
  "emit_assignment_lists re sink line keep_full_key =
     (case assignment_any_re re line of
        Some (Some key, Some rhs) \<Rightarrow>
          if CHR '','' \<in> set rhs \<or> CHR ''['' \<in> set rhs \<or> CHR ''{'' \<in> set rhs
          then emit_list sink key rhs keep_full_key
          else proceed
      | _ \<Rightarrow> proceed)"

definition emit_brace_list_assignments :: "lexer_regexes \<Rightarrow> 's sink \<Rightarrow> bytes \<Rightarrow> 's emitter" where
  "emit_brace_list_assignments re sink line =
     emit_each (\<lambda>caps. case caps of (Some key, Some body) \<Rightarrow> emit_list sink key body False | _ \<Rightarrow> proceed)
       (brace_list_assign_re re line)"

definition emit_pairs :: "lexer_regexes \<Rightarrow> 's sink \<Rightarrow> bytes \<Rightarrow> bool \<Rightarrow> 's emitter" where
  "emit_pairs re sink line keep_full_key =
     emit_each (emit_capture sink keep_full_key) (pair_literal_re re line)"

definition emit_type_literals :: "lexer_regexes \<Rightarrow> 's sink \<Rightarrow> bytes \<Rightarrow> 's emitter" where
  "emit_type_literals re sink line =
     emit_each (emit_capture sink False) (type_literal_re re line)"

definition emit_values :: "'s sink \<Rightarrow> bytes \<Rightarrow> bool \<Rightarrow> bytes list \<Rightarrow> 's emitter" where
  "emit_values sink key keep_full_key vs = emit_each (\<lambda>v. emit_value sink key v keep_full_key False) vs"

definition emit_call :: "'s sink \<Rightarrow> bool \<Rightarrow> bytes option \<times> bytes option \<times> bytes option \<Rightarrow> 's emitter" where
  "emit_call sink keep_full_assign_key caps s =
     (case caps of
        (assign_key, Some call, Some args) \<Rightarrow>
          Option.bind (extract_literal_values args False) (\<lambda>vs.
            if vs = [] then proceed s
            else
              and_emit
                (case assign_key of
                   Some key \<Rightarrow> emit_values sink key keep_full_assign_key vs
                 | None \<Rightarrow> proceed)
             (and_emit
                (emit_values sink (normalize_call_name call) True vs)
                (if 2 \<le> length vs then
                   let first = trim_matches [squote] (trim_matches [dquote] (vs ! 0))
                   in if looks_like_embedded_key first then emit_value sink first (vs ! 1) True False
                      else proceed
                 else proceed)) s)
      | _ \<Rightarrow> proceed s)"

definition emit_calls :: "lexer_regexes \<Rightarrow> 's sink \<Rightarrow> bytes \<Rightarrow> bool \<Rightarrow> 's emitter" where
  "emit_calls re sink line keep_full_assign_key =
     emit_each (emit_call sink keep_full_assign_key) (call_re re line)"

section \<open>Extractors\<close>

definition run_lines :: "bytes list option \<Rightarrow> (bytes \<Rightarrow> 's emitter) \<Rightarrow> 's \<Rightarrow> 's option" where
  "run_lines lines f s = Option.bind lines (\<lambda>ls. map_option snd (emit_each f ls s))"

definition extract_bash :: "lexer_regexes \<Rightarrow> 's sink \<Rightarrow> bytes \<Rightarrow> 's \<Rightarrow> 's option" where
  "extract_bash re sink text =
     (let cleaned = strip_comments text shell in
      run_lines (Some (str_lines cleaned)) (\<lambda>line. emit_assignment_literals re sink line False))"

definition extract_python :: "lexer_regexes \<Rightarrow> 's sink \<Rightarrow> bytes \<Rightarrow> 's \<Rightarrow> 's option" where
  "extract_python re sink text =
     (let cleaned = strip_comments text python in
      run_lines (context_lines cleaned) (\<lambda>line.
        and_emit (emit_assignment_literals re sink line False)
       (and_emit (emit_pairs re sink line True)
                 (emit_calls re sink line False))))"

definition extract_ruby :: "lexer_regexes \<Rightarrow> 's sink \<Rightarrow> bytes \<Rightarrow> 's \<Rightarrow> 's option" where
  "extract_ruby re sink text =
     (let cleaned = strip_comments text hash_only in
      run_lines (context_lines cleaned) (\<lambda>line.
        and_emit (emit_assignment_literals re sink line False)
       (and_emit (emit_assignment_lists re sink line False)
                 (emit_calls re sink line False))))"

definition extract_php :: "lexer_regexes \<Rightarrow> 's sink \<Rightarrow> bytes \<Rightarrow> 's \<Rightarrow> 's option" where
  "extract_php re sink text =
     (let cleaned = strip_comments text php in
      run_lines (context_lines cleaned) (\<lambda>line.
        and_emit (emit_assignment_literals re sink line False)
       (and_emit (emit_assignment_lists re sink line False)
                 (emit_calls re sink line False))))"

definition emit_yaml_line :: "'s sink \<Rightarrow> bytes \<Rightarrow> 's emitter" where
  "emit_yaml_line sink line =
     (let trimmed = str_trim line in
      if trimmed = [] \<or> starts_with (CHR ''-'') trimmed \<and> CHR '':'' \<notin> set trimmed then proceed
      else case split_mapping_pair trimmed of
             Some (key, v) \<Rightarrow> emit_value sink (str_trim (trim_start_matches ''-'' key)) v True True
           | None \<Rightarrow> proceed)"

definition extract_yaml :: "'s sink \<Rightarrow> bytes \<Rightarrow> 's \<Rightarrow> 's option" where
  "extract_yaml sink text =
     (let cleaned = strip_comments text hash_only in
      run_lines (Some (str_lines cleaned)) (emit_yaml_line sink))"

definition emit_toml_line :: "'s sink \<Rightarrow> bytes \<Rightarrow> 's emitter" where
  "emit_toml_line sink line =
     (let trimmed = str_trim line in
      if trimmed = [] \<or> starts_with (CHR ''['') trimmed then proceed
      else case split_assignment trimmed (CHR ''='') of
             Some (key, v) \<Rightarrow> emit_value sink key v True False
           | None \<Rightarrow> proceed)"

definition extract_toml :: "'s sink \<Rightarrow> bytes \<Rightarrow> 's \<Rightarrow> 's option" where
  "extract_toml sink text =
     (let cleaned = strip_comments text hash_only in
      run_lines (Some (str_lines cleaned)) (emit_toml_line sink))"

definition extract_javascript_like :: "lexer_regexes \<Rightarrow> 's sink \<Rightarrow> bytes \<Rightarrow> bool \<Rightarrow> 's \<Rightarrow> 's option" where
  "extract_javascript_like re sink text include_type_literals =
     (let cleaned = strip_comments text (with_backticks c_style) in
      run_lines (context_lines cleaned) (\<lambda>line.
        and_emit (if include_type_literals then emit_typed_assignment_literals re sink line else proceed)
       (and_emit (emit_assignment_literals re sink line False)
       (and_emit (emit_pairs re sink line False)
       (and_emit (if include_type_literals then emit_type_literals re sink line else proceed)
       (and_emit (emit_assignment_lists re sink line False)
                 (emit_calls re sink line False)))))))"

definition extract_rust :: "lexer_regexes \<Rightarrow> 's sink \<Rightarrow> bytes \<Rightarrow> 's \<Rightarrow> 's option" where
  "extract_rust re sink text =
     (let cleaned = strip_comments text c_style in
      run_lines (context_lines cleaned) (\<lambda>line.
        and_emit (emit_typed_assignment_literals re sink line)
       (and_emit (emit_assignment_literals re sink line False)
                 (emit_calls re sink line False))))"

definition extract_c_style :: "lexer_regexes \<Rightarrow> 's sink \<Rightarrow> bytes \<Rightarrow> language \<Rightarrow> 's \<Rightarrow> 's option" where
  "extract_c_style re sink text language =
     (let style = (case language of
             CSharp \<Rightarrow> with_verbatim_strings c_style
           | Go \<Rightarrow> with_backticks c_style
           | _ \<Rightarrow> c_style);
          cleaned = strip_comments text style
      in run_lines (context_lines cleaned) (\<lambda>line.
        and_emit (emit_assignment_literals re sink line False)
       (and_emit (emit_brace_list_assignments re sink line)
                 (if language = Cpp \<and> looks_like_cpp_ctor_initializer_line line then proceed
                  else emit_calls re sink line False))))"

section \<open>The dispatcher\<close>

definition lexer_stream :: "lexer_regexes \<Rightarrow> 's sink \<Rightarrow> bytes \<Rightarrow> language \<Rightarrow> 's \<Rightarrow> 's option" where
  "lexer_stream re sink source language s =
     (let text = from_utf8_lossy source in
      if text = [] then Some s
      else case language of
          Bash \<Rightarrow> extract_bash re sink text s
        | Python \<Rightarrow> extract_python re sink text s
        | Ruby \<Rightarrow> extract_ruby re sink text s
        | Php \<Rightarrow> extract_php re sink text s
        | Yaml \<Rightarrow> extract_yaml sink text s
        | Toml \<Rightarrow> extract_toml sink text s
        | JavaScript \<Rightarrow> extract_javascript_like re sink text False s
        | TypeScript \<Rightarrow> extract_javascript_like re sink text True s
        | Rust \<Rightarrow> extract_rust re sink text s
        | C \<Rightarrow> extract_c_style re sink text language s
        | CSharp \<Rightarrow> extract_c_style re sink text language s
        | Cpp \<Rightarrow> extract_c_style re sink text language s
        | Go \<Rightarrow> extract_c_style re sink text language s
        | Java \<Rightarrow> extract_c_style re sink text language s
        | Css \<Rightarrow> Some s
        | Html \<Rightarrow> Some s)"

section \<open>Offering candidates\<close>

text \<open>Offering a list of candidates to a sink until it refuses one.\<close>

fun offer :: "'s sink \<Rightarrow> bytes list \<Rightarrow> 's \<Rightarrow> flow \<times> 's" where
  "offer sink [] s = (Continue, s)"
| "offer sink (c # cs) s = (case sink c s of (go_on, s) \<Rightarrow> if go_on then offer sink cs s else (Break, s))"

text \<open>An emitter that never panics and hands its sink exactly these candidates.\<close>

definition emits :: "'s sink \<Rightarrow> 's emitter \<Rightarrow> bytes list \<Rightarrow> bool" where
  "emits sink m cs \<longleftrightarrow> (\<forall>s. m s = Some (offer sink cs s))"

lemma offer_append:
  "offer sink (as @ bs) s = (case offer sink as s of (Continue, s) \<Rightarrow> offer sink bs s | (Break, s) \<Rightarrow> (Break, s))"
  by (induction as arbitrary: s) (auto split: prod.splits)

lemma emits_proceed: "emits sink proceed []"
  by (simp add: emits_def proceed_def)

lemma emits_and: "emits sink a as \<Longrightarrow> emits sink b bs \<Longrightarrow> emits sink (and_emit a b) (as @ bs)"
  by (auto simp: emits_def and_emit_def offer_append split: prod.splits flow.splits)

lemma emits_each:
  "(\<And>x. x \<in> set xs \<Longrightarrow> emits sink (f x) (g x)) \<Longrightarrow> emits sink (emit_each f xs) (concat (map g xs))"
  by (induction xs) (simp_all add: emits_proceed emits_and)

section \<open>The candidates of a source file\<close>

definition value_candidates :: "bytes \<Rightarrow> bytes \<Rightarrow> bool \<Rightarrow> bool \<Rightarrow> bytes list" where
  "value_candidates key v keep_full_key allow_bare =
     (case (normalize_key key keep_full_key, normalize_value v allow_bare) of
        (Some k, Some v) \<Rightarrow> if k = [] \<or> v = [] then [] else [k @ '' = '' @ v]
      | _ \<Rightarrow> [])"

definition capture_candidates :: "bool \<Rightarrow> bytes option \<times> bytes option \<Rightarrow> bytes list" where
  "capture_candidates keep caps =
     (case caps of (Some key, Some v) \<Rightarrow> value_candidates key v keep False | _ \<Rightarrow> [])"

definition literal_values :: "bytes \<Rightarrow> bytes list" where
  "literal_values body = (case extract_literal_values body False of Some vs \<Rightarrow> vs | None \<Rightarrow> [])"

definition list_candidates :: "bytes \<Rightarrow> bool \<Rightarrow> bytes list \<Rightarrow> bytes list" where
  "list_candidates key keep vs = concat (map (\<lambda>v. value_candidates key v keep False) vs)"

definition assigned_list_candidates :: "bytes option \<times> bytes option \<Rightarrow> bytes list" where
  "assigned_list_candidates caps =
     (case caps of (Some key, Some body) \<Rightarrow> list_candidates key False (literal_values body) | _ \<Rightarrow> [])"

definition any_list_candidates :: "(bytes option \<times> bytes option) option \<Rightarrow> bytes list" where
  "any_list_candidates caps =
     (case caps of
        Some (Some key, Some rhs) \<Rightarrow>
          if set rhs \<inter> set '',[{'' \<noteq> {} then list_candidates key False (literal_values rhs) else []
      | _ \<Rightarrow> [])"

definition call_candidates :: "bytes option \<times> bytes option \<times> bytes option \<Rightarrow> bytes list" where
  "call_candidates caps =
     (case caps of
        (assign_key, Some call, Some args) \<Rightarrow>
          let vs = literal_values args in
          (case assign_key of Some key \<Rightarrow> list_candidates key False vs | None \<Rightarrow> []) @
          list_candidates (normalize_call_name call) True vs @
          (if 2 \<le> length vs then
             let first = trim_matches [squote] (trim_matches [dquote] (vs ! 0))
             in if looks_like_embedded_key first then value_candidates first (vs ! 1) True False else []
           else [])
      | _ \<Rightarrow> [])"

definition yaml_candidates :: "bytes \<Rightarrow> bytes list" where
  "yaml_candidates line =
     (let trimmed = str_trim line in
      if trimmed = [] \<or> starts_with (CHR ''-'') trimmed \<and> CHR '':'' \<notin> set trimmed then []
      else case split_mapping_pair trimmed of
             Some (key, v) \<Rightarrow> value_candidates (str_trim (trim_start_matches ''-'' key)) v True True
           | None \<Rightarrow> [])"

definition toml_candidates :: "bytes \<Rightarrow> bytes list" where
  "toml_candidates line =
     (let trimmed = str_trim line in
      if trimmed = [] \<or> starts_with (CHR ''['') trimmed then []
      else case split_assignment trimmed (CHR ''='') of
             Some (key, v) \<Rightarrow> value_candidates key v True False
           | None \<Rightarrow> [])"

definition line_candidates :: "lexer_regexes \<Rightarrow> language \<Rightarrow> bytes \<Rightarrow> bytes list" where
  "line_candidates re language line =
     (let assignments = concat (map (capture_candidates False) (assignment_literal_re re line));
          typed = concat (map (capture_candidates False) (typed_assignment_literal_re re line));
          types = concat (map (capture_candidates False) (type_literal_re re line));
          pairs = (\<lambda>keep. concat (map (capture_candidates keep) (pair_literal_re re line)));
          lists = any_list_candidates (assignment_any_re re line);
          braces = concat (map assigned_list_candidates (brace_list_assign_re re line));
          calls = concat (map call_candidates (call_re re line))
      in case language of
           Bash \<Rightarrow> assignments
         | Python \<Rightarrow> assignments @ pairs True @ calls
         | Ruby \<Rightarrow> assignments @ lists @ calls
         | Php \<Rightarrow> assignments @ lists @ calls
         | Yaml \<Rightarrow> yaml_candidates line
         | Toml \<Rightarrow> toml_candidates line
         | JavaScript \<Rightarrow> assignments @ pairs False @ lists @ calls
         | TypeScript \<Rightarrow> typed @ assignments @ pairs False @ types @ lists @ calls
         | Rust \<Rightarrow> typed @ assignments @ calls
         | Cpp \<Rightarrow> assignments @ braces @ (if looks_like_cpp_ctor_initializer_line line then [] else calls)
         | Css \<Rightarrow> []
         | Html \<Rightarrow> []
         | _ \<Rightarrow> assignments @ braces @ calls)"

definition style_of :: "language \<Rightarrow> comment_style" where
  "style_of language =
     (case language of
        Bash \<Rightarrow> shell | Python \<Rightarrow> python | Php \<Rightarrow> php
      | Ruby \<Rightarrow> hash_only | Yaml \<Rightarrow> hash_only | Toml \<Rightarrow> hash_only
      | JavaScript \<Rightarrow> with_backticks c_style | TypeScript \<Rightarrow> with_backticks c_style | Go \<Rightarrow> with_backticks c_style
      | CSharp \<Rightarrow> with_verbatim_strings c_style
      | _ \<Rightarrow> c_style)"

definition logical_lines :: "language \<Rightarrow> bytes \<Rightarrow> bytes list" where
  "logical_lines language text =
     (if language \<in> {Bash, Yaml, Toml} then str_lines text
      else case context_lines text of Some ls \<Rightarrow> ls | None \<Rightarrow> [])"

definition context_candidates :: "lexer_regexes \<Rightarrow> language \<Rightarrow> bytes \<Rightarrow> bytes list" where
  "context_candidates re language source =
     concat (map (line_candidates re language)
       (logical_lines language (strip_comments (from_utf8_lossy source) (style_of language))))"

text \<open>What the patterns of the lexer capture: slices of the text; a key is a name or a quoted string,
  the name of a call has no quotes.\<close>

definition pair_ok :: "bytes option \<times> bytes option \<Rightarrow> bool" where
  "pair_ok caps \<longleftrightarrow> pred_option key_ok (fst caps) \<and> pred_option str_ok (snd caps)"

definition call_ok :: "bytes option \<times> bytes option \<times> bytes option \<Rightarrow> bool" where
  "call_ok caps \<longleftrightarrow> pred_option key_ok (fst caps) \<and>
     pred_option (\<lambda>c. str_ok c \<and> filter is_quote c = []) (fst (snd caps)) \<and> pred_option str_ok (snd (snd caps))"

definition captures_ok :: "lexer_regexes \<Rightarrow> bool" where
  "captures_ok re \<longleftrightarrow> (\<forall>line. str_ok line \<longrightarrow>
     list_all pair_ok (assignment_literal_re re line) \<and> pred_option pair_ok (assignment_any_re re line) \<and>
     list_all pair_ok (typed_assignment_literal_re re line) \<and> list_all pair_ok (pair_literal_re re line) \<and>
     list_all pair_ok (type_literal_re re line) \<and> list_all call_ok (call_re re line) \<and>
     list_all pair_ok (brace_list_assign_re re line))"

section \<open>The lines are text\<close>

lemma str_ok_lines:
  assumes "str_ok t" "l \<in> set (str_lines t)"
  shows "str_ok l"
proof -
  have seg: "str_ok seg" if "seg \<in> set (split_on [newline] t)" for seg
    using split_on_ok [OF _ assms(1) that] by (simp add: newline_def is_ascii_def byte_val_def)
  have cr: "str_ok (strip_cr seg)" if "str_ok seg" for seg
    using that str_ok_cancel_end [of "[CHR 0x0D]" "butlast seg"]
    by (cases seg rule: rev_cases) (auto simp: strip_cr_def ends_with_def is_ascii_def byte_val_def)
  show ?thesis using assms(2) seg cr
    by (auto simp: str_lines_def Let_def dest: in_set_butlastD split: if_splits)
qed

lemma complete_total: "str_ok statement \<Longrightarrow> \<exists>b. multiline_context_complete statement st = Some b"
  using extract_values_good [of statement False 0]
  by (auto simp: multiline_context_complete_def extract_literal_values_def good_values_def)

lemma stitch_line_ok:
  assumes "str_ok current" "str_ok line"
  shows "\<exists>p c a. stitch_line current active line = Some (p, c, a) \<and> pred_option str_ok p \<and> str_ok c"
proof -
  have "str_ok (str_trim line)" using assms by (simp add: str_ok_trim)
  then have joined: "str_ok (current @ '' '' @ str_trim line)" "str_ok (current @ str_trim line)"
    using assms by (auto intro!: str_ok_append simp: is_ascii_def byte_val_def)
  obtain b b' where "multiline_context_complete (current @ '' '' @ str_trim line) (scan_structure (current @ '' '' @ str_trim line)) = Some b"
    "multiline_context_complete (current @ str_trim line) (scan_structure (current @ str_trim line)) = Some b'"
    using complete_total joined by metis
  then show ?thesis using joined assms(1) by (auto simp: stitch_line_def Let_def)
qed

lemma context_lines_from_ok:
  "str_ok current \<Longrightarrow> list_all str_ok lines \<Longrightarrow>
   \<exists>ls. context_lines_from current active lines = Some ls \<and> list_all str_ok ls"
proof (induction lines arbitrary: current active)
  case Nil
  then obtain vs where "extract_literal_values current False = Some vs"
    using extract_values_good [of current False 0] by (auto simp: extract_literal_values_def good_values_def)
  then show ?case using Nil by simp
next
  case (Cons l lines)
  then obtain p c a where step: "stitch_line current active l = Some (p, c, a)" "pred_option str_ok p" "str_ok c"
    using stitch_line_ok [of current l active] by auto
  then obtain ls where "context_lines_from c a lines = Some ls" "list_all str_ok ls"
    using Cons(1) [of c a] Cons(3) by auto
  then show ?case using step Cons(3) by (auto split: option.splits)
qed

lemma logical_lines_ok:
  assumes "str_ok t"
  shows "list_all str_ok (logical_lines language t)" "\<exists>ls. context_lines t = Some ls"
  using context_lines_from_ok [of "[]" "str_lines t" False] str_ok_lines [OF assms]
  by (auto simp: logical_lines_def context_lines_def list_all_iff)

section \<open>The emitters hand over the candidates\<close>

lemma emits_value:
  assumes "key_ok key" "str_ok v"
  shows "emits sink (emit_value sink key v keep bare) (value_candidates key v keep bare)"
proof -
  obtain k w where "normalize_key key keep = Some k" "normalize_value v bare = Some w"
    using normalize_key_total [OF assms(1), of keep] normalize_value_total [OF assms(2), of bare] by (auto simp: no_panic_def)
  then show ?thesis by (auto simp: emits_def emit_value_def value_candidates_def split: prod.splits)
qed

lemma emits_capture: "pair_ok caps \<Longrightarrow> emits sink (emit_capture sink keep caps) (capture_candidates keep caps)"
  by (auto simp: emit_capture_def capture_candidates_def pair_ok_def intro: emits_value emits_proceed split: option.splits prod.splits)

lemma emits_captures:
  "list_all pair_ok caps \<Longrightarrow>
   emits sink (emit_each (emit_capture sink keep) caps) (concat (map (capture_candidates keep) caps))"
  by (rule emits_each) (simp add: emits_capture list_all_iff)

lemma emits_values:
  "key_ok key \<Longrightarrow> list_all str_ok vs \<Longrightarrow> emits sink (emit_values sink key keep vs) (list_candidates key keep vs)"
  unfolding emit_values_def list_candidates_def by (rule emits_each) (simp add: emits_value list_all_iff)

lemma literal_values_ok:
  "str_ok body \<Longrightarrow> extract_literal_values body False = Some (literal_values body) \<and> list_all str_ok (literal_values body)"
  using extract_values_good [of body False 0]
  by (auto simp: literal_values_def extract_literal_values_def good_values_def)

lemma emits_list:
  "key_ok key \<Longrightarrow> str_ok body \<Longrightarrow> emits sink (emit_list sink key body keep) (list_candidates key keep (literal_values body))"
  using emits_values [of key "literal_values body" sink keep] literal_values_ok [of body]
  by (simp add: emits_def emit_list_def emit_values_def)

lemma emits_any_list:
  "pred_option pair_ok (assignment_any_re re line) \<Longrightarrow>
   emits sink (emit_assignment_lists re sink line False) (any_list_candidates (assignment_any_re re line))"
  by (auto simp: emit_assignment_lists_def any_list_candidates_def pair_ok_def intro!: emits_list emits_proceed
      split: option.splits)

lemma emits_assigned_list:
  "pair_ok caps \<Longrightarrow> emits sink (case caps of (Some key, Some body) \<Rightarrow> emit_list sink key body False | _ \<Rightarrow> proceed)
     (assigned_list_candidates caps)"
  by (auto simp: assigned_list_candidates_def pair_ok_def intro: emits_list emits_proceed split: option.splits prod.splits)

lemma emits_embedded:
  assumes "list_all str_ok vs"
  shows "emits sink
    (if 2 \<le> length vs then
       let first = trim_matches [squote] (trim_matches [dquote] (vs ! 0))
       in if looks_like_embedded_key first then emit_value sink first (vs ! 1) True False else proceed
     else proceed)
    (if 2 \<le> length vs then
       let first = trim_matches [squote] (trim_matches [dquote] (vs ! 0))
       in if looks_like_embedded_key first then value_candidates first (vs ! 1) True False else []
     else [])"
proof (cases "2 \<le> length vs")
  case True
  let ?first = "trim_matches [squote] (trim_matches [dquote] (vs ! 0))"
  have "vs ! 0 \<in> set vs" "vs ! 1 \<in> set vs" using True by (auto intro!: nth_mem)
  then have ok: "str_ok ?first" "str_ok (vs ! 1)"
    using assms by (auto simp: list_all_iff intro!: str_ok_trim_matches)
  show ?thesis
  proof (cases "looks_like_embedded_key ?first")
    case emb: True
    then show ?thesis using True emits_value [OF embedded_key_ok [OF emb ok(1)] ok(2)] by (simp add: Let_def)
  qed (use True in \<open>simp add: Let_def emits_proceed\<close>)
qed (simp add: emits_proceed)

lemma emits_call:
  assumes "call_ok caps"
  shows "emits sink (emit_call sink False caps) (call_candidates caps)"
proof (cases caps)
  case (fields assign call args)
  show ?thesis
  proof (cases "(call, args)" rule: prod.exhaust)
    case (Pair x y)
    then consider (skip) "call = None \<or> args = None" | (both) c a where "call = Some c" "args = Some a"
      by (cases call; cases args) auto
    then show ?thesis
    proof cases
      case skip
      then show ?thesis using fields
        by (auto simp: emits_def emit_call_def call_candidates_def proceed_def split: option.splits)
    next
      case both
      let ?vs = "literal_values a"
      have vs: "extract_literal_values a False = Some ?vs" "list_all str_ok ?vs"
        using literal_values_ok assms fields both by (auto simp: call_ok_def)
      have name: "key_ok (normalize_call_name c)" using call_name_ok assms fields both by (auto simp: call_ok_def)
      have assigned: "emits sink (case assign of Some key \<Rightarrow> emit_values sink key False ?vs | None \<Rightarrow> proceed)
          (case assign of Some key \<Rightarrow> list_candidates key False ?vs | None \<Rightarrow> [])"
        using assms fields vs(2) by (auto simp: call_ok_def intro: emits_values emits_proceed split: option.splits)
      note all = emits_and [OF assigned emits_and [OF emits_values [OF name vs(2), of sink True] emits_embedded [OF vs(2), of sink]]]
      show ?thesis
      proof (cases "?vs = []")
        case True
        then show ?thesis using vs(1) fields both
          by (simp add: emits_def emit_call_def call_candidates_def list_candidates_def proceed_def split: option.splits)
      next
        case False
        then show ?thesis using all vs(1) fields both
          by (simp add: emits_def emit_call_def call_candidates_def Let_def)
      qed
    qed
  qed
qed

lemma run_lines_offers:
  assumes "lines = Some ls" "\<And>l. l \<in> set ls \<Longrightarrow> emits sink (f l) (g l)"
  shows "run_lines lines f s = Some (snd (offer sink (concat (map g ls)) s))"
  using emits_each [of ls sink f g] assms by (simp add: run_lines_def emits_def)

lemma emits_line:
  assumes "captures_ok re" "str_ok line"
  shows "emits sink (emit_assignment_literals re sink line keep)
      (concat (map (capture_candidates keep) (assignment_literal_re re line)))"
    "emits sink (emit_typed_assignment_literals re sink line)
      (concat (map (capture_candidates False) (typed_assignment_literal_re re line)))"
    "emits sink (emit_pairs re sink line keep) (concat (map (capture_candidates keep) (pair_literal_re re line)))"
    "emits sink (emit_type_literals re sink line) (concat (map (capture_candidates False) (type_literal_re re line)))"
    "emits sink (emit_assignment_lists re sink line False) (any_list_candidates (assignment_any_re re line))"
    "emits sink (emit_brace_list_assignments re sink line) (concat (map assigned_list_candidates (brace_list_assign_re re line)))"
    "emits sink (emit_calls re sink line False) (concat (map call_candidates (call_re re line)))"
proof -
  have ok: "list_all pair_ok (assignment_literal_re re line)" "pred_option pair_ok (assignment_any_re re line)"
    "list_all pair_ok (typed_assignment_literal_re re line)" "list_all pair_ok (pair_literal_re re line)"
    "list_all pair_ok (type_literal_re re line)" "list_all call_ok (call_re re line)"
    "list_all pair_ok (brace_list_assign_re re line)"
    using assms by (simp_all add: captures_ok_def)
  then show "emits sink (emit_assignment_literals re sink line keep)
      (concat (map (capture_candidates keep) (assignment_literal_re re line)))"
    "emits sink (emit_typed_assignment_literals re sink line)
      (concat (map (capture_candidates False) (typed_assignment_literal_re re line)))"
    "emits sink (emit_pairs re sink line keep) (concat (map (capture_candidates keep) (pair_literal_re re line)))"
    "emits sink (emit_type_literals re sink line) (concat (map (capture_candidates False) (type_literal_re re line)))"
    "emits sink (emit_assignment_lists re sink line False) (any_list_candidates (assignment_any_re re line))"
    by (simp_all add: emit_assignment_literals_def emit_typed_assignment_literals_def emit_pairs_def
        emit_type_literals_def emits_captures emits_any_list)
  show "emits sink (emit_brace_list_assignments re sink line) (concat (map assigned_list_candidates (brace_list_assign_re re line)))"
    unfolding emit_brace_list_assignments_def using ok(7)
    by (intro emits_each emits_assigned_list) (simp add: list_all_iff)
  show "emits sink (emit_calls re sink line False) (concat (map call_candidates (call_re re line)))"
    unfolding emit_calls_def using ok(6) by (intro emits_each emits_call) (simp add: list_all_iff)
qed

lemma emits_yaml:
  assumes "str_ok line"
  shows "emits sink (emit_yaml_line sink line) (yaml_candidates line)"
proof -
  have "key_ok (str_trim (trim_start_matches ''-'' k)) \<and> str_ok v" if "split_mapping_pair (str_trim line) = Some (k, v)" for k v
  proof -
    have "key_ok k" "str_ok v"
      using split_unquoted_key_ok [of "CHR '':''" "str_trim line" k v] that str_ok_trim [OF assms]
      by (simp_all add: split_mapping_pair_def is_quote_def is_ascii_def byte_val_def)
    then show ?thesis
      by (auto simp: key_ok_def filter_quote_trim filter_quote_trim_matches is_quote_def is_ascii_def byte_val_def
          intro!: str_ok_trim str_ok_trim_start_matches)
  qed
  then show ?thesis
    by (auto simp: emit_yaml_line_def yaml_candidates_def Let_def intro!: emits_value emits_proceed split: option.splits)
qed

lemma emits_toml:
  assumes "str_ok line"
  shows "emits sink (emit_toml_line sink line) (toml_candidates line)"
proof -
  have "key_ok k \<and> str_ok v" if "split_assignment (str_trim line) (CHR ''='') = Some (k, v)" for k v
    using split_unquoted_key_ok [of "CHR ''=''" "str_trim line" k v] that str_ok_trim [OF assms]
    by (simp add: split_assignment_def is_quote_def is_ascii_def byte_val_def)
  then show ?thesis
    by (auto simp: emit_toml_line_def toml_candidates_def Let_def intro!: emits_value emits_proceed split: option.splits)
qed

section \<open>The extractors hand over the candidates\<close>

text \<open>A run over the logical lines of cleaned text, for any line emitter.\<close>

lemma offers_context_lines:
  assumes "\<And>l. str_ok l \<Longrightarrow> emits sink (f l) (line_candidates re language l)" "language \<notin> {Bash, Yaml, Toml}"
  shows "run_lines (context_lines (strip_comments t style)) f s =
    Some (snd (offer sink (concat (map (line_candidates re language) (logical_lines language (strip_comments t style)))) s))"
proof -
  obtain ls where ls: "context_lines (strip_comments t style) = Some ls"
    using logical_lines_ok(2) [OF str_ok_strip_comments] by blast
  then have lines: "logical_lines language (strip_comments t style) = ls" using assms(2) by (simp add: logical_lines_def)
  then have "list_all str_ok ls" using logical_lines_ok(1) [OF str_ok_strip_comments, of language t style] by simp
  then show ?thesis unfolding lines using assms(1) by (intro run_lines_offers [OF ls]) (simp add: list_all_iff)
qed

lemma offers_lines:
  assumes "\<And>l. str_ok l \<Longrightarrow> emits sink (f l) (line_candidates re language l)" "language \<in> {Bash, Yaml, Toml}"
  shows "run_lines (Some (str_lines (strip_comments t style))) f s =
    Some (snd (offer sink (concat (map (line_candidates re language) (logical_lines language (strip_comments t style)))) s))"
proof -
  have lines: "logical_lines language (strip_comments t style) = str_lines (strip_comments t style)"
    using assms(2) by (simp add: logical_lines_def)
  show ?thesis unfolding lines using assms(1) str_ok_lines [OF str_ok_strip_comments]
    by (intro run_lines_offers [OF refl]) auto
qed

lemma emits_if: "emits sink a as \<Longrightarrow> emits sink b bs \<Longrightarrow> emits sink (if P then a else b) (if P then as else bs)"
  by simp

lemma line_c:
  assumes "captures_ok re" "str_ok l" "language \<in> {C, CSharp, Cpp, Go, Java}"
  shows "emits sink (and_emit (emit_assignment_literals re sink l False) (and_emit (emit_brace_list_assignments re sink l)
      (if language = Cpp \<and> looks_like_cpp_ctor_initializer_line l then proceed else emit_calls re sink l False)))
    (line_candidates re language l)"
  using emits_and [OF emits_line(1) [OF assms(1,2), of sink False] emits_and [OF emits_line(6) [OF assms(1,2)]
      emits_if [OF emits_proceed emits_line(7) [OF assms(1,2)], where P = "language = Cpp \<and> looks_like_cpp_ctor_initializer_line l"]]] assms(3)
  by (auto simp: line_candidates_def Let_def)

lemma line_js:
  assumes "captures_ok re" "str_ok l"
  shows "emits sink
    (and_emit (if types then emit_typed_assignment_literals re sink l else proceed)
    (and_emit (emit_assignment_literals re sink l False)
    (and_emit (emit_pairs re sink l False)
    (and_emit (if types then emit_type_literals re sink l else proceed)
    (and_emit (emit_assignment_lists re sink l False) (emit_calls re sink l False))))))
    (line_candidates re (if types then TypeScript else JavaScript) l)"
  using emits_and [OF emits_if [OF emits_line(2) [OF assms(1,2)] emits_proceed, where P = types] emits_and [OF emits_line(1) [OF assms(1,2), of sink False]
      emits_and [OF emits_line(3) [OF assms(1,2), of sink False] emits_and [OF emits_if [OF emits_line(4) [OF assms(1,2)] emits_proceed, where P = types]
      emits_and [OF emits_line(5) [OF assms(1,2)] emits_line(7) [OF assms(1,2)]]]]]]
  by (cases types) (simp_all add: line_candidates_def Let_def)

lemma line_py:
  assumes "captures_ok re" "str_ok l"
  shows "emits sink (and_emit (emit_assignment_literals re sink l False) (and_emit (emit_pairs re sink l True) (emit_calls re sink l False)))
    (line_candidates re Python l)"
  using emits_and [OF emits_line(1) [OF assms(1,2), of sink False] emits_and [OF emits_line(3) [OF assms(1,2), of sink True] emits_line(7) [OF assms(1,2)]]]
  by (simp add: line_candidates_def Let_def)

lemma line_rb:
  assumes "captures_ok re" "str_ok l" "language \<in> {Ruby, Php}"
  shows "emits sink (and_emit (emit_assignment_literals re sink l False) (and_emit (emit_assignment_lists re sink l False) (emit_calls re sink l False)))
    (line_candidates re language l)"
  using emits_and [OF emits_line(1) [OF assms(1,2), of sink False] emits_and [OF emits_line(5) [OF assms(1,2)] emits_line(7) [OF assms(1,2)]]] assms(3)
  by (auto simp: line_candidates_def Let_def)

lemma line_rs:
  assumes "captures_ok re" "str_ok l"
  shows "emits sink (and_emit (emit_typed_assignment_literals re sink l) (and_emit (emit_assignment_literals re sink l False) (emit_calls re sink l False)))
    (line_candidates re Rust l)"
  using emits_and [OF emits_line(2) [OF assms(1,2)] emits_and [OF emits_line(1) [OF assms(1,2), of sink False] emits_line(7) [OF assms(1,2)]]]
  by (simp add: line_candidates_def Let_def)

lemma line_sh:
  assumes "captures_ok re" "str_ok l"
  shows "emits sink (emit_assignment_literals re sink l False) (line_candidates re Bash l)"
  using emits_line(1) [OF assms(1,2), of sink False] by (simp add: line_candidates_def Let_def)

lemma line_ya:
  assumes "captures_ok re" "str_ok l"
  shows "emits sink (emit_yaml_line sink l) (line_candidates re Yaml l)" "emits sink (emit_toml_line sink l) (line_candidates re Toml l)"
  using emits_yaml [OF assms(2)] emits_toml [OF assms(2)] by (simp_all add: line_candidates_def Let_def)

lemma lexer_stream_lines:
  assumes re: "captures_ok re" and t: "from_utf8_lossy source \<noteq> []"
  shows "lexer_stream re sink source language s = Some (snd (offer sink (context_candidates re language source) s))"
proof -
  note defs = lexer_stream_def context_candidates_def Let_def style_of_def
  have none: "context_candidates re language source = []" if "language \<in> {Css, Html}"
    using that by (auto simp: context_candidates_def line_candidates_def Let_def)
  show ?thesis
  proof (cases language)
    case Bash then show ?thesis using t offers_lines [of sink, OF line_sh [OF re]] by (simp add: defs extract_bash_def)
  next
    case Yaml then show ?thesis using t offers_lines [of sink, OF line_ya(1) [OF re]] by (simp add: defs extract_yaml_def)
  next
    case Toml then show ?thesis using t offers_lines [of sink, OF line_ya(2) [OF re]] by (simp add: defs extract_toml_def)
  next
    case Python then show ?thesis using t offers_context_lines [of sink, OF line_py [OF re]] by (simp add: defs extract_python_def)
  next
    case Ruby then show ?thesis using t offers_context_lines [of sink, OF line_rb [OF re, where language = language]] by (simp add: defs extract_ruby_def)
  next
    case Php then show ?thesis using t offers_context_lines [of sink, OF line_rb [OF re, where language = language]] by (simp add: defs extract_php_def)
  next
    case Rust then show ?thesis using t offers_context_lines [of sink, OF line_rs [OF re]] by (simp add: defs extract_rust_def)
  next
    case JavaScript then show ?thesis using t offers_context_lines [of sink, OF line_js [OF re, where types = False]]
      by (simp add: defs extract_javascript_like_def)
  next
    case TypeScript then show ?thesis using t offers_context_lines [of sink, OF line_js [OF re, where types = True]]
      by (simp add: defs extract_javascript_like_def)
  next
    case Css then show ?thesis using none by (simp add: lexer_stream_def Let_def)
  next
    case Html then show ?thesis using none by (simp add: lexer_stream_def Let_def)
  qed (use t offers_context_lines [of sink, OF line_c [OF re, where language = language]] in \<open>simp add: defs extract_c_style_def\<close>)+
qed

lemma strip_nil: "strip_comments [] style = []"
  by (simp add: strip_comments_def strip_bytes_def)

lemma logical_lines_nil: "logical_lines language [] = []"
  by (simp add: logical_lines_def str_lines_def context_lines_def)

text \<open>
  C16. Streaming: for every source, language and sink the lexer does not panic and hands the sink
  exactly the candidates of the source, in order, until the sink refuses one; a sink that is never
  satisfied sees all of them.  The captured groups are those the patterns allow.
\<close>

theorem stream_offers_candidates:
  assumes "captures_ok re"
  shows "lexer_stream re sink source language s =
    Some (snd (offer sink (context_candidates re language source) s))"
proof (cases "from_utf8_lossy source = []")
  case True
  then show ?thesis
    by (simp add: lexer_stream_def context_candidates_def strip_nil logical_lines_nil)
next
  case False
  then show ?thesis by (rule lexer_stream_lines [OF assms])
qed

definition sample_regexes :: lexer_regexes where
  "sample_regexes =
     \<lparr>assignment_literal_re = (\<lambda>line. if line = ''k=1'' then [(Some ''k'', Some ''1'')] else []),
      assignment_any_re = (\<lambda>_. None), typed_assignment_literal_re = (\<lambda>_. []), pair_literal_re = (\<lambda>_. []),
      type_literal_re = (\<lambda>_. []), call_re = (\<lambda>_. []), brace_list_assign_re = (\<lambda>_. [])\<rparr>"

theorem stream_offers_candidates_witness:
  "captures_ok sample_regexes \<and>
   lexer_stream sample_regexes (\<lambda>c seen. (False, c # seen)) ''k=1'' Bash [] =
     Some (snd (offer (\<lambda>c seen. (False, c # seen)) (context_candidates sample_regexes Bash ''k=1'') []))"
proof -
  have ok: "captures_ok sample_regexes"
    by (simp add: captures_ok_def sample_regexes_def pair_ok_def key_ok_def is_quote_def is_ascii_def byte_val_def)
  show ?thesis using ok stream_offers_candidates [OF ok, of "\<lambda>c seen. (False, c # seen)" "''k=1''" Bash "[]"] by simp
qed

section \<open>Logical lines\<close>

definition joined :: "bytes list \<Rightarrow> bytes" where
  "joined lines = concat (map (\<lambda>l. '' '' @ l) (filter (\<lambda>l. l \<noteq> []) (map str_trim lines)))"











text \<open>
  A comparison counts as an assignment: the search for an assignment operator skips the first
  character of a double equals sign and then accepts the second one, although single comparisons with
  an exclamation mark or an angle bracket are skipped.
\<close>

lemma comparison_counts_as_assignment:
  "contains_assignment_operator ''a == b'' \<and> \<not> contains_assignment_operator ''a != b'' \<and>
   \<not> contains_assignment_operator ''a <= b''"
  by code_simp

end
