(* ===== verification/Specificity.thy ===== *)
theory Specificity
  imports Component_Index "HOL-Library.Multiset"
begin

text \<open>
  Specificity precedence: \<open>specificity_keep\<close> of \<open>crates/kingfisher-scanner/src/postprocess.rs\<close>.

  On one source line a finding of higher rank suppresses a finding of another rule whose value it
  contains; helpers act through the visible findings that own them.  The code resolves these
  suppressions with a worklist.  The theory shows that the outcome is the grounded one: a finding is
  suppressed exactly when some surviving finding is a cause against it, where a finding survives when
  everything against it is suppressed; findings in unresolved cycles are kept.

  The iteration orders of hash maps and hash sets are not specified; they are parameters, and the
  result holds for every order.
\<close>

section \<open>Folds under a scan control\<close>

fun fold_ctl :: "('a \<Rightarrow> 's \<Rightarrow> 's ctl) \<Rightarrow> 'a list \<Rightarrow> 's \<Rightarrow> 's ctl" where
  "fold_ctl f [] s = ret s"
| "fold_ctl f (x # xs) s = bind (f x s) (fold_ctl f xs)"

lemma yields_fold:
  "(\<And>x s. x \<in> set xs \<Longrightarrow> yields (f x s) (g x s)) \<Longrightarrow> yields (fold_ctl f xs s) (fold g xs s)"
proof (induction xs arbitrary: s)
  case Nil
  then show ?case by (simp add: yields_ret)
next
  case (Cons x xs)
  then show ?case by (auto intro!: yields_bind [of _ "g x s"])
qed

lemma fold_ctl_snoc: "fold_ctl f (xs @ [x]) s = bind (fold_ctl f xs s) (f x)"
  by (induction xs arbitrary: s) (auto simp: bind_def ret_def fun_eq_iff split: sum.splits)

section \<open>\<open>specificity_keep\<close>\<close>

type_synonym entry = "rule \<times> nat \<times> bytes"

definition en_rule :: "entry list \<Rightarrow> nat \<Rightarrow> rule" where
  "en_rule entries i = fst (entries ! i)"

definition en_line :: "entry list \<Rightarrow> nat \<Rightarrow> nat" where
  "en_line entries i = fst (snd (entries ! i))"

definition en_value :: "entry list \<Rightarrow> nat \<Rightarrow> bytes" where
  "en_value entries i = snd (snd (entries ! i))"

text \<open>\<open>map.entry(key).or_default().push(index)\<close>\<close>

fun push_group :: "'k \<Rightarrow> 'v \<Rightarrow> ('k \<times> 'v list) list \<Rightarrow> ('k \<times> 'v list) list" where
  "push_group k i [] = [(k, [i])]"
| "push_group k i ((k', is) # gs) = (if k = k' then (k', is @ [i]) # gs else (k', is) # push_group k i gs)"

definition group_rules :: "entry list \<Rightarrow> (bytes \<times> nat list) list" where
  "group_rules entries = fold (\<lambda>i. push_group (rl_id (en_rule entries i)) i) [0..<length entries] []"

definition group_get :: "('k \<times> 'v list) list \<Rightarrow> 'k \<Rightarrow> 'v list" where
  "group_get gs k = (case map_of gs k of None \<Rightarrow> [] | Some is \<Rightarrow> is)"

type_synonym attached = "nat \<Rightarrow> nat \<Rightarrow> depends_on_rule \<Rightarrow> bool"

definition collect_components :: "entry list \<Rightarrow> attached \<Rightarrow> nat list list ctl" where
  "collect_components entries component_attached =
     fold_ctl (\<lambda>primary components. checked
       (fold_ctl (\<lambda>dependency.
          fold_ctl (\<lambda>component components. checked (ret
            (if component_attached primary component dependency
             then components[primary := components ! primary @ [component]]
             else components)))
          (group_get (group_rules entries) (dep_rule_id dependency)))
        (flatten (rl_depends_on (en_rule entries primary))) components))
     [0..<length entries] (replicate (length entries) [])"

text \<open>The search for everything a visible finding owns.\<close>

type_synonym bfs_state = "nat list \<times> nat list list \<times> nat list"

definition visit_component :: "nat \<Rightarrow> nat \<Rightarrow> bfs_state \<Rightarrow> bfs_state" where
  "visit_component owner component st =
     (case st of (visited, owners, queue) \<Rightarrow>
        if component < length visited \<and> visited ! component \<noteq> owner then
          (visited[component := owner], owners[component := owners ! component @ [owner]], queue @ [component])
        else st)"

definition unvisited :: "nat \<Rightarrow> nat list \<Rightarrow> nat" where
  "unvisited owner visited = length (filter (\<lambda>v. v \<noteq> owner) visited)"

lemma unvisited_update:
  "c < length visited \<Longrightarrow> visited ! c \<noteq> owner \<Longrightarrow> Suc (unvisited owner (visited[c := owner])) = unvisited owner visited"
proof (induction visited arbitrary: c)
  case (Cons v vs)
  then show ?case by (cases c) (auto simp: unvisited_def)
qed simp

definition bfs_work :: "nat \<Rightarrow> bfs_state \<Rightarrow> nat" where
  "bfs_work owner st = (case st of (visited, owners, queue) \<Rightarrow> 2 * unvisited owner visited + length queue)"

lemma bfs_work_visit: "bfs_work owner (fold (visit_component owner) cs st) \<le> bfs_work owner st"
proof (induction cs arbitrary: st)
  case (Cons c cs)
  obtain visited owners queue where st: "st = (visited, owners, queue)" by (cases st)
  have "bfs_work owner (visit_component owner c st) \<le> bfs_work owner st"
    using unvisited_update [of c visited owner] by (auto simp: st visit_component_def bfs_work_def)
  then show ?case using Cons [of "visit_component owner c st"] by simp
qed simp

function own_loop :: "nat list list \<Rightarrow> nat \<Rightarrow> bfs_state \<Rightarrow> bfs_state ctl" where
  "own_loop components owner (visited, owners, queue) =
     (case queue of
        [] \<Rightarrow> ret (visited, owners, [])
      | primary # rest \<Rightarrow>
          checked (own_loop components owner
            (fold (visit_component owner) (components ! primary) (visited, owners, rest))))"
  by pat_completeness auto
termination
proof (relation "measure (\<lambda>(components, owner, st). bfs_work owner st)", goal_cases)
  case (2 components owner visited owners queue primary rest)
  then show ?case
    using bfs_work_visit [of owner "components ! primary" "(visited, owners, rest)"] by (simp add: bfs_work_def)
qed simp

definition collect_owners :: "entry list \<Rightarrow> nat list list \<Rightarrow> nat list list ctl" where
  "collect_owners entries components =
     bind (fold_ctl (\<lambda>owner st. case st of (visited, owners, queue) \<Rightarrow>
         if \<not> rl_visible (en_rule entries owner) \<or> components ! owner = [] then ret st
         else own_loop components owner (visited[owner := owner], owners, queue @ [owner]))
       [0..<length entries]
       (replicate (length entries) usize_max, replicate (length entries) [], []))
     (\<lambda>(visited, owners, queue). ret owners)"

definition group_lines :: "entry list \<Rightarrow> (nat \<times> nat list) list ctl" where
  "group_lines entries =
     fold_ctl (\<lambda>i gs. checked (ret (push_group (en_line entries i) i gs))) [0..<length entries] []"

definition by_specificity :: "entry list \<Rightarrow> nat list \<Rightarrow> nat list" where
  "by_specificity entries indexes = sort_key (\<lambda>i. - rl_specificity (en_rule entries i)) indexes"

text \<open>\<open>FxHashSet::insert\<close> and \<open>extend\<close>\<close>

definition set_add :: "nat \<Rightarrow> nat list \<Rightarrow> nat list" where
  "set_add x xs = (if x \<in> set xs then xs else xs @ [x])"

fun collect_causes :: "entry list \<Rightarrow> nat list list \<Rightarrow> nat \<Rightarrow> nat list \<Rightarrow> nat list \<Rightarrow> nat list ctl" where
  "collect_causes entries owners index [] causes = ret causes"
| "collect_causes entries owners index (higher # rest) causes = checked
     (let rule = en_rule entries index; other = en_rule entries higher in
      if rl_specificity other \<le> rl_specificity rule then ret causes
      else if rl_id other = rl_id rule \<or> \<not> contains_slice (en_value entries index) (en_value entries higher)
      then collect_causes entries owners index rest causes
      else
        let causes = (if rl_visible other then set_add higher causes else causes);
            causes = (if index \<in> set (owners ! higher) then causes else fold set_add (owners ! higher) causes)
        in collect_causes entries owners index rest causes)"

type_synonym graph = "nat list list \<times> nat list"

definition add_causes :: "nat \<Rightarrow> nat list \<Rightarrow> graph \<Rightarrow> graph" where
  "add_causes index causes g =
     (case g of (dependents, remaining) \<Rightarrow>
        (fold (\<lambda>cause ds. ds[cause := ds ! cause @ [index]]) causes dependents, remaining[index := length causes]))"

definition line_causes :: "entry list \<Rightarrow> nat list list \<Rightarrow> (nat list \<Rightarrow> nat list) \<Rightarrow> nat list \<Rightarrow> graph \<Rightarrow> graph ctl" where
  "line_causes entries owners cause_order indexes =
     fold_ctl (\<lambda>(position, index) g. checked
       (if en_value entries index = [] \<or> \<not> rl_visible (en_rule entries index) then ret g
        else bind (collect_causes entries owners index (take position indexes) [])
               (\<lambda>causes. ret (add_causes index (cause_order causes) g))))
     (enumerate 0 indexes)"

text \<open>The resolution of the suppressions.\<close>

type_synonym resolve_state = "bool option list \<times> nat list \<times> nat list"

definition resolve_dependent :: "bool \<Rightarrow> nat \<Rightarrow> resolve_state \<Rightarrow> resolve_state" where
  "resolve_dependent survives dependent st =
     (case st of (reported, remaining, queue) \<Rightarrow>
        if dependent < length reported \<and> reported ! dependent = None then
          if survives then (reported[dependent := Some False], remaining, queue @ [dependent])
          else
            let remaining = remaining[dependent := remaining ! dependent - 1] in
            if remaining ! dependent = 0 then (reported[dependent := Some True], remaining, queue @ [dependent])
            else (reported, remaining, queue)
        else st)"

definition unresolved :: "resolve_state \<Rightarrow> nat" where
  "unresolved st = (case st of (reported, remaining, queue) \<Rightarrow>
     2 * length (filter (\<lambda>r. r = None) reported) + length queue)"

lemma filter_none_update:
  "d < length rs \<Longrightarrow> rs ! d = None \<Longrightarrow> Suc (length (filter (\<lambda>r. r = None) (rs[d := Some b]))) = length (filter (\<lambda>r. r = None) rs)"
proof (induction rs arbitrary: d)
  case (Cons v vs)
  then show ?case by (cases d) auto
qed simp

lemma unresolved_step: "unresolved (fold (resolve_dependent survives) ds st) \<le> unresolved st"
proof (induction ds arbitrary: st)
  case (Cons d ds)
  obtain reported remaining queue where st: "st = (reported, remaining, queue)" by (cases st)
  have "unresolved (resolve_dependent survives d st) \<le> unresolved st"
    using filter_none_update [of d reported] by (auto simp: st resolve_dependent_def unresolved_def Let_def Suc_le_eq)
      (metis Suc_leI lessI less_Suc_eq_le mult_le_mono2 nat_le_linear not_less_eq_eq)+
  then show ?case using Cons [of "resolve_dependent survives d st"] by simp
qed simp

lemma yields_resolve_dependents:
  "yields (fold_ctl (\<lambda>d st. checked (ret (resolve_dependent survives d st))) ds st)
     (fold (resolve_dependent survives) ds st)"
  by (rule yields_fold) (intro yields_intro)

text \<open>The work queue; \<open>None\<close> is the failure of \<open>expect\<close> on a queued finding without a verdict.\<close>

function resolve_loop :: "nat list list \<Rightarrow> resolve_state \<Rightarrow> bool option list option ctl" where
  "resolve_loop dependents (reported, remaining, queue) =
     (case queue of
        [] \<Rightarrow> ret (Some reported)
      | primary # rest \<Rightarrow> checked
          (case slice_get reported primary of
             Some (Some survives) \<Rightarrow>
               bind (fold_ctl (\<lambda>d st. checked (ret (resolve_dependent survives d st))) (dependents ! primary)
                       (reported, remaining, rest))
                 (resolve_loop dependents)
           | _ \<Rightarrow> ret None))"
  by pat_completeness auto
termination
proof (relation "measure (\<lambda>(dependents, st). unresolved st)", goal_cases)
  case (2 dependents reported remaining queue primary rest c t u t' v survives c' t2 st t3)
  have "st = fold (resolve_dependent survives) (dependents ! primary) (reported, remaining, rest)"
    using yieldsD [OF yields_resolve_dependents 2(5)] .
  then show ?case
    using unresolved_step [of survives "dependents ! primary" "(reported, remaining, rest)"] 2(1) by (simp add: unresolved_def)
qed simp

declare own_loop.simps [simp del]
declare resolve_loop.simps [simp del]

record specificity_outcome =
  so_keep :: "bool list"
  so_suppress_reporting :: "bool list"

definition specificity_outcome_of :: "nat list list \<Rightarrow> bool option list \<Rightarrow> specificity_outcome" where
  "specificity_outcome_of owners reported =
     \<lparr>so_keep = map (\<lambda>(os, r). \<not> (r = Some False \<and> os = [])) (zip owners reported),
      so_suppress_reporting = map (\<lambda>(os, r). r = Some False \<and> os \<noteq> []) (zip owners reported)\<rparr>"

definition specificity_keep ::
  "(nat list list \<Rightarrow> nat list list) \<Rightarrow> (nat list \<Rightarrow> nat list) \<Rightarrow> entry list \<Rightarrow> attached \<Rightarrow>
   specificity_outcome option ctl" where
  "specificity_keep line_order cause_order entries component_attached =
     (let n = length entries in
      if list_all (\<lambda>(rule, _, _). rl_specificity rule = 0) entries
      then ret (Some \<lparr>so_keep = replicate n True, so_suppress_reporting = replicate n False\<rparr>)
      else
        bind (collect_components entries component_attached) (\<lambda>components.
        bind (collect_owners entries components) (\<lambda>owners.
        bind (group_lines entries) (\<lambda>lines.
        bind (fold_ctl (line_causes entries owners cause_order)
                (line_order (map (by_specificity entries \<circ> snd) lines)) (replicate n [], replicate n 0))
          (\<lambda>(dependents, remaining).
        let ready = filter (\<lambda>i. rl_visible (en_rule entries i) \<and> remaining ! i = 0) [0..<n];
            reported = map (\<lambda>i. if i \<in> set ready then Some True else None) [0..<n]
        in bind (resolve_loop dependents (reported, remaining, ready)) (\<lambda>reported.
             ret (map_option (specificity_outcome_of owners) reported)))))))"

section \<open>What it means\<close>

text \<open>A component edge, ownership through chains of components, and the causes against a finding.\<close>

definition component_edge :: "entry list \<Rightarrow> attached \<Rightarrow> nat \<Rightarrow> nat \<Rightarrow> bool" where
  "component_edge entries component_attached p c \<longleftrightarrow>
     p < length entries \<and> c < length entries \<and>
     (\<exists>d \<in> set (flatten (rl_depends_on (en_rule entries p))).
        dep_rule_id d = rl_id (en_rule entries c) \<and> component_attached p c d)"

definition owns :: "entry list \<Rightarrow> attached \<Rightarrow> nat \<Rightarrow> nat \<Rightarrow> bool" where
  "owns entries component_attached owner c \<longleftrightarrow>
     rl_visible (en_rule entries owner) \<and> c \<noteq> owner \<and> (component_edge entries component_attached)\<^sup>+\<^sup>+ owner c"

definition outranks :: "entry list \<Rightarrow> nat \<Rightarrow> nat \<Rightarrow> bool" where
  "outranks entries h i \<longleftrightarrow>
     h < length entries \<and> i < length entries \<and> en_line entries h = en_line entries i \<and>
     rl_specificity (en_rule entries i) < rl_specificity (en_rule entries h) \<and>
     rl_id (en_rule entries h) \<noteq> rl_id (en_rule entries i) \<and>
     rl_visible (en_rule entries i) \<and> en_value entries i \<noteq> [] \<and>
     contains_slice (en_value entries i) (en_value entries h)"

definition cause :: "entry list \<Rightarrow> attached \<Rightarrow> nat \<Rightarrow> nat \<Rightarrow> bool" where
  "cause entries component_attached c i \<longleftrightarrow> (\<exists>h. outranks entries h i \<and>
     (rl_visible (en_rule entries h) \<and> c = h \<or>
      owns entries component_attached c h \<and> \<not> owns entries component_attached i h))"

inductive survives_under and suppressed_under :: "(nat \<Rightarrow> nat set) \<Rightarrow> nat set \<Rightarrow> nat \<Rightarrow> bool"
  for causes :: "nat \<Rightarrow> nat set" and findings :: "nat set" where
  survive: "i \<in> findings \<Longrightarrow> (\<And>c. c \<in> causes i \<Longrightarrow> suppressed_under causes findings c) \<Longrightarrow> survives_under causes findings i"
| suppress: "c \<in> causes i \<Longrightarrow> survives_under causes findings c \<Longrightarrow> suppressed_under causes findings i"

lemma survives_not_suppressed:
  "survives_under causes findings i \<Longrightarrow> \<not> suppressed_under causes findings i"
  "suppressed_under causes findings i \<Longrightarrow> \<not> survives_under causes findings i"
proof (induction rule: survives_under_suppressed_under.inducts)
  case (survive i)
  then show ?case by (auto elim: suppressed_under.cases)
next
  case (suppress c i)
  then show ?case by (auto elim: survives_under.cases)
qed

section \<open>The worklist\<close>

lemma resolve_all_survives:
  assumes "distinct ds" "set ds \<subseteq> {..<length reported}"
  shows "fold (resolve_dependent True) ds (reported, remaining, queue) =
    (map (\<lambda>i. if i \<in> set ds \<and> reported ! i = None then Some False else reported ! i) [0..<length reported],
     remaining, queue @ filter (\<lambda>i. reported ! i = None) ds)"
  using assms
proof (induction ds arbitrary: reported queue)
  case Nil
  then show ?case by (simp add: map_nth)
next
  case (Cons d ds)
  have d: "d < length reported" "d \<notin> set ds" using Cons(2,3) by auto
  show ?case
  proof (cases "reported ! d = None")
    case True
    let ?r = "reported[d := Some False]"
    have "?r ! i = reported ! i" if "i \<in> set ds" for i using that d(2) by (metis nth_list_update_neq)
    then have "filter (\<lambda>i. ?r ! i = None) ds = filter (\<lambda>i. reported ! i = None) ds"
      by (intro filter_cong) auto
    moreover have "resolve_dependent True d (reported, remaining, queue) = (?r, remaining, queue @ [d])"
      using d True by (simp add: resolve_dependent_def)
    moreover have "map (\<lambda>i. if i \<in> set ds \<and> ?r ! i = None then Some False else ?r ! i) [0..<length reported] =
        map (\<lambda>i. if i \<in> set (d # ds) \<and> reported ! i = None then Some False else reported ! i) [0..<length reported]"
      using d True by (intro nth_equalityI) (auto simp: nth_list_update)
    ultimately show ?thesis using Cons(1) [of ?r "queue @ [d]"] Cons(2,3) True by (simp del: upt_Suc)
  next
    case False
    moreover have "resolve_dependent True d (reported, remaining, queue) = (reported, remaining, queue)"
      using False by (simp add: resolve_dependent_def)
    moreover have "map (\<lambda>i. if i \<in> set ds \<and> reported ! i = None then Some False else reported ! i) [0..<length reported] =
        map (\<lambda>i. if i \<in> set (d # ds) \<and> reported ! i = None then Some False else reported ! i) [0..<length reported]"
      using False by (intro map_cong) auto
    ultimately show ?thesis using Cons(1) [of reported queue] Cons(2,3) by simp
  qed
qed

lemma resolve_all_dies:
  assumes "distinct ds" "set ds \<subseteq> {..<length reported}" "length remaining = length reported"
  shows "fold (resolve_dependent False) ds (reported, remaining, queue) =
    (map (\<lambda>i. if i \<in> set ds \<and> reported ! i = None \<and> remaining ! i \<le> 1 then Some True else reported ! i) [0..<length reported],
     map (\<lambda>i. if i \<in> set ds \<and> reported ! i = None then remaining ! i - 1 else remaining ! i) [0..<length reported],
     queue @ filter (\<lambda>i. reported ! i = None \<and> remaining ! i \<le> 1) ds)"
  using assms
proof (induction ds arbitrary: reported remaining queue)
  case Nil
  then show ?case using map_nth [of reported] map_nth [of remaining] by simp
next
  case (Cons d ds)
  have d: "d < length reported" "d \<notin> set ds" using Cons(2,3) by auto
  show ?case
  proof (cases "reported ! d = None")
    case True
    let ?m = "remaining[d := remaining ! d - 1]" and ?r = "if remaining ! d \<le> 1 then reported[d := Some True] else reported"
    have "?r ! i = reported ! i" "?m ! i = remaining ! i" if "i \<in> set ds" for i
    proof -
      have "d \<noteq> i" using that d(2) by blast
      then show "?r ! i = reported ! i" "?m ! i = remaining ! i" by simp_all
    qed
    then have "filter (\<lambda>i. ?r ! i = None \<and> ?m ! i \<le> 1) ds = filter (\<lambda>i. reported ! i = None \<and> remaining ! i \<le> 1) ds"
      by (intro filter_cong) auto
    moreover have "resolve_dependent False d (reported, remaining, queue) =
        (?r, ?m, queue @ (if remaining ! d \<le> 1 then [d] else []))"
      using d True Cons(4) by (auto simp: resolve_dependent_def Let_def)
    moreover have "map (\<lambda>i. if i \<in> set ds \<and> ?r ! i = None \<and> ?m ! i \<le> 1 then Some True else ?r ! i) [0..<length reported] =
        map (\<lambda>i. if i \<in> set (d # ds) \<and> reported ! i = None \<and> remaining ! i \<le> 1 then Some True else reported ! i)
          [0..<length reported]"
      using d True Cons(4) by (intro nth_equalityI) (auto simp: nth_list_update)
    moreover have "map (\<lambda>i. if i \<in> set ds \<and> ?r ! i = None then ?m ! i - 1 else ?m ! i) [0..<length reported] =
        map (\<lambda>i. if i \<in> set (d # ds) \<and> reported ! i = None then remaining ! i - 1 else remaining ! i) [0..<length reported]"
      using d True Cons(4) by (intro nth_equalityI) (auto simp: nth_list_update)
    moreover have "length ?r = length reported" "length ?m = length reported" using Cons(4) by simp_all
    ultimately show ?thesis
      using Cons(1) [of ?r ?m "queue @ (if remaining ! d \<le> 1 then [d] else [])"] Cons(2-4) True by simp
  next
    case False
    moreover have "resolve_dependent False d (reported, remaining, queue) = (reported, remaining, queue)"
      using False by (auto simp: resolve_dependent_def)
    moreover have "map (\<lambda>i. if i \<in> set ds \<and> reported ! i = None \<and> remaining ! i \<le> 1 then Some True else reported ! i) [0..<length reported] =
        map (\<lambda>i. if i \<in> set (d # ds) \<and> reported ! i = None \<and> remaining ! i \<le> 1 then Some True else reported ! i) [0..<length reported]"
      "map (\<lambda>i. if i \<in> set ds \<and> reported ! i = None then remaining ! i - 1 else remaining ! i) [0..<length reported] =
        map (\<lambda>i. if i \<in> set (d # ds) \<and> reported ! i = None then remaining ! i - 1 else remaining ! i) [0..<length reported]"
      using False by (intro map_cong; auto)+
    ultimately show ?thesis using Cons(1) [of reported remaining queue] Cons(2-4) by simp
  qed
qed

text \<open>The suppressions of a set of findings and their reversal.\<close>

definition graph_ok :: "nat \<Rightarrow> nat set \<Rightarrow> (nat \<Rightarrow> nat set) \<Rightarrow> nat list list \<Rightarrow> bool" where
  "graph_ok n findings causes dependents \<longleftrightarrow>
     findings \<subseteq> {..<n} \<and> (\<forall>i. causes i \<subseteq> findings) \<and> (\<forall>i. causes i \<noteq> {} \<longrightarrow> i \<in> findings) \<and>
     (\<forall>c < n. distinct (dependents ! c) \<and> set (dependents ! c) = {i. c \<in> causes i})"

definition resolving :: "nat \<Rightarrow> nat set \<Rightarrow> (nat \<Rightarrow> nat set) \<Rightarrow> nat set \<Rightarrow> resolve_state \<Rightarrow> bool" where
  "resolving n findings causes handled st \<longleftrightarrow> (case st of (reported, remaining, queue) \<Rightarrow>
     length reported = n \<and> length remaining = n \<and> distinct queue \<and> set queue \<inter> handled = {} \<and>
     set queue \<union> handled = {i. i < n \<and> reported ! i \<noteq> None} \<and>
     (\<forall>i < n. reported ! i = Some True \<longrightarrow> survives_under causes findings i) \<and>
     (\<forall>i < n. reported ! i = Some False \<longrightarrow> suppressed_under causes findings i) \<and>
     (\<forall>i \<in> findings. reported ! i = None \<longrightarrow>
        remaining ! i = card (causes i - {c \<in> handled. reported ! c = Some False}) \<and> 0 < remaining ! i \<and>
        (\<forall>c \<in> causes i \<inter> handled. reported ! c \<noteq> Some True)))"

lemma resolving_complete:
  assumes g: "graph_ok n findings causes dependents" and inv: "resolving n findings causes handled (reported, remaining, [])"
    and i: "i < n"
  shows "reported ! i = Some True \<longleftrightarrow> survives_under causes findings i"
    and "reported ! i = Some False \<longleftrightarrow> suppressed_under causes findings i"
proof -
  have handled: "c \<in> handled \<longleftrightarrow> reported ! c \<noteq> None" if "c < n" for c
    using inv that by (auto simp: resolving_def)
  have sound: "j < n \<Longrightarrow> reported ! j = Some True \<Longrightarrow> survives_under causes findings j"
    "j < n \<Longrightarrow> reported ! j = Some False \<Longrightarrow> suppressed_under causes findings j" for j
    using inv by (auto simp: resolving_def)
  have inv': "\<forall>i \<in> findings. reported ! i = None \<longrightarrow>
        remaining ! i = card (causes i - {c \<in> handled. reported ! c = Some False}) \<and> 0 < remaining ! i \<and>
        (\<forall>c \<in> causes i \<inter> handled. reported ! c \<noteq> Some True)"
    using inv unfolding resolving_def prod.case by blast
  have rest: "j \<in> findings \<Longrightarrow> reported ! j = None \<Longrightarrow>
      causes j - {c \<in> handled. reported ! c = Some False} \<noteq> {} \<and> (\<forall>c \<in> causes j \<inter> handled. reported ! c \<noteq> Some True)" for j
  proof -
    assume "j \<in> findings" "reported ! j = None"
    then have "0 < card (causes j - {c \<in> handled. reported ! c = Some False})"
      and true: "\<forall>c \<in> causes j \<inter> handled. reported ! c \<noteq> Some True"
      using inv' by auto
    from this(1) have "causes j - {c \<in> handled. reported ! c = Some False} \<noteq> {}" by (metis card.empty less_irrefl)
    with true show ?thesis by blast
  qed
  have bound: "c < n" "j < n" "j \<in> findings" if "c \<in> causes j" for c j
    using g that by (auto simp: graph_ok_def)
  have complete: "survives_under causes findings j \<Longrightarrow> j < n \<longrightarrow> reported ! j = Some True"
    "suppressed_under causes findings j \<Longrightarrow> reported ! j = Some False" for j
  proof (induction rule: survives_under_suppressed_under.inducts)
    case (survive j)
    show ?case
    proof
      assume j: "j < n"
      have "causes j - {c \<in> handled. reported ! c = Some False} = {}" using survive(3) bound(1) handled by auto
      then have "reported ! j \<noteq> None" using rest [OF survive(1)] by blast
      moreover have "reported ! j \<noteq> Some False"
        using sound(2) [OF j] survives_not_suppressed(1) [OF survives_under_suppressed_under.survive] survive by blast
      ultimately show "reported ! j = Some True" by (cases "reported ! j") auto
    qed
  next
    case (suppress c j)
    have c: "c < n" "j < n" "j \<in> findings" using bound [OF suppress(1)] by auto
    then have true: "reported ! c = Some True" "c \<in> handled" using suppress(3) handled by auto
    have "reported ! j \<noteq> None" using rest [OF c(3)] true suppress(1) by auto
    moreover have "reported ! j \<noteq> Some True"
      using sound(1) [OF c(2)] survives_not_suppressed(1) survives_under_suppressed_under.suppress [OF suppress(1,2)] by blast
    ultimately show ?case by (cases "reported ! j") auto
  qed
  show "reported ! i = Some True \<longleftrightarrow> survives_under causes findings i" using sound(1) complete(1) i by blast
  show "reported ! i = Some False \<longleftrightarrow> suppressed_under causes findings i" using sound(2) complete(2) i by blast
qed

lemma resolvingI:
  assumes "length reported = n" "length remaining = n" "distinct queue" "set queue \<inter> handled = {}"
    "set queue \<union> handled = {i. i < n \<and> reported ! i \<noteq> None}"
    "\<And>i. i < n \<Longrightarrow> reported ! i = Some True \<Longrightarrow> survives_under causes findings i"
    "\<And>i. i < n \<Longrightarrow> reported ! i = Some False \<Longrightarrow> suppressed_under causes findings i"
    "\<And>i. i \<in> findings \<Longrightarrow> reported ! i = None \<Longrightarrow>
       remaining ! i = card (causes i - {c \<in> handled. reported ! c = Some False}) \<and> 0 < remaining ! i"
    "\<And>i c. i \<in> findings \<Longrightarrow> reported ! i = None \<Longrightarrow> c \<in> causes i \<Longrightarrow> c \<in> handled \<Longrightarrow> reported ! c \<noteq> Some True"
  shows "resolving n findings causes handled (reported, remaining, queue)"
  unfolding resolving_def prod.case using assms by blast

lemma resolvingD:
  assumes "resolving n findings causes handled (reported, remaining, queue)"
  shows "length reported = n" "length remaining = n" "distinct queue" "set queue \<inter> handled = {}"
    "set queue \<union> handled = {i. i < n \<and> reported ! i \<noteq> None}"
    "i < n \<Longrightarrow> reported ! i = Some True \<Longrightarrow> survives_under causes findings i"
    "i < n \<Longrightarrow> reported ! i = Some False \<Longrightarrow> suppressed_under causes findings i"
    "i \<in> findings \<Longrightarrow> reported ! i = None \<Longrightarrow>
       remaining ! i = card (causes i - {c \<in> handled. reported ! c = Some False}) \<and> 0 < remaining ! i"
    "i \<in> findings \<Longrightarrow> reported ! i = None \<Longrightarrow> c \<in> causes i \<Longrightarrow> c \<in> handled \<Longrightarrow> reported ! c \<noteq> Some True"
  using assms unfolding resolving_def prod.case by blast+

lemma graph_okD:
  assumes "graph_ok n findings causes dependents"
  shows "findings \<subseteq> {..<n}" "c \<in> causes i \<Longrightarrow> c < n" "c \<in> causes i \<Longrightarrow> i < n" "c \<in> causes i \<Longrightarrow> i \<in> findings"
    "c \<in> causes i \<Longrightarrow> c \<in> findings"
    "finite (causes i)" "c < n \<Longrightarrow> distinct (dependents ! c)" "c < n \<Longrightarrow> set (dependents ! c) = {i. c \<in> causes i}"
proof -
  show "finite (causes i)" using assms unfolding graph_ok_def by (meson finite_lessThan finite_subset)
qed (use assms in \<open>auto simp: graph_ok_def\<close>)

lemma resolving_step_survives:
  assumes g: "graph_ok n findings causes dependents"
    and inv: "resolving n findings causes handled (reported, remaining, p # rest)" and p: "reported ! p = Some True"
  shows "resolving n findings causes (insert p handled) (fold (resolve_dependent True) (dependents ! p) (reported, remaining, rest))"
proof -
  note [simp del] = not_None_eq
  note d = resolvingD [OF inv] and gd = graph_okD [OF g]
  have pn: "p < n" "p \<notin> handled" "p \<notin> set rest" using d(3-5) by auto
  let ?r = "map (\<lambda>i. if i \<in> {i. p \<in> causes i} \<and> reported ! i = None then Some False else reported ! i) [0..<n]"
  have eq: "fold (resolve_dependent True) (dependents ! p) (reported, remaining, rest) =
      (?r, remaining, rest @ filter (\<lambda>i. reported ! i = None) (dependents ! p))"
    using resolve_all_survives [of "dependents ! p" reported remaining rest] gd(3,7,8) pn d(1) by auto
  have set: "set (dependents ! p) = {i. p \<in> causes i}" by (rule gd(8) [OF pn(1)])
  have settled: "\<forall>i \<in> insert p (set rest \<union> handled). i < n \<and> reported ! i \<noteq> None" using d(5) pn p by auto
  have old: "?r ! i = reported ! i" if "i < n" "reported ! i \<noteq> None" for i using that by auto
  have none: "reported ! i = None" "p \<notin> causes i" if "i < n" "?r ! i = None" for i using that by (auto split: if_splits)
  show ?thesis unfolding eq
  proof (rule resolvingI)
    show "distinct (rest @ filter (\<lambda>i. reported ! i = None) (dependents ! p))" using d(3) gd(7) [OF pn(1)] settled by auto
    show "set (rest @ filter (\<lambda>i. reported ! i = None) (dependents ! p)) \<inter> insert p handled = {}"
      using d(4) settled pn by auto
    show "set (rest @ filter (\<lambda>i. reported ! i = None) (dependents ! p)) \<union> insert p handled = {i. i < n \<and> ?r ! i \<noteq> None}"
    proof -
      have "{i. i < n \<and> ?r ! i \<noteq> None} = {i. i < n \<and> reported ! i \<noteq> None} \<union> {i. p \<in> causes i \<and> reported ! i = None}"
        using gd(3) by auto
      then show ?thesis unfolding d(5) [symmetric] using set by auto
    qed
  next
    fix i assume "i < n" "?r ! i = Some True"
    then show "survives_under causes findings i" using d(6) by (auto split: if_splits)
  next
    fix i assume i: "i < n" "?r ! i = Some False"
    show "suppressed_under causes findings i"
    proof (cases "reported ! i = None")
      case True
      then have "p \<in> causes i" using i by (auto split: if_splits)
      then show ?thesis using d(6) [OF pn(1) p] by (rule survives_under_suppressed_under.suppress)
    next
      case False
      then show ?thesis using i d(7) by auto
    qed
  next
    fix i assume i: "i \<in> findings" "?r ! i = None"
    have n: "i < n" using gd(1) i by auto
    have "causes i - {c \<in> insert p handled. ?r ! c = Some False} = causes i - {c \<in> handled. reported ! c = Some False}"
      using none(2) [OF n i(2)] settled old by auto
    then show "remaining ! i = card (causes i - {c \<in> insert p handled. ?r ! c = Some False}) \<and> 0 < remaining ! i"
      using d(8) [OF i(1) none(1) [OF n i(2)]] by simp
  next
    fix i c assume i: "i \<in> findings" "?r ! i = None" "c \<in> causes i" "c \<in> insert p handled"
    have n: "i < n" using gd(1) i by auto
    have "c \<in> handled" using i none(2) [OF n i(2)] by auto
    then show "?r ! c \<noteq> Some True" using d(9) [OF i(1) none(1) [OF n i(2)] i(3)] old settled by auto
  qed (use d(2) in simp_all)
qed

lemma resolving_step_dies:
  assumes g: "graph_ok n findings causes dependents"
    and inv: "resolving n findings causes handled (reported, remaining, p # rest)" and p: "reported ! p = Some False"
  shows "resolving n findings causes (insert p handled) (fold (resolve_dependent False) (dependents ! p) (reported, remaining, rest))"
proof -
  note [simp del] = not_None_eq
  note d = resolvingD [OF inv] and gd = graph_okD [OF g]
  have pn: "p < n" "p \<notin> handled" "p \<notin> set rest" using d(3-5) by auto
  let ?r = "map (\<lambda>i. if i \<in> {i. p \<in> causes i} \<and> reported ! i = None \<and> remaining ! i \<le> 1 then Some True else reported ! i) [0..<n]"
  let ?m = "map (\<lambda>i. if i \<in> {i. p \<in> causes i} \<and> reported ! i = None then remaining ! i - 1 else remaining ! i) [0..<n]"
  let ?q = "rest @ filter (\<lambda>i. reported ! i = None \<and> remaining ! i \<le> 1) (dependents ! p)"
  let ?left = "\<lambda>i. causes i - {c \<in> handled. reported ! c = Some False}"
  have set: "set (dependents ! p) = {i. p \<in> causes i}" by (rule gd(8) [OF pn(1)])
  have eq: "fold (resolve_dependent False) (dependents ! p) (reported, remaining, rest) = (?r, ?m, ?q)"
    using resolve_all_dies [of "dependents ! p" reported remaining rest] gd(3) gd(7) [OF pn(1)] d(1,2) by (auto simp: set)
  have settled: "\<forall>i \<in> insert p (set rest \<union> handled). i < n \<and> reported ! i \<noteq> None" using d(5) pn p by auto
  have old: "?r ! i = reported ! i" if "i < n" "reported ! i \<noteq> None" for i using that by auto
  have none: "reported ! i = None" if "i < n" "?r ! i = None" for i using that by (auto split: if_splits)
  have left: "causes i - {c \<in> insert p handled. ?r ! c = Some False} = ?left i - {p}" for i
    using settled old p by auto
  have card: "card (?left i - {p}) = (if p \<in> causes i then card (?left i) - 1 else card (?left i))" for i
    using pn(2) gd(6) by auto
  show ?thesis unfolding eq
  proof (rule resolvingI)
    show "distinct ?q" using d(3) gd(7) [OF pn(1)] settled by auto
    show "set ?q \<inter> insert p handled = {}" using d(4) settled pn by auto
    have "{i. i < n \<and> ?r ! i \<noteq> None} = {i. i < n \<and> reported ! i \<noteq> None} \<union> {i. p \<in> causes i \<and> reported ! i = None \<and> remaining ! i \<le> 1}"
      using gd(3) by auto
    then show "set ?q \<union> insert p handled = {i. i < n \<and> ?r ! i \<noteq> None}" unfolding d(5) [symmetric] using set by auto
  next
    fix i assume i: "i < n" "?r ! i = Some True"
    show "survives_under causes findings i"
    proof (cases "reported ! i = None")
      case True
      then have c: "p \<in> causes i" "remaining ! i \<le> 1" using i by (auto split: if_splits)
      then have "card (?left i - {p}) = 0" using card [of i] d(8) [OF gd(4) True] by auto
      then have "\<forall>c \<in> causes i. c = p \<or> c \<in> handled \<and> reported ! c = Some False" using gd(6) by auto
      then show ?thesis using d(7) p settled gd(4) [OF c(1)] by (auto intro!: survives_under_suppressed_under.survive)
    next
      case False
      then show ?thesis using i d(6) by auto
    qed
  next
    fix i assume "i < n" "?r ! i = Some False"
    then show "suppressed_under causes findings i" using d(7) by (auto split: if_splits)
  next
    fix i assume i: "i \<in> findings" "?r ! i = None"
    have n: "i < n" using gd(1) i by auto
    note o = d(8) [OF i(1) none [OF n i(2)]]
    have "p \<in> causes i \<Longrightarrow> 1 < remaining ! i" using i(2) n none [OF n i(2)] by (auto split: if_splits)
    then show "?m ! i = card (causes i - {c \<in> insert p handled. ?r ! c = Some False}) \<and> 0 < ?m ! i"
      unfolding left card using o n none [OF n i(2)] by auto
  next
    fix i c assume i: "i \<in> findings" "?r ! i = None" "c \<in> causes i" "c \<in> insert p handled"
    have n: "i < n" using gd(1) i by auto
    show "?r ! c \<noteq> Some True" using d(9) [OF i(1) none [OF n i(2)] i(3)] old settled i(4) p by auto
  qed simp_all
qed

lemma resolving_step:
  assumes "graph_ok n findings causes dependents"
    and "resolving n findings causes handled (reported, remaining, p # rest)" and "reported ! p = Some survives"
  shows "resolving n findings causes (insert p handled) (fold (resolve_dependent survives) (dependents ! p) (reported, remaining, rest))"
  using resolving_step_survives [OF assms(1,2)] resolving_step_dies [OF assms(1,2)] assms(3) by (cases survives) auto

lemma resolve_loop_resolves:
  assumes g: "graph_ok n findings causes dependents" and "resolving n findings causes handled st"
  shows "\<exists>reported remaining handled'. yields (resolve_loop dependents st) (Some reported) \<and>
    resolving n findings causes handled' (reported, remaining, [])"
  using assms(2)
proof (induction "unresolved st" arbitrary: st handled rule: less_induct)
  case less
  obtain reported remaining queue where st: "st = (reported, remaining, queue)" by (cases st)
  show ?case
  proof (cases queue)
    case Nil
    have "yields (resolve_loop dependents st) (Some reported)" unfolding st Nil
      by (simp add: resolve_loop.simps yields_ret)
    then show ?thesis using less(2) unfolding st Nil by blast
  next
    case (Cons p rest)
    have inv: "resolving n findings causes handled (reported, remaining, p # rest)" using less(2) by (simp add: st Cons)
    note d = resolvingD [OF inv]
    have "p \<in> {i. i < n \<and> reported ! i \<noteq> None}" unfolding d(5) [symmetric] by simp
    then obtain survives where p: "reported ! p = Some survives" "p < length reported" using d(1) by auto
    let ?st = "fold (resolve_dependent survives) (dependents ! p) (reported, remaining, rest)"
    have smaller: "unresolved ?st < unresolved st"
      using unresolved_step [of survives "dependents ! p" "(reported, remaining, rest)"] by (simp add: st Cons unresolved_def)
    obtain r m h where r: "yields (resolve_loop dependents ?st) (Some r)" "resolving n findings causes h (r, m, [])"
      using less(1) [OF smaller resolving_step [OF g inv p(1)]] by blast
    have "yields (resolve_loop dependents st) (Some r)"
      unfolding st Cons resolve_loop.simps list.case
      by (auto simp: slice_get_def p intro!: yields_checked yields_bind [OF yields_resolve_dependents] r(1))
    then show ?thesis using r(2) by blast
  qed
qed

section \<open>Groups\<close>

lemma group_get_push: "group_get (push_group k i gs) k' = (if k = k' then group_get gs k @ [i] else group_get gs k')"
  by (induction k i gs rule: push_group.induct) (auto simp: group_get_def)

lemma group_get_fold:
  "group_get (fold (\<lambda>i. push_group (key i) (val i)) is gs) k = group_get gs k @ map val (filter (\<lambda>i. key i = k) is)"
  by (induction "is" arbitrary: gs) (auto simp: group_get_push)

lemma push_group_keys: "fst ` set (push_group k i gs) = insert k (fst ` set gs)"
  by (induction k i gs rule: push_group.induct) auto

lemma push_group_distinct: "distinct (map fst gs) \<Longrightarrow> distinct (map fst (push_group k i gs))"
proof (induction k i gs rule: push_group.induct)
  case (2 k i k' "is" gs)
  then show ?case using push_group_keys [of k i gs] by auto
qed simp

lemma fold_push_group:
  "distinct (map fst gs) \<Longrightarrow> distinct (map fst (fold (\<lambda>i. push_group (key i) (val i)) is gs))"
  "fst ` set (fold (\<lambda>i. push_group (key i) (val i)) is gs) = key ` set is \<union> fst ` set gs"
  by (induction "is" arbitrary: gs) (auto simp: push_group_keys push_group_distinct)

lemma group_rules_get:
  "group_get (group_rules entries) k = filter (\<lambda>i. rl_id (en_rule entries i) = k) [0..<length entries]"
  by (simp add: group_rules_def group_get_fold) (simp add: group_get_def)

definition grouped_lines :: "entry list \<Rightarrow> (nat \<times> nat list) list" where
  "grouped_lines entries = fold (\<lambda>i. push_group (en_line entries i) i) [0..<length entries] []"

lemma group_lines_yields: "yields (group_lines entries) (grouped_lines entries)"
  unfolding group_lines_def grouped_lines_def by (rule yields_fold) (intro yields_intro)

lemma fold_push_group_set:
  "(k, vs) \<in> set (fold (\<lambda>x. push_group (key x) (val x)) xs []) \<longleftrightarrow>
     vs = map val (filter (\<lambda>x. key x = k) xs) \<and> k \<in> key ` set xs"
  (is "(k, vs) \<in> set ?gs \<longleftrightarrow> ?r")
proof -
  have keys: "fst ` set ?gs = key ` set xs" by (simp add: fold_push_group(2))
  have dist: "distinct (map fst ?gs)" by (simp add: fold_push_group(1))
  have get: "group_get ?gs k = map val (filter (\<lambda>x. key x = k) xs)"
    by (simp add: group_get_fold) (simp add: group_get_def)
  show ?thesis
  proof
    assume l: "(k, vs) \<in> set ?gs"
    then have "map_of ?gs k = Some vs" using dist by simp
    then have "group_get ?gs k = vs" by (simp add: group_get_def)
    moreover have "k \<in> key ` set xs" unfolding keys [symmetric] by (rule image_eqI [OF _ l]) simp
    ultimately show ?r using get by auto
  next
    assume r: ?r
    then have "k \<in> fst ` set ?gs" unfolding keys by auto
    then obtain ws where ws: "map_of ?gs k = Some ws" by (metis domD dom_map_of_conv_image_fst)
    then have "ws = vs" using get r by (simp add: group_get_def)
    then show "(k, vs) \<in> set ?gs" using ws by (simp add: map_of_SomeD)
  qed
qed

lemma grouped_lines_set:
  "(k, is) \<in> set (grouped_lines entries) \<longleftrightarrow>
     is = filter (\<lambda>i. en_line entries i = k) [0..<length entries] \<and> (\<exists>i < length entries. en_line entries i = k)"
  using fold_push_group_set [of k "is" "en_line entries" "\<lambda>i. i" "[0..<length entries]"] by (auto simp: grouped_lines_def)

section \<open>Components\<close>

definition attached_components :: "entry list \<Rightarrow> attached \<Rightarrow> nat \<Rightarrow> nat list" where
  "attached_components entries component_attached p =
     concat (map (\<lambda>d. filter (\<lambda>c. component_attached p c d) (group_get (group_rules entries) (dep_rule_id d)))
       (flatten (rl_depends_on (en_rule entries p))))"

lemma fold_push_at:
  "p < length xss \<Longrightarrow> fold (\<lambda>c xss. if P c then xss[p := xss ! p @ [c]] else xss) cs xss = xss[p := xss ! p @ filter P cs]"
  by (induction cs arbitrary: xss) auto

lemma fold_append_at:
  "p < length xss \<Longrightarrow> fold (\<lambda>d xss. xss[p := xss ! p @ f d]) ds xss = xss[p := xss ! p @ concat (map f ds)]"
  by (induction ds arbitrary: xss) auto

lemma fold_ctl_inv:
  assumes "P s" and "\<And>x s. x \<in> set xs \<Longrightarrow> P s \<Longrightarrow> yields (f x s) (g x s) \<and> P (g x s)"
  shows "yields (fold_ctl f xs s) (fold g xs s) \<and> P (fold g xs s)"
  using assms
proof (induction xs arbitrary: s)
  case Nil
  then show ?case by (simp add: yields_ret)
next
  case (Cons x xs)
  have x: "yields (f x s) (g x s)" "P (g x s)" using Cons(2,3) by auto
  then show ?case using Cons(1) [OF x(2) Cons(3)] by (auto intro!: yields_bind [OF x(1)])
qed

lemma fold_fill:
  fixes f :: "nat \<Rightarrow> 'a list"
  shows "k \<le> n \<Longrightarrow> fold (\<lambda>p xss. xss[p := xss ! p @ f p]) [0..<k] (replicate n []) = map f [0..<k] @ replicate (n - k) []"
proof (induction k)
  case (Suc k)
  then have "replicate (n - k) [] = ([] :: 'a list) # replicate (n - Suc k) []" by (metis Suc_diff_Suc Suc_le_lessD replicate_Suc)
  then show ?case using Suc by (simp add: nth_append list_update_append)
qed simp

lemma yields_push_components:
  assumes "p < length xss"
  shows "yields (fold_ctl (\<lambda>c xss. checked (ret (if P c then xss[p := xss ! p @ [c]] else xss))) cs xss)
    (xss[p := xss ! p @ filter P cs])"
  unfolding fold_push_at [OF assms, symmetric] by (rule yields_fold) (intro yields_intro)

lemma collect_components_yields:
  "yields (collect_components entries component_attached)
     (map (attached_components entries component_attached) [0..<length entries])"
proof -
  let ?n = "length entries"
  let ?g = "\<lambda>p xss. xss[p := xss ! p @ attached_components entries component_attached p]"
  have "yields (collect_components entries component_attached) (fold ?g [0..<?n] (replicate ?n [])) \<and>
      length (fold ?g [0..<?n] (replicate ?n [])) = ?n"
    unfolding collect_components_def
  proof (rule fold_ctl_inv)
    fix p and xss :: "nat list list" assume p: "p \<in> set [0..<?n]" "length xss = ?n"
    let ?h = "\<lambda>d xss. xss[p := xss ! p @ filter (\<lambda>c. component_attached p c d) (group_get (group_rules entries) (dep_rule_id d))]"
    let ?ds = "flatten (rl_depends_on (en_rule entries p))"
    have "yields (fold_ctl (\<lambda>dependency. fold_ctl (\<lambda>component components. checked (ret
            (if component_attached p component dependency then components[p := components ! p @ [component]]
             else components))) (group_get (group_rules entries) (dep_rule_id dependency))) ?ds xss)
          (fold ?h ?ds xss) \<and> length (fold ?h ?ds xss) = ?n"
      by (rule fold_ctl_inv) (use p in \<open>auto intro!: yields_push_components\<close>)
    moreover have "fold ?h ?ds xss = ?g p xss"
      using p by (subst fold_append_at) (auto simp: attached_components_def)
    ultimately show "yields (checked (fold_ctl (\<lambda>dependency. fold_ctl (\<lambda>component components. checked (ret
            (if component_attached p component dependency then components[p := components ! p @ [component]]
             else components))) (group_get (group_rules entries) (dep_rule_id dependency))) ?ds xss))
          (?g p xss) \<and> length (?g p xss) = ?n" by (auto intro: yields_checked)
  qed simp
  then show ?thesis using fold_fill [of ?n ?n "attached_components entries component_attached"] by simp
qed

lemma attached_components_set: "p < length entries \<Longrightarrow>
  set (attached_components entries component_attached p) = {c. component_edge entries component_attached p c}"
  by (auto simp: attached_components_def component_edge_def group_rules_get)

section \<open>Owners\<close>

definition bfs_inv :: "nat \<Rightarrow> nat list list \<Rightarrow> nat \<Rightarrow> nat list list \<Rightarrow> nat set \<Rightarrow> bfs_state \<Rightarrow> bool" where
  "bfs_inv n components owner owners0 pending st \<longleftrightarrow> (case st of (visited, owners, queue) \<Rightarrow>
     length visited = n \<and> length owners = n \<and> owner < n \<and> visited ! owner = owner \<and> set visited \<subseteq> insert usize_max {..owner} \<and>
     (\<forall>c < n. visited ! c = owner \<longrightarrow> (\<lambda>p c. p < n \<and> c \<in> set (components ! p))\<^sup>*\<^sup>* owner c) \<and>
     (\<forall>c < n. owners ! c = owners0 ! c @ (if visited ! c = owner \<and> c \<noteq> owner then [owner] else [])) \<and>
     (\<forall>c \<in> set queue. c < n \<and> visited ! c = owner) \<and>
     (\<forall>p < n. visited ! p = owner \<longrightarrow> p \<notin> set queue \<longrightarrow> p \<notin> pending \<longrightarrow> (\<forall>c \<in> set (components ! p). visited ! c = owner)))"

lemma bfs_invD:
  assumes "bfs_inv n components owner owners0 pending (visited, owners, queue)"
  shows "length visited = n" "length owners = n" "owner < n" "visited ! owner = owner"
    "set visited \<subseteq> insert usize_max {..owner}"
    "c < n \<Longrightarrow> visited ! c = owner \<Longrightarrow> (\<lambda>p c. p < n \<and> c \<in> set (components ! p))\<^sup>*\<^sup>* owner c"
    "c < n \<Longrightarrow> owners ! c = owners0 ! c @ (if visited ! c = owner \<and> c \<noteq> owner then [owner] else [])"
    "c \<in> set queue \<Longrightarrow> c < n" "c \<in> set queue \<Longrightarrow> visited ! c = owner"
    "p < n \<Longrightarrow> visited ! p = owner \<Longrightarrow> p \<notin> set queue \<Longrightarrow> p \<notin> pending \<Longrightarrow> c \<in> set (components ! p) \<Longrightarrow> visited ! c = owner"
  using assms unfolding bfs_inv_def prod.case by blast+

lemma bfs_invI:
  assumes "length visited = n" "length owners = n" "owner < n" "visited ! owner = owner"
    "set visited \<subseteq> insert usize_max {..owner}"
    "\<And>c. c < n \<Longrightarrow> visited ! c = owner \<Longrightarrow> (\<lambda>p c. p < n \<and> c \<in> set (components ! p))\<^sup>*\<^sup>* owner c"
    "\<And>c. c < n \<Longrightarrow> owners ! c = owners0 ! c @ (if visited ! c = owner \<and> c \<noteq> owner then [owner] else [])"
    "\<And>c. c \<in> set queue \<Longrightarrow> c < n" "\<And>c. c \<in> set queue \<Longrightarrow> visited ! c = owner"
    "\<And>p c. p < n \<Longrightarrow> visited ! p = owner \<Longrightarrow> p \<notin> set queue \<Longrightarrow> p \<notin> pending \<Longrightarrow> c \<in> set (components ! p) \<Longrightarrow> visited ! c = owner"
  shows "bfs_inv n components owner owners0 pending (visited, owners, queue)"
  using assms unfolding bfs_inv_def prod.case by blast

lemma bfs_visit:
  assumes inv: "bfs_inv n components owner owners0 {p} (visited, owners, queue)" and c: "c \<in> set (components ! p)" "c < n"
    and p: "p < n" "visited ! p = owner"
  shows "bfs_inv n components owner owners0 {p} (visit_component owner c (visited, owners, queue))"
proof (cases "visited ! c = owner")
  case True
  then show ?thesis using assms by (simp add: visit_component_def)
next
  case False
  note d = bfs_invD [OF inv]
  let ?R = "\<lambda>p c. p < n \<and> c \<in> set (components ! p)"
  have reach: "?R\<^sup>*\<^sup>* owner c" by (rule rtranclp.rtrancl_into_rtrancl [OF d(6) [OF p]]) (use c p in simp)
  have new: "c \<noteq> owner" using False d(4) by auto
  let ?v = "visited[c := owner]"
  have v: "?v ! i = (if i = c then owner else visited ! i)" for i using c d(1) by (simp add: nth_list_update)
  have step: "visit_component owner c (visited, owners, queue) = (?v, owners[c := owners ! c @ [owner]], queue @ [c])"
    using False c d(1) by (simp add: visit_component_def)
  show ?thesis unfolding step
  proof (rule bfs_invI)
    fix i assume "i < n" "?v ! i = owner"
    then show "?R\<^sup>*\<^sup>* owner i" using d(6) reach unfolding v by (cases "i = c") auto
  next
    fix i assume i: "i < n"
    show "owners[c := owners ! c @ [owner]] ! i = owners0 ! i @ (if ?v ! i = owner \<and> i \<noteq> owner then [owner] else [])"
      unfolding v using d(7) [OF i] d(2) i False new by (cases "i = c") auto
  next
    fix i assume "i \<in> set (queue @ [c])"
    then show "i < n" "?v ! i = owner" unfolding v using d(8,9) c by auto
  next
    fix i j assume "i < n" "?v ! i = owner" "i \<notin> set (queue @ [c])" "i \<notin> {p}" "j \<in> set (components ! i)"
    then show "?v ! j = owner" unfolding v using d(10) [of i j] by auto
  next
    show "set ?v \<subseteq> insert usize_max {..owner}" using set_update_subset_insert [of visited c owner] d(5) by auto
  qed (use d(1-4) v in auto)
qed

lemma bfs_visit_all:
  assumes "bfs_inv n components owner owners0 {p} (visited, owners, queue)" and "set cs \<subseteq> set (components ! p)" "set cs \<subseteq> {..<n}"
    and "p < n" "visited ! p = owner"
  shows "\<exists>v' o' q'. fold (visit_component owner) cs (visited, owners, queue) = (v', o', q') \<and>
    bfs_inv n components owner owners0 {p} (v', o', q') \<and> (\<forall>c. visited ! c = owner \<or> c \<in> set cs \<longrightarrow> v' ! c = owner)"
  using assms
proof (induction cs arbitrary: visited owners queue)
  case (Cons c cs)
  obtain v o' q where step: "visit_component owner c (visited, owners, queue) = (v, o', q)"
    by (cases "visit_component owner c (visited, owners, queue)")
  have inv: "bfs_inv n components owner owners0 {p} (v, o', q)"
    using bfs_visit [OF Cons(2) _ _ Cons(5,6), of c] Cons(3,4) step by simp
  have len: "length visited = n" by (rule bfs_invD(1) [OF Cons(2)])
  have keep: "\<forall>i. visited ! i = owner \<or> i = c \<longrightarrow> v ! i = owner"
    using step len Cons(4) by (auto simp: visit_component_def nth_list_update split: if_splits)
  then have "v ! p = owner" using Cons(6) by blast
  then show ?case using Cons(1) [OF inv _ _ Cons(5)] Cons(3,4) step keep by fastforce
qed simp

lemma own_loop_reaches:
  assumes bound: "\<forall>p < n. set (components ! p) \<subseteq> {..<n}" and "bfs_inv n components owner owners0 {} st"
  shows "\<exists>visited owners. yields (own_loop components owner st) (visited, owners, []) \<and>
    bfs_inv n components owner owners0 {} (visited, owners, [])"
  using assms(2)
proof (induction "bfs_work owner st" arbitrary: st rule: less_induct)
  case less
  obtain visited owners queue where st: "st = (visited, owners, queue)" by (cases st)
  note d = bfs_invD [OF less(2) [unfolded st]]
  show ?case
  proof (cases queue)
    case Nil
    have "yields (own_loop components owner st) (visited, owners, [])" unfolding st Nil
      by (simp add: own_loop.simps yields_ret)
    then show ?thesis using less(2) unfolding st Nil by blast
  next
    case (Cons p rest)
    have p: "p < n" "visited ! p = owner" using d(8,9) [of p] Cons by auto
    have "bfs_inv n components owner owners0 {p} (visited, owners, rest)"
    proof (rule bfs_invI; (rule d(1-5))?)
      fix c assume "c < n" "visited ! c = owner"
      then show "(\<lambda>p c. p < n \<and> c \<in> set (components ! p))\<^sup>*\<^sup>* owner c" by (rule d(6))
    next
      fix c assume "c < n"
      then show "owners ! c = owners0 ! c @ (if visited ! c = owner \<and> c \<noteq> owner then [owner] else [])" by (rule d(7))
    next
      fix c assume "c \<in> set rest"
      then show "c < n" "visited ! c = owner" using d(8,9) [of c] Cons by simp_all
    next
      fix i c assume "i < n" "visited ! i = owner" "i \<notin> set rest" "i \<notin> {p}" "c \<in> set (components ! i)"
      then show "visited ! c = owner" using d(10) [of i c] Cons by simp
    qed
    then obtain v' o' q' where f: "fold (visit_component owner) (components ! p) (visited, owners, rest) = (v', o', q')"
      "bfs_inv n components owner owners0 {p} (v', o', q')" "\<forall>c. visited ! c = owner \<or> c \<in> set (components ! p) \<longrightarrow> v' ! c = owner"
      using bfs_visit_all [OF _ order_refl _ p, of components owners0 owners rest] bound p(1) by blast
    note e = bfs_invD [OF f(2)]
    have inv: "bfs_inv n components owner owners0 {} (v', o', q')"
    proof (rule bfs_invI; (rule e(1-5))?)
      fix i c assume "i < n" "v' ! i = owner" "i \<notin> set q'" "i \<notin> {}" "c \<in> set (components ! i)"
      then show "v' ! c = owner" using e(10) [of i c] f(3) by (cases "i = p") auto
    qed (fact e(6-9))+
    have smaller: "bfs_work owner (v', o', q') < bfs_work owner st"
      using bfs_work_visit [of owner "components ! p" "(visited, owners, rest)"] by (simp add: f(1) st Cons bfs_work_def)
    obtain vs os where r: "yields (own_loop components owner (v', o', q')) (vs, os, [])"
      "bfs_inv n components owner owners0 {} (vs, os, [])"
      using less(1) [OF smaller inv] by blast
    have "yields (own_loop components owner st) (vs, os, [])"
      unfolding st Cons own_loop.simps [of components owner visited owners "p # rest"] list.case f(1)
      by (rule yields_checked) (rule r(1))
    then show ?thesis using r(2) by blast
  qed
qed

lemma bfs_complete:
  assumes "bfs_inv n components owner owners0 {} (visited, owners, [])" and bound: "\<forall>p < n. set (components ! p) \<subseteq> {..<n}" and "c < n"
  shows "visited ! c = owner \<longleftrightarrow> (\<lambda>p c. p < n \<and> c \<in> set (components ! p))\<^sup>*\<^sup>* owner c"
proof
  note d = bfs_invD [OF assms(1)]
  let ?R = "\<lambda>p c. p < n \<and> c \<in> set (components ! p)"
  assume "?R\<^sup>*\<^sup>* owner c"
  then have "c < n \<and> visited ! c = owner"
  proof (induction rule: rtranclp_induct)
    case base
    then show ?case using d(3,4) by simp
  next
    case (step p c)
    then show ?case using d(10) [of p c] bound by auto
  qed
  then show "visited ! c = owner" ..
next
  assume "visited ! c = owner"
  then show "(\<lambda>p c. p < n \<and> c \<in> set (components ! p))\<^sup>*\<^sup>* owner c" using bfs_invD(6) [OF assms(1,3)] by blast
qed

definition owners_of :: "entry list \<Rightarrow> attached \<Rightarrow> nat \<Rightarrow> nat \<Rightarrow> nat list" where
  "owners_of entries component_attached k c = filter (\<lambda>owner. owns entries component_attached owner c) [0..<k]"

lemma owners_of_set:
  "set (owners_of entries component_attached (length entries) c) = {owner. owns entries component_attached owner c}"
proof -
  have "owner < length entries" if "(component_edge entries component_attached)\<^sup>+\<^sup>+ owner c" for owner
    using tranclpD [OF that] by (auto simp: component_edge_def)
  then show ?thesis by (auto simp: owners_of_def owns_def)
qed

lemma collect_owners_yields:
  assumes small: "length entries \<le> usize_max"
  shows "yields (collect_owners entries (map (attached_components entries component_attached) [0..<length entries]))
    (map (owners_of entries component_attached (length entries)) [0..<length entries])"
proof -
  let ?n = "length entries"
  define comps where "comps = map (attached_components entries component_attached) [0..<?n]"
  define step where "step = (\<lambda>owner st. case st of (visited, owners, queue) \<Rightarrow>
         if \<not> rl_visible (en_rule entries owner) \<or> comps ! owner = [] then ret st
         else own_loop comps owner (visited[owner := owner], owners, queue @ [owner]))"
  let ?init = "(replicate ?n usize_max, replicate ?n [], [])"
  have edge: "(\<lambda>p c. p < ?n \<and> c \<in> set (comps ! p)) = component_edge entries component_attached"
    using attached_components_set by (auto simp: comps_def fun_eq_iff component_edge_def)
  have bound: "\<forall>p < ?n. set (comps ! p) \<subseteq> {..<?n}" using attached_components_set by (auto simp: comps_def component_edge_def)
  have "\<exists>visited. yields (fold_ctl step [0..<k] ?init) (visited, map (owners_of entries component_attached k) [0..<?n], []) \<and>
      length visited = ?n \<and> set visited \<subseteq> insert usize_max {..<k}" if "k \<le> ?n" for k
    using that
  proof (induction k)
    case 0
    then show ?case by (auto simp: owners_of_def map_replicate_trivial yields_ret intro!: exI [of _ "replicate ?n usize_max"])
  next
    case (Suc k)
    then obtain visited where ih: "yields (fold_ctl step [0..<k] ?init) (visited, map (owners_of entries component_attached k) [0..<?n], [])"
      "length visited = ?n" "set visited \<subseteq> insert usize_max {..<k}" by auto
    let ?owners = "map (owners_of entries component_attached k) [0..<?n]"
    have k: "k < ?n" using Suc by simp
    have fold: "yields (fold_ctl step [0..<Suc k] ?init) w" if "yields (step k (visited, ?owners, [])) w" for w
      unfolding upt_Suc_append [OF le0] fold_ctl_snoc by (rule yields_bind [OF ih(1)]) (rule that)
    show ?case
    proof (cases "rl_visible (en_rule entries k) \<and> comps ! k \<noteq> []")
      case False
      have "\<not> owns entries component_attached k c" for c
      proof
        assume o: "owns entries component_attached k c"
        then obtain c' where "component_edge entries component_attached k c'" unfolding owns_def by (metis tranclpD)
        then have "comps ! k \<noteq> []" unfolding edge [symmetric] by auto
        then show False using False o by (simp add: owns_def)
      qed
      then have same: "map (owners_of entries component_attached (Suc k)) [0..<?n] = ?owners" by (simp add: owners_of_def)
      have "yields (step k (visited, ?owners, [])) (visited, ?owners, [])" using False by (auto simp: step_def yields_ret)
      moreover have "set visited \<subseteq> insert usize_max {..<Suc k}" using ih(3) by auto
      ultimately show ?thesis unfolding same using fold [of "(visited, ?owners, [])"] ih(2) by blast
    next
      case True
      have fresh: "visited ! c \<noteq> k" if "c < ?n" for c
      proof -
        have "visited ! c \<in> set visited" using ih(2) that by simp
        then have "visited ! c \<in> insert usize_max {..<k}" using ih(3) by blast
        then show ?thesis using k small by auto
      qed
      have "bfs_inv ?n comps k ?owners {} (visited[k := k], ?owners, [k])"
        by (rule bfs_invI) (use ih(2,3) k fresh set_update_subset_insert [of visited k k] in \<open>auto simp: nth_list_update split: if_splits\<close>)
      then obtain v o' where loop: "yields (own_loop comps k (visited[k := k], ?owners, [k])) (v, o', [])"
        and inv: "bfs_inv ?n comps k ?owners {} (v, o', [])"
        using own_loop_reaches [OF bound] by blast
      note d = bfs_invD [OF inv]
      have "o' = map (owners_of entries component_attached (Suc k)) [0..<?n]"
      proof (rule nth_equalityI)
        fix c assume "c < length o'"
        then have c: "c < ?n" using d(2) by simp
        have "c \<noteq> k \<and> v ! c = k \<longleftrightarrow> owns entries component_attached k c"
          using bfs_complete [OF inv bound c] True unfolding edge owns_def
          by (auto simp: rtranclp_into_tranclp1 dest: tranclp_into_rtranclp rtranclpD)
        then show "o' ! c = map (owners_of entries component_attached (Suc k)) [0..<?n] ! c"
          using d(7) [OF c] c by (auto simp: owners_of_def)
      qed (use d(2) in simp)
      moreover have "yields (step k (visited, ?owners, [])) (v, o', [])" using True loop by (simp add: step_def)
      moreover have "set v \<subseteq> insert usize_max {..<Suc k}" using d(5) by (auto simp: lessThan_Suc_atMost)
      ultimately show ?thesis using fold [of "(v, o', [])"] d(1) by blast
    qed
  qed
  then obtain visited where "yields (fold_ctl step [0..<?n] ?init) (visited, map (owners_of entries component_attached ?n) [0..<?n], [])"
    by blast
  then show ?thesis unfolding collect_owners_def step_def comps_def by (rule yields_bind) (simp add: yields_ret)
qed

section \<open>Causes\<close>

lemma set_add_facts: "set (set_add x xs) = insert x (set xs)" "distinct xs \<Longrightarrow> distinct (set_add x xs)"
  by (auto simp: set_add_def)

lemma fold_set_add: "set (fold set_add ys xs) = set xs \<union> set ys" "distinct xs \<Longrightarrow> distinct (fold set_add ys xs)"
  by (induction ys arbitrary: xs) (auto simp: set_add_facts)

text \<open>The findings that one higher-ranked finding makes causes against \<open>index\<close>.\<close>

definition causes_through :: "entry list \<Rightarrow> nat list list \<Rightarrow> nat \<Rightarrow> nat \<Rightarrow> nat set" where
  "causes_through entries owners index higher =
     (if rl_specificity (en_rule entries higher) \<le> rl_specificity (en_rule entries index) \<or>
         rl_id (en_rule entries higher) = rl_id (en_rule entries index) \<or>
         \<not> contains_slice (en_value entries index) (en_value entries higher) then {}
      else (if rl_visible (en_rule entries higher) then {higher} else {}) \<union>
           (if index \<in> set (owners ! higher) then {} else set (owners ! higher)))"

definition descending :: "entry list \<Rightarrow> nat list \<Rightarrow> bool" where
  "descending entries is = sorted (map (\<lambda>i. - rl_specificity (en_rule entries i)) is)"

lemma collect_causes_yields:
  "descending entries hs \<Longrightarrow> distinct causes \<Longrightarrow>
   \<exists>cs. yields (collect_causes entries owners index hs causes) cs \<and> distinct cs \<and>
     set cs = set causes \<union> (\<Union>h \<in> set hs. causes_through entries owners index h)"
proof (induction hs arbitrary: causes)
  case Nil
  then show ?case by (auto intro: yields_ret)
next
  case (Cons h hs)
  have desc: "descending entries hs" using Cons(2) by (simp add: descending_def)
  let ?rule = "en_rule entries index" and ?other = "en_rule entries h"
  show ?case
  proof (cases "rl_specificity ?other \<le> rl_specificity ?rule")
    case True
    have "causes_through entries owners index x = {}" if "x \<in> set (h # hs)" for x
      using that Cons(2) True by (auto simp: causes_through_def descending_def)
    then have "(\<Union>h \<in> set (h # hs). causes_through entries owners index h) = {}" by blast
    moreover have "yields (collect_causes entries owners index (h # hs) causes) causes"
      using True by (auto simp: Let_def intro!: yields_checked yields_ret)
    ultimately show ?thesis using Cons(3) by (auto simp del: collect_causes.simps)
  next
    case False
    define causes' where "causes' = (if rl_id ?other = rl_id ?rule \<or> \<not> contains_slice (en_value entries index) (en_value entries h)
       then causes
       else let causes = (if rl_visible ?other then set_add h causes else causes)
            in if index \<in> set (owners ! h) then causes else fold set_add (owners ! h) causes)"
    have c: "distinct causes'" "set causes' = set causes \<union> causes_through entries owners index h"
      using Cons(3) False by (auto simp: causes'_def causes_through_def Let_def set_add_facts fold_set_add)
    obtain cs where cs: "yields (collect_causes entries owners index hs causes') cs" "distinct cs"
      "set cs = set causes' \<union> (\<Union>h \<in> set hs. causes_through entries owners index h)"
      using Cons(1) [OF desc c(1)] by blast
    have "yields (collect_causes entries owners index (h # hs) causes) cs"
      using False cs(1) unfolding collect_causes.simps causes'_def Let_def by (auto intro!: yields_checked split: if_splits)
    then show ?thesis using cs(2,3) c(2) by (auto simp del: collect_causes.simps)
  qed
qed

definition cause_set :: "entry list \<Rightarrow> attached \<Rightarrow> nat \<Rightarrow> nat set" where
  "cause_set entries component_attached i = {c. cause entries component_attached c i}"

lemma by_specificity_facts:
  "set (by_specificity entries is) = set is" "distinct is \<Longrightarrow> distinct (by_specificity entries is)"
  "descending entries (by_specificity entries is)"
  by (simp_all add: by_specificity_def descending_def)

definition findings_on :: "entry list \<Rightarrow> nat \<Rightarrow> nat list" where
  "findings_on entries l = filter (\<lambda>i. en_line entries i = l) [0..<length entries]"

text \<open>On a line sorted by rank, everything that outranks a finding stands before it.\<close>

lemma causes_on_line:
  assumes indexes: "descending entries indexes" "set indexes = set (findings_on entries l)"
    and pos: "position < length indexes" "i = indexes ! position"
    and reported: "en_value entries i \<noteq> []" "rl_visible (en_rule entries i)"
    and owners: "owners = map (owners_of entries component_attached (length entries)) [0..<length entries]"
  shows "(\<Union>h \<in> set (take position indexes). causes_through entries owners i h) = cause_set entries component_attached i"
proof -
  have line: "x \<in> set indexes \<longleftrightarrow> x < length entries \<and> en_line entries x = l" for x
    using indexes(2) by (auto simp: findings_on_def)
  have i: "i < length entries" "en_line entries i = l" using pos line nth_mem by blast+
  have before: "h \<in> set (take position indexes)"
    if h: "h \<in> set indexes" "rl_specificity (en_rule entries i) < rl_specificity (en_rule entries h)" for h
  proof -
    obtain k where k: "k < length indexes" "h = indexes ! k" using h(1) by (metis in_set_conv_nth)
    have "k < position"
    proof (rule ccontr)
      assume "\<not> k < position"
      then have "- rl_specificity (en_rule entries i) \<le> - rl_specificity (en_rule entries h)"
        using sorted_nth_mono [OF indexes(1) [unfolded descending_def], of position k] k pos by simp
      then show False using h(2) by simp
    qed
    then show ?thesis using k pos(1) by (auto simp: in_set_conv_nth)
  qed
  have through: "c \<in> causes_through entries owners i h \<longleftrightarrow> outranks entries h i \<and>
      (rl_visible (en_rule entries h) \<and> c = h \<or> owns entries component_attached c h \<and> \<not> owns entries component_attached i h)"
    if "h \<in> set indexes" for c h
    using that i reported line owners_of_set [of entries component_attached h]
    by (auto simp: causes_through_def outranks_def owners)
  have "outranks entries h i \<Longrightarrow> h \<in> set (take position indexes)" for h
    using before [of h] line [of h] i by (auto simp: outranks_def)
  moreover have "h \<in> set (take position indexes) \<Longrightarrow> h \<in> set indexes" for h by (rule in_set_takeD)
  ultimately show ?thesis using through unfolding cause_set_def cause_def by blast
qed

lemma fold_ctl_exists:
  assumes "Q 0 s" and "\<And>k s. k < length xs \<Longrightarrow> Q k s \<Longrightarrow> \<exists>s'. yields (f (xs ! k) s) s' \<and> Q (Suc k) s'"
  shows "\<exists>s'. yields (fold_ctl f xs s) s' \<and> Q (length xs) s'"
proof -
  have "\<exists>s'. yields (fold_ctl f (take k xs) s) s' \<and> Q k s'" if "k \<le> length xs" for k
    using that
  proof (induction k)
    case 0
    then show ?case using assms(1) by (auto intro: yields_ret)
  next
    case (Suc k)
    then obtain s1 where s1: "yields (fold_ctl f (take k xs) s) s1" "Q k s1" by auto
    then obtain s2 where s2: "yields (f (xs ! k) s1) s2" "Q (Suc k) s2" using assms(2) Suc(2) by (meson Suc_le_lessD)
    have "yields (fold_ctl f (take (Suc k) xs) s) s2"
      using Suc(2) by (auto simp: take_Suc_conv_app_nth fold_ctl_snoc intro!: yields_bind [OF s1(1)] s2(1))
    then show ?case using s2(2) by blast
  qed
  from this [of "length xs"] show ?thesis by simp
qed

definition graph_for :: "nat \<Rightarrow> (nat \<Rightarrow> nat set) \<Rightarrow> nat set \<Rightarrow> graph \<Rightarrow> bool" where
  "graph_for n causes P g \<longleftrightarrow> (case g of (dependents, remaining) \<Rightarrow>
     length dependents = n \<and> length remaining = n \<and>
     (\<forall>c < n. distinct (dependents ! c) \<and> set (dependents ! c) = {i \<in> P. c \<in> causes i}) \<and>
     (\<forall>i < n. remaining ! i = (if i \<in> P then card (causes i) else 0)))"

lemma fold_add_dependent:
  assumes "distinct cs" "set cs \<subseteq> {..<length ds}"
  shows "length (fold (\<lambda>cause ds. ds[cause := ds ! cause @ [i]]) cs ds) = length ds"
    and "fold (\<lambda>cause ds. ds[cause := ds ! cause @ [i]]) cs ds ! c = ds ! c @ (if c \<in> set cs then [i] else [])"
  using assms by (induction cs arbitrary: ds) (auto simp: nth_list_update)

lemma graph_for_add:
  assumes g: "graph_for n causes P (dependents, remaining)" and cs: "distinct cs" "set cs = causes i" "causes i \<subseteq> {..<n}"
    and i: "i \<notin> P" "i < n"
  shows "graph_for n causes (insert i P) (add_causes i cs (dependents, remaining))"
proof -
  let ?ds = "fold (\<lambda>cause ds. ds[cause := ds ! cause @ [i]]) cs dependents"
  have len: "length dependents = n" "length remaining = n" using g by (auto simp: graph_for_def)
  have ds: "length ?ds = n" "\<And>c. ?ds ! c = dependents ! c @ (if c \<in> causes i then [i] else [])"
    using fold_add_dependent [of cs dependents i] cs len(1) by auto
  have "distinct (?ds ! c) \<and> set (?ds ! c) = {j \<in> insert i P. c \<in> causes j}" if "c < n" for c
    using g that i(1) unfolding ds(2) by (auto simp: graph_for_def)
  moreover have "remaining[i := length cs] ! j = (if j \<in> insert i P then card (causes j) else 0)" if "j < n" for j
    using g that len(2) distinct_card [OF cs(1)] cs(2) i by (auto simp: graph_for_def nth_list_update)
  ultimately show ?thesis using ds(1) len by (simp add: graph_for_def add_causes_def)
qed

lemma graph_for_skip:
  "graph_for n causes P g \<Longrightarrow> causes i = {} \<Longrightarrow> i < n \<Longrightarrow> graph_for n causes (insert i P) g"
  by (cases g) (auto simp: graph_for_def)

lemma cause_facts:
  assumes "cause entries component_attached c i"
  shows "c < length entries" "rl_visible (en_rule entries c)" "i < length entries" "rl_visible (en_rule entries i)"
    "en_value entries i \<noteq> []"
  using assms owners_of_set [of entries component_attached]
  by (auto simp: cause_def outranks_def owns_def owners_of_def dest!: tranclpD simp: component_edge_def)

lemma line_causes_yields:
  assumes indexes: "descending entries indexes" "set indexes = set (findings_on entries l)" "distinct indexes"
    and owners: "owners = map (owners_of entries component_attached (length entries)) [0..<length entries]"
    and order: "\<And>xs. mset (cause_order xs) = mset xs"
    and g: "graph_for (length entries) (cause_set entries component_attached) P g" and P: "P \<inter> set indexes = {}"
  shows "\<exists>g'. yields (line_causes entries owners cause_order indexes g) g' \<and>
    graph_for (length entries) (cause_set entries component_attached) (P \<union> set indexes) g'"
proof -
  let ?n = "length entries" and ?C = "cause_set entries component_attached"
  have "\<exists>g'. yields (line_causes entries owners cause_order indexes g) g' \<and>
    graph_for ?n ?C (P \<union> set (take (length (enumerate 0 indexes)) indexes)) g'"
    unfolding line_causes_def
  proof (rule fold_ctl_exists [where Q = "\<lambda>k. graph_for ?n ?C (P \<union> set (take k indexes))"])
    fix k g assume k: "k < length (enumerate 0 indexes)" and g: "graph_for ?n ?C (P \<union> set (take k indexes)) g"
    have kl: "k < length indexes" using k by simp
    define i where "i = indexes ! k"
    have i: "i < ?n" using kl indexes(2) nth_mem [of k indexes] by (auto simp: i_def findings_on_def)
    have new: "i \<notin> P \<union> set (take k indexes)"
    proof -
      have "i \<notin> P" using P nth_mem [OF kl] unfolding i_def by blast
      moreover have "i \<notin> set (take k indexes)"
        using kl indexes(3) by (auto simp: i_def in_set_conv_nth nth_eq_iff_index_eq)
      ultimately show ?thesis by blast
    qed
    have set: "P \<union> set (take (Suc k) indexes) = insert i (P \<union> set (take k indexes))"
      using kl by (simp add: take_Suc_conv_app_nth i_def)
    let ?body = "\<lambda>(position, index) g. checked
       (if en_value entries index = [] \<or> \<not> rl_visible (en_rule entries index) then ret g
        else bind (collect_causes entries owners index (take position indexes) [])
               (\<lambda>causes. ret (add_causes index (cause_order causes) g)))"
    have elem: "enumerate 0 indexes ! k = (k, i)" using kl by (simp add: nth_enumerate_eq i_def)
    show "\<exists>g'. yields (?body (enumerate 0 indexes ! k) g) g' \<and> graph_for ?n ?C (P \<union> set (take (Suc k) indexes)) g'"
    proof (cases "en_value entries i = [] \<or> \<not> rl_visible (en_rule entries i)")
      case True
      then have "?C i = {}" using cause_facts(4,5) by (auto simp: cause_set_def)
      then have "graph_for ?n ?C (insert i (P \<union> set (take k indexes))) g" by (rule graph_for_skip [OF g _ i])
      moreover have "yields (?body (k, i) g) g" using True by (auto intro!: yields_checked yields_ret)
      ultimately show ?thesis unfolding elem set by blast
    next
      case False
      have "descending entries (take k indexes)" 
        using indexes(1) unfolding descending_def take_map [symmetric] by (rule sorted_wrt_take)
      then obtain cs where cs: "yields (collect_causes entries owners i (take k indexes) []) cs" "distinct cs"
        "set cs = (\<Union>h \<in> set (take k indexes). causes_through entries owners i h)"
        using collect_causes_yields [of entries "take k indexes" "[]" owners i] by auto
      have "set cs = ?C i" using causes_on_line [OF indexes(1,2) kl i_def _ _ owners] False cs(3) by simp
      then have co: "distinct (cause_order cs)" "set (cause_order cs) = ?C i"
        using mset_eq_imp_distinct_iff [OF order] mset_eq_setD [OF order] cs(2) by auto
      have "?C i \<subseteq> {..<?n}" using cause_facts(1) by (auto simp: cause_set_def)
      then have "graph_for ?n ?C (insert i (P \<union> set (take k indexes))) (add_causes i (cause_order cs) g)"
        using graph_for_add [of ?n ?C "P \<union> set (take k indexes)" "fst g" "snd g", OF _ co(1) co(2) _ new i] g by simp
      moreover have "yields (?body (k, i) g) (add_causes i (cause_order cs) g)"
        using False by (auto intro!: yields_checked yields_bind [OF cs(1)] yields_ret)
      ultimately show ?thesis unfolding elem set by blast
    qed
  qed (use g in simp)
  then show ?thesis by simp
qed

lemma lines_distinct: "distinct (map (by_specificity entries \<circ> snd) (grouped_lines entries))"
proof -
  have "distinct (grouped_lines entries)"
    using fold_push_group(1) [of "[]" "en_line entries" "\<lambda>i. i" "[0..<length entries]"] by (simp add: grouped_lines_def distinct_map)
  moreover have "inj_on (by_specificity entries \<circ> snd) (set (grouped_lines entries))"
  proof (rule inj_onI)
    fix a b assume ab: "a \<in> set (grouped_lines entries)" "b \<in> set (grouped_lines entries)"
      "(by_specificity entries \<circ> snd) a = (by_specificity entries \<circ> snd) b"
    obtain k "is" k' is' where p: "a = (k, is)" "b = (k', is')" by (cases a, cases b)
    have "set is = set is'" using ab(3) by_specificity_facts(1) by (metis comp_apply p snd_conv)
    moreover have "\<exists>i. i \<in> set is" "\<forall>i \<in> set is. en_line entries i = k" "\<forall>i \<in> set is'. en_line entries i = k'"
      using ab(1,2) unfolding p grouped_lines_set by auto
    ultimately have "k = k'" by metis
    then show "a = b" using ab(1,2) unfolding p grouped_lines_set by simp
  qed
  ultimately show ?thesis by (simp add: distinct_map)
qed

lemma lines_graph:
  assumes order: "\<And>xss. mset (line_order xss) = mset xss" "\<And>xs. mset (cause_order xs) = mset xs"
    and owners: "owners = map (owners_of entries component_attached (length entries)) [0..<length entries]"
  shows "\<exists>g. yields (fold_ctl (line_causes entries owners cause_order)
      (line_order (map (by_specificity entries \<circ> snd) (grouped_lines entries)))
      (replicate (length entries) [], replicate (length entries) 0)) g \<and>
    graph_for (length entries) (cause_set entries component_attached) {..<length entries} g"
proof -
  let ?n = "length entries" and ?C = "cause_set entries component_attached"
  define ls where "ls = line_order (map (by_specificity entries \<circ> snd) (grouped_lines entries))"
  have dist: "distinct ls" using lines_distinct mset_eq_imp_distinct_iff [OF order(1)] by (auto simp: ls_def)
  have set: "set ls = set (map (by_specificity entries \<circ> snd) (grouped_lines entries))"
    unfolding ls_def by (rule mset_eq_setD) (rule order)
  have elem: "\<exists>l. descending entries is \<and> is = by_specificity entries (findings_on entries l)" if "is \<in> set ls" for "is"
    using that by_specificity_facts(3) unfolding set by (auto simp: grouped_lines_set findings_on_def)
  have disjoint: "set (ls ! j) \<inter> set (ls ! k) = {}" if jk: "j < k" "k < length ls" for j k
  proof -
    obtain l l' where l: "ls ! j = by_specificity entries (findings_on entries l)" "ls ! k = by_specificity entries (findings_on entries l')"
      using elem [OF nth_mem, of j] elem [OF nth_mem, of k] jk by auto
    have "ls ! j \<noteq> ls ! k" using dist jk by (simp add: nth_eq_iff_index_eq)
    then have "l \<noteq> l'" using l by auto
    then show ?thesis unfolding l by_specificity_facts(1) by (auto simp: findings_on_def)
  qed
  let ?P = "\<lambda>k. \<Union> (set ` set (take k ls))"
  have "\<exists>g. yields (fold_ctl (line_causes entries owners cause_order) ls (replicate ?n [], replicate ?n 0)) g \<and>
      graph_for ?n ?C (?P (length ls)) g"
  proof (rule fold_ctl_exists [where Q = "\<lambda>k. graph_for ?n ?C (?P k)"])
    fix k g assume k: "k < length ls" and g: "graph_for ?n ?C (?P k) g"
    obtain l where l: "descending entries (ls ! k)" "ls ! k = by_specificity entries (findings_on entries l)"
      using elem [of "ls ! k"] k by auto
    have facts: "set (ls ! k) = set (findings_on entries l)" "distinct (ls ! k)"
      unfolding l(2) by_specificity_facts(1) by (simp_all add: by_specificity_facts(2) findings_on_def)
    have new: "?P k \<inter> set (ls ! k) = {}" using disjoint k by (fastforce simp: in_set_conv_nth)
    have "?P (Suc k) = ?P k \<union> set (ls ! k)" using k by (simp add: take_Suc_conv_app_nth Un_commute)
    then show "\<exists>g'. yields (line_causes entries owners cause_order (ls ! k) g) g' \<and> graph_for ?n ?C (?P (Suc k)) g'"
      using line_causes_yields [OF l(1) facts owners order(2) g new] by simp
  qed (simp add: graph_for_def)
  moreover have "?P (length ls) = {..<?n}"
  proof -
    have "?P (length ls) = (\<Union>(k, is) \<in> set (grouped_lines entries). set is)"
      using set by (simp add: by_specificity_facts(1) split_beta)
    also have "\<dots> = {..<?n}"
    proof (intro equalityI subsetI)
      fix i assume "i \<in> {..<?n}"
      then have "(en_line entries i, findings_on entries (en_line entries i)) \<in> set (grouped_lines entries)"
        "i \<in> set (findings_on entries (en_line entries i))"
        by (auto simp: grouped_lines_set findings_on_def)
      then show "i \<in> (\<Union>(k, is) \<in> set (grouped_lines entries). set is)" by blast
    qed (auto simp: grouped_lines_set)
    finally show ?thesis .
  qed
  ultimately show ?thesis unfolding ls_def by simp
qed

section \<open>The outcome\<close>

definition visible_findings :: "entry list \<Rightarrow> nat set" where
  "visible_findings entries = {i. i < length entries \<and> rl_visible (en_rule entries i)}"

text \<open>A finding is suppressed when the grounded resolution of all causes suppresses it.\<close>

definition suppressed :: "entry list \<Rightarrow> attached \<Rightarrow> nat \<Rightarrow> bool" where
  "suppressed entries component_attached =
     suppressed_under (cause_set entries component_attached) (visible_findings entries)"

lemma graph_for_ok:
  assumes "graph_for (length entries) (cause_set entries component_attached) {..<length entries} (dependents, remaining)"
  shows "graph_ok (length entries) (visible_findings entries) (cause_set entries component_attached) dependents"
proof -
  have C: "c \<in> cause_set entries component_attached i \<Longrightarrow> c \<in> visible_findings entries \<and> i \<in> visible_findings entries" for c i
    using cause_facts [of entries component_attached c i] by (auto simp: cause_set_def visible_findings_def)
  have "set (dependents ! c) = {i. c \<in> cause_set entries component_attached i}" if "c < length entries" for c
    using assms that C by (auto simp: graph_for_def visible_findings_def)
  then show ?thesis using assms C by (auto simp: graph_ok_def graph_for_def visible_findings_def)
qed

lemma initial_resolving:
  assumes "graph_for n causes {..<n} (dependents, remaining)" and g: "graph_ok n findings causes dependents"
    and ready: "ready = filter (\<lambda>i. i \<in> findings \<and> remaining ! i = 0) [0..<n]"
  shows "resolving n findings causes {} (map (\<lambda>i. if i \<in> set ready then Some True else None) [0..<n], remaining, ready)"
proof -
  note gd = graph_okD [OF g]
  have rem: "length remaining = n" "\<And>i. i < n \<Longrightarrow> remaining ! i = card (causes i)"
    using assms(1) by (auto simp: graph_for_def)
  have free: "causes i = {}" "i \<in> findings" "i < n" if "i \<in> set ready" for i
    using that rem(2) [of i] gd(6) [of i] by (auto simp: ready)
  show ?thesis
  proof (rule resolvingI)
    fix i assume "i < n" "map (\<lambda>i. if i \<in> set ready then Some True else None) [0..<n] ! i = Some True"
    then show "survives_under causes findings i"
      using free by (auto split: if_splits intro!: survives_under_suppressed_under.survive)
  next
    fix i assume "i \<in> findings" "map (\<lambda>i. if i \<in> set ready then Some True else None) [0..<n] ! i = None"
    then show "remaining ! i = card (causes i -
        {c \<in> {}. map (\<lambda>i. if i \<in> set ready then Some True else None) [0..<n] ! c = Some False}) \<and> 0 < remaining ! i"
      using gd(1) rem(2) [of i] by (auto simp: ready split: if_splits)
  qed (use rem(1) in \<open>auto simp: ready split: if_splits\<close>)
qed

lemma no_rank_no_suppression:
  assumes "list_all (\<lambda>(rule, _, _). rl_specificity rule = 0) entries"
  shows "\<not> suppressed entries component_attached i"
proof
  assume "suppressed entries component_attached i"
  then obtain c where "c \<in> cause_set entries component_attached i" unfolding suppressed_def by (auto elim: suppressed_under.cases)
  then obtain h where h: "outranks entries h i" by (auto simp: cause_set_def cause_def)
  have "rl_specificity (en_rule entries x) = 0" if "x < length entries" for x
    using assms that by (auto simp: list_all_length en_rule_def split_beta)
  then show False using h by (auto simp: outranks_def)
qed

lemma specificity_outcome_of_nth:
  assumes "length owners = n" "length reported = n" "i < n"
  shows "so_keep (specificity_outcome_of owners reported) ! i \<longleftrightarrow> \<not> (reported ! i = Some False \<and> owners ! i = [])"
    and "so_suppress_reporting (specificity_outcome_of owners reported) ! i \<longleftrightarrow> reported ! i = Some False \<and> owners ! i \<noteq> []"
  using assms by (auto simp: specificity_outcome_of_def)

lemma specificity_keep_yields:
  assumes small: "length entries \<le> usize_max"
    and order: "\<And>xss. mset (line_order xss) = mset xss" "\<And>xs. mset (cause_order xs) = mset xs"
  shows "\<exists>outcome. yields (specificity_keep line_order cause_order entries component_attached) (Some outcome) \<and>
    length (so_keep outcome) = length entries \<and> length (so_suppress_reporting outcome) = length entries \<and>
    (\<forall>i < length entries.
       (so_keep outcome ! i \<longleftrightarrow>
          \<not> (suppressed entries component_attached i \<and> (\<nexists>owner. owns entries component_attached owner i))) \<and>
       (so_suppress_reporting outcome ! i \<longleftrightarrow>
          suppressed entries component_attached i \<and> (\<exists>owner. owns entries component_attached owner i)))"
proof (cases "list_all (\<lambda>(rule, _, _). rl_specificity rule = 0) entries")
  case True
  then show ?thesis using no_rank_no_suppression [OF True]
    by (auto simp: specificity_keep_def Let_def intro!: exI yields_ret)
next
  case False
  let ?n = "length entries" and ?C = "cause_set entries component_attached" and ?F = "visible_findings entries"
  define owners where "owners = map (owners_of entries component_attached ?n) [0..<?n]"
  obtain dependents remaining where
    graph: "yields (fold_ctl (line_causes entries owners cause_order)
        (line_order (map (by_specificity entries \<circ> snd) (grouped_lines entries))) (replicate ?n [], replicate ?n 0))
      (dependents, remaining)"
    and gf: "graph_for ?n ?C {..<?n} (dependents, remaining)"
    using lines_graph [where entries = entries, OF order owners_def] by (metis surj_pair)
  note ok = graph_for_ok [OF gf]
  let ?ready = "filter (\<lambda>i. rl_visible (en_rule entries i) \<and> remaining ! i = 0) [0..<?n]"
  have ready: "?ready = filter (\<lambda>i. i \<in> ?F \<and> remaining ! i = 0) [0..<?n]"
    by (rule filter_cong) (auto simp: visible_findings_def)
  obtain reported rem' handled where
    loop: "yields (resolve_loop dependents
      (map (\<lambda>i. if i \<in> set ?ready then Some True else None) [0..<?n], remaining, ?ready)) (Some reported)"
    and res: "resolving ?n ?F ?C handled (reported, rem', [])"
    using resolve_loop_resolves [OF ok initial_resolving [OF gf ok ready]] by blast
  have run: "yields (specificity_keep line_order cause_order entries component_attached)
      (Some (specificity_outcome_of owners reported))"
    unfolding specificity_keep_def Let_def if_not_P [OF False]
    by (rule yields_bind [OF collect_components_yields],
        rule yields_bind [OF collect_owners_yields [OF small, of component_attached, folded owners_def]],
        rule yields_bind [OF group_lines_yields], rule yields_bind [OF graph], unfold prod.case,
        rule yields_bind [OF loop]) (simp add: yields_ret)
  have len: "length owners = ?n" "length reported = ?n" using resolvingD(1) [OF res] by (simp_all add: owners_def)
  have own: "owners ! i = [] \<longleftrightarrow> (\<nexists>owner. owns entries component_attached owner i)" if "i < ?n" for i
    using owners_of_set [of entries component_attached i] that by (simp add: owners_def) (metis empty_Collect_eq set_empty)
  have rep: "reported ! i = Some False \<longleftrightarrow> suppressed entries component_attached i" if "i < ?n" for i
    using resolving_complete(2) [OF ok res that] by (simp add: suppressed_def)
  show ?thesis
    by (rule exI [of _ "specificity_outcome_of owners reported"])
      (use run len own rep specificity_outcome_of_nth [OF len] in \<open>auto simp: specificity_outcome_of_def\<close>)
qed

text \<open>C7. With any iteration order of its hash tables, \<open>specificity_keep\<close> runs to its end without panicking, and
  aborts only when the scan control is limited.  A finding is dropped exactly when the grounded
  resolution suppresses it and no visible finding owns it, and is kept for validation but not reported
  exactly when it is suppressed and owned; findings whose suppressions form an unresolved cycle stay.\<close>

theorem specificity_keep_grounded:
  assumes small: "length entries \<le> usize_max"
    and order: "\<And>xss. mset (line_order xss) = mset xss" "\<And>xs. mset (cause_order xs) = mset xs"
  shows "\<exists>outcome. yields (specificity_keep line_order cause_order entries component_attached) (Some outcome) \<and>
    length (so_keep outcome) = length entries \<and> length (so_suppress_reporting outcome) = length entries \<and>
    (\<forall>i < length entries.
       (so_keep outcome ! i \<longleftrightarrow>
          \<not> (suppressed entries component_attached i \<and> (\<nexists>owner. owns entries component_attached owner i))) \<and>
       (so_suppress_reporting outcome ! i \<longleftrightarrow>
          suppressed entries component_attached i \<and> (\<exists>owner. owns entries component_attached owner i)))"
  using assms by (rule specificity_keep_yields)

definition generic_in_specific :: "entry list" where
  "generic_in_specific =
     [(\<lparr>rl_id = ''generic'', rl_visible = True, rl_specificity = 0, rl_validation = None, rl_depends_on = []\<rparr>, 3, ''key''),
      (\<lparr>rl_id = ''specific'', rl_visible = True, rl_specificity = 2, rl_validation = None, rl_depends_on = []\<rparr>, 3, ''a-key-b'')]"

theorem specificity_keep_grounded_witness:
  "\<exists>outcome. yields (specificity_keep rev rev generic_in_specific (\<lambda>_ _ _. False)) (Some outcome) \<and>
     so_keep outcome = [False, True] \<and> so_suppress_reporting outcome = [False, False]"
proof -
  let ?e = generic_in_specific and ?a = "\<lambda>_ _ _. False"
  have len: "length ?e = 2" "length ?e \<le> usize_max" by (simp_all add: generic_in_specific_def usize_max_def)
  have own: "\<not> owns ?e ?a p c" for p c using tranclpD [of "component_edge ?e ?a" p c] by (auto simp: owns_def component_edge_def)
  have "\<not> outranks ?e h 1" for h by (cases "h = 0 \<or> h = 1") (auto simp: outranks_def en_rule_def generic_in_specific_def)
  then have none: "cause_set ?e ?a 1 = {}" by (simp add: cause_set_def cause_def)
  then have keep: "\<not> suppressed ?e ?a 1" by (auto simp: suppressed_def elim: suppressed_under.cases)
  have "survives_under (cause_set ?e ?a) (visible_findings ?e) 1"
    by (rule survives_under_suppressed_under.survive)
      (use none in \<open>auto simp: visible_findings_def en_rule_def generic_in_specific_def\<close>)
  moreover have "outranks ?e 1 0" by (simp add: outranks_def en_rule_def en_line_def en_value_def generic_in_specific_def)
  then have "1 \<in> cause_set ?e ?a 0"
    by (auto simp: cause_set_def cause_def en_rule_def generic_in_specific_def intro!: exI [of _ 1])
  ultimately have drop: "suppressed ?e ?a 0" unfolding suppressed_def by (blast intro: survives_under_suppressed_under.suppress)
  obtain outcome where o: "yields (specificity_keep rev rev ?e ?a) (Some outcome)" "length (so_keep outcome) = 2"
    "length (so_suppress_reporting outcome) = 2" "\<not> so_keep outcome ! 0" "so_keep outcome ! 1"
    "\<not> so_suppress_reporting outcome ! 0" "\<not> so_suppress_reporting outcome ! 1"
    using specificity_keep_grounded [OF len(2), of rev rev ?a] keep drop own len(1) by auto
  have two: "xs = [xs ! 0, xs ! 1]" if "length xs = 2" for xs :: "bool list"
    using that by (intro nth_equalityI) (auto simp: less_2_cases_iff)
  show ?thesis using o two [of "so_keep outcome"] two [of "so_suppress_reporting outcome"] by metis
qed

end
