(* ===== verification/Catalog_Keep.thy ===== *)
theory Catalog_Keep
  imports Specificity
begin

text \<open>
  Elimination between rule catalogs: \<open>catalog_keep\<close> of \<open>crates/kingfisher-scanner/src/postprocess.rs\<close>.

  Visible findings of the two imported catalogs compete when they cover the same span.  The code
  keeps, per span, one queue of findings for each of four ranks and consumes each queue once.  The
  theory shows that the result is that of the plain quadratic elimination over all findings in order,
  for every order in which the hash map of spans is visited.
\<close>

section \<open>\<open>catalog_keep\<close>\<close>

type_synonym ranked = "nat \<times> nat"

definition catalog_of :: "bytes \<Rightarrow> nat option" where
  "catalog_of rule_id =
     (if prefix ''betterleaks.'' rule_id then Some 1 else if prefix ''veles.'' rule_id then Some 0 else None)"

definition rank_of :: "rule \<Rightarrow> nat option" where
  "rank_of rule =
     (case catalog_of (rl_id rule) of
        None \<Rightarrow> None
      | Some catalog \<Rightarrow>
          if rl_visible rule then Some ((if rl_validation rule \<noteq> None then 1 else 0) * 2 + catalog) else None)"

definition group_spans :: "(rule \<times> offset_span) list \<Rightarrow> (offset_span \<times> ranked list) list ctl" where
  "group_spans entries =
     fold_ctl (\<lambda>(index, rule, span) gs. checked (ret
        (case rank_of rule of None \<Rightarrow> gs | Some rank \<Rightarrow> push_group span (index, rank) gs)))
       (enumerate 0 entries) []"

text \<open>The four queues of a span.\<close>

definition rank_queues :: "ranked list \<Rightarrow> nat list list" where
  "rank_queues grp =
     fold (\<lambda>(index, rank) ranks. ranks[rank := ranks ! rank @ [index]]) grp (replicate 4 [])"

definition purge :: "nat \<Rightarrow> bool list \<Rightarrow> nat list \<Rightarrow> nat list" where
  "purge left keep = dropWhile (\<lambda>i. i \<le> left \<or> \<not> keep ! i)"

definition front :: "'a list \<Rightarrow> 'a option" where
  "front q = (case q of [] \<Rightarrow> None | i # _ \<Rightarrow> Some i)"

definition opposing :: "nat \<Rightarrow> nat list" where
  "opposing rank = [1 - rank mod 2, 3 - rank mod 2]"

definition min_of :: "nat list \<Rightarrow> nat option" where
  "min_of xs = (case xs of [] \<Rightarrow> None | x # rest \<Rightarrow> Some (fold min rest x))"

definition first_better :: "nat \<Rightarrow> nat list list \<Rightarrow> nat option" where
  "first_better rank ranks = min_of (List.map_filter (\<lambda>r. front (ranks ! r)) (filter (\<lambda>r. rank < r) (opposing rank)))"

definition before_stop :: "nat option \<Rightarrow> nat \<Rightarrow> bool" where
  "before_stop stop i = (case stop of None \<Rightarrow> True | Some s \<Rightarrow> i < s)"

text \<open>The inner loop drops the front of a queue as long as it lies before the first better finding.\<close>

fun drop_front :: "nat option \<Rightarrow> nat list \<Rightarrow> bool list \<Rightarrow> (nat list \<times> bool list) ctl" where
  "drop_front stop [] keep = ret ([], keep)"
| "drop_front stop (i # q) keep =
     (if before_stop stop i then checked (drop_front stop q (keep[i := False])) else ret (i # q, keep))"

definition drop_rank :: "nat \<Rightarrow> nat option \<Rightarrow> nat \<Rightarrow> bool list \<times> nat list list \<Rightarrow> (bool list \<times> nat list list) ctl" where
  "drop_rank rank stop r st =
     (case st of (keep, ranks) \<Rightarrow>
        if rank < r then ret st
        else bind (drop_front stop (ranks ! r) keep) (\<lambda>(q, keep). ret (keep, ranks[r := q])))"

definition settle_finding :: "ranked \<Rightarrow> bool list \<times> nat list list \<Rightarrow> (bool list \<times> nat list list) ctl" where
  "settle_finding x st =
     (case (x, st) of ((left, rank), (keep, ranks)) \<Rightarrow> checked
        (if \<not> keep ! left then ret (keep, ranks)
         else
           let ranks = map (purge left keep) ranks; stop = first_better rank ranks in
           bind (fold_ctl (drop_rank rank stop) (opposing rank) (keep, ranks)) (\<lambda>(keep, ranks).
             ret (if stop \<noteq> None then keep[left := False] else keep, ranks))))"

definition settle_group :: "ranked list \<Rightarrow> bool list \<Rightarrow> bool list ctl" where
  "settle_group grp keep =
     bind (fold_ctl settle_finding grp (keep, rank_queues grp)) (\<lambda>(keep, ranks). ret keep)"

definition catalog_keep ::
  "(ranked list list \<Rightarrow> ranked list list) \<Rightarrow> (rule \<times> offset_span) list \<Rightarrow> bool list ctl" where
  "catalog_keep group_order entries =
     bind (group_spans entries) (\<lambda>groups.
       fold_ctl settle_group (group_order (map snd groups)) (replicate (length entries) True))"

section \<open>The plain elimination\<close>

text \<open>
  Every finding in order that is still kept meets the later ones of the other catalog on its span: it
  removes those of lower rank until it meets one of higher rank, which removes it.
\<close>

type_synonym contender = "nat \<times> nat \<times> offset_span"

fun meet :: "contender \<Rightarrow> contender list \<Rightarrow> bool list \<Rightarrow> bool list" where
  "meet x [] keep = keep"
| "meet (left, rank, span) ((right, r, s) # rest) keep =
     (if \<not> keep ! right \<or> s \<noteq> span \<or> r mod 2 = rank mod 2 then meet (left, rank, span) rest keep
      else if rank < r then keep[left := False]
      else meet (left, rank, span) rest (keep[right := False]))"

fun eliminate :: "contender list \<Rightarrow> bool list \<Rightarrow> bool list" where
  "eliminate [] keep = keep"
| "eliminate ((left, rank, span) # rest) keep =
     eliminate rest (if keep ! left then meet (left, rank, span) rest keep else keep)"

definition contenders :: "(rule \<times> offset_span) list \<Rightarrow> contender list" where
  "contenders entries =
     List.map_filter (\<lambda>(index, rule, span). map_option (\<lambda>rank. (index, rank, span)) (rank_of rule)) (enumerate 0 entries)"

section \<open>What a meeting does\<close>

definition in_order :: "contender list \<Rightarrow> bool" where
  "in_order cs = sorted_wrt (<) (map fst cs)"

lemma in_order_Cons: "in_order (x # cs) \<longleftrightarrow> (\<forall>y \<in> set cs. fst x < fst y) \<and> in_order cs"
  by (simp add: in_order_def)

text \<open>The kept findings that beat one of the given rank and span.\<close>

definition better :: "contender list \<Rightarrow> bool list \<Rightarrow> nat \<Rightarrow> offset_span \<Rightarrow> nat set" where
  "better cs keep rank span = {j. \<exists>r. (j, r, span) \<in> set cs \<and> keep ! j \<and> r mod 2 \<noteq> rank mod 2 \<and> rank < r}"

definition beaten :: "contender list \<Rightarrow> nat \<Rightarrow> offset_span \<Rightarrow> nat set" where
  "beaten cs rank span = {i. \<exists>r. (i, r, span) \<in> set cs \<and> r mod 2 \<noteq> rank mod 2 \<and> \<not> rank < r}"

lemma better_Cons: "better ((right, r, s) # cs) keep rank span =
    (if s = span \<and> keep ! right \<and> r mod 2 \<noteq> rank mod 2 \<and> rank < r then {right} else {}) \<union> better cs keep rank span"
  by (auto simp: better_def)

lemma beaten_Cons: "beaten ((right, r, s) # cs) rank span =
    (if s = span \<and> r mod 2 \<noteq> rank mod 2 \<and> \<not> rank < r then {right} else {}) \<union> beaten cs rank span"
  by (auto simp: beaten_def)

lemma better_update: "\<forall>x \<in> set cs. i \<noteq> fst x \<Longrightarrow> better cs (keep[i := b]) rank span = better cs keep rank span"
  by (force simp: better_def nth_list_update)

lemma better_later: "\<forall>y \<in> set cs. i < fst y \<Longrightarrow> j \<in> better cs keep rank span \<Longrightarrow> i < j"
  by (force simp: better_def)

lemma beaten_later: "\<forall>y \<in> set cs. i < fst y \<Longrightarrow> j \<in> beaten cs rank span \<Longrightarrow> i < j"
  by (force simp: beaten_def)

lemma meet_length [simp]: "length (meet x cs keep) = length keep"
  by (induction x cs keep rule: meet.induct) auto

lemma meet_nth:
  assumes "in_order cs" "\<forall>x \<in> set cs. left < fst x" "\<forall>x \<in> set cs. fst x < length keep" "left < length keep" "keep ! left"
  shows "meet (left, rank, span) cs keep ! i \<longleftrightarrow>
    (if i = left then better cs keep rank span = {}
     else keep ! i \<and> \<not> (i \<in> beaten cs rank span \<and> (\<forall>j \<in> better cs keep rank span. i < j)))"
  using assms
proof (induction "(left, rank, span)" cs keep rule: meet.induct)
  case (1 keep)
  then show ?case by (auto simp: better_def beaten_def)
next
  case (2 right r s rest keep)
  have order: "in_order rest" "\<forall>x \<in> set rest. right < fst x" "left < right" "\<forall>x \<in> set rest. left < fst x"
    "right < length keep" "\<forall>x \<in> set rest. fst x < length keep"
    using 2(3-5) by (auto simp: in_order_Cons)
  consider (skip) "\<not> keep ! right \<or> s \<noteq> span \<or> r mod 2 = rank mod 2"
    | (lose) "keep ! right" "s = span" "r mod 2 \<noteq> rank mod 2" "rank < r"
    | (win) "keep ! right" "s = span" "r mod 2 \<noteq> rank mod 2" "\<not> rank < r" by blast
  then show ?case
  proof cases
    case skip
    have "better ((right, r, s) # rest) keep rank span = better rest keep rank span" using skip by (auto simp: better_Cons)
    moreover have "i \<in> beaten ((right, r, s) # rest) rank span \<longleftrightarrow> i \<in> beaten rest rank span" if "keep ! i"
      using skip that by (auto simp: beaten_Cons)
    ultimately show ?thesis using 2(1) [OF skip order(1,4,6) 2(6,7)] skip by auto
  next
    case lose
    have "better ((right, r, s) # rest) keep rank span = insert right (better rest keep rank span)"
      "beaten ((right, r, s) # rest) rank span = beaten rest rank span" using lose by (simp_all add: better_Cons beaten_Cons)
    moreover have "\<not> i < right" if "i \<in> beaten rest rank span" using beaten_later [OF order(2) that] by simp
    ultimately show ?thesis using lose 2(6,7) by (auto simp: nth_list_update)
  next
    case win
    have b: "better ((right, r, s) # rest) keep rank span = better rest keep rank span"
      "better rest (keep[right := False]) rank span = better rest keep rank span"
      "beaten ((right, r, s) # rest) rank span = insert right (beaten rest rank span)"
      using win order(2) by (simp_all add: better_Cons beaten_Cons) (rule better_update, force)
    have "\<forall>j \<in> better rest keep rank span. right < j" using better_later [OF order(2)] by blast
    moreover have "meet (left, rank, span) rest (keep[right := False]) ! i \<longleftrightarrow>
      (if i = left then better rest keep rank span = {}
       else keep[right := False] ! i \<and> \<not> (i \<in> beaten rest rank span \<and> (\<forall>j \<in> better rest keep rank span. i < j)))"
      using 2(2) [OF _ _ order(1,4)] win order 2(6,7) by (simp add: b(2))
    ultimately show ?thesis using win order(3,5) by (auto simp: b [unfolded win(2)] nth_list_update)
  qed
qed

lemma meet_other_span:
  assumes "i \<noteq> left" "\<forall>x \<in> set cs. snd (snd x) = span \<longrightarrow> fst x \<noteq> i"
  shows "meet (left, rank, span) cs keep ! i = keep ! i"
  using assms by (induction "(left, rank, span)" cs keep rule: meet.induct) auto

section \<open>Spans are independent\<close>

definition of_span :: "offset_span \<Rightarrow> contender list \<Rightarrow> contender list" where
  "of_span span cs = filter (\<lambda>x. snd (snd x) = span) cs"

lemma of_span_in_order: "in_order cs \<Longrightarrow> in_order (of_span span cs)"
  unfolding in_order_def of_span_def by (induction cs) auto

lemma better_of_span:
  assumes "\<And>j r. (j, r, span) \<in> set cs \<Longrightarrow> keep1 ! j = keep2 ! j"
  shows "better (of_span span cs) keep2 rank span = better cs keep1 rank span"
  using assms by (auto simp: better_def of_span_def)

lemma beaten_of_span: "beaten (of_span span cs) rank span = beaten cs rank span"
  by (auto simp: beaten_def of_span_def)

lemma eliminate_length [simp]: "length (eliminate cs keep) = length keep"
  by (induction cs keep rule: eliminate.induct) auto

lemma eliminate_of_span:
  assumes "in_order cs" "\<forall>x \<in> set cs. fst x < length keep1" "length keep2 = length keep1"
    and "\<forall>i \<in> A. keep1 ! i = keep2 ! i" "\<forall>x \<in> set cs. fst x \<in> A \<longleftrightarrow> snd (snd x) = span" "i \<in> A"
  shows "eliminate cs keep1 ! i = eliminate (of_span span cs) keep2 ! i"
  using assms
proof (induction cs arbitrary: keep1 keep2)
  case Nil
  then show ?case by (simp add: of_span_def)
next
  case (Cons x cs)
  obtain left rank s where x: "x = (left, rank, s)" by (cases x)
  have o: "in_order cs" "\<forall>y \<in> set cs. left < fst y" "\<forall>y \<in> set cs. fst y < length keep1" "left < length keep1"
    using Cons(2,3) by (auto simp: in_order_Cons x)
  show ?case
  proof (cases "s = span")
    case True
    have eq: "keep1 ! left = keep2 ! left" using Cons(5,6) by (auto simp: x True)
    have "\<forall>i \<in> A. meet (left, rank, span) cs keep1 ! i = meet (left, rank, span) (of_span span cs) keep2 ! i" if "keep1 ! left"
    proof
      fix i assume i: "i \<in> A"
      have "better (of_span span cs) keep2 rank span = better cs keep1 rank span"
        by (rule better_of_span) (use Cons(5,6) in force)
      moreover have "meet (left, rank, span) (of_span span cs) keep2 ! i \<longleftrightarrow>
        (if i = left then better (of_span span cs) keep2 rank span = {}
         else keep2 ! i \<and> \<not> (i \<in> beaten (of_span span cs) rank span \<and> (\<forall>j \<in> better (of_span span cs) keep2 rank span. i < j)))"
        by (rule meet_nth [OF of_span_in_order [OF o(1)]]) (use o Cons(4) that eq in \<open>auto simp: of_span_def\<close>)
      ultimately show "meet (left, rank, span) cs keep1 ! i = meet (left, rank, span) (of_span span cs) keep2 ! i"
        using meet_nth [OF o that] Cons(5) i by (simp add: beaten_of_span)
    qed
    then have "\<forall>i \<in> A. (if keep1 ! left then meet (left, rank, span) cs keep1 else keep1) ! i =
        (if keep2 ! left then meet (left, rank, span) (of_span span cs) keep2 else keep2) ! i"
      using eq Cons(5) by simp
    then show ?thesis
      using Cons(1) [OF o(1) _ _ _ _ Cons(7), of "if keep1 ! left then meet (left, rank, span) cs keep1 else keep1"
        "if keep2 ! left then meet (left, rank, span) (of_span span cs) keep2 else keep2"] o(3) Cons(4,6)
      by (simp add: x True of_span_def)
  next
    case False
    have "\<forall>i \<in> A. meet (left, rank, s) cs keep1 ! i = keep1 ! i"
    proof
      fix i assume "i \<in> A"
      then show "meet (left, rank, s) cs keep1 ! i = keep1 ! i"
        by (intro meet_other_span) (use Cons(6) False in \<open>auto simp: x\<close>)
    qed
    then have "\<forall>i \<in> A. (if keep1 ! left then meet (left, rank, s) cs keep1 else keep1) ! i = keep2 ! i" using Cons(5) by simp
    then show ?thesis
      using Cons(1) [OF o(1) _ _ _ _ Cons(7), of "if keep1 ! left then meet (left, rank, s) cs keep1 else keep1" keep2]
        o(3) Cons(4,6) False by (simp add: x of_span_def)
  qed
qed

lemma eliminate_untouched: "\<forall>x \<in> set cs. fst x \<noteq> i \<Longrightarrow> eliminate cs keep ! i = keep ! i"
proof (induction cs keep rule: eliminate.induct)
  case (2 left rank span rest keep)
  then show ?case using meet_other_span [of i left rest span rank keep] by auto
qed simp

section \<open>The queues\<close>

lemma in_dropWhile: "x \<in> set xs \<Longrightarrow> \<not> P x \<Longrightarrow> x \<in> set (dropWhile P xs)"
  by (induction xs) auto

lemma sorted_dropWhile_lt: "sorted_wrt (<) xs \<Longrightarrow> sorted_wrt (<) (dropWhile P xs)" for xs :: "nat list"
  by (induction xs) auto

lemma purge_facts:
  assumes "sorted_wrt (<) q"
  shows "sorted_wrt (<) (purge left keep q)" "i \<in> set (purge left keep q) \<Longrightarrow> i \<in> set q"
    "i \<in> set (purge left keep q) \<Longrightarrow> left < i" "i \<in> set q \<Longrightarrow> left < i \<Longrightarrow> keep ! i \<Longrightarrow> i \<in> set (purge left keep q)"
    "front (purge left keep q) = Some i \<Longrightarrow> keep ! i"
proof -
  show sorted: "sorted_wrt (<) (purge left keep q)" using assms by (simp add: purge_def sorted_dropWhile_lt)
  have head: "left < x \<and> keep ! x" if "purge left keep q = x # xs" for x xs
    using that hd_dropWhile [of "\<lambda>i. i \<le> left \<or> \<not> keep ! i" q] by (auto simp: purge_def)
  show "i \<in> set (purge left keep q) \<Longrightarrow> left < i"
  proof (cases "purge left keep q")
    case (Cons x xs)
    assume "i \<in> set (purge left keep q)"
    then show ?thesis using head [OF Cons] sorted by (auto simp: Cons)
  qed simp
  show "front (purge left keep q) = Some i \<Longrightarrow> keep ! i"
    using head by (auto simp: front_def split: list.splits)
qed (auto simp: purge_def dest: set_dropWhileD intro: in_dropWhile)

lemma front_least: "sorted_wrt (<) q \<Longrightarrow> i \<in> set q \<Longrightarrow> \<exists>f. front q = Some f \<and> f \<le> (i :: nat)"
  by (cases q) (auto simp: front_def)

lemma front_mem: "front q = Some f \<Longrightarrow> f \<in> set q"
  by (auto simp: front_def split: list.splits)

lemma before_stop_min: "before_stop (min_of xs) i \<longleftrightarrow> (\<forall>x \<in> set xs. i < x)" "min_of xs = None \<longleftrightarrow> xs = []"
proof -
  have "i < fold min ys m \<longleftrightarrow> i < m \<and> (\<forall>y \<in> set ys. i < y)" for ys and m :: nat
    by (induction ys arbitrary: m) auto
  then show "before_stop (min_of xs) i \<longleftrightarrow> (\<forall>x \<in> set xs. i < x)" by (cases xs) (auto simp: before_stop_def min_of_def)
qed (simp add: min_of_def split: list.splits)

lemma before_stop_down: "before_stop stop j \<Longrightarrow> i \<le> j \<Longrightarrow> before_stop stop i"
  by (auto simp: before_stop_def split: option.splits)

lemma set_opposing: "rank < 4 \<Longrightarrow> set (opposing rank) = {r. r < 4 \<and> r mod 2 \<noteq> rank mod 2}"
proof -
  assume "rank < 4"
  then have "rank = 0 \<or> rank = 1 \<or> rank = 2 \<or> rank = 3" by auto
  moreover have "r = 0 \<or> r = 1 \<or> r = 2 \<or> r = 3" if "r < 4" for r :: nat using that by auto
  ultimately show ?thesis by (fastforce simp: opposing_def)
qed

lemma drop_front_yields:
  "yields (drop_front stop q keep)
     (dropWhile (before_stop stop) q, fold (\<lambda>i keep. keep[i := False]) (takeWhile (before_stop stop) q) keep)"
  by (induction stop q keep rule: drop_front.induct) (auto intro: yields_ret yields_checked)

lemma fold_clear:
  "length (fold (\<lambda>i keep. keep[i := False]) is keep) = length keep"
  "i < length keep \<Longrightarrow> fold (\<lambda>i keep. keep[i := False]) is keep ! i \<longleftrightarrow> keep ! i \<and> i \<notin> set is"
proof (induction "is" arbitrary: keep)
  case (Cons a "is")
  case 1
  then show ?case using Cons(1) by simp
  case 2
  then show ?case using Cons(2) [of "keep[a := False]"] by (cases "a = i") auto
qed simp_all

lemma set_takeWhile_before: "sorted_wrt (<) q \<Longrightarrow> set (takeWhile (before_stop stop) q) = {i \<in> set q. before_stop stop i}"
proof (induction q)
  case (Cons x q)
  then show ?case using before_stop_down [of stop _ x] by (auto dest: less_imp_le)
qed simp

definition dropped :: "nat \<Rightarrow> nat option \<Rightarrow> nat \<Rightarrow> bool list \<times> nat list list \<Rightarrow> bool list \<times> nat list list" where
  "dropped rank stop r st =
     (case st of (keep, ranks) \<Rightarrow>
        if rank < r then st
        else (fold (\<lambda>i keep. keep[i := False]) (takeWhile (before_stop stop) (ranks ! r)) keep,
              ranks[r := dropWhile (before_stop stop) (ranks ! r)]))"

lemma drop_rank_yields: "yields (drop_rank rank stop r st) (dropped rank stop r st)"
  by (cases st) (auto simp: drop_rank_def dropped_def intro!: yields_ret yields_bind [OF drop_front_yields])

lemma dropped_opposing:
  assumes "rank < 4" "length ranks = 4" "\<forall>r < 4. sorted_wrt (<) (ranks ! r)"
    and "fold (dropped rank stop) (opposing rank) (keep, ranks) = (keep', ranks')"
  shows "length keep' = length keep" "length ranks' = 4"
    "i < length keep \<Longrightarrow> keep' ! i \<longleftrightarrow>
       keep ! i \<and> \<not> (\<exists>r \<in> set (opposing rank). \<not> rank < r \<and> i \<in> set (ranks ! r) \<and> before_stop stop i)"
    "r < 4 \<Longrightarrow> ranks' ! r = (if r \<in> set (opposing rank) \<and> \<not> rank < r then dropWhile (before_stop stop) (ranks ! r) else ranks ! r)"
proof -
  obtain a b where ab: "opposing rank = [a, b]" "a \<noteq> b" "a < 4" "b < 4" using assms(1) by (auto simp: opposing_def)
  note tw = set_takeWhile_before [OF assms(3) [rule_format]]
  show "length keep' = length keep" "length ranks' = 4"
    "i < length keep \<Longrightarrow> keep' ! i \<longleftrightarrow>
       keep ! i \<and> \<not> (\<exists>r \<in> set (opposing rank). \<not> rank < r \<and> i \<in> set (ranks ! r) \<and> before_stop stop i)"
    "r < 4 \<Longrightarrow> ranks' ! r = (if r \<in> set (opposing rank) \<and> \<not> rank < r then dropWhile (before_stop stop) (ranks ! r) else ranks ! r)"
    using assms(2,4) ab tw [OF ab(3)] tw [OF ab(4)]
    by (auto simp: dropped_def fold_clear nth_list_update split: if_splits)
qed

definition queues_ok :: "offset_span \<Rightarrow> contender list \<Rightarrow> contender list \<Rightarrow> bool list \<Rightarrow> nat list list \<Rightarrow> bool" where
  "queues_ok span all rest keep ranks \<longleftrightarrow>
     length ranks = 4 \<and> (\<forall>r < 4. sorted_wrt (<) (ranks ! r) \<and> (\<forall>i \<in> set (ranks ! r). (i, r, span) \<in> set all) \<and>
       (\<forall>i. (i, r, span) \<in> set rest \<longrightarrow> keep ! i \<longrightarrow> i \<in> set (ranks ! r)))"

lemma first_better_least:
  assumes q: "queues_ok span rest rest keep ranks" and fronts: "\<And>r f. r < 4 \<Longrightarrow> front (ranks ! r) = Some f \<Longrightarrow> keep ! f"
    and ranks: "rank < 4" "\<forall>x \<in> set rest. fst (snd x) < 4"
  shows "before_stop (first_better rank ranks) i \<longleftrightarrow> (\<forall>j \<in> better rest keep rank span. i < j)" (is ?before)
    and "first_better rank ranks = None \<longleftrightarrow> better rest keep rank span = {}" (is ?none)
proof -
  let ?xs = "List.map_filter (\<lambda>r. front (ranks ! r)) (filter (\<lambda>r. rank < r) (opposing rank))"
  have xs: "f \<in> set ?xs \<longleftrightarrow> (\<exists>r < 4. r mod 2 \<noteq> rank mod 2 \<and> rank < r \<and> front (ranks ! r) = Some f)" for f
    using set_opposing [OF ranks(1)] by (force simp: List.map_filter_def)
  have sound: "f \<in> better rest keep rank span" if f: "f \<in> set ?xs" for f
  proof -
    obtain r where r: "r < 4" "r mod 2 \<noteq> rank mod 2" "rank < r" "front (ranks ! r) = Some f"
      using f [unfolded xs] by blast
    have "(f, r, span) \<in> set rest" using q r(1) front_mem [OF r(4)] by (simp add: queues_ok_def)
    then show ?thesis using r fronts [OF r(1,4)] by (auto simp: better_def)
  qed
  have least: "\<exists>f \<in> set ?xs. f \<le> j" if j: "j \<in> better rest keep rank span" for j
  proof -
    obtain r where r: "(j, r, span) \<in> set rest" "keep ! j" "r mod 2 \<noteq> rank mod 2" "rank < r"
      using j by (auto simp: better_def)
    then have "r < 4" using ranks(2) by auto
    then have "sorted_wrt (<) (ranks ! r)" "j \<in> set (ranks ! r)" using q r by (auto simp: queues_ok_def)
    then obtain f where "front (ranks ! r) = Some f" "f \<le> j" using front_least by blast
    then show ?thesis using r \<open>r < 4\<close> unfolding Bex_def xs by blast
  qed
  have "(\<forall>x \<in> set ?xs. i < x) \<longleftrightarrow> (\<forall>j \<in> better rest keep rank span. i < j)"
  proof
    assume i: "\<forall>x \<in> set ?xs. i < x"
    show "\<forall>j \<in> better rest keep rank span. i < j"
    proof
      fix j assume "j \<in> better rest keep rank span"
      then obtain f where "f \<in> set ?xs" "f \<le> j" using least by blast
      then show "i < j" using i by fastforce
    qed
  qed (use sound in blast)
  then show ?before unfolding first_better_def before_stop_min .
  have "better rest keep rank span = {}" if none: "set ?xs = {}"
  proof (rule equals0I)
    fix j assume "j \<in> better rest keep rank span"
    then obtain f where "f \<in> set ?xs" using least by blast
    then show False using none by simp
  qed
  moreover have "set ?xs = {}" if none: "better rest keep rank span = {}"
  proof (rule equals0I)
    fix f assume "f \<in> set ?xs"
    then show False using sound none by blast
  qed
  ultimately have "set ?xs = {} \<longleftrightarrow> better rest keep rank span = {}" by (rule iffI)
  then show ?none unfolding first_better_def before_stop_min by simp
qed

lemma purged_ok:
  assumes q: "queues_ok span all (x # rest) keep ranks" and all: "all = pre @ x # rest" "in_order all"
    and left: "fst x = left"
  shows "queues_ok span rest rest keep (map (purge left keep) ranks)"
    and "r < 4 \<Longrightarrow> front (map (purge left keep) ranks ! r) = Some f \<Longrightarrow> keep ! f"
proof -
  have later: "y \<in> set rest" if "y \<in> set all" "left < fst y" for y
    using that all left by (auto simp: in_order_def sorted_wrt_append)
  have after: "left < fst y" if "y \<in> set rest" for y using that all left by (auto simp: in_order_def sorted_wrt_append)
  have r: "length ranks = 4" using q by (simp add: queues_ok_def)
  have s: "sorted_wrt (<) (ranks ! r)" if "r < 4" for r using q that by (simp add: queues_ok_def)
  have "(i, r, span) \<in> set rest" if "r < 4" "i \<in> set (purge left keep (ranks ! r))" for i r
    using later [of "(i, r, span)"] purge_facts(2,3) [OF s [OF that(1)] that(2)] q that(1) by (auto simp: queues_ok_def)
  moreover have "i \<in> set (purge left keep (ranks ! r))" if "r < 4" "(i, r, span) \<in> set rest" "keep ! i" for i r
    using purge_facts(4) [OF s [OF that(1)]] after [OF that(2)] q that by (auto simp: queues_ok_def)
  ultimately show "queues_ok span rest rest keep (map (purge left keep) ranks)"
    using r purge_facts(1) [OF s] by (auto simp: queues_ok_def)
  show "r < 4 \<Longrightarrow> front (map (purge left keep) ranks ! r) = Some f \<Longrightarrow> keep ! f" using purge_facts(5) [OF s] r by simp
qed

lemma settle_finding_meets:
  assumes q: "queues_ok span all ((left, rank, span) # rest) keep ranks"
    and all: "all = pre @ (left, rank, span) # rest" "in_order all"
    and bounds: "\<forall>x \<in> set all. fst (snd x) < 4 \<and> fst x < length keep"
  shows "\<exists>ranks'. yields (settle_finding (left, rank) (keep, ranks))
      (if keep ! left then meet (left, rank, span) rest keep else keep, ranks') \<and>
    queues_ok span all rest (if keep ! left then meet (left, rank, span) rest keep else keep) ranks'"
proof (cases "keep ! left")
  case False
  then have "yields (settle_finding (left, rank) (keep, ranks)) (keep, ranks)"
    by (auto simp: settle_finding_def intro!: yields_checked yields_ret)
  moreover have "queues_ok span all rest keep ranks" using q by (auto simp: queues_ok_def)
  ultimately show ?thesis using False by auto
next
  case True
  define ranks1 where "ranks1 = map (purge left keep) ranks"
  define stop where "stop = first_better rank ranks1"
  have q1: "queues_ok span rest rest keep ranks1" using purged_ok(1) [OF q all] by (simp add: ranks1_def)
  have len: "rank < 4" "left < length keep" "\<forall>x \<in> set rest. fst (snd x) < 4" "\<forall>x \<in> set rest. fst x < length keep"
    using bounds by (auto simp: all)
  have order: "in_order rest" "\<forall>x \<in> set rest. left < fst x" using all by (auto simp: in_order_def sorted_wrt_append)
  have stop: "before_stop stop i \<longleftrightarrow> (\<forall>j \<in> better rest keep rank span. i < j)" "stop = None \<longleftrightarrow> better rest keep rank span = {}" for i
    using first_better_least [OF q1 _ len(1,3)] purged_ok(2) [OF q all] unfolding stop_def ranks1_def by auto
  obtain keep2 ranks2 where d: "fold (dropped rank stop) (opposing rank) (keep, ranks1) = (keep2, ranks2)"
    by (cases "fold (dropped rank stop) (opposing rank) (keep, ranks1)")
  have r1: "length ranks1 = 4" "\<forall>r < 4. sorted_wrt (<) (ranks1 ! r)" using q1 by (auto simp: queues_ok_def)
  note dr = dropped_opposing [OF len(1) r1 d]
  have mem: "i \<in> set (ranks1 ! r) \<longleftrightarrow> (i, r, span) \<in> set rest" if "keep ! i" "r < 4" for i r
    using q1 that by (auto simp: queues_ok_def)
  have keep2: "keep2 ! i \<longleftrightarrow> keep ! i \<and> \<not> (i \<in> beaten rest rank span \<and> (\<forall>j \<in> better rest keep rank span. i < j))"
    if "i < length keep" for i
  proof -
    have "(\<exists>r \<in> set (opposing rank). \<not> rank < r \<and> i \<in> set (ranks1 ! r)) \<longleftrightarrow> i \<in> beaten rest rank span" if k: "keep ! i"
      using mem [OF k] len(3) unfolding set_opposing [OF len(1)] beaten_def by fastforce
    then show ?thesis using dr(3) [OF that] stop(1) by blast
  qed
  define keep3 where "keep3 = (if stop \<noteq> None then keep2[left := False] else keep2)"
  have "left \<notin> beaten rest rank span" using beaten_later [OF order(2)] by blast
  then have keep3: "keep3 = meet (left, rank, span) rest keep"
  proof (intro nth_equalityI)
    fix i assume "i < length keep3"
    then have i: "i < length keep" using dr(1) by (simp add: keep3_def split: if_splits)
    have "keep3 ! i \<longleftrightarrow> keep2 ! i \<and> (i = left \<longrightarrow> stop = None)"
      using len(2) dr(1) by (auto simp: keep3_def nth_list_update)
    then show "keep3 ! i = meet (left, rank, span) rest keep ! i"
      using keep2 [OF i] stop(2) True \<open>left \<notin> beaten rest rank span\<close> unfolding meet_nth [OF order len(4,2) True]
      by (cases "i = left") simp_all
  qed (use dr(1) in \<open>simp add: keep3_def\<close>)
  have "yields (settle_finding (left, rank) (keep, ranks)) (keep3, ranks2)"
    unfolding settle_finding_def prod.case Let_def if_not_P [OF not_not [THEN iffD2, OF True]]
      ranks1_def [symmetric] stop_def [symmetric]
    by (intro yields_checked yields_bind [OF yields_fold [OF drop_rank_yields]]) (simp add: d keep3_def yields_ret)
  moreover have "queues_ok span all rest keep3 ranks2"
  proof -
    have 1: "sorted_wrt (<) (ranks2 ! r)" if "r < 4" for r
      using r1(2) that by (auto simp: dr(4) [OF that] sorted_dropWhile_lt)
    have 2: "(i, r, span) \<in> set all" if "r < 4" "i \<in> set (ranks2 ! r)" for i r
      using that q1 by (auto simp: dr(4) [OF that(1)] queues_ok_def all dest: set_dropWhileD split: if_splits)
    have 3: "i \<in> set (ranks2 ! r)" if i: "r < 4" "(i, r, span) \<in> set rest" "keep3 ! i" for i r
    proof -
      have n: "i < length keep" "i \<noteq> left" using order(2) len(4) i(2) by auto
      then have k2: "keep2 ! i" using i(3) by (auto simp: keep3_def split: if_splits)
      then have k: "keep ! i" using dr(3) [OF n(1)] by blast
      then have "i \<in> set (ranks1 ! r)" using mem i by blast
      then show ?thesis using k2 dr(3) [OF n(1)] by (auto simp: dr(4) [OF i(1)] intro: in_dropWhile)
    qed
    show ?thesis using 1 2 3 dr(2) unfolding queues_ok_def by blast
  qed
  ultimately show ?thesis using True keep3 by auto
qed

section \<open>Groups and the whole elimination\<close>

definition ranked_of :: "contender \<Rightarrow> ranked" where
  "ranked_of x = (fst x, fst (snd x))"

lemma settle_findings_eliminate:
  assumes "queues_ok span all rest keep ranks" "all = pre @ rest" "in_order all" "\<forall>x \<in> set all. snd (snd x) = span"
    "\<forall>x \<in> set all. fst (snd x) < 4 \<and> fst x < length keep"
  shows "\<exists>ranks'. yields (fold_ctl settle_finding (map ranked_of rest) (keep, ranks)) (eliminate rest keep, ranks')"
  using assms
proof (induction rest arbitrary: pre keep ranks)
  case Nil
  then show ?case by (auto intro: yields_ret)
next
  case (Cons x rest)
  obtain left rank where x: "x = (left, rank, span)" using Cons(3,5) by (cases x) auto
  let ?keep = "if keep ! left then meet (left, rank, span) rest keep else keep"
  obtain ranks' where r: "yields (settle_finding (left, rank) (keep, ranks)) (?keep, ranks')" "queues_ok span all rest ?keep ranks'"
    using settle_finding_meets [OF Cons(2) [unfolded x] Cons(3) [unfolded x] Cons(4,6)] by blast
  have len: "length ?keep = length keep" by simp
  obtain r2 where r2: "yields (fold_ctl settle_finding (map ranked_of rest) (?keep, ranks')) (eliminate rest ?keep, r2)"
    using Cons(1) [OF r(2), of "pre @ [x]", unfolded len, OF _ Cons(4,5,6)] Cons(3) by auto
  have "yields (fold_ctl settle_finding (map ranked_of (x # rest)) (keep, ranks)) (eliminate (x # rest) keep, r2)"
    unfolding list.map fold_ctl.simps x ranked_of_def [of "(left, rank, span)"] fst_conv snd_conv eliminate.simps by (rule yields_bind [OF r(1)]) (rule r2)
  then show ?case by blast
qed

lemma fold_rank_queues:
  "\<forall>x \<in> set xs. snd x < length ranks \<Longrightarrow> r < length ranks \<Longrightarrow>
     fold (\<lambda>(index, rank) ranks. ranks[rank := ranks ! rank @ [index]]) xs ranks ! r =
       ranks ! r @ map fst (filter (\<lambda>x. snd x = r) xs)"
  "length (fold (\<lambda>(index, rank) ranks. ranks[rank := ranks ! rank @ [index]]) xs ranks) = length ranks"
  by (induction xs arbitrary: ranks) (auto simp: nth_list_update)

lemma rank_queues_ok:
  assumes "in_order cs" "\<forall>x \<in> set cs. snd (snd x) = span" "\<forall>x \<in> set cs. fst (snd x) < 4"
  shows "queues_ok span cs cs keep (rank_queues (map ranked_of cs))"
proof -
  have q: "rank_queues (map ranked_of cs) ! r = map fst (filter (\<lambda>x. fst (snd x) = r) cs)" if "r < 4" for r
    using fold_rank_queues(1) [of "map ranked_of cs" "replicate 4 []" r] assms(3) that
    by (auto simp: rank_queues_def ranked_of_def filter_map comp_def)
  have "sorted_wrt (<) (map fst (filter (\<lambda>x. fst (snd x) = r) cs))" for r
    using assms(1) unfolding in_order_def by (induction cs) auto
  moreover have "(i, r, span) \<in> set cs \<longleftrightarrow> i \<in> set (map fst (filter (\<lambda>x. fst (snd x) = r) cs))" for i r
    using assms(2) by force
  moreover have "length (rank_queues (map ranked_of cs)) = 4" by (simp add: rank_queues_def fold_rank_queues(2))
  ultimately show ?thesis using q by (auto simp: queues_ok_def)
qed

lemma settle_group_eliminates:
  assumes "in_order cs" "\<forall>x \<in> set cs. snd (snd x) = span" "\<forall>x \<in> set cs. fst (snd x) < 4 \<and> fst x < length keep"
  shows "yields (settle_group (map ranked_of cs) keep) (eliminate cs keep)"
proof -
  have "queues_ok span cs cs keep (rank_queues (map ranked_of cs))" using rank_queues_ok [OF assms(1,2)] assms(3) by blast
  then obtain r where "yields (fold_ctl settle_finding (map ranked_of cs) (keep, rank_queues (map ranked_of cs))) (eliminate cs keep, r)"
    using settle_findings_eliminate [OF _ append_Nil [symmetric] assms] by blast
  then show ?thesis unfolding settle_group_def by (rule yields_bind) (simp add: yields_ret)
qed

lemma group_spans_yields:
  "yields (group_spans entries)
     (fold (\<lambda>x. push_group (snd (snd x)) (ranked_of x)) (contenders entries) [])"
proof -
  let ?g = "\<lambda>(index, rule, span) gs. case rank_of rule of None \<Rightarrow> gs | Some rank \<Rightarrow> push_group span (index, rank) gs"
  have "fold ?g xs gs = fold (\<lambda>x. push_group (snd (snd x)) (ranked_of x))
      (List.map_filter (\<lambda>(index, rule, span). map_option (\<lambda>rank. (index, rank, span)) (rank_of rule)) xs) gs" for xs gs
    by (induction xs arbitrary: gs) (auto simp: List.map_filter_def ranked_of_def split: option.splits)
  moreover have "yields (group_spans entries) (fold ?g (enumerate 0 entries) [])"
    unfolding group_spans_def by (rule yields_fold) (auto intro!: yields_checked yields_ret)
  ultimately show ?thesis by (simp add: contenders_def)
qed

lemma contenders_facts:
  "in_order (contenders entries)" "x \<in> set (contenders entries) \<Longrightarrow> fst x < length entries \<and> fst (snd x) < 4"
proof -
  let ?f = "\<lambda>(index, rule, span). map_option (\<lambda>rank. (index, rank, span)) (rank_of rule)"
  have rank: "rank_of rule = Some r \<Longrightarrow> r < 4" for rule r
    by (auto simp: rank_of_def catalog_of_def split: option.splits if_splits)
  have "in_order (List.map_filter ?f (enumerate n es)) \<and>
      (\<forall>x \<in> set (List.map_filter ?f (enumerate n es)). n \<le> fst x \<and> fst x < n + length es \<and> fst (snd x) < 4)" for n es
  proof (induction es arbitrary: n)
    case (Cons e es)
    obtain rule span where e: "e = (rule, span)" by (cases e)
    show ?case using Cons [of "Suc n"] rank [of rule]
      by (cases "rank_of rule") (force simp: e map_filter_simps in_order_Cons)+
  qed (simp add: map_filter_simps in_order_def)
  from this [of 0 entries] show "in_order (contenders entries)"
    "x \<in> set (contenders entries) \<Longrightarrow> fst x < length entries \<and> fst (snd x) < 4" by (auto simp: contenders_def)
qed

definition span_groups :: "(rule \<times> offset_span) list \<Rightarrow> (offset_span \<times> ranked list) list" where
  "span_groups entries = fold (\<lambda>x. push_group (snd (snd x)) (ranked_of x)) (contenders entries) []"

definition on_span :: "(rule \<times> offset_span) list \<Rightarrow> offset_span \<Rightarrow> ranked list" where
  "on_span entries k = map ranked_of (of_span k (contenders entries))"

definition indexes_on :: "(rule \<times> offset_span) list \<Rightarrow> offset_span \<Rightarrow> nat set" where
  "indexes_on entries k = fst ` set (on_span entries k)"

definition plain_keep :: "(rule \<times> offset_span) list \<Rightarrow> bool list" where
  "plain_keep entries = eliminate (contenders entries) (replicate (length entries) True)"

lemma span_groups_mem:
  "(k, vs) \<in> set (span_groups entries) \<longleftrightarrow> vs = on_span entries k \<and> k \<in> (\<lambda>x. snd (snd x)) ` set (contenders entries)"
  unfolding span_groups_def on_span_def of_span_def by (rule fold_push_group_set)

lemma indexes_on_ex: "i \<in> indexes_on entries k \<longleftrightarrow> (\<exists>x \<in> set (contenders entries). fst x = i \<and> snd (snd x) = k)"
  by (force simp: indexes_on_def on_span_def of_span_def ranked_of_def)

lemma indexes_on_iff:
  assumes x: "x \<in> set (contenders entries)"
  shows "fst x \<in> indexes_on entries k \<longleftrightarrow> snd (snd x) = k"
proof
  assume "fst x \<in> indexes_on entries k"
  then obtain y where y: "y \<in> set (contenders entries)" "fst y = fst x" "snd (snd y) = k" by (auto simp: indexes_on_ex)
  have "distinct (map fst (contenders entries))"
    using contenders_facts(1) [of entries] by (simp add: in_order_def strict_sorted_iff)
  then show "snd (snd x) = k" using x y unfolding distinct_map inj_on_def by metis
qed (use x in \<open>auto simp: indexes_on_ex\<close>)

lemma indexes_on_disjoint: "i \<in> indexes_on entries k \<Longrightarrow> i \<in> indexes_on entries k' \<Longrightarrow> k = k'"
  using indexes_on_iff by (metis indexes_on_ex)

lemma span_groups_distinct: "distinct (map snd (span_groups entries))"
proof -
  have "distinct (span_groups entries)"
    using fold_push_group(1) [of "[]" "\<lambda>x. snd (snd x)" ranked_of "contenders entries"] by (simp add: span_groups_def distinct_map)
  moreover have "inj_on snd (set (span_groups entries))"
  proof (rule inj_onI)
    fix a b assume ab: "a \<in> set (span_groups entries)" "b \<in> set (span_groups entries)" "snd a = snd b"
    obtain k k' vs where p: "a = (k, vs)" "b = (k', vs)" using ab(3) by (metis prod.collapse)
    have same: "indexes_on entries k = indexes_on entries k'" using ab(1,2) unfolding p span_groups_mem indexes_on_def by simp
    obtain x where "x \<in> set (contenders entries)" "snd (snd x) = k" using ab(1) unfolding p span_groups_mem by auto
    then have "fst x \<in> indexes_on entries k" by (auto simp: indexes_on_ex)
    then show "a = b" using indexes_on_disjoint same p by blast
  qed
  ultimately show ?thesis by (simp add: distinct_map)
qed

lemma settle_span:
  assumes len: "length keep = length entries" and fresh: "\<forall>i \<in> indexes_on entries k. keep ! i"
  shows "yields (settle_group (on_span entries k) keep) (eliminate (of_span k (contenders entries)) keep)"
    and "eliminate (of_span k (contenders entries)) keep ! i = (if i \<in> indexes_on entries k then plain_keep entries ! i else keep ! i)"
proof -
  let ?cs = "contenders entries"
  have cs: "in_order ?cs" "\<forall>x \<in> set ?cs. fst x < length entries \<and> fst (snd x) < 4" using contenders_facts by blast+
  show "yields (settle_group (on_span entries k) keep) (eliminate (of_span k ?cs) keep)"
    unfolding on_span_def
    by (rule settle_group_eliminates [OF of_span_in_order [OF cs(1)]]) (use cs(2) len in \<open>auto simp: of_span_def\<close>)
  show "eliminate (of_span k ?cs) keep ! i = (if i \<in> indexes_on entries k then plain_keep entries ! i else keep ! i)"
  proof (cases "i \<in> indexes_on entries k")
    case True
    have "plain_keep entries ! i = eliminate (of_span k ?cs) keep ! i" unfolding plain_keep_def
      by (rule eliminate_of_span [OF cs(1) _ _ _ _ True])
        (use cs(2) len fresh indexes_on_iff indexes_on_ex in \<open>fastforce+\<close>)
    then show ?thesis using True by simp
  next
    case False
    then have "\<forall>x \<in> set (of_span k ?cs). fst x \<noteq> i" by (auto simp: of_span_def indexes_on_ex)
    then show ?thesis using False by (simp add: eliminate_untouched)
  qed
qed

lemma settle_spans:
  assumes "distinct ks" "length keep = length entries"
    and "\<forall>i < length entries. (\<exists>k \<in> set ks. i \<in> indexes_on entries k) \<longrightarrow> keep ! i"
  shows "\<exists>keep'. yields (fold_ctl settle_group (map (on_span entries) ks) keep) keep' \<and> length keep' = length entries \<and>
    (\<forall>i. keep' ! i = (if \<exists>k \<in> set ks. i \<in> indexes_on entries k then plain_keep entries ! i else keep ! i))"
  using assms
proof (induction ks arbitrary: keep)
  case Nil
  then show ?case by (auto intro: yields_ret)
next
  case (Cons k ks)
  have bound: "i < length entries" if "i \<in> indexes_on entries k" for i k
    using that contenders_facts(2) unfolding indexes_on_ex by blast
  let ?keep = "eliminate (of_span k (contenders entries)) keep"
  have fresh: "\<forall>i \<in> indexes_on entries k. keep ! i" using Cons(4) bound by auto
  note s = settle_span [OF Cons(3) fresh]
  have other: "i \<notin> indexes_on entries k" if "k' \<in> set ks" "i \<in> indexes_on entries k'" for i k'
  proof
    assume "i \<in> indexes_on entries k"
    then have "k = k'" using that(2) by (rule indexes_on_disjoint)
    then show False using that(1) Cons(2) by simp
  qed
  then have "\<forall>i < length entries. (\<exists>k \<in> set ks. i \<in> indexes_on entries k) \<longrightarrow> ?keep ! i" using Cons(4) s(2) by auto
  then obtain keep' where k': "yields (fold_ctl settle_group (map (on_span entries) ks) ?keep) keep'" "length keep' = length entries"
    "\<forall>i. keep' ! i = (if \<exists>k \<in> set ks. i \<in> indexes_on entries k then plain_keep entries ! i else ?keep ! i)"
    using Cons(1) [of ?keep] Cons(2,3) by auto
  have "yields (fold_ctl settle_group (map (on_span entries) (k # ks)) keep) keep'"
    unfolding list.map fold_ctl.simps by (rule yields_bind [OF s(1)]) (rule k'(1))
  moreover have "keep' ! i = (if \<exists>k' \<in> set (k # ks). i \<in> indexes_on entries k' then plain_keep entries ! i else keep ! i)" for i
    using k'(3) [rule_format, of i] s(2) [of i] by simp
  ultimately show ?case using k'(2) by blast
qed

lemma catalog_keep_yields:
  assumes order: "\<And>gs. mset (group_order gs) = mset gs"
  shows "yields (catalog_keep group_order entries) (eliminate (contenders entries) (replicate (length entries) True))"
proof -
  let ?n = "length entries" and ?ls = "group_order (map snd (span_groups entries))"
  have set: "set ?ls = snd ` set (span_groups entries)" using mset_eq_setD [OF order] by simp
  have dist: "distinct ?ls" unfolding mset_eq_imp_distinct_iff [OF order] by (rule span_groups_distinct)
  have "\<forall>g \<in> set ?ls. \<exists>k. g = on_span entries k" using set span_groups_mem by fastforce
  then obtain ks where ks: "?ls = map (on_span entries) ks" unfolding ex_map_conv [symmetric] by blast
  obtain keep where keep: "yields (fold_ctl settle_group ?ls (replicate ?n True)) keep" "length keep = ?n"
    "\<forall>i. keep ! i = (if \<exists>k \<in> set ks. i \<in> indexes_on entries k then plain_keep entries ! i else replicate ?n True ! i)"
    using settle_spans [of ks "replicate ?n True" entries] dist unfolding ks by (auto simp: distinct_map)
  have "keep = plain_keep entries"
  proof (rule nth_equalityI)
    fix i assume "i < length keep"
    then have i: "i < ?n" using keep(2) by simp
    have "plain_keep entries ! i" if none: "\<not> (\<exists>k \<in> set ks. i \<in> indexes_on entries k)"
    proof -
      have "fst x \<noteq> i" if x: "x \<in> set (contenders entries)" for x
      proof
        assume fst: "fst x = i"
        have "(snd (snd x), on_span entries (snd (snd x))) \<in> set (span_groups entries)" using x by (simp add: span_groups_mem)
        then have "on_span entries (snd (snd x)) \<in> set ?ls" unfolding set by force
        then obtain k where "k \<in> set ks" "on_span entries (snd (snd x)) = on_span entries k" unfolding ks by auto
        then show False using none indexes_on_iff [OF x, of "snd (snd x)"] fst by (auto simp: indexes_on_def)
      qed
      then show ?thesis using i by (simp add: plain_keep_def eliminate_untouched)
    qed
    then show "keep ! i = plain_keep entries ! i" using keep(3) i by auto
  qed (use keep(2) in \<open>simp add: plain_keep_def\<close>)
  then have "yields (fold_ctl settle_group ?ls (replicate ?n True)) (eliminate (contenders entries) (replicate ?n True))"
    using keep(1) by (simp add: plain_keep_def)
  then show ?thesis unfolding catalog_keep_def
    by (rule yields_bind [OF group_spans_yields [folded span_groups_def]])
qed

text \<open>C8. Whatever order the hash map of spans is visited in, \<open>catalog_keep\<close> either aborts under its scan control or
  returns exactly what the plain elimination over all findings in order returns.\<close>

theorem catalog_keep_plain:
  assumes order: "\<And>gs. mset (group_order gs) = mset gs"
  shows "yields (catalog_keep group_order entries) (eliminate (contenders entries) (replicate (length entries) True))"
  using assms by (rule catalog_keep_yields)

definition veles_against_betterleaks :: "(rule \<times> offset_span) list" where
  "veles_against_betterleaks =
     [(\<lparr>rl_id = ''veles.a'', rl_visible = True, rl_specificity = 0, rl_validation = None, rl_depends_on = []\<rparr>,
       \<lparr>os_start = 2, os_end = 9\<rparr>),
      (\<lparr>rl_id = ''betterleaks.a'', rl_visible = True, rl_specificity = 0, rl_validation = None, rl_depends_on = []\<rparr>,
       \<lparr>os_start = 2, os_end = 9\<rparr>),
      (\<lparr>rl_id = ''veles.b'', rl_visible = True, rl_specificity = 0, rl_validation = None, rl_depends_on = []\<rparr>,
       \<lparr>os_start = 2, os_end = 8\<rparr>)]"

theorem catalog_keep_plain_witness:
  "yields (catalog_keep rev veles_against_betterleaks) [False, True, True]"
proof -
  have "eliminate (contenders veles_against_betterleaks) (replicate (length veles_against_betterleaks) True) = [False, True, True]"
    by (simp add: contenders_def veles_against_betterleaks_def rank_of_def catalog_of_def map_filter_simps)
  then show ?thesis using catalog_keep_plain [of rev veles_against_betterleaks] by simp
qed

end
