(* ===== verification/Post_Processing.thy ===== *)
theory Post_Processing
  imports Catalog_Keep Overlap_Index
begin

text \<open>
  The end of a scan, \<open>scan_blob\<close> of \<open>crates/kingfisher-scanner/src/scanner.rs\<close>: the passes of the other theories in
  the order the scanner runs them.  The theory shows that the composition gives the result of the four
  specifications one after another, and that nothing is reported that the scan did not find.

  Scans that keep unresolved findings and scans with a match context or detection options take other branches and
  are not modelled; redaction, which follows, only overwrites the text of the findings.
\<close>

section \<open>The passes\<close>

definition suppress_runtime_reporting :: "rule \<Rightarrow> rule" where
  "suppress_runtime_reporting rule = rule\<lparr>rl_visible := False\<rparr>"

definition hide :: "scan_finding \<Rightarrow> scan_finding" where
  "hide f = f\<lparr>sf_rule := suppress_runtime_reporting (sf_rule f)\<rparr>"

definition uri_entries :: "scan_finding list \<Rightarrow> uri_entry list" where
  "uri_entries findings = map (\<lambda>f. (sf_rule f, sf_association_span f, sf_secret f)) findings"

definition drop_uri_fallbacks :: "bool \<Rightarrow> scan_finding list \<Rightarrow> scan_finding list ctl" where
  "drop_uri_fallbacks cli findings =
     (if cli then bind (credential_uri_keep (uri_entries findings)) (\<lambda>keep. ret (retain keep findings)) else ret findings)"

definition specificity_entries :: "scan_finding list \<Rightarrow> entry list" where
  "specificity_entries findings = map (\<lambda>f. (sf_rule f, fl_line (sf_location f), sf_secret f)) findings"

definition line_starts_for_specificity :: "bool \<Rightarrow> bytes \<Rightarrow> scan_finding list \<Rightarrow> nat list" where
  "line_starts_for_specificity cli bs findings =
     (if cli \<and> list_ex (\<lambda>f. rl_specificity (sf_rule f) \<noteq> 0) findings then line_starts_of bs else [])"

definition component_attached :: "bool \<Rightarrow> bytes \<Rightarrow> scan_finding list \<Rightarrow> attached" where
  "component_attached cli bs findings primary component dependency =
     is_component cli bs (line_starts_for_specificity cli bs findings) (findings ! primary)
       (case dep_within dependency of None \<Rightarrow> ''0'' | Some within \<Rightarrow> within) (findings ! component)"

definition retain_reported :: "specificity_outcome \<Rightarrow> scan_finding list \<Rightarrow> scan_finding list" where
  "retain_reported outcome findings =
     retain (so_keep outcome) (map2 (\<lambda>s f. if s then hide f else f) (so_suppress_reporting outcome) findings)"

definition catalog_entries :: "bool \<Rightarrow> scan_finding list \<Rightarrow> (rule \<times> offset_span) list" where
  "catalog_entries cli findings =
     map (\<lambda>f. (sf_rule f, if cli then sf_secret_span f
                          else \<lparr>os_start = start_offset (sf_location f), os_end = end_offset (sf_location f)\<rparr>)) findings"

definition deduplicate_imported_catalog_findings ::
  "(ranked list list \<Rightarrow> ranked list list) \<Rightarrow> bool \<Rightarrow> scan_finding list \<Rightarrow> scan_finding list ctl" where
  "deduplicate_imported_catalog_findings group_order cli findings =
     bind (catalog_keep group_order (catalog_entries cli findings)) (\<lambda>keep. ret (retain keep findings))"

text \<open>\<open>None\<close> is a panic.\<close>

definition settle_findings ::
  "(nat list list \<Rightarrow> nat list list) \<Rightarrow> (nat list \<Rightarrow> nat list) \<Rightarrow> (ranked list list \<Rightarrow> ranked list list) \<Rightarrow>
   bool \<Rightarrow> bytes \<Rightarrow> scan_finding list \<Rightarrow> scan_finding list option ctl" where
  "settle_findings line_order cause_order group_order cli bs findings =
     bind (enforce_betterleaks_components cli bs findings) (\<lambda>findings.
     bind (drop_uri_fallbacks cli findings) (\<lambda>findings.
     checked
       (bind (specificity_keep line_order cause_order (specificity_entries findings) (component_attached cli bs findings)) (\<lambda>outcome.
        case outcome of
          None \<Rightarrow> ret None
        | Some outcome \<Rightarrow>
            bind (deduplicate_imported_catalog_findings group_order cli (retain_reported outcome findings)) (\<lambda>findings.
            checked (ret (Some findings)))))))"

section \<open>The composition\<close>

text \<open>The four specifications one after another.\<close>

definition after_components :: "bool \<Rightarrow> bytes \<Rightarrow> scan_finding list \<Rightarrow> scan_finding list" where
  "after_components cli bs findings =
     nths findings (supported_findings (dependency_counts findings) (components_of cli bs findings))"

definition after_uris :: "bool \<Rightarrow> scan_finding list \<Rightarrow> scan_finding list" where
  "after_uris cli findings = (if cli then nths findings {i. \<not> covered_fallback (uri_entries findings) i} else findings)"

definition after_specificity :: "bool \<Rightarrow> bytes \<Rightarrow> scan_finding list \<Rightarrow> scan_finding list" where
  "after_specificity cli bs findings =
     (let e = specificity_entries findings; a = component_attached cli bs findings
      in map (\<lambda>i. if suppressed e a i then hide (findings ! i) else findings ! i)
           (filter (\<lambda>i. \<not> (suppressed e a i \<and> (\<nexists>owner. owns e a owner i))) [0..<length findings]))"

definition after_catalogs :: "bool \<Rightarrow> scan_finding list \<Rightarrow> scan_finding list" where
  "after_catalogs cli findings =
     retain (eliminate (contenders (catalog_entries cli findings)) (replicate (length findings) True)) findings"

lemma retain_map: "retain (map P [0..<length xs]) xs = map (\<lambda>i. xs ! i) (filter P [0..<length xs])"
proof -
  have "retain (map P [0..<length xs]) (map f [0..<n]) = map f (filter P [0..<n])" if "n \<le> length xs" for f :: "nat \<Rightarrow> 'b" and n
  proof -
    have "zip (map P [0..<length xs]) (map f [0..<n]) = map (\<lambda>i. (P i, f i)) [0..<n]"
      using that by (intro nth_equalityI) auto
    then show ?thesis by (simp add: retain_def filter_map comp_def)
  qed
  from this [of "length xs" "(!) xs"] show ?thesis by (simp add: map_nth)
qed

lemma retain_reported_eq:
  assumes "length (so_keep outcome) = length findings" "length (so_suppress_reporting outcome) = length findings"
    "\<forall>i < length findings. (so_keep outcome ! i \<longleftrightarrow> \<not> (S i \<and> \<not> W i)) \<and> (so_suppress_reporting outcome ! i \<longleftrightarrow> S i \<and> W i)"
  shows "retain_reported outcome findings =
    map (\<lambda>i. if S i then hide (findings ! i) else findings ! i) (filter (\<lambda>i. \<not> (S i \<and> \<not> W i)) [0..<length findings])"
proof -
  let ?fs = "map2 (\<lambda>s f. if s then hide f else f) (so_suppress_reporting outcome) findings"
  have len: "length ?fs = length findings" using assms(2) by simp
  have "so_keep outcome = map (\<lambda>i. \<not> (S i \<and> \<not> W i)) [0..<length ?fs]" using assms by (intro nth_equalityI) simp_all
  then have "retain_reported outcome findings = map ((!) ?fs) (filter (\<lambda>i. \<not> (S i \<and> \<not> W i)) [0..<length findings])"
    unfolding retain_reported_def using retain_map [of _ ?fs] len by simp
  also have "\<dots> = map (\<lambda>i. if S i then hide (findings ! i) else findings ! i) (filter (\<lambda>i. \<not> (S i \<and> \<not> W i)) [0..<length findings])"
    by (rule map_cong) (use assms in auto)
  finally show ?thesis .
qed

lemma subseq_nths: "subseq (nths xs A) xs"
  using subseq_conv_nths by blast

lemma length_nths_le: "length (nths xs A) \<le> length xs"
  using subseq_nths by (rule list_emb_length)

lemma settle_findings_yields:
  assumes bs: "length bs \<le> isize_max" and placed: "list_all (placed cli bs) findings" and small: "length findings \<le> usize_max"
    and order: "\<And>xss. mset (line_order xss) = mset xss" "\<And>xs. mset (cause_order xs) = mset xs" "\<And>gs. mset (group_order gs) = mset gs"
  shows "yields (settle_findings line_order cause_order group_order cli bs findings)
    (Some (after_catalogs cli (after_specificity cli bs (after_uris cli (after_components cli bs findings)))))"
proof -
  let ?f1 = "after_components cli bs findings"
  let ?f2 = "after_uris cli ?f1"
  have l1: "length ?f1 \<le> usize_max" unfolding after_components_def using length_nths_le small by (rule le_trans)
  have l2: "length ?f2 \<le> usize_max" using l1 by (cases cli) (auto simp: after_uris_def intro: le_trans [OF length_nths_le])
  have uris: "yields (drop_uri_fallbacks cli ?f1) ?f2"
  proof (cases cli)
    case True
    have "yields (credential_uri_keep (uri_entries ?f1)) (map (\<lambda>i. i \<in> {i. \<not> covered_fallback (uri_entries ?f1) i}) [0..<length ?f1])"
      using credential_uri_keep_yields [of "uri_entries ?f1"] l1 by (simp add: uri_entries_def)
    then have "yields (bind (credential_uri_keep (uri_entries ?f1)) (\<lambda>keep. ret (retain keep ?f1)))
        (retain (map (\<lambda>i. i \<in> {i. \<not> covered_fallback (uri_entries ?f1) i}) [0..<length ?f1]) ?f1)"
      by (rule yields_bind) (rule yields_ret)
    then show ?thesis unfolding retain_map_nths using True by (simp add: drop_uri_fallbacks_def after_uris_def)
  qed (simp add: drop_uri_fallbacks_def after_uris_def yields_ret)
  obtain outcome where out: "yields (specificity_keep line_order cause_order (specificity_entries ?f2) (component_attached cli bs ?f2)) (Some outcome)"
      "retain_reported outcome ?f2 = after_specificity cli bs ?f2"
    using specificity_keep_yields [OF _ order(1,2), of "specificity_entries ?f2" "component_attached cli bs ?f2"] l2
      retain_reported_eq [of _ ?f2] unfolding after_specificity_def Let_def
    by (force simp: specificity_entries_def)
  let ?f3 = "after_specificity cli bs ?f2"
  have cat: "yields (deduplicate_imported_catalog_findings group_order cli ?f3) (after_catalogs cli ?f3)"
    unfolding deduplicate_imported_catalog_findings_def after_catalogs_def
    by (rule yields_bind [OF catalog_keep_yields [OF order(3)]]) (simp add: catalog_entries_def yields_ret)
  have tail: "yields (bind (deduplicate_imported_catalog_findings group_order cli (retain_reported outcome ?f2))
      (\<lambda>findings. checked (ret (Some findings)))) (Some (after_catalogs cli ?f3))"
    unfolding out(2) by (rule yields_bind [OF cat]) (rule yields_checked, rule yields_ret)
  show ?thesis unfolding settle_findings_def
    by (rule yields_bind [OF enforce_components_yields [OF bs placed, folded after_components_def]], rule yields_bind [OF uris],
      rule yields_checked, rule yields_bind [OF out(1)]) (simp add: tail)
qed

lemma subseq_retain: "subseq (retain keep xs) xs"
proof (induction xs arbitrary: keep)
  case (Cons x xs)
  then show ?case by (cases keep) (auto simp: retain_def)
qed (simp add: retain_def)

lemma subseq_select: "subseq (map ((!) xs) (filter P [0..<length xs])) xs"
  using subseq_map [OF subseq_filter_left [of P "[0..<length xs]"], of "(!) xs"] by (simp add: map_nth)

lemma hide_hide [simp]: "hide (hide f) = hide f"
  by (simp add: hide_def suppress_runtime_reporting_def)

lemma visible_not_hidden [simp]: "\<not> rl_visible (sf_rule (hide f))"
  by (simp add: hide_def suppress_runtime_reporting_def)

lemma after_specificity_from:
  "subseq (map hide (after_specificity cli bs findings)) (map hide findings)"
  "f \<in> set (after_specificity cli bs findings) \<Longrightarrow> rl_visible (sf_rule f) \<Longrightarrow> f \<in> set findings"
proof -
  let ?S = "suppressed (specificity_entries findings) (component_attached cli bs findings)"
  let ?P = "\<lambda>i. \<not> (?S i \<and> (\<nexists>owner. owns (specificity_entries findings) (component_attached cli bs findings) owner i))"
  have eq: "after_specificity cli bs findings = map (\<lambda>i. if ?S i then hide (findings ! i) else findings ! i) (filter ?P [0..<length findings])"
    by (simp add: after_specificity_def Let_def)
  have "map hide (after_specificity cli bs findings) = map hide (map ((!) findings) (filter ?P [0..<length findings]))"
    unfolding eq by (simp add: comp_def if_distrib cong: if_cong)
  then show "subseq (map hide (after_specificity cli bs findings)) (map hide findings)"
    using subseq_map [OF subseq_select [of findings ?P], of hide] by simp
  show "f \<in> set (after_specificity cli bs findings) \<Longrightarrow> rl_visible (sf_rule f) \<Longrightarrow> f \<in> set findings"
    unfolding eq by (auto split: if_splits)
qed

text \<open>
  C2. The end of a scan is the composition of its passes: for findings placed in the scanned bytes, every order of
  the hash tables and both matching semantics, it does not panic, aborts only under a limited control, and returns the
  findings that remain after the removal of unsupported findings, of covered credential URIs, of findings that a
  more specific one suppresses, and of the losers between catalogs, in this order and each as specified.  Apart from being
  hidden, the result is a subsequence of what was found, and a visible result is one of the findings unchanged.
\<close>

theorem findings_settle_in_order:
  assumes "length bs \<le> isize_max" "list_all (placed cli bs) findings" "length findings \<le> usize_max"
    and "\<And>xss. mset (line_order xss) = mset xss" "\<And>xs. mset (cause_order xs) = mset xs" "\<And>gs. mset (group_order gs) = mset gs"
  shows "\<exists>result. yields (settle_findings line_order cause_order group_order cli bs findings) (Some result) \<and>
    result = after_catalogs cli (after_specificity cli bs (after_uris cli (after_components cli bs findings))) \<and>
    subseq (map hide result) (map hide findings) \<and>
    (\<forall>f \<in> set result. rl_visible (sf_rule f) \<longrightarrow> f \<in> set findings)"
proof -
  let ?f2 = "after_uris cli (after_components cli bs findings)"
  let ?f3 = "after_specificity cli bs ?f2"
  have "subseq ?f2 findings" unfolding after_uris_def after_components_def by (simp add: subseq_nths subseq_order.trans [OF subseq_nths subseq_nths])
  then have f2: "subseq (map hide ?f2) (map hide findings)" "set ?f2 \<subseteq> set findings" by (auto intro: subseq_map dest: list_emb_set)
  have r: "subseq (after_catalogs cli ?f3) ?f3" unfolding after_catalogs_def by (rule subseq_retain)
  have "subseq (map hide (after_catalogs cli ?f3)) (map hide findings)"
    using subseq_map [OF r] after_specificity_from(1) f2(1) by (meson subseq_order.trans)
  moreover have "\<forall>f \<in> set (after_catalogs cli ?f3). rl_visible (sf_rule f) \<longrightarrow> f \<in> set findings"
  proof (intro ballI impI)
    fix f
    assume f: "f \<in> set (after_catalogs cli ?f3)" "rl_visible (sf_rule f)"
    have "f \<in> set ?f3" using list_emb_set [OF r f(1)] by blast
    then have "f \<in> set ?f2" using f(2) by (rule after_specificity_from(2))
    then show "f \<in> set findings" using f2(2) by blast
  qed
  ultimately show ?thesis using settle_findings_yields [OF assms] by blast
qed

theorem findings_settle_in_order_witness:
  "yields (settle_findings rev rev rev False ''xx xx'' sample_findings)
     (Some (after_catalogs False (after_specificity False ''xx xx'' (after_uris False (after_components False ''xx xx'' sample_findings)))))"
proof -
  have "length ''xx xx'' \<le> isize_max" "list_all (placed False ''xx xx'') sample_findings" "length sample_findings \<le> usize_max"
    by (simp_all add: isize_max_def sample_findings_def sample_finding_def placed_def line_starts_of_def newline_def usize_max_def Let_def)
  then show ?thesis using findings_settle_in_order [of "''xx xx''" False sample_findings rev rev rev] by simp
qed

end
