(* ===== verification/Numbering.thy ===== *)
theory Numbering
  imports Kf_Prelude
begin

text \<open>
  The interface of the tables that give each name a number once and read the name back from the number: the
  interned path names, the object ids of a repository and the nodes of the commit graph.  The laws say what one
  insertion does; the locale derives what a sequence of insertions leaves.
\<close>

text \<open>A sequence of insertions, with the number each returned.\<close>

fun add_all :: "('k \<Rightarrow> 's \<Rightarrow> ('n \<times> 's) option) \<Rightarrow> 'k list \<Rightarrow> 's \<Rightarrow> ('n list \<times> 's) option" where
  "add_all add [] s = Some ([], s)"
| "add_all add (k # ks) s =
     (case add k s of
        None \<Rightarrow> None
      | Some (n, s) \<Rightarrow> map_option (\<lambda>(ns, s). (n # ns, s)) (add_all add ks s))"

locale interner =
  fixes sound :: "'s \<Rightarrow> bool"
    and number :: "'s \<Rightarrow> 'k \<Rightarrow> 'n option"
    and name_of :: "'s \<Rightarrow> 'n \<Rightarrow> 'k option"
    and add :: "'k \<Rightarrow> 's \<Rightarrow> ('n \<times> 's) option"
  assumes number_names: "sound s \<Longrightarrow> number s k = Some n \<Longrightarrow> name_of s n = Some k"
    and add_sound: "sound s \<Longrightarrow> add k s = Some (n, s') \<Longrightarrow> sound s'"
    and add_number: "sound s \<Longrightarrow> add k s = Some (n, s') \<Longrightarrow> number s' k = Some n"
    and add_keeps: "sound s \<Longrightarrow> add k s = Some (n, s') \<Longrightarrow> number s k' = Some n' \<Longrightarrow> number s' k' = Some n'"
begin

lemma number_inj: "sound s \<Longrightarrow> number s k = Some n \<Longrightarrow> number s k' = Some n \<Longrightarrow> k = k'"
  using number_names by (metis option.inject)

lemma add_again: "sound s \<Longrightarrow> add k s = Some (n, s') \<Longrightarrow> add k s' = Some (n', s'') \<Longrightarrow> n' = n"
  using add_sound add_number add_keeps by (metis option.inject)

lemma add_all_numbers:
  assumes "sound s" "add_all add ks s = Some (ns, s')"
  shows "sound s' \<and> map (number s') ks = map Some ns \<and> (\<forall>k n. number s k = Some n \<longrightarrow> number s' k = Some n)"
  using assms
proof (induction ks arbitrary: s ns)
  case (Cons k ks)
  obtain n s1 ns' where r: "add k s = Some (n, s1)" "add_all add ks s1 = Some (ns', s')" "ns = n # ns'"
    using Cons(3) by (auto split: option.splits)
  note ih = Cons(1) [OF add_sound [OF Cons(2) r(1)] r(2)]
  then show ?case using r(3) add_number [OF Cons(2) r(1)] add_keeps [OF Cons(2) r(1)] by simp
qed simp

text \<open>The names read back, and two insertions return the same number exactly when their names are equal.\<close>

lemma add_all_reads_back:
  assumes "sound s" "add_all add ks s = Some (ns, s')"
  shows "length ns = length ks" "map (name_of s') ns = map Some ks"
    "i < length ks \<Longrightarrow> j < length ks \<Longrightarrow> ns ! i = ns ! j \<longleftrightarrow> ks ! i = ks ! j"
proof -
  have ok: "sound s'" and numbers: "map (number s') ks = map Some ns" using add_all_numbers [OF assms] by auto
  show len: "length ns = length ks" using arg_cong [OF numbers, of length] by simp
  have nth: "number s' (ks ! i) = Some (ns ! i)" if "i < length ks" for i
    using arg_cong [OF numbers, of "\<lambda>xs. xs ! i"] that len by simp
  then show "map (name_of s') ns = map Some ks" using len number_names [OF ok] by (simp add: list_eq_iff_nth_eq)
  show "i < length ks \<Longrightarrow> j < length ks \<Longrightarrow> ns ! i = ns ! j \<longleftrightarrow> ks ! i = ks ! j"
    using nth number_inj [OF ok] by (metis option.inject)
qed

end

end
