(* ===== verification/Symbol_Table.thy ===== *)
theory Symbol_Table
  imports Numbering
begin

text \<open>
  The interned path names of \<open>src/bstring_table.rs\<close>: names are appended to one buffer and referred to by
  a range of 32-bit offsets.  The theory shows that a symbol always resolves to the name it was given
  for, that equal names share a symbol, and how much the buffer can hold.
\<close>

section \<open>\<open>BStringTable\<close>\<close>

text \<open>\<open>Symbol<u32>\<close>, the symbols the program uses\<close>

record symbol =
  sym_i :: nat
  sym_j :: nat

definition u32_max :: nat where
  "u32_max = 2 ^ 32 - 1"

text \<open>\<open>SymbolType::from_range\<close>; \<open>None\<close> is the failure of \<open>expect\<close>\<close>

definition from_range :: "nat \<Rightarrow> nat \<Rightarrow> symbol option" where
  "from_range start stop =
     (if start \<le> u32_max \<and> stop \<le> u32_max then Some \<lparr>sym_i = start, sym_j = stop\<rparr> else None)"

record bstring_table =
  bt_storage :: bytes
  bt_mapping :: "bytes \<rightharpoonup> symbol"

definition table_new :: bstring_table where
  "table_new = \<lparr>bt_storage = [], bt_mapping = Map.empty\<rparr>"

definition get_or_intern :: "bytes \<Rightarrow> bstring_table \<Rightarrow> (symbol \<times> bstring_table) option" where
  "get_or_intern s t =
     (case bt_mapping t s of
        Some sy \<Rightarrow> Some (sy, t)
      | None \<Rightarrow>
          let start = length (bt_storage t); stop = start + length s in
          case from_range start stop of
            None \<Rightarrow> None
          | Some sy \<Rightarrow> Some (sy, \<lparr>bt_storage = bt_storage t @ s, bt_mapping = (bt_mapping t)(s \<mapsto> sy)\<rparr>))"

text \<open>\<open>resolve\<close>; \<open>None\<close> is the panic of the slice\<close>

definition resolve :: "bstring_table \<Rightarrow> symbol \<Rightarrow> bytes option" where
  "resolve t sy =
     (if sym_i sy \<le> sym_j sy \<and> sym_j sy \<le> length (bt_storage t)
      then Some (subslice (bt_storage t) (sym_i sy) (sym_j sy)) else None)"

section \<open>Correctness\<close>

text \<open>Every name resolves to itself, and the buffer holds nothing but the names.\<close>

definition table_ok :: "bstring_table \<Rightarrow> bool" where
  "table_ok t \<longleftrightarrow>
     finite (dom (bt_mapping t)) \<and> length (bt_storage t) = (\<Sum>s \<in> dom (bt_mapping t). length s) \<and>
     (\<forall>s sy. bt_mapping t s = Some sy \<longrightarrow> resolve t sy = Some s)"

lemma table_ok_new: "table_ok table_new"
  by (simp add: table_ok_def table_new_def)

lemma resolve_append:
  "resolve t sy = Some s \<Longrightarrow> bt_storage t' = bt_storage t @ x \<Longrightarrow> resolve t' sy = Some s"
  by (auto simp: resolve_def subslice_def split: if_splits)

lemma get_or_intern_ok:
  assumes ok: "table_ok t" and new: "get_or_intern s t = Some (sy, t')"
  shows "table_ok t'" "resolve t' sy = Some s" "\<And>x y. resolve t x = Some y \<Longrightarrow> resolve t' x = Some y"
    "dom (bt_mapping t') = insert s (dom (bt_mapping t))" "bt_mapping t' s = Some sy"
proof -
  have "table_ok t' \<and> resolve t' sy = Some s \<and> (\<forall>x y. resolve t x = Some y \<longrightarrow> resolve t' x = Some y) \<and>
    dom (bt_mapping t') = insert s (dom (bt_mapping t)) \<and> bt_mapping t' s = Some sy"
  proof (cases "bt_mapping t s")
    case (Some sy')
    then show ?thesis using ok new by (auto simp: get_or_intern_def table_ok_def)
  next
    case None
    let ?start = "length (bt_storage t)"
    have t': "from_range ?start (?start + length s) = Some sy"
      "t' = \<lparr>bt_storage = bt_storage t @ s, bt_mapping = (bt_mapping t)(s \<mapsto> sy)\<rparr>"
      using new None by (auto simp: get_or_intern_def Let_def split: option.splits)
    have sy: "sy = \<lparr>sym_i = ?start, sym_j = ?start + length s\<rparr>" using t'(1) by (auto simp: from_range_def split: if_splits)
    have own: "resolve t' sy = Some s" by (simp add: t'(2) sy resolve_def subslice_def)
    have old: "resolve t x = Some y \<Longrightarrow> resolve t' x = Some y" for x y by (rule resolve_append [where x = s]) (simp_all add: t'(2))
    have "s \<notin> dom (bt_mapping t)" using None by auto
    then show ?thesis using ok own old by (auto simp: table_ok_def t'(2))
  qed
  then show "table_ok t'" "resolve t' sy = Some s" "\<And>x y. resolve t x = Some y \<Longrightarrow> resolve t' x = Some y"
    "dom (bt_mapping t') = insert s (dom (bt_mapping t))" "bt_mapping t' s = Some sy" by blast+
qed

text \<open>Interning succeeds as long as all names together fit the 32-bit offsets.\<close>

lemma get_or_intern_succeeds:
  assumes "table_ok t" and names: "finite names" "dom (bt_mapping t) \<subseteq> names" "s \<in> names" "(\<Sum>n \<in> names. length n) \<le> u32_max"
  shows "\<exists>sy t'. get_or_intern s t = Some (sy, t')"
proof (cases "bt_mapping t s")
  case (Some sy)
  then show ?thesis by (simp add: get_or_intern_def)
next
  case None
  have "length (bt_storage t) + length s = (\<Sum>n \<in> insert s (dom (bt_mapping t)). length n)"
    using assms(1) None by (simp add: table_ok_def domIff)
  also have "\<dots> \<le> (\<Sum>n \<in> names. length n)" by (rule sum_mono2) (use names in auto)
  finally show ?thesis using None names(4) by (simp add: get_or_intern_def from_range_def Let_def)
qed

interpretation symbols: interner table_ok bt_mapping resolve get_or_intern
proof
  fix t t' :: bstring_table and s s' sy sy'
  show "table_ok t \<Longrightarrow> bt_mapping t s = Some sy \<Longrightarrow> resolve t sy = Some s" by (simp add: table_ok_def)
  assume new: "table_ok t" "get_or_intern s t = Some (sy, t')"
  show "table_ok t'" "bt_mapping t' s = Some sy" using get_or_intern_ok [OF new] by blast+
  show "bt_mapping t s' = Some sy' \<Longrightarrow> bt_mapping t' s' = Some sy'"
    using new(2) by (auto simp: get_or_intern_def Let_def split: option.splits)
qed

lemma add_all_succeeds:
  assumes "table_ok t" "finite names" "dom (bt_mapping t) \<union> set ss \<subseteq> names" "(\<Sum>n \<in> names. length n) \<le> u32_max"
  shows "\<exists>syms t'. add_all get_or_intern ss t = Some (syms, t')"
  using assms
proof (induction ss arbitrary: t)
  case (Cons s ss)
  have "\<exists>sy t1. get_or_intern s t = Some (sy, t1)" by (rule get_or_intern_succeeds [OF Cons(2,3) _ _ Cons(5)]) (use Cons(4) in auto)
  then obtain sy t1 where new: "get_or_intern s t = Some (sy, t1)" by blast
  have "table_ok t1" "dom (bt_mapping t1) \<union> set ss \<subseteq> names" using get_or_intern_ok(1,4) [OF Cons(2) new] Cons(4) by auto
  then show ?case using Cons(1) [of t1] Cons(3,5) new by fastforce
qed simp

text \<open>C32. Interning any names of at most \<open>u32::MAX\<close> bytes together into a fresh table does not panic; afterwards every
  symbol resolves to its name, and two names share a symbol exactly when they are equal.\<close>

theorem symbols_resolve_to_their_names:
  assumes "(\<Sum>n \<in> set ss. length n) \<le> u32_max"
  shows "\<exists>syms t. add_all get_or_intern ss table_new = Some (syms, t) \<and> map (resolve t) syms = map Some ss \<and>
    (\<forall>i < length ss. \<forall>j < length ss. syms ! i = syms ! j \<longleftrightarrow> ss ! i = ss ! j)"
proof -
  obtain syms t where r: "add_all get_or_intern ss table_new = Some (syms, t)"
    using add_all_succeeds [OF table_ok_new, of "set ss" ss] assms by (auto simp: table_new_def)
  then show ?thesis using symbols.add_all_reads_back [OF table_ok_new r] by blast
qed

theorem symbols_resolve_to_their_names_witness:
  "\<exists>syms t. add_all get_or_intern [''src'', ''lib'', ''src''] table_new = Some (syms, t) \<and>
     map (resolve t) syms = [Some ''src'', Some ''lib'', Some ''src''] \<and> syms ! 0 = syms ! 2 \<and> syms ! 0 \<noteq> syms ! 1"
proof -
  let ?ss = "[''src'', ''lib'', ''src'']"
  have "set ?ss = {''src'', ''lib''}" by auto
  then have "(\<Sum>n \<in> set ?ss. length n) \<le> u32_max" by (simp add: u32_max_def)
  from symbols_resolve_to_their_names [OF this] obtain syms t where
    r: "add_all get_or_intern ?ss table_new = Some (syms, t)" "map (resolve t) syms = map Some ?ss"
    "\<forall>i < length ?ss. \<forall>j < length ?ss. syms ! i = syms ! j \<longleftrightarrow> ?ss ! i = ?ss ! j" by blast
  have "syms ! 0 = syms ! 2" "syms ! 0 \<noteq> syms ! 1" using r(3) [rule_format, of 0 2] r(3) [rule_format, of 0 1] by simp_all
  then show ?thesis using r(1,2) by auto
qed

end
