(* ===== verification/Git_Index.thy ===== *)
theory Git_Index
  imports Symbol_Table Component_Index "HOL-Library.Word"
begin

unbundle bit_operations_syntax

text \<open>
  The object index of a Git repository, from \<open>src/git_metadata_graph.rs\<close>: dense numbers for object ids,
  the sets of objects seen in a history, and the index of trees, commits, blobs and tags with its optional
  restriction to candidate blobs.  The object database (package \<open>gix\<close>) is a parameter: what iterating it,
  reading a header, a blob or a tree returns.
\<close>

section \<open>Results with errors\<close>

text \<open>
  \<open>Result\<close> values of computations with a deadline: a failed \<open>bail!\<close> or \<open>?\<close> other than a timeout, or a panic.
\<close>

datatype git_error = Panicked | CycleDetected | FilterFailed

type_synonym 'a gitm = "(git_error + 'a) ctl"

definition git_ok :: "'a \<Rightarrow> 'a gitm" where
  "git_ok x = ret (Inr x)"

definition and_then :: "'a gitm \<Rightarrow> ('a \<Rightarrow> 'b gitm) \<Rightarrow> 'b gitm" where
  "and_then m f = bind m (\<lambda>r. case r of Inl e \<Rightarrow> ret (Inl e) | Inr x \<Rightarrow> f x)"

text \<open>A step that can only panic.\<close>

definition or_panic :: "'a option \<Rightarrow> 'a gitm" where
  "or_panic r = ret (case r of None \<Rightarrow> Inl Panicked | Some x \<Rightarrow> Inr x)"

fun fold_git :: "('a \<Rightarrow> 's \<Rightarrow> 's gitm) \<Rightarrow> 'a list \<Rightarrow> 's \<Rightarrow> 's gitm" where
  "fold_git f [] s = git_ok s"
| "fold_git f (x # xs) s = and_then (f x s) (fold_git f xs)"

text \<open>\<open>check_deadline\<close>, in both files that have one\<close>

definition check_deadline :: "unit ctl" where
  "check_deadline = (\<lambda>c t.
     case deadline c of
       None \<Rightarrow> Inr ((), t)
     | Some d \<Rightarrow> if d < clock c t then Inl TimedOut else Inr ((), Suc t))"

abbreviation timed :: "'a ctl \<Rightarrow> 'a ctl" where
  "timed m \<equiv> bind check_deadline (\<lambda>_. m)"

lemma and_then_cong [fundef_cong]:
  "m = m' \<Longrightarrow> (\<And>c t x t'. m' c t = Inr (Inr x, t') \<Longrightarrow> f x = f' x) \<Longrightarrow> and_then m f = and_then m' f'"
  unfolding and_then_def by (rule bind_cong) (auto split: sum.splits)

lemma yields_and_then: "yields m (Inr v) \<Longrightarrow> yields (f v) w \<Longrightarrow> yields (and_then m f) w"
  unfolding and_then_def by (rule yields_bind) auto

lemma yields_and_then_fails: "yields m (Inl e) \<Longrightarrow> yields (and_then m f) (Inl e)"
  unfolding and_then_def by (rule yields_bind) (auto intro: yields_ret)

lemma yields_timed: "yields m v \<Longrightarrow> yields (timed m) v"
proof (rule yields_bind)
  show "yields check_deadline ()"
    by (auto simp: yields_def check_deadline_def is_limited_def split: option.splits if_splits)
qed

lemma yields_or_panic: "yields (or_panic (Some x)) (Inr x)"
  by (simp add: or_panic_def yields_ret)

lemma yields_git_ok: "yields (git_ok x) (Inr x)"
  by (simp add: git_ok_def yields_ret)

lemma fold_git_inv:
  assumes "Q [] s" and "\<And>x s pre. x \<in> set xs \<Longrightarrow> Q pre s \<Longrightarrow> \<exists>s'. yields (f x s) (Inr s') \<and> Q (pre @ [x]) s'"
  shows "\<exists>s'. yields (fold_git f xs s) (Inr s') \<and> Q xs s'"
proof -
  have "\<exists>s'. yields (fold_git f xs s) (Inr s') \<and> Q (pre @ xs) s'" if "Q pre s" for pre s
    using that assms(2)
  proof (induction xs arbitrary: pre s)
    case Nil
    then show ?case by (auto intro: yields_git_ok)
  next
    case (Cons x xs)
    obtain s1 where s1: "yields (f x s) (Inr s1)" "Q (pre @ [x]) s1" using Cons(2,3) by (meson list.set_intros(1))
    obtain s2 where s2: "yields (fold_git f xs s1) (Inr s2)" "Q ((pre @ [x]) @ xs) s2"
      using Cons(1) [OF s1(2)] Cons(3) by (meson list.set_intros(2))
    then show ?case using yields_and_then [of "f x s" s1 "fold_git f xs", OF s1(1)] by auto
  qed
  from this [OF assms(1)] show ?thesis by simp
qed

lemma fold_git_upto:
  assumes "Q 0 s" and "\<And>k s. k < length xs \<Longrightarrow> Q k s \<Longrightarrow> \<exists>s'. yields (f (xs ! k) s) (Inr s') \<and> Q (Suc k) s'"
  shows "\<exists>s'. yields (fold_git f xs s) (Inr s') \<and> Q (length xs) s'"
  using assms
proof (induction xs arbitrary: Q s)
  case Nil
  then show ?case by (auto intro: yields_git_ok)
next
  case (Cons x xs)
  obtain s1 where s1: "yields (f x s) (Inr s1)" "Q (Suc 0) s1" using Cons(2) Cons(3) [of 0] by auto
  obtain s' where "yields (fold_git f xs s1) (Inr s')" "Q (Suc (length xs)) s'"
    using Cons.IH [of "\<lambda>k. Q (Suc k)", OF s1(2)] Cons(3) [of "Suc k" for k] by auto
  then show ?case using yields_and_then [of "f x s" s1 "fold_git f xs", OF s1(1)] by auto
qed

section \<open>\<open>ObjectIdBimap\<close>\<close>

type_synonym oid = bytes

text \<open>\<open>ObjectIdx::new\<close>, with the panic of \<open>unwrap\<close>\<close>

definition object_idx_new :: "nat \<Rightarrow> nat option" where
  "object_idx_new x = (if x \<le> u32_max then Some x else None)"

text \<open>The hash table stores indexes and compares the ids they stand for.\<close>

record object_id_bimap =
  oid_to_idx :: "nat list"
  idx_to_oid :: "oid list"

definition bimap_empty :: object_id_bimap where
  "bimap_empty = \<lparr>oid_to_idx = [], idx_to_oid = []\<rparr>"

definition get_oid :: "object_id_bimap \<Rightarrow> nat \<Rightarrow> oid option" where
  "get_oid bm idx = slice_get (idx_to_oid bm) idx"

definition get_idx :: "object_id_bimap \<Rightarrow> oid \<Rightarrow> nat option" where
  "get_idx bm oid = find (\<lambda>idx. slice_get (idx_to_oid bm) idx = Some oid) (oid_to_idx bm)"

definition bimap_insert :: "oid \<Rightarrow> object_id_bimap \<Rightarrow> object_id_bimap option" where
  "bimap_insert oid bm =
     (case get_idx bm oid of
        Some _ \<Rightarrow> Some bm
      | None \<Rightarrow>
          (case object_idx_new (length (idx_to_oid bm)) of
             None \<Rightarrow> None
           | Some idx \<Rightarrow> Some \<lparr>oid_to_idx = oid_to_idx bm @ [idx], idx_to_oid = idx_to_oid bm @ [oid]\<rparr>))"

definition bimap_ok :: "object_id_bimap \<Rightarrow> bool" where
  "bimap_ok bm \<longleftrightarrow> oid_to_idx bm = [0..<length (idx_to_oid bm)] \<and> distinct (idx_to_oid bm)"

lemma bimap_ok_empty: "bimap_ok bimap_empty"
  by (simp add: bimap_ok_def bimap_empty_def)

lemma get_idx_bound: "get_idx bm oid = Some i \<Longrightarrow> i \<in> set (oid_to_idx bm) \<and> i < length (idx_to_oid bm)"
  by (auto simp: get_idx_def find_Some_iff slice_get_def split: if_splits)

lemma get_idx_iff:
  assumes "bimap_ok bm"
  shows "get_idx bm oid = Some i \<longleftrightarrow> get_oid bm i = Some oid"
proof
  assume "get_idx bm oid = Some i"
  then show "get_oid bm i = Some oid" by (auto simp: get_idx_def get_oid_def find_Some_iff)
next
  assume i: "get_oid bm i = Some oid"
  then have "i \<in> set (oid_to_idx bm)" using assms by (auto simp: bimap_ok_def get_oid_def slice_get_def split: if_splits)
  then obtain j where j: "get_idx bm oid = Some j" using i
    by (cases "get_idx bm oid") (auto simp: get_idx_def get_oid_def find_None_iff)
  then have "slice_get (idx_to_oid bm) j = Some oid" by (auto simp: get_idx_def find_Some_iff)
  then have "i = j" using i assms
    by (auto simp: get_oid_def slice_get_def bimap_ok_def nth_eq_iff_index_eq split: if_splits)
  then show "get_idx bm oid = Some i" using j by simp
qed

lemma get_oid_ex: "(\<exists>i. get_oid bm i = Some oid) \<longleftrightarrow> oid \<in> set (idx_to_oid bm)"
  by (auto simp: get_oid_def slice_get_def in_set_conv_nth split: if_splits)

lemma get_idx_None: "bimap_ok bm \<Longrightarrow> get_idx bm oid = None \<longleftrightarrow> oid \<notin> set (idx_to_oid bm)"
  using get_idx_iff get_oid_ex by (metis option.exhaust option.distinct(1))

lemma bimap_insert_ok:
  assumes "bimap_ok bm" "bimap_insert oid bm = Some bm'"
  shows "bimap_ok bm'"
    and "idx_to_oid bm' = (if oid \<in> set (idx_to_oid bm) then idx_to_oid bm else idx_to_oid bm @ [oid])"
  using assms get_idx_None [OF assms(1), of oid]
  by (auto simp: bimap_insert_def bimap_ok_def object_idx_new_def split: option.splits if_splits)

lemma bimap_insert_succeeds: "length (idx_to_oid bm) \<le> u32_max \<Longrightarrow> \<exists>bm'. bimap_insert oid bm = Some bm'"
  by (auto simp: bimap_insert_def object_idx_new_def split: option.splits)

text \<open>An insertion and the index it leaves for the id.\<close>

definition bimap_number :: "oid \<Rightarrow> object_id_bimap \<Rightarrow> (nat \<times> object_id_bimap) option" where
  "bimap_number oid bm = Option.bind (bimap_insert oid bm) (\<lambda>bm'. map_option (\<lambda>idx. (idx, bm')) (get_idx bm' oid))"

interpretation objects: interner bimap_ok get_idx get_oid bimap_number
proof
  fix bm bm' :: object_id_bimap and oid oid' idx idx'
  show "bimap_ok bm \<Longrightarrow> get_idx bm oid = Some idx \<Longrightarrow> get_oid bm idx = Some oid" by (simp add: get_idx_iff)
  assume ok: "bimap_ok bm" and "bimap_number oid bm = Some (idx, bm')"
  then have new: "bimap_insert oid bm = Some bm'" "get_idx bm' oid = Some idx" by (auto simp: bimap_number_def bind_eq_Some_conv)
  show "bimap_ok bm'" "get_idx bm' oid = Some idx" using bimap_insert_ok(1) [OF ok new(1)] new(2) by simp_all
  show "get_idx bm oid' = Some idx' \<Longrightarrow> get_idx bm' oid' = Some idx'"
    using bimap_insert_ok [OF ok new(1)] get_idx_iff [OF ok] get_idx_iff [of bm'] by (auto simp: get_oid_def slice_get_def nth_append split: if_splits)
qed

section \<open>\<open>SeenObjectSet\<close>\<close>

text \<open>Two bitmaps; sharing them between forks of the history is not visible in their values.\<close>

record seen_object_set =
  seen_trees :: "nat set"
  seen_blobs :: "nat set"

definition seen_new :: seen_object_set where
  "seen_new = \<lparr>seen_trees = {}, seen_blobs = {}\<rparr>"

definition seen_insert :: "nat \<Rightarrow> nat set \<Rightarrow> bool \<times> nat set" where
  "seen_insert idx s = (if idx \<in> s then (False, s) else (True, insert idx s))"

definition insert_tree :: "nat \<Rightarrow> seen_object_set \<Rightarrow> bool \<times> seen_object_set" where
  "insert_tree idx seen = (case seen_insert idx (seen_trees seen) of (new, s) \<Rightarrow> (new, seen\<lparr>seen_trees := s\<rparr>))"

definition contains_tree :: "seen_object_set \<Rightarrow> nat \<Rightarrow> bool" where
  "contains_tree seen idx \<longleftrightarrow> idx \<in> seen_trees seen"

definition insert_blob :: "nat \<Rightarrow> seen_object_set \<Rightarrow> bool \<times> seen_object_set" where
  "insert_blob idx seen = (case seen_insert idx (seen_blobs seen) of (new, s) \<Rightarrow> (new, seen\<lparr>seen_blobs := s\<rparr>))"

definition contains_blob :: "seen_object_set \<Rightarrow> nat \<Rightarrow> bool" where
  "contains_blob seen idx \<longleftrightarrow> idx \<in> seen_blobs seen"

definition union_update :: "seen_object_set \<Rightarrow> seen_object_set \<Rightarrow> seen_object_set" where
  "union_update self other =
     \<lparr>seen_trees = seen_trees self \<union> seen_trees other, seen_blobs = seen_blobs self \<union> seen_blobs other\<rparr>"

lemma insert_tree_simps [simp]:
  "fst (insert_tree idx seen) \<longleftrightarrow> idx \<notin> seen_trees seen"
  "seen_trees (snd (insert_tree idx seen)) = insert idx (seen_trees seen)"
  "seen_blobs (snd (insert_tree idx seen)) = seen_blobs seen"
  by (auto simp: insert_tree_def seen_insert_def)

lemma insert_blob_simps [simp]:
  "seen_blobs (snd (insert_blob idx seen)) = insert idx (seen_blobs seen)"
  "seen_trees (snd (insert_blob idx seen)) = seen_trees seen"
  by (auto simp: insert_blob_def seen_insert_def)

section \<open>\<open>CandidateSummaries\<close>\<close>

text \<open>
  A summary of a tree is a 32-bit word: unknown, clean, too many candidates, one candidate (its number
  plus three), or, with the top bit set, the number of an interned set.
\<close>

type_synonym summary = "32 word"

definition UNKNOWN :: summary where "UNKNOWN = 0"
definition CLEAN :: summary where "CLEAN = 1"
definition OVERFLOW :: summary where "OVERFLOW = 2"
definition MULTI :: summary where "MULTI = push_bit 31 1"

record candidate_summaries =
  cs_trees :: "summary list"
  cs_sets :: "nat list list"

text \<open>\<open>covered\<close>; \<open>None\<close> is a panic on an index out of range\<close>

definition covered :: "candidate_summaries \<Rightarrow> nat \<Rightarrow> nat set \<Rightarrow> bool option" where
  "covered cs tree ancestors =
     (case slice_get (cs_trees cs) tree of
        None \<Rightarrow> None
      | Some state \<Rightarrow>
          if state = UNKNOWN \<or> state = OVERFLOW then Some False
          else if state = CLEAN then Some True
          else if state AND MULTI = 0 then Some (unat (state - 3) \<in> ancestors)
          else map_option (list_all (\<lambda>cand. cand \<in> ancestors)) (slice_get (cs_sets cs) (unat (state AND NOT MULTI))))"

section \<open>\<open>RepositoryIndex\<close>\<close>

datatype kind = KindTree | KindBlob | KindCommit | KindTag

record object_header =
  oh_kind :: kind
  oh_size :: nat

record repository_index =
  ri_trees :: object_id_bimap
  ri_commits :: object_id_bimap
  ri_blobs :: object_id_bimap
  ri_tags :: object_id_bimap
  ri_candidate_trees :: "nat set option"
  ri_content_filtered :: bool
  ri_candidate_summaries :: "candidate_summaries option"

definition MIN_SCANNABLE_BLOB_SIZE :: nat where
  "MIN_SCANNABLE_BLOB_SIZE = 20"

definition INDEX_BATCH_SIZE :: nat where
  "INDEX_BATCH_SIZE = 4096"

definition index_empty :: repository_index where
  "index_empty =
     \<lparr>ri_trees = bimap_empty, ri_commits = bimap_empty, ri_blobs = bimap_empty, ri_tags = bimap_empty,
      ri_candidate_trees = None, ri_content_filtered = False, ri_candidate_summaries = None\<rparr>"

text \<open>The job that looks at one object id of the database; \<open>None\<close> in it is an unreadable id or header.\<close>

definition index_object :: "(oid \<Rightarrow> object_header option) \<Rightarrow> oid option \<Rightarrow> (kind \<times> oid) option" where
  "index_object find_header oid_result =
     (case oid_result of
        None \<Rightarrow> None
      | Some oid \<Rightarrow>
          (case find_header oid of
             None \<Rightarrow> None
           | Some hdr \<Rightarrow>
               if oh_kind hdr = KindBlob \<and> oh_size hdr < MIN_SCANNABLE_BLOB_SIZE then None
               else Some (oh_kind hdr, oid)))"

definition index_insert :: "kind \<times> oid \<Rightarrow> repository_index \<Rightarrow> repository_index option" where
  "index_insert obj ri =
     (case obj of (kind, oid) \<Rightarrow>
        (case kind of
           KindTree \<Rightarrow> map_option (\<lambda>bm. ri\<lparr>ri_trees := bm\<rparr>) (bimap_insert oid (ri_trees ri))
         | KindBlob \<Rightarrow> map_option (\<lambda>bm. ri\<lparr>ri_blobs := bm\<rparr>) (bimap_insert oid (ri_blobs ri))
         | KindCommit \<Rightarrow> map_option (\<lambda>bm. ri\<lparr>ri_commits := bm\<rparr>) (bimap_insert oid (ri_commits ri))
         | KindTag \<Rightarrow> map_option (\<lambda>bm. ri\<lparr>ri_tags := bm\<rparr>) (bimap_insert oid (ri_tags ri))))"

text \<open>A batch: every object is looked at, then the results are inserted in the order of the database.\<close>

definition index_batch ::
  "(oid \<Rightarrow> object_header option) \<Rightarrow> oid option list \<Rightarrow> repository_index \<Rightarrow> repository_index gitm" where
  "index_batch find_header batch ri =
     and_then (fold_git (\<lambda>oid_result found. timed (git_ok (found @ [index_object find_header oid_result]))) batch [])
       (\<lambda>found. fold_git (\<lambda>obj ri. case obj of None \<Rightarrow> git_ok ri | Some obj \<Rightarrow> or_panic (index_insert obj ri)) found ri)"

text \<open>The loop over the batches; the last turn finds an empty batch.\<close>

definition new_with_deadline ::
  "(oid \<Rightarrow> object_header option) \<Rightarrow> oid option list \<Rightarrow> repository_index gitm" where
  "new_with_deadline find_header object_iter =
     and_then (fold_git (\<lambda>batch ri. timed (index_batch find_header batch ri))
                 (chunks INDEX_BATCH_SIZE object_iter) index_empty)
       (\<lambda>ri. timed (git_ok ri))"

definition get_tree_oid :: "repository_index \<Rightarrow> nat \<Rightarrow> oid option" where
  "get_tree_oid ri idx = get_oid (ri_trees ri) idx"

definition get_tree_index :: "repository_index \<Rightarrow> oid \<Rightarrow> nat option" where
  "get_tree_index ri oid = get_idx (ri_trees ri) oid"

definition get_blob_index :: "repository_index \<Rightarrow> oid \<Rightarrow> nat option" where
  "get_blob_index ri oid = get_idx (ri_blobs ri) oid"

definition num_blobs :: "repository_index \<Rightarrow> nat" where
  "num_blobs ri = length (idx_to_oid (ri_blobs ri))"

definition is_candidate_tree :: "repository_index \<Rightarrow> nat \<Rightarrow> bool" where
  "is_candidate_tree ri idx = (case ri_candidate_trees ri of None \<Rightarrow> True | Some trees \<Rightarrow> idx \<in> trees)"

definition tree_is_covered :: "repository_index \<Rightarrow> nat \<Rightarrow> seen_object_set \<Rightarrow> bool option" where
  "tree_is_covered ri idx seen =
     (case ri_candidate_summaries ri of None \<Rightarrow> Some False | Some s \<Rightarrow> covered s idx (seen_blobs seen))"

text \<open>The scan over blob contents that keeps only blobs which may hold a match.\<close>

record content_filter =
  exceeds_max_blob_size :: "nat \<Rightarrow> bool"
  may_match :: "bytes \<Rightarrow> bool option"

definition MAX_PREPASS_BLOB_BYTES :: nat where
  "MAX_PREPASS_BLOB_BYTES = 4 * 1024 * 1024"

text \<open>Whether a blob is selected and, when its content was judged clean, how many bytes it has.\<close>

definition prepass_blob ::
  "(oid \<Rightarrow> object_header option) \<Rightarrow> (oid \<Rightarrow> bytes option) \<Rightarrow> content_filter \<Rightarrow> oid \<Rightarrow> (bool \<times> nat option) option" where
  "prepass_blob find_header find_blob flt oid =
     (let content =
        (case find_blob oid of
           Some data \<Rightarrow> map_option (\<lambda>keep. (keep, if keep then None else Some (length data))) (may_match flt data)
         | None \<Rightarrow> Some (True, None))
      in case find_header oid of
           Some header \<Rightarrow>
             if exceeds_max_blob_size flt (oh_size header) then Some (False, None)
             else if MAX_PREPASS_BLOB_BYTES < oh_size header then Some (True, None)
             else content
         | None \<Rightarrow> content)"

definition retain_blob_indexes :: "bool list \<Rightarrow> repository_index \<Rightarrow> repository_index gitm" where
  "retain_blob_indexes keep ri =
     and_then (fold_git (\<lambda>oid bm. or_panic (bimap_insert oid bm)) (retain keep (idx_to_oid (ri_blobs ri))) bimap_empty)
       (\<lambda>candidates. git_ok (ri\<lparr>ri_blobs := candidates, ri_content_filtered := True\<rparr>))"

text \<open>The numbers of clean blobs and bytes go to the statistics of the filter.\<close>

definition count_clean :: "nat option \<Rightarrow> nat \<times> nat \<Rightarrow> nat \<times> nat" where
  "count_clean clean counts = (case clean of None \<Rightarrow> counts | Some n \<Rightarrow> (fst counts + 1, snd counts + n))"

definition retain_content_candidates ::
  "(oid \<Rightarrow> object_header option) \<Rightarrow> (oid \<Rightarrow> bytes option) \<Rightarrow> content_filter \<Rightarrow> repository_index \<Rightarrow>
   (repository_index \<times> nat \<times> nat) gitm" where
  "retain_content_candidates find_header find_blob flt ri =
     and_then
       (fold_git (\<lambda>oid (selected, counts). timed
          (case prepass_blob find_header find_blob flt oid of
             None \<Rightarrow> ret (Inl FilterFailed)
           | Some (keep, clean) \<Rightarrow> git_ok (selected @ [keep], count_clean clean counts)))
         (idx_to_oid (ri_blobs ri)) ([], 0, 0))
       (\<lambda>(selected, counts). and_then (retain_blob_indexes selected ri) (\<lambda>ri. git_ok (ri, counts)))"

section \<open>What the index holds\<close>

text \<open>First occurrences, in order.\<close>

definition firsts :: "'a list \<Rightarrow> 'a list" where
  "firsts xs = rev (remdups (rev xs))"

lemma firsts_simps [simp]:
  "firsts [] = []" "firsts (xs @ [x]) = (if x \<in> set xs then firsts xs else firsts xs @ [x])"
  "set (firsts xs) = set xs" "distinct (firsts xs)"
  by (simp_all add: firsts_def)

lemma length_firsts: "length (firsts xs) \<le> length xs"
  unfolding firsts_def by (metis length_remdups_leq length_rev)

definition bimap_of :: "kind \<Rightarrow> repository_index \<Rightarrow> object_id_bimap" where
  "bimap_of k ri = (case k of KindTree \<Rightarrow> ri_trees ri | KindBlob \<Rightarrow> ri_blobs ri | KindCommit \<Rightarrow> ri_commits ri | KindTag \<Rightarrow> ri_tags ri)"

definition of_kind :: "kind \<Rightarrow> (kind \<times> oid) list \<Rightarrow> oid list" where
  "of_kind k objs = map snd (filter (\<lambda>obj. fst obj = k) objs)"

text \<open>The objects of the database that are readable and, for blobs, large enough.\<close>

definition indexable :: "(oid \<Rightarrow> object_header option) \<Rightarrow> oid option list \<Rightarrow> (kind \<times> oid) list" where
  "indexable find_header oids = flatten (map (index_object find_header) oids)"

definition indexes :: "(kind \<times> oid) list \<Rightarrow> repository_index \<Rightarrow> bool" where
  "indexes objs ri \<longleftrightarrow>
     (\<forall>k. bimap_ok (bimap_of k ri) \<and> idx_to_oid (bimap_of k ri) = firsts (of_kind k objs)) \<and>
     ri_candidate_trees ri = None \<and> \<not> ri_content_filtered ri \<and> ri_candidate_summaries ri = None"

lemma flatten_simps [simp]: "flatten [] = []" "flatten (Some x # xs) = x # flatten xs" "flatten (None # xs) = flatten xs"
  "flatten (xs @ ys) = flatten xs @ flatten ys"
  by (simp_all add: flatten_def List.map_filter_def)

lemma length_flatten: "length (flatten xs) \<le> length xs"
proof (induction xs)
  case (Cons x xs)
  then show ?case by (cases x) auto
qed simp

lemma of_kind_snoc: "of_kind k (objs @ [obj]) = of_kind k objs @ (if fst obj = k then [snd obj] else [])"
  by (simp add: of_kind_def)

lemma index_insert_ok:
  assumes ix: "indexes objs ri" and len: "length objs \<le> u32_max"
  shows "\<exists>ri'. index_insert obj ri = Some ri' \<and> indexes (objs @ [obj]) ri'"
proof -
  obtain k oid where obj: "obj = (k, oid)" by fastforce
  have b: "bimap_ok (bimap_of k ri)" "idx_to_oid (bimap_of k ri) = firsts (of_kind k objs)" using ix by (simp_all add: indexes_def)
  have "length (idx_to_oid (bimap_of k ri)) \<le> u32_max"
    unfolding b(2) of_kind_def by (rule le_trans [OF length_firsts]) (simp, rule le_trans [OF length_filter_le len])
  then obtain bm where bm: "bimap_insert oid (bimap_of k ri) = Some bm" using bimap_insert_succeeds by blast
  note ok = bimap_insert_ok [OF b(1) bm]
  have "\<exists>ri'. index_insert obj ri = Some ri' \<and> bimap_of k ri' = bm \<and> (\<forall>k'. k' \<noteq> k \<longrightarrow> bimap_of k' ri' = bimap_of k' ri) \<and>
      ri_candidate_trees ri' = ri_candidate_trees ri \<and> ri_content_filtered ri' = ri_content_filtered ri \<and>
      ri_candidate_summaries ri' = ri_candidate_summaries ri"
    using bm obj by (cases k) (auto simp: index_insert_def bimap_of_def split: kind.splits)
  then obtain ri' where ri': "index_insert obj ri = Some ri'" "bimap_of k ri' = bm" "\<forall>k'. k' \<noteq> k \<longrightarrow> bimap_of k' ri' = bimap_of k' ri"
    "ri_candidate_trees ri' = ri_candidate_trees ri" "ri_content_filtered ri' = ri_content_filtered ri"
    "ri_candidate_summaries ri' = ri_candidate_summaries ri" by blast
  have "bimap_ok (bimap_of k' ri') \<and> idx_to_oid (bimap_of k' ri') = firsts (of_kind k' (objs @ [obj]))" for k'
    using ix ri'(2,3) ok b(2) obj by (cases "k' = k") (auto simp: indexes_def of_kind_snoc)
  then show ?thesis using ri' ix by (simp add: indexes_def)
qed

lemma index_batch_ok:
  assumes ix: "indexes objs ri" and len: "length objs + length batch \<le> Suc u32_max"
  shows "\<exists>ri'. yields (index_batch find_header batch ri) (Inr ri') \<and> indexes (objs @ indexable find_header batch) ri'"
proof -
  let ?look = "\<lambda>oid_result found. timed (git_ok (found @ [index_object find_header oid_result]))"
  let ?found = "map (index_object find_header) batch"
  have look: "yields (fold_git ?look batch []) (Inr ?found)"
    using fold_git_inv [of "\<lambda>pre found. found = map (index_object find_header) pre" "[]" batch ?look] yields_timed [OF yields_git_ok] by force
  let ?insert = "\<lambda>obj ri. case obj of None \<Rightarrow> git_ok ri | Some obj \<Rightarrow> or_panic (index_insert obj ri)"
  let ?Q = "\<lambda>k ri. indexes (objs @ flatten (take k ?found)) ri"
  have step: "\<exists>ri'. yields (?insert (?found ! k) ri) (Inr ri') \<and> ?Q (Suc k) ri'" if k: "k < length ?found" and q: "?Q k ri" for k ri
  proof (cases "?found ! k")
    case None
    then show ?thesis using q k by (auto simp: take_Suc_conv_app_nth intro: yields_git_ok)
  next
    case (Some obj)
    have "length (objs @ flatten (take k ?found)) \<le> u32_max" using length_flatten [of "take k ?found"] k len by simp
    then obtain ri' where "index_insert obj ri = Some ri'" "indexes ((objs @ flatten (take k ?found)) @ [obj]) ri'"
      using index_insert_ok [OF q] by blast
    then show ?thesis using Some k by (intro exI [of _ ri']) (simp add: take_Suc_conv_app_nth yields_or_panic)
  qed
  obtain ri' where ri': "yields (fold_git ?insert ?found ri) (Inr ri')" "?Q (length ?found) ri'"
    using fold_git_upto [of ?Q ri ?found ?insert, OF _ step] ix by auto
  have "yields (index_batch find_header batch ri) (Inr ri')" unfolding index_batch_def by (rule yields_and_then [OF look]) (rule ri'(1))
  then show ?thesis using ri'(2) by (auto simp: indexable_def)
qed

lemma concat_chunks: "0 < n \<Longrightarrow> concat (chunks n xs) = xs"
  by (induction n xs rule: chunks.induct) (subst chunks.simps, auto)

lemma new_with_deadline_ok:
  assumes "length oids \<le> Suc u32_max"
  shows "\<exists>ri. yields (new_with_deadline find_header oids) (Inr ri) \<and> indexes (indexable find_header oids) ri"
proof -
  let ?batches = "chunks INDEX_BATCH_SIZE oids"
  have all: "concat ?batches = oids" by (rule concat_chunks) (simp add: INDEX_BATCH_SIZE_def)
  let ?Q = "\<lambda>k ri. indexes (indexable find_header (concat (take k ?batches))) ri"
  have step: "\<exists>ri'. yields (timed (index_batch find_header (?batches ! k) ri)) (Inr ri') \<and> ?Q (Suc k) ri'"
    if k: "k < length ?batches" and q: "?Q k ri" for k ri
  proof -
    have "length (concat (take k ?batches)) + length (?batches ! k) \<le> length (concat ?batches)"
      by (subst (3) id_take_nth_drop [OF k]) simp
    then have "length (indexable find_header (concat (take k ?batches))) + length (?batches ! k) \<le> Suc u32_max"
      using assms length_flatten [of "map (index_object find_header) (concat (take k ?batches))"] by (simp add: all indexable_def)
    then show ?thesis using index_batch_ok [OF q] yields_timed k by (fastforce simp: take_Suc_conv_app_nth indexable_def)
  qed
  have "bimap_of k index_empty = bimap_empty" for k by (cases k) (simp_all add: bimap_of_def index_empty_def)
  then have "?Q 0 index_empty"
    by (simp add: indexes_def indexable_def of_kind_def bimap_ok_empty) (simp add: index_empty_def bimap_empty_def)
  then obtain ri where ri: "yields (fold_git (\<lambda>batch ri. timed (index_batch find_header batch ri)) ?batches index_empty) (Inr ri)" "?Q (length ?batches) ri"
    using fold_git_upto [of ?Q index_empty ?batches "\<lambda>batch ri. timed (index_batch find_header batch ri)", OF _ step] by auto
  have "yields (new_with_deadline find_header oids) (Inr ri)" unfolding new_with_deadline_def
    by (rule yields_and_then [OF ri(1)]) (rule yields_timed [OF yields_git_ok])
  then show ?thesis using ri(2) all by auto
qed

end
