(* ===== verification/Tree_Walk.thy ===== *)
theory Tree_Walk
  imports Git_Index
begin

text \<open>
  The walk over the tree of one commit: \<open>visit_tree\<close> of \<open>src/git_metadata_graph.rs\<close> and the path tests it uses.
  Trees and blobs seen in the ancestry are skipped; new blobs are reported with their path.  Without path
  exclusions the walk reports exactly the indexed blobs below the tree that the ancestry has not seen, each with
  a path that leads to it.
\<close>

section \<open>Paths\<close>

datatype entry_kind = EntryTree | EntryBlob | EntryBlobExecutable | EntryLink | EntryCommit

record tree_entry =
  te_kind :: entry_kind
  te_filename :: bytes
  te_oid :: oid

text \<open>
  What the walk reads from outside: the entries of a tree object (\<open>None\<close> when the tree or an entry cannot be
  read), the conversion of bytes to a path, and the compiled glob patterns to exclude.
\<close>

record git_env =
  find_tree_iter :: "oid \<Rightarrow> tree_entry option list option"
  to_path :: "bytes \<Rightarrow> bytes option"
  exclude_globset :: "(bytes \<Rightarrow> bool) option"

definition slash :: byte where
  "slash = CHR ''/''"

definition path_is_excluded :: "git_env \<Rightarrow> bytes \<Rightarrow> bool" where
  "path_is_excluded env path =
     (case exclude_globset env of
        None \<Rightarrow> False
      | Some gs \<Rightarrow> (case to_path env path of Some p \<Rightarrow> gs p | None \<Rightarrow> False))"

definition tree_path_is_excluded :: "git_env \<Rightarrow> bytes \<Rightarrow> bool" where
  "tree_path_is_excluded env path =
     (if path_is_excluded env path then True
      else
        case exclude_globset env of
          None \<Rightarrow> False
        | Some gs \<Rightarrow> (case to_path env (path @ [slash]) of Some p \<Rightarrow> gs p | None \<Rightarrow> False))"

fun render_rest :: "bstring_table \<Rightarrow> symbol list \<Rightarrow> bytes option" where
  "render_rest symbols [] = Some []"
| "render_rest symbols (s # ss) =
     (case resolve symbols s of
        None \<Rightarrow> None
      | Some b \<Rightarrow> map_option (\<lambda>rest. slash # b @ rest) (render_rest symbols ss))"

definition render_symbol_path :: "bstring_table \<Rightarrow> symbol list \<Rightarrow> bytes option" where
  "render_symbol_path symbols path =
     (case path of
        [] \<Rightarrow> Some []
      | first # rest \<Rightarrow>
          (case resolve symbols first of None \<Rightarrow> None | Some b \<Rightarrow> map_option (\<lambda>r. b @ r) (render_rest symbols rest)))"

section \<open>\<open>visit_tree\<close>\<close>

text \<open>The variables of the walk; the counters for log output are left out.\<close>

record walk_state =
  ws_symbols :: bstring_table
  ws_seen :: seen_object_set
  ws_introduced :: "(oid \<times> bytes) list"
  ws_worklist :: "(symbol list \<times> oid) list"
  ws_encountered :: "nat list"

definition intern_child :: "symbol list \<Rightarrow> tree_entry \<Rightarrow> walk_state \<Rightarrow> (symbol list \<times> walk_state) option" where
  "intern_child name_path child st =
     map_option (\<lambda>(sy, symbols). (name_path @ [sy], st\<lparr>ws_symbols := symbols\<rparr>))
       (get_or_intern (te_filename child) (ws_symbols st))"

definition push_tree :: "symbol list \<Rightarrow> oid \<Rightarrow> walk_state \<Rightarrow> walk_state" where
  "push_tree path oid st = st\<lparr>ws_worklist := (path, oid) # ws_worklist st\<rparr>"

definition visit_subtree ::
  "git_env \<Rightarrow> repository_index \<Rightarrow> symbol list \<Rightarrow> tree_entry \<Rightarrow> walk_state \<Rightarrow> walk_state option" where
  "visit_subtree env ri name_path child st =
     (case get_tree_index ri (te_oid child) of
        None \<Rightarrow> Some st
      | Some child_idx \<Rightarrow>
          (case (if is_candidate_tree ri child_idx then tree_is_covered ri child_idx (ws_seen st) else Some True) of
             None \<Rightarrow> None
           | Some True \<Rightarrow> Some st
           | Some False \<Rightarrow>
               if exclude_globset env = None then
                 (case insert_tree child_idx (ws_seen st) of (new, seen) \<Rightarrow>
                    if \<not> new then Some st
                    else map_option (\<lambda>(new_path, st). push_tree new_path (te_oid child) st)
                           (intern_child name_path child (st\<lparr>ws_seen := seen\<rparr>)))
               else if contains_tree (ws_seen st) child_idx then Some st
               else
                 (case intern_child name_path child st of
                    None \<Rightarrow> None
                  | Some (new_path, st) \<Rightarrow>
                      (case render_symbol_path (ws_symbols st) new_path of
                         None \<Rightarrow> None
                       | Some path \<Rightarrow>
                           if tree_path_is_excluded env path then Some st
                           else Some (push_tree new_path (te_oid child)
                                  (st\<lparr>ws_seen := snd (insert_tree child_idx (ws_seen st))\<rparr>))))))"

definition visit_blob ::
  "git_env \<Rightarrow> repository_index \<Rightarrow> symbol list \<Rightarrow> tree_entry \<Rightarrow> walk_state \<Rightarrow> walk_state option" where
  "visit_blob env ri name_path child st =
     (case get_blob_index ri (te_oid child) of
        None \<Rightarrow> Some st
      | Some child_idx \<Rightarrow>
          if contains_blob (ws_seen st) child_idx then Some st
          else
            (case intern_child name_path child st of
               None \<Rightarrow> None
             | Some (new_path, st) \<Rightarrow>
                 (case render_symbol_path (ws_symbols st) new_path of
                    None \<Rightarrow> None
                  | Some path \<Rightarrow>
                      if path_is_excluded env path then Some st
                      else Some (st\<lparr>ws_encountered := ws_encountered st @ [child_idx],
                             ws_introduced := ws_introduced st @ [(te_oid child, path)]\<rparr>))))"

definition visit_entry ::
  "git_env \<Rightarrow> repository_index \<Rightarrow> symbol list \<Rightarrow> tree_entry option \<Rightarrow> walk_state \<Rightarrow> walk_state option" where
  "visit_entry env ri name_path child_res st =
     (case child_res of
        None \<Rightarrow> Some st
      | Some child \<Rightarrow>
          (case te_kind child of
             EntryLink \<Rightarrow> Some st
           | EntryCommit \<Rightarrow> Some st
           | EntryTree \<Rightarrow> visit_subtree env ri name_path child st
           | EntryBlob \<Rightarrow> visit_blob env ri name_path child st
           | EntryBlobExecutable \<Rightarrow> visit_blob env ri name_path child st))"

text \<open>The work left: trees not seen yet count twice, queued trees once.\<close>

definition walk_work :: "repository_index \<Rightarrow> walk_state \<Rightarrow> nat" where
  "walk_work ri st =
     2 * card (set (oid_to_idx (ri_trees ri)) - seen_trees (ws_seen st)) + length (ws_worklist st)"

lemma walk_work_insert:
  assumes "get_tree_index ri oid = Some idx" "idx \<notin> seen_trees (ws_seen st)"
  shows "2 * card (set (oid_to_idx (ri_trees ri)) - insert idx (seen_trees (ws_seen st))) + Suc (length (ws_worklist st)) \<le> walk_work ri st"
proof -
  let ?U = "set (oid_to_idx (ri_trees ri)) - seen_trees (ws_seen st)"
  have "idx \<in> ?U" using assms get_idx_bound [of "ri_trees ri" oid idx] by (auto simp: get_tree_index_def)
  then have "Suc (card (?U - {idx})) = card ?U" by (rule card_Suc_Diff1 [rotated]) simp
  moreover have "set (oid_to_idx (ri_trees ri)) - insert idx (seen_trees (ws_seen st)) = ?U - {idx}" by auto
  ultimately show ?thesis by (simp add: walk_work_def)
qed

lemma intern_child_facts:
  assumes "intern_child name_path child st = Some (new_path, st')"
  shows "\<exists>sy symbols. get_or_intern (te_filename child) (ws_symbols st) = Some (sy, symbols) \<and>
    new_path = name_path @ [sy] \<and> st' = st\<lparr>ws_symbols := symbols\<rparr>"
  using assms by (auto simp: intern_child_def)

lemma visit_entry_work:
  assumes "visit_entry env ri name_path child_res st = Some st'"
  shows "walk_work ri st' \<le> walk_work ri st"
proof (cases child_res)
  case (Some child)
  have sub: "walk_work ri st' \<le> walk_work ri st" if v: "visit_subtree env ri name_path child st = Some st'"
  proof (cases "get_tree_index ri (te_oid child)")
    case (Some idx)
    show ?thesis using v Some walk_work_insert [OF Some, of st]
      by (fastforce simp: visit_subtree_def walk_work_def push_tree_def insert_tree_def seen_insert_def contains_tree_def
          split: if_splits option.splits bool.splits prod.splits dest!: intern_child_facts)
  qed (use v in \<open>simp add: visit_subtree_def\<close>)
  have blob: "walk_work ri st' \<le> walk_work ri st" if "visit_blob env ri name_path child st = Some st'"
    using that by (fastforce simp: visit_blob_def walk_work_def split: if_splits option.splits prod.splits dest!: intern_child_facts)
  show ?thesis using assms sub blob by (auto simp: visit_entry_def Some split: entry_kind.splits)
qed (use assms in \<open>simp add: visit_entry_def\<close>)

lemma fold_git_work:
  assumes "fold_git (\<lambda>x s. timed (or_panic (f x s))) xs s c t = Inr (Inr s', t')"
    and "\<And>x s s'. f x s = Some s' \<Longrightarrow> \<mu> s' \<le> (\<mu> s :: nat)"
  shows "\<mu> s' \<le> \<mu> s"
  using assms(1)
proof (induction xs arbitrary: s t)
  case Nil
  then show ?case by (simp add: git_ok_def ret_def)
next
  case (Cons x xs)
  obtain s1 t1 where s1: "f x s = Some s1" "fold_git (\<lambda>x s. timed (or_panic (f x s))) xs s1 c t1 = Inr (Inr s', t')"
    using Cons(2) by (auto simp: and_then_def or_panic_def bind_def ret_def split: sum.splits option.splits)
  then show ?case using Cons(1) [OF s1(2)] assms(2) [OF s1(1)] by simp
qed

function visit_trees :: "git_env \<Rightarrow> repository_index \<Rightarrow> walk_state \<Rightarrow> walk_state gitm" where
  "visit_trees env ri st =
     (case ws_worklist st of
        [] \<Rightarrow> git_ok st
      | (name_path, tree_oid) # rest \<Rightarrow> timed
          (case find_tree_iter env tree_oid of
             None \<Rightarrow> visit_trees env ri (st\<lparr>ws_worklist := rest\<rparr>)
           | Some tree_iter \<Rightarrow>
               and_then (fold_git (\<lambda>child st. timed (or_panic (visit_entry env ri name_path child st))) tree_iter
                           (st\<lparr>ws_worklist := rest\<rparr>))
                 (visit_trees env ri)))"
  by pat_completeness auto
termination
proof (relation "measure (\<lambda>(env, ri, st). walk_work ri st)", goal_cases)
  case (3 env ri st x rest name_path tree_oid c t u t' tree_iter c' t2 st' t3)
  have "walk_work ri st' \<le> walk_work ri (st\<lparr>ws_worklist := rest\<rparr>)"
    by (rule fold_git_work [where f = "visit_entry env ri name_path"]) (use 3 visit_entry_work in blast)+
  then show ?case using 3(1) by (simp add: walk_work_def)
qed (auto simp: walk_work_def)

declare visit_trees.simps [simp del]

definition visit_tree :: "git_env \<Rightarrow> repository_index \<Rightarrow> walk_state \<Rightarrow> walk_state gitm" where
  "visit_tree env ri st =
     and_then (visit_trees env ri (st\<lparr>ws_encountered := []\<rparr>)) (\<lambda>st.
       git_ok (st\<lparr>ws_seen := fold (\<lambda>idx seen. snd (insert_blob idx seen)) (ws_encountered st) (ws_seen st),
                  ws_encountered := []\<rparr>))"

section \<open>What lies below a tree\<close>

definition tree_entries :: "git_env \<Rightarrow> repository_index \<Rightarrow> nat \<Rightarrow> tree_entry list" where
  "tree_entries env ri t =
     (case get_tree_oid ri t of
        None \<Rightarrow> []
      | Some oid \<Rightarrow> (case find_tree_iter env oid of None \<Rightarrow> [] | Some entries \<Rightarrow> flatten entries))"

definition is_blob_entry :: "tree_entry \<Rightarrow> bool" where
  "is_blob_entry e \<longleftrightarrow> te_kind e = EntryBlob \<or> te_kind e = EntryBlobExecutable"

definition tree_child :: "git_env \<Rightarrow> repository_index \<Rightarrow> nat \<Rightarrow> nat \<Rightarrow> bool" where
  "tree_child env ri t t' \<longleftrightarrow>
     (\<exists>e \<in> set (tree_entries env ri t). te_kind e = EntryTree \<and> get_tree_index ri (te_oid e) = Some t')"

definition tree_blob :: "git_env \<Rightarrow> repository_index \<Rightarrow> nat \<Rightarrow> nat \<Rightarrow> bool" where
  "tree_blob env ri t b \<longleftrightarrow>
     (\<exists>e \<in> set (tree_entries env ri t). is_blob_entry e \<and> get_blob_index ri (te_oid e) = Some b)"

definition blobs_under :: "git_env \<Rightarrow> repository_index \<Rightarrow> nat \<Rightarrow> nat set" where
  "blobs_under env ri t = {b. \<exists>t'. (tree_child env ri)\<^sup>*\<^sup>* t t' \<and> tree_blob env ri t' b}"

text \<open>The names that lead from a tree to a tree below it, and paths as text.\<close>

inductive path_to :: "git_env \<Rightarrow> repository_index \<Rightarrow> nat \<Rightarrow> bytes list \<Rightarrow> nat \<Rightarrow> bool"
  for env :: git_env and ri :: repository_index and root :: nat where
  here: "path_to env ri root [] root"
| down: "path_to env ri root names t \<Longrightarrow> e \<in> set (tree_entries env ri t) \<Longrightarrow> te_kind e = EntryTree \<Longrightarrow>
     get_tree_index ri (te_oid e) = Some t' \<Longrightarrow> path_to env ri root (names @ [te_filename e]) t'"

definition join_path :: "bytes list \<Rightarrow> bytes" where
  "join_path names = (case names of [] \<Rightarrow> [] | n # ns \<Rightarrow> n @ concat (map (\<lambda>n. slash # n) ns))"

definition blob_at :: "git_env \<Rightarrow> repository_index \<Rightarrow> nat \<Rightarrow> oid \<Rightarrow> bytes \<Rightarrow> bool" where
  "blob_at env ri root oid path \<longleftrightarrow>
     (\<exists>names t e. path_to env ri root names t \<and> e \<in> set (tree_entries env ri t) \<and> is_blob_entry e \<and>
        te_oid e = oid \<and> path = join_path (names @ [te_filename e]))"

text \<open>All names the indexed trees hold; the table of names must be able to hold them.\<close>

definition names_of :: "git_env \<Rightarrow> repository_index \<Rightarrow> bytes set" where
  "names_of env ri = (\<Union>t < length (idx_to_oid (ri_trees ri)). te_filename ` set (tree_entries env ri t))"

definition names_fit :: "git_env \<Rightarrow> repository_index \<Rightarrow> bool" where
  "names_fit env ri \<longleftrightarrow> (\<Sum>n \<in> names_of env ri. length n) \<le> u32_max"

text \<open>Skipping a tree loses nothing: it holds no candidate, or only candidates the ancestry has.\<close>

definition prunes_soundly :: "git_env \<Rightarrow> repository_index \<Rightarrow> bool" where
  "prunes_soundly env ri \<longleftrightarrow>
     (\<forall>t < length (idx_to_oid (ri_trees ri)).
        (\<not> is_candidate_tree ri t \<longrightarrow> blobs_under env ri t = {}) \<and>
        (\<forall>seen. \<exists>c. tree_is_covered ri t seen = Some c \<and> (c \<longrightarrow> blobs_under env ri t \<subseteq> seen_blobs seen)))"

lemma blobs_under_child: "tree_child env ri t t' \<Longrightarrow> blobs_under env ri t' \<subseteq> blobs_under env ri t"
  by (auto simp: blobs_under_def intro: converse_rtranclp_into_rtranclp)

lemma path_to_reaches: "path_to env ri root names t \<Longrightarrow> (tree_child env ri)\<^sup>*\<^sup>* root t"
  by (induction rule: path_to.induct) (auto simp: tree_child_def intro: rtranclp.rtrancl_into_rtrancl)

lemma tree_index_bound: "get_tree_index ri oid = Some t \<Longrightarrow> t < length (idx_to_oid (ri_trees ri))"
  by (auto simp: get_tree_index_def dest: get_idx_bound)

lemma finite_names: "finite (names_of env ri)"
  by (simp add: names_of_def)

lemma names_ofI: "t < length (idx_to_oid (ri_trees ri)) \<Longrightarrow> e \<in> set (tree_entries env ri t) \<Longrightarrow> te_filename e \<in> names_of env ri"
  by (auto simp: names_of_def)

section \<open>Rendered paths\<close>

lemma render_rest_names:
  "map (resolve symbols) path = map Some names \<Longrightarrow> render_rest symbols path = Some (concat (map (\<lambda>n. slash # n) names))"
  by (induction path arbitrary: names) (auto simp: Cons_eq_map_conv)

lemma render_names:
  assumes "map (resolve symbols) path = map Some names"
  shows "render_symbol_path symbols path = Some (join_path names)"
proof (cases path)
  case Nil
  then show ?thesis using assms by (simp add: render_symbol_path_def join_path_def)
next
  case (Cons s ss)
  then obtain n ns where n: "names = n # ns" "resolve symbols s = Some n" "map (resolve symbols) ss = map Some ns"
    using assms by (cases names) auto
  then show ?thesis using render_rest_names [OF n(3)] by (simp add: Cons render_symbol_path_def join_path_def)
qed

lemma intern_child_ok:
  assumes t: "table_ok (ws_symbols st)" "dom (bt_mapping (ws_symbols st)) \<subseteq> names_of env ri" "names_fit env ri"
    and e: "te_filename e \<in> names_of env ri" and path: "map (resolve (ws_symbols st)) path = map Some names"
  shows "\<exists>new_path symbols. intern_child path e st = Some (new_path, st\<lparr>ws_symbols := symbols\<rparr>) \<and> table_ok symbols \<and>
    dom (bt_mapping symbols) \<subseteq> names_of env ri \<and> map (resolve symbols) new_path = map Some (names @ [te_filename e]) \<and>
    (\<forall>x y. resolve (ws_symbols st) x = Some y \<longrightarrow> resolve symbols x = Some y)"
proof -
  obtain sy symbols where i: "get_or_intern (te_filename e) (ws_symbols st) = Some (sy, symbols)"
    using get_or_intern_succeeds [OF t(1) finite_names t(2) e] t(3) by (auto simp: names_fit_def)
  note ok = get_or_intern_ok [OF t(1) i]
  have "\<forall>x \<in> set path. \<exists>n. resolve (ws_symbols st) x = Some n" using path by (metis ex_map_conv map_eq_conv option.exhaust image_iff list.set_map)
  then have "map (resolve symbols) path = map (resolve (ws_symbols st)) path" using ok(3) by fastforce
  then have "map (resolve symbols) (path @ [sy]) = map Some (names @ [te_filename e])" using path ok(2) by simp
  moreover have "dom (bt_mapping symbols) \<subseteq> names_of env ri" using ok(4) t(2) e by auto
  ultimately show ?thesis using i ok(1,3) by (auto simp: intern_child_def)
qed

section \<open>The walk\<close>

text \<open>A tree is handled when its subtrees are seen or need no visit and its blobs are seen or reported.\<close>

definition entry_handled :: "repository_index \<Rightarrow> git_env \<Rightarrow> nat set \<Rightarrow> walk_state \<Rightarrow> tree_entry \<Rightarrow> bool" where
  "entry_handled ri env SB st e \<longleftrightarrow>
     (\<forall>t. te_kind e = EntryTree \<longrightarrow> get_tree_index ri (te_oid e) = Some t \<longrightarrow>
        t \<in> seen_trees (ws_seen st) \<or> blobs_under env ri t \<subseteq> SB) \<and>
     (\<forall>b. is_blob_entry e \<longrightarrow> get_blob_index ri (te_oid e) = Some b \<longrightarrow> b \<in> SB \<union> set (ws_encountered st))"

definition queued :: "repository_index \<Rightarrow> walk_state \<Rightarrow> nat set" where
  "queued ri st = {t. \<exists>p oid. (p, oid) \<in> set (ws_worklist st) \<and> get_tree_index ri oid = Some t}"

record walk_spec =
  sp_env :: git_env
  sp_index :: repository_index
  sp_root :: nat
  sp_seen :: "nat set"

definition walk_inv :: "walk_spec \<Rightarrow> nat set \<Rightarrow> walk_state \<Rightarrow> bool" where
  "walk_inv sp pend st \<longleftrightarrow> (let env = sp_env sp; ri = sp_index sp; root = sp_root sp; SB = sp_seen sp in
     table_ok (ws_symbols st) \<and> dom (bt_mapping (ws_symbols st)) \<subseteq> names_of env ri \<and>
     seen_blobs (ws_seen st) = SB \<and>
     (\<forall>(p, oid) \<in> set (ws_worklist st). \<exists>t names. get_tree_index ri oid = Some t \<and>
        map (resolve (ws_symbols st)) p = map Some names \<and> path_to env ri root names t) \<and>
     map (get_blob_index ri \<circ> fst) (ws_introduced st) = map Some (ws_encountered st) \<and>
     (\<forall>b \<in> set (ws_encountered st). b \<in> blobs_under env ri root \<and> b \<notin> SB) \<and>
     (\<forall>(oid, path) \<in> set (ws_introduced st). blob_at env ri root oid path) \<and>
     (\<forall>t \<in> seen_trees (ws_seen st). blobs_under env ri t \<subseteq> SB \<or> t \<in> pend \<or> t \<in> queued ri st \<or>
        list_all (entry_handled ri env SB st) (tree_entries env ri t)))"

text \<open>One step changes the state only by growing it.\<close>

definition grows :: "walk_state \<Rightarrow> walk_state \<Rightarrow> bool" where
  "grows st st' \<longleftrightarrow> seen_trees (ws_seen st) \<subseteq> seen_trees (ws_seen st') \<and> set (ws_encountered st) \<subseteq> set (ws_encountered st')"

lemma entry_handled_grows: "grows st st' \<Longrightarrow> entry_handled ri env SB st e \<Longrightarrow> entry_handled ri env SB st' e"
  by (auto simp: grows_def entry_handled_def)

lemma handled_grows: "grows st st' \<Longrightarrow> list_all (entry_handled ri env SB st) es \<Longrightarrow> list_all (entry_handled ri env SB st') es"
  using entry_handled_grows by (auto simp: list_all_iff)

lemma grows_refl: "grows st st"
  by (simp add: grows_def)

lemma walk_invD:
  assumes "walk_inv sp pend st"
  shows "table_ok (ws_symbols st)" "dom (bt_mapping (ws_symbols st)) \<subseteq> names_of (sp_env sp) (sp_index sp)"
    "seen_blobs (ws_seen st) = sp_seen sp"
    "(p, oid) \<in> set (ws_worklist st) \<Longrightarrow> \<exists>t names. get_tree_index (sp_index sp) oid = Some t \<and>
        map (resolve (ws_symbols st)) p = map Some names \<and> path_to (sp_env sp) (sp_index sp) (sp_root sp) names t"
    "map (get_blob_index (sp_index sp) \<circ> fst) (ws_introduced st) = map Some (ws_encountered st)"
    "b \<in> set (ws_encountered st) \<Longrightarrow> b \<in> blobs_under (sp_env sp) (sp_index sp) (sp_root sp) \<and> b \<notin> sp_seen sp"
    "(oid, path) \<in> set (ws_introduced st) \<Longrightarrow> blob_at (sp_env sp) (sp_index sp) (sp_root sp) oid path"
    "t \<in> seen_trees (ws_seen st) \<Longrightarrow> blobs_under (sp_env sp) (sp_index sp) t \<subseteq> sp_seen sp \<or> t \<in> pend \<or>
        t \<in> queued (sp_index sp) st \<or>
        list_all (entry_handled (sp_index sp) (sp_env sp) (sp_seen sp) st) (tree_entries (sp_env sp) (sp_index sp) t)"
  using assms unfolding walk_inv_def Let_def by auto

lemma walk_invI:
  assumes "table_ok (ws_symbols st)" "dom (bt_mapping (ws_symbols st)) \<subseteq> names_of (sp_env sp) (sp_index sp)"
    "seen_blobs (ws_seen st) = sp_seen sp"
    "\<And>p oid. (p, oid) \<in> set (ws_worklist st) \<Longrightarrow> \<exists>t names. get_tree_index (sp_index sp) oid = Some t \<and>
        map (resolve (ws_symbols st)) p = map Some names \<and> path_to (sp_env sp) (sp_index sp) (sp_root sp) names t"
    "map (get_blob_index (sp_index sp) \<circ> fst) (ws_introduced st) = map Some (ws_encountered st)"
    "\<And>b. b \<in> set (ws_encountered st) \<Longrightarrow> b \<in> blobs_under (sp_env sp) (sp_index sp) (sp_root sp) \<and> b \<notin> sp_seen sp"
    "\<And>oid path. (oid, path) \<in> set (ws_introduced st) \<Longrightarrow> blob_at (sp_env sp) (sp_index sp) (sp_root sp) oid path"
    "\<And>t. t \<in> seen_trees (ws_seen st) \<Longrightarrow> blobs_under (sp_env sp) (sp_index sp) t \<subseteq> sp_seen sp \<or> t \<in> pend \<or>
        t \<in> queued (sp_index sp) st \<or>
        list_all (entry_handled (sp_index sp) (sp_env sp) (sp_seen sp) st) (tree_entries (sp_env sp) (sp_index sp) t)"
  shows "walk_inv sp pend st"
  using assms unfolding walk_inv_def Let_def by auto

text \<open>The names a queued path stands for survive new names in the table.\<close>

lemma resolved_grows:
  assumes "map (resolve symbols) p = map Some names" "\<And>x y. resolve symbols x = Some y \<Longrightarrow> resolve symbols' x = Some y"
  shows "map (resolve symbols') p = map Some names"
proof (rule nth_equalityI)
  show "length (map (resolve symbols') p) = length (map Some names)" using assms(1) by (metis length_map)
  fix i assume "i < length (map (resolve symbols') p)"
  then show "map (resolve symbols') p ! i = map Some names ! i"
    using arg_cong [OF assms(1), of "\<lambda>xs. xs ! i"] assms by (metis length_map nth_map)
qed

text \<open>What one entry of the current tree does to the state.\<close>

definition entry_step :: "walk_spec \<Rightarrow> nat set \<Rightarrow> tree_entry \<Rightarrow> walk_state \<Rightarrow> walk_state \<Rightarrow> bool" where
  "entry_step sp pend e st st' \<longleftrightarrow>
     walk_inv sp pend st' \<and> grows st st' \<and> entry_handled (sp_index sp) (sp_env sp) (sp_seen sp) st' e \<and>
     (\<forall>x y. resolve (ws_symbols st) x = Some y \<longrightarrow> resolve (ws_symbols st') x = Some y)"

text \<open>The hypotheses of a walk, and the place it is at.\<close>

definition walkable :: "walk_spec \<Rightarrow> bool" where
  "walkable sp \<longleftrightarrow> exclude_globset (sp_env sp) = None \<and> prunes_soundly (sp_env sp) (sp_index sp) \<and> names_fit (sp_env sp) (sp_index sp)"

definition walk_at :: "walk_spec \<Rightarrow> bytes list \<Rightarrow> nat \<Rightarrow> bool" where
  "walk_at sp names t \<longleftrightarrow> path_to (sp_env sp) (sp_index sp) (sp_root sp) names t \<and> t < length (idx_to_oid (ri_trees (sp_index sp)))"

lemma walk_inv_symbols:
  assumes "walk_inv sp pend st" "table_ok symbols" "dom (bt_mapping symbols) \<subseteq> names_of (sp_env sp) (sp_index sp)"
    and mono: "\<forall>x y. resolve (ws_symbols st) x = Some y \<longrightarrow> resolve symbols x = Some y"
  shows "walk_inv sp pend (st\<lparr>ws_symbols := symbols\<rparr>)"
proof (rule walk_invI)
  note d = walk_invD [OF assms(1)]
  fix p oid assume "(p, oid) \<in> set (ws_worklist (st\<lparr>ws_symbols := symbols\<rparr>))"
  then have "(p, oid) \<in> set (ws_worklist st)" by simp
  from d(4) [OF this] obtain t names where "get_tree_index (sp_index sp) oid = Some t"
    "map (resolve (ws_symbols st)) p = map Some names" "path_to (sp_env sp) (sp_index sp) (sp_root sp) names t" by blast
  then show "\<exists>t names. get_tree_index (sp_index sp) oid = Some t \<and>
      map (resolve (ws_symbols (st\<lparr>ws_symbols := symbols\<rparr>))) p = map Some names \<and> path_to (sp_env sp) (sp_index sp) (sp_root sp) names t"
    using resolved_grows [of "ws_symbols st" p names symbols] mono by auto
next
  note d = walk_invD [OF assms(1)]
  fix t assume "t \<in> seen_trees (ws_seen (st\<lparr>ws_symbols := symbols\<rparr>))"
  then have "blobs_under (sp_env sp) (sp_index sp) t \<subseteq> sp_seen sp \<or> t \<in> pend \<or> t \<in> queued (sp_index sp) st \<or>
      list_all (entry_handled (sp_index sp) (sp_env sp) (sp_seen sp) st) (tree_entries (sp_env sp) (sp_index sp) t)"
    using d(8) by simp
  moreover have "grows st (st\<lparr>ws_symbols := symbols\<rparr>)" by (simp add: grows_def)
  ultimately show "blobs_under (sp_env sp) (sp_index sp) t \<subseteq> sp_seen sp \<or> t \<in> pend \<or>
      t \<in> queued (sp_index sp) (st\<lparr>ws_symbols := symbols\<rparr>) \<or>
      list_all (entry_handled (sp_index sp) (sp_env sp) (sp_seen sp) (st\<lparr>ws_symbols := symbols\<rparr>)) (tree_entries (sp_env sp) (sp_index sp) t)"
    using handled_grows by (auto simp: queued_def)
qed (use walk_invD [OF assms(1)] assms(2,3) in auto)

lemma walk_inv_push:
  assumes inv: "walk_inv sp pend st" and idx: "get_tree_index (sp_index sp) oid = Some t"
    and path: "map (resolve (ws_symbols st)) p = map Some names" "path_to (sp_env sp) (sp_index sp) (sp_root sp) names t"
  shows "walk_inv sp pend (push_tree p oid (st\<lparr>ws_seen := snd (insert_tree t (ws_seen st))\<rparr>))"
    (is "walk_inv sp pend ?st")
proof (rule walk_invI)
  note d = walk_invD [OF inv]
  fix q o' assume "(q, o') \<in> set (ws_worklist ?st)"
  then consider "(q, o') = (p, oid)" | "(q, o') \<in> set (ws_worklist st)" by (auto simp: push_tree_def)
  then show "\<exists>t names. get_tree_index (sp_index sp) o' = Some t \<and>
      map (resolve (ws_symbols ?st)) q = map Some names \<and> path_to (sp_env sp) (sp_index sp) (sp_root sp) names t"
    by cases (use idx path d(4) in \<open>auto simp: push_tree_def\<close>)
next
  note d = walk_invD [OF inv]
  have g: "grows st ?st" by (auto simp: grows_def push_tree_def)
  fix t' assume "t' \<in> seen_trees (ws_seen ?st)"
  then consider "t' = t" | "t' \<in> seen_trees (ws_seen st)" by (auto simp: push_tree_def)
  then show "blobs_under (sp_env sp) (sp_index sp) t' \<subseteq> sp_seen sp \<or> t' \<in> pend \<or> t' \<in> queued (sp_index sp) ?st \<or>
      list_all (entry_handled (sp_index sp) (sp_env sp) (sp_seen sp) ?st) (tree_entries (sp_env sp) (sp_index sp) t')"
  proof cases
    case 1
    then show ?thesis using idx by (auto simp: queued_def push_tree_def)
  next
    case 2
    then show ?thesis using d(8) [OF 2] handled_grows [OF g] by (auto simp: queued_def push_tree_def)
  qed
qed (use walk_invD [OF inv] in \<open>auto simp: push_tree_def\<close>)

lemma visit_subtree_ok:
  assumes w: "walkable sp" and inv: "walk_inv sp pend st" and pos: "walk_at sp names t" "map (resolve (ws_symbols st)) path = map Some names"
    and e: "e \<in> set (tree_entries (sp_env sp) (sp_index sp) t)" "te_kind e = EntryTree"
  shows "\<exists>st'. visit_subtree (sp_env sp) (sp_index sp) path e st = Some st' \<and> entry_step sp pend e st st'"
proof (cases "get_tree_index (sp_index sp) (te_oid e)")
  case None
  then show ?thesis using inv e(2) by (auto simp: visit_subtree_def entry_step_def grows_refl entry_handled_def is_blob_entry_def)
next
  case (Some t')
  let ?env = "sp_env sp" and ?ri = "sp_index sp"
  note d = walk_invD [OF inv]
  have ex: "exclude_globset ?env = None" "names_fit ?env ?ri" using w by (auto simp: walkable_def)
  have skip: "entry_step sp pend e st st" if "t' \<in> seen_trees (ws_seen st) \<or> blobs_under ?env ?ri t' \<subseteq> sp_seen sp"
    using that inv e(2) Some by (auto simp: entry_step_def grows_refl entry_handled_def is_blob_entry_def)
  obtain c where c: "(if is_candidate_tree ?ri t' then tree_is_covered ?ri t' (ws_seen st) else Some True) = Some c"
    "c \<longrightarrow> blobs_under ?env ?ri t' \<subseteq> sp_seen sp"
    using w tree_index_bound [OF Some] d(3) unfolding walkable_def prunes_soundly_def
    by (cases "is_candidate_tree ?ri t'") (metis empty_subsetI)+
  show ?thesis
  proof (cases "c \<or> t' \<in> seen_trees (ws_seen st)")
    case True
    then have "visit_subtree ?env ?ri path e st = Some st"
      using Some c(1) ex(1) by (cases c) (auto simp: visit_subtree_def insert_tree_def seen_insert_def)
    then show ?thesis using skip True c(2) by blast
  next
    case False
    let ?seen = "st\<lparr>ws_seen := snd (insert_tree t' (ws_seen st))\<rparr>"
    have name: "te_filename e \<in> names_of ?env ?ri" using names_ofI e(1) pos(1) by (auto simp: walk_at_def)
    obtain new_path symbols where i: "intern_child path e ?seen = Some (new_path, ?seen\<lparr>ws_symbols := symbols\<rparr>)"
      "table_ok symbols" "dom (bt_mapping symbols) \<subseteq> names_of ?env ?ri"
      "map (resolve symbols) new_path = map Some (names @ [te_filename e])"
      "\<forall>x y. resolve (ws_symbols st) x = Some y \<longrightarrow> resolve symbols x = Some y"
      using intern_child_ok [of ?seen ?env ?ri e path names] d(1,2) ex(2) name pos(2) by auto
    have down: "path_to ?env ?ri (sp_root sp) (names @ [te_filename e]) t'"
      using pos(1) e Some by (auto simp: walk_at_def intro: path_to.down)
    let ?st = "push_tree new_path (te_oid e) (?seen\<lparr>ws_symbols := symbols\<rparr>)"
    have "walk_inv sp pend (st\<lparr>ws_symbols := symbols\<rparr>)" by (rule walk_inv_symbols [OF inv i(2,3,5)])
    then have "walk_inv sp pend (push_tree new_path (te_oid e)
        (st\<lparr>ws_symbols := symbols, ws_seen := snd (insert_tree t' (ws_seen (st\<lparr>ws_symbols := symbols\<rparr>)))\<rparr>))"
      by (rule walk_inv_push [OF _ Some _ down]) (use i(4) in simp)
    moreover have "st\<lparr>ws_symbols := symbols, ws_seen := snd (insert_tree t' (ws_seen (st\<lparr>ws_symbols := symbols\<rparr>)))\<rparr> =
        ?seen\<lparr>ws_symbols := symbols\<rparr>" by simp
    ultimately have "walk_inv sp pend ?st" by (simp only:)
    moreover have "insert_tree t' (ws_seen st) = (True, snd (insert_tree t' (ws_seen st)))"
      using False by (simp add: insert_tree_def seen_insert_def)
    then have "visit_subtree ?env ?ri path e st = Some ?st"
      using Some c(1) False ex(1) i(1) by (cases "insert_tree t' (ws_seen st)") (auto simp: visit_subtree_def)
    ultimately show ?thesis using i(5) e(2) Some
      by (auto simp: entry_step_def grows_def push_tree_def entry_handled_def is_blob_entry_def)
  qed
qed

lemma visit_blob_ok:
  assumes w: "walkable sp" and inv: "walk_inv sp pend st" and pos: "walk_at sp names t" "map (resolve (ws_symbols st)) path = map Some names"
    and e: "e \<in> set (tree_entries (sp_env sp) (sp_index sp) t)" "is_blob_entry e"
  shows "\<exists>st'. visit_blob (sp_env sp) (sp_index sp) path e st = Some st' \<and> entry_step sp pend e st st'"
proof -
  let ?env = "sp_env sp" and ?ri = "sp_index sp"
  note d = walk_invD [OF inv]
  have kind: "te_kind e \<noteq> EntryTree" using e(2) by (auto simp: is_blob_entry_def)
  show ?thesis
  proof (cases "\<exists>b. get_blob_index ?ri (te_oid e) = Some b \<and> b \<notin> sp_seen sp")
    case False
    then have "entry_step sp pend e st st" using inv kind by (auto simp: entry_step_def grows_refl entry_handled_def)
    moreover have "visit_blob ?env ?ri path e st = Some st"
      using False d(3) by (auto simp: visit_blob_def contains_blob_def split: option.splits)
    ultimately show ?thesis by blast
  next
    case True
    then obtain b where b: "get_blob_index ?ri (te_oid e) = Some b" "b \<notin> sp_seen sp" by blast
    have name: "te_filename e \<in> names_of ?env ?ri" using names_ofI e(1) pos(1) by (auto simp: walk_at_def)
    obtain new_path symbols where i: "intern_child path e st = Some (new_path, st\<lparr>ws_symbols := symbols\<rparr>)"
      "table_ok symbols" "dom (bt_mapping symbols) \<subseteq> names_of ?env ?ri"
      "map (resolve symbols) new_path = map Some (names @ [te_filename e])"
      "\<forall>x y. resolve (ws_symbols st) x = Some y \<longrightarrow> resolve symbols x = Some y"
      using intern_child_ok [OF d(1,2) _ name pos(2)] w by (auto simp: walkable_def)
    let ?st1 = "st\<lparr>ws_symbols := symbols\<rparr>" and ?path = "join_path (names @ [te_filename e])"
    let ?st = "?st1\<lparr>ws_encountered := ws_encountered st @ [b], ws_introduced := ws_introduced st @ [(te_oid e, ?path)]\<rparr>"
    have "\<not> path_is_excluded ?env ?path" using w by (simp add: walkable_def path_is_excluded_def)
    then have v: "visit_blob ?env ?ri path e st = Some ?st"
      using b d(3) i(1) render_names [OF i(4)] by (simp add: visit_blob_def contains_blob_def)
    have at: "blob_at ?env ?ri (sp_root sp) (te_oid e) ?path" using pos(1) e by (auto simp: blob_at_def walk_at_def)
    have under: "b \<in> blobs_under ?env ?ri (sp_root sp)"
      using pos(1) e b(1) path_to_reaches unfolding blobs_under_def tree_blob_def walk_at_def by blast
    have inv1: "walk_inv sp pend ?st1" by (rule walk_inv_symbols [OF inv i(2,3,5)])
    note d1 = walk_invD [OF inv1]
    have g: "grows ?st1 ?st" by (auto simp: grows_def)
    have "walk_inv sp pend ?st"
    proof (rule walk_invI)
      fix t assume "t \<in> seen_trees (ws_seen ?st)"
      then show "blobs_under ?env ?ri t \<subseteq> sp_seen sp \<or> t \<in> pend \<or> t \<in> queued ?ri ?st \<or>
          list_all (entry_handled ?ri ?env (sp_seen sp) ?st) (tree_entries ?env ?ri t)"
        using d1(8) [of t] handled_grows [OF g] by (auto simp: queued_def)
    qed (use d1(1-7) at under b in auto)
    then show ?thesis using v i(5) b kind by (auto simp: entry_step_def grows_def entry_handled_def)
  qed
qed

lemma visit_entry_ok:
  assumes "walkable sp" "walk_inv sp pend st" "walk_at sp names t" "map (resolve (ws_symbols st)) path = map Some names"
    and "e \<in> set (tree_entries (sp_env sp) (sp_index sp) t)"
  shows "\<exists>st'. visit_entry (sp_env sp) (sp_index sp) path (Some e) st = Some st' \<and> entry_step sp pend e st st'"
proof -
  have other: "entry_step sp pend e st st" if "te_kind e = EntryLink \<or> te_kind e = EntryCommit"
    using that assms(2) by (auto simp: entry_step_def grows_refl entry_handled_def is_blob_entry_def)
  show ?thesis
    using visit_subtree_ok [OF assms] visit_blob_ok [OF assms] other
    by (cases "te_kind e") (auto simp: visit_entry_def is_blob_entry_def)
qed

text \<open>The entries of one tree.\<close>

lemma visit_entries_ok:
  assumes w: "walkable sp" and inv: "walk_inv sp pend st" and pos: "walk_at sp names t" "map (resolve (ws_symbols st)) path = map Some names"
    and es: "tree_entries (sp_env sp) (sp_index sp) t = flatten tree_iter"
  shows "\<exists>st'. yields (fold_git (\<lambda>child st. timed (or_panic (visit_entry (sp_env sp) (sp_index sp) path child st))) tree_iter st) (Inr st') \<and>
    walk_inv sp pend st' \<and> grows st st' \<and>
    list_all (entry_handled (sp_index sp) (sp_env sp) (sp_seen sp) st') (flatten tree_iter)"
proof -
  let ?env = "sp_env sp" and ?ri = "sp_index sp"
  let ?Q = "\<lambda>pre st'. walk_inv sp pend st' \<and> grows st st' \<and> map (resolve (ws_symbols st')) path = map Some names \<and>
      list_all (entry_handled ?ri ?env (sp_seen sp) st') (flatten pre)"
  have "\<exists>st'. yields (fold_git (\<lambda>child st. timed (or_panic (visit_entry ?env ?ri path child st))) tree_iter st) (Inr st') \<and> ?Q tree_iter st'"
  proof (rule fold_git_inv [where Q = ?Q])
    show "?Q [] st" using inv pos by (simp add: grows_refl flatten_def map_filter_simps)
  next
    fix child s pre assume child: "child \<in> set tree_iter" and q: "?Q pre s"
    show "\<exists>s'. yields (timed (or_panic (visit_entry ?env ?ri path child s))) (Inr s') \<and> ?Q (pre @ [child]) s'"
    proof (cases child)
      case None
      then have "visit_entry ?env ?ri path child s = Some s" by (simp add: visit_entry_def)
      then show ?thesis using q None
        by (auto simp: flatten_def List.map_filter_def intro!: exI [of _ s] yields_timed yields_or_panic)
    next
      case (Some e)
      then have "e \<in> set (tree_entries ?env ?ri t)" using child unfolding es by (force simp: flatten_def List.map_filter_def)
      then obtain s' where s': "visit_entry ?env ?ri path (Some e) s = Some s'" "entry_step sp pend e s s'"
        using visit_entry_ok [OF w _ pos(1)] q by blast
      have "grows st s'" using q s'(2) by (auto simp: entry_step_def grows_def)
      moreover have "list_all (entry_handled ?ri ?env (sp_seen sp) s') (flatten pre)"
        using q s'(2) handled_grows by (auto simp: entry_step_def)
      moreover have "flatten (pre @ [child]) = flatten pre @ [e]" by (simp add: flatten_def List.map_filter_def Some)
      moreover have "map (resolve (ws_symbols s')) path = map Some names"
        using resolved_grows [of "ws_symbols s" path names "ws_symbols s'"] q s'(2) by (simp add: entry_step_def)
      ultimately show ?thesis using s' Some by (auto simp: entry_step_def intro!: exI [of _ s'] yields_timed yields_or_panic)
    qed
  qed
  then show ?thesis by blast
qed

text \<open>Taking a tree from the stack, and finishing it.\<close>

lemma walk_inv_pop:
  assumes inv: "walk_inv sp {} st" and wl: "ws_worklist st = (path, oid) # rest" and idx: "get_tree_index (sp_index sp) oid = Some t"
  shows "walk_inv sp {t} (st\<lparr>ws_worklist := rest\<rparr>)"
proof (rule walk_invI)
  note d = walk_invD [OF inv]
  fix t' assume "t' \<in> seen_trees (ws_seen (st\<lparr>ws_worklist := rest\<rparr>))"
  then have "blobs_under (sp_env sp) (sp_index sp) t' \<subseteq> sp_seen sp \<or> t' \<in> queued (sp_index sp) st \<or>
      list_all (entry_handled (sp_index sp) (sp_env sp) (sp_seen sp) st) (tree_entries (sp_env sp) (sp_index sp) t')"
    using d(8) by auto
  moreover have "grows st (st\<lparr>ws_worklist := rest\<rparr>)" by (simp add: grows_def)
  moreover have "t' \<in> queued (sp_index sp) st \<Longrightarrow> t' = t \<or> t' \<in> queued (sp_index sp) (st\<lparr>ws_worklist := rest\<rparr>)"
    using wl idx by (auto simp: queued_def)
  ultimately show "blobs_under (sp_env sp) (sp_index sp) t' \<subseteq> sp_seen sp \<or> t' \<in> {t} \<or>
      t' \<in> queued (sp_index sp) (st\<lparr>ws_worklist := rest\<rparr>) \<or>
      list_all (entry_handled (sp_index sp) (sp_env sp) (sp_seen sp) (st\<lparr>ws_worklist := rest\<rparr>)) (tree_entries (sp_env sp) (sp_index sp) t')"
    using handled_grows by blast
next
  note d = walk_invD [OF inv]
  fix p o' assume "(p, o') \<in> set (ws_worklist (st\<lparr>ws_worklist := rest\<rparr>))"
  then show "\<exists>t names. get_tree_index (sp_index sp) o' = Some t \<and>
      map (resolve (ws_symbols (st\<lparr>ws_worklist := rest\<rparr>))) p = map Some names \<and> path_to (sp_env sp) (sp_index sp) (sp_root sp) names t"
    using d(4) [of p o'] wl by auto
qed (use walk_invD [OF inv] in auto)

lemma walk_inv_finish:
  assumes "walk_inv sp {t} st" "list_all (entry_handled (sp_index sp) (sp_env sp) (sp_seen sp) st) (tree_entries (sp_env sp) (sp_index sp) t)"
  shows "walk_inv sp {} st"
  using assms unfolding walk_inv_def Let_def by auto

lemma yields_some_run: "yields m v \<Longrightarrow> \<exists>c t t'. m c t = Inr (v, t')"
  using yields_run [of m v] by (auto simp: run_unlimited_def split: sum.splits)

lemma visit_trees_ok:
  assumes w: "walkable sp" and bm: "bimap_ok (ri_trees (sp_index sp))" and "walk_inv sp {} st"
  shows "\<exists>st'. yields (visit_trees (sp_env sp) (sp_index sp) st) (Inr st') \<and> walk_inv sp {} st' \<and> ws_worklist st' = [] \<and> grows st st'"
  using assms(3)
proof (induction "walk_work (sp_index sp) st" arbitrary: st rule: less_induct)
  case less
  let ?env = "sp_env sp" and ?ri = "sp_index sp"
  show ?case
  proof (cases "ws_worklist st")
    case Nil
    then have "yields (visit_trees ?env ?ri st) (Inr st)" by (simp add: visit_trees.simps yields_git_ok)
    then show ?thesis using less(2) Nil grows_refl by blast
  next
    case (Cons x rest)
    obtain path oid where x: "x = (path, oid)" by (cases x)
    obtain t names where t: "get_tree_index ?ri oid = Some t" "map (resolve (ws_symbols st)) path = map Some names"
      "path_to ?env ?ri (sp_root sp) names t" using walk_invD(4) [OF less(2), of path oid] by (auto simp: Cons x)
    let ?st = "st\<lparr>ws_worklist := rest\<rparr>"
    have pop: "walk_inv sp {t} ?st" using walk_inv_pop [OF less(2) Cons [unfolded x] t(1)] .
    have at: "walk_at sp names t" using t tree_index_bound by (auto simp: walk_at_def)
    have oid: "get_tree_oid ?ri t = Some oid" using t(1) get_idx_iff [OF bm] by (simp add: get_tree_index_def get_tree_oid_def)
    show ?thesis
    proof (cases "find_tree_iter ?env oid")
      case None
      then have "tree_entries ?env ?ri t = []" by (simp add: tree_entries_def oid)
      then have inv: "walk_inv sp {} ?st" using walk_inv_finish [OF pop] by simp
      have smaller: "walk_work ?ri ?st < walk_work ?ri st" by (simp add: walk_work_def Cons)
      obtain st' where st': "yields (visit_trees ?env ?ri ?st) (Inr st')" "walk_inv sp {} st'" "ws_worklist st' = []" "grows ?st st'"
        using less(1) [OF smaller inv] by blast
      have "yields (visit_trees ?env ?ri st) (Inr st')"
        using st'(1) by (simp add: visit_trees.simps [of ?env ?ri st] Cons x None yields_timed)
      then show ?thesis using st' by (auto simp: grows_def)
    next
      case (Some tree_iter)
      then have es: "tree_entries ?env ?ri t = flatten tree_iter" by (simp add: tree_entries_def oid)
      let ?fold = "fold_git (\<lambda>child st. timed (or_panic (visit_entry ?env ?ri path child st))) tree_iter ?st"
      obtain s where s: "yields ?fold (Inr s)" "walk_inv sp {t} s" "grows ?st s"
        "list_all (entry_handled ?ri ?env (sp_seen sp) s) (flatten tree_iter)"
        using visit_entries_ok [OF w pop at _ es] t(2) by auto
      obtain c u u' where run: "?fold c u = Inr (Inr s, u')" using yields_some_run [OF s(1)] by blast
      have "walk_work ?ri s \<le> walk_work ?ri ?st"
        by (rule fold_git_work [where f = "visit_entry ?env ?ri path"]) (use run visit_entry_work in blast)+
      then have smaller: "walk_work ?ri s < walk_work ?ri st" by (simp add: walk_work_def Cons)
      obtain st' where st': "yields (visit_trees ?env ?ri s) (Inr st')" "walk_inv sp {} st'" "ws_worklist st' = []" "grows s st'"
        using less(1) [OF smaller walk_inv_finish [OF s(2) s(4) [folded es]]] by blast
      have "yields (and_then ?fold (visit_trees ?env ?ri)) (Inr st')" by (rule yields_and_then [OF s(1)]) (rule st'(1))
      then have "yields (visit_trees ?env ?ri st) (Inr st')"
        by (simp add: visit_trees.simps [of ?env ?ri st] Cons x Some yields_timed)
      moreover have "grows st st'" using st'(4) s(3) by (auto simp: grows_def)
      ultimately show ?thesis using st'(2,3) by blast
    qed
  qed
qed

text \<open>When the stack is empty, everything below a seen tree is seen or reported.\<close>

lemma walk_inv_closed:
  assumes inv: "walk_inv sp {} st" and wl: "ws_worklist st = []" and "(tree_child (sp_env sp) (sp_index sp))\<^sup>*\<^sup>* t t'"
    and "t \<in> seen_trees (ws_seen st)" "tree_blob (sp_env sp) (sp_index sp) t' b"
  shows "b \<in> sp_seen sp \<union> set (ws_encountered st)"
  using assms(3-5)
proof (induction rule: converse_rtranclp_induct)
  case base
  have "blobs_under (sp_env sp) (sp_index sp) t' \<subseteq> sp_seen sp \<or>
      list_all (entry_handled (sp_index sp) (sp_env sp) (sp_seen sp) st) (tree_entries (sp_env sp) (sp_index sp) t')"
    using walk_invD(8) [OF inv base(1)] wl by (simp add: queued_def)
  then show ?case using base(2) by (fastforce simp: blobs_under_def tree_blob_def list_all_iff entry_handled_def)
next
  case (step t t1)
  have "b \<in> blobs_under (sp_env sp) (sp_index sp) t1" using step(2,5) by (auto simp: blobs_under_def)
  moreover have "b \<in> blobs_under (sp_env sp) (sp_index sp) t" using calculation blobs_under_child [OF step(1)] by blast
  moreover have "blobs_under (sp_env sp) (sp_index sp) t \<subseteq> sp_seen sp \<or>
      list_all (entry_handled (sp_index sp) (sp_env sp) (sp_seen sp) st) (tree_entries (sp_env sp) (sp_index sp) t)"
    using walk_invD(8) [OF inv step(4)] wl by (simp add: queued_def)
  ultimately show ?case using step(1,3,5) by (auto simp: tree_child_def list_all_iff entry_handled_def)
qed

lemma seen_blobs_fold: "seen_blobs (fold (\<lambda>idx seen. snd (insert_blob idx seen)) is seen) = seen_blobs seen \<union> set is"
  "seen_trees (fold (\<lambda>idx seen. snd (insert_blob idx seen)) is seen) = seen_trees seen"
  by (induction "is" arbitrary: seen) auto

text \<open>The ancestry of a commit: what is seen is complete below every seen tree.\<close>

definition seen_closed :: "git_env \<Rightarrow> repository_index \<Rightarrow> seen_object_set \<Rightarrow> bool" where
  "seen_closed env ri seen \<longleftrightarrow> (\<forall>t \<in> seen_trees seen. blobs_under env ri t \<subseteq> seen_blobs seen)"

definition table_fits :: "git_env \<Rightarrow> repository_index \<Rightarrow> bstring_table \<Rightarrow> bool" where
  "table_fits env ri symbols \<longleftrightarrow> table_ok symbols \<and> dom (bt_mapping symbols) \<subseteq> names_of env ri"

lemma visit_tree_reports:
  assumes env: "exclude_globset env = None" "prunes_soundly env ri" "names_fit env ri" "bimap_ok (ri_trees ri)"
    and seen: "seen_closed env ri seen" "root \<notin> seen_trees seen" and root: "get_tree_oid ri root = Some oid"
    and st: "st = \<lparr>ws_symbols = symbols, ws_seen = snd (insert_tree root seen), ws_introduced = [], ws_worklist = [([], oid)], ws_encountered = es\<rparr>"
    and symbols: "table_fits env ri symbols"
  shows "\<exists>st'. yields (visit_tree env ri st) (Inr st') \<and> table_fits env ri (ws_symbols st') \<and>
    seen_closed env ri (ws_seen st') \<and> seen_blobs (ws_seen st') = seen_blobs seen \<union> blobs_under env ri root \<and>
    (\<forall>b. (\<exists>oid path. (oid, path) \<in> set (ws_introduced st') \<and> get_blob_index ri oid = Some b) \<longleftrightarrow>
       b \<in> blobs_under env ri root - seen_blobs seen) \<and>
    (\<forall>(oid, path) \<in> set (ws_introduced st'). blob_at env ri root oid path \<and> get_blob_index ri oid \<noteq> None)"
proof -
  define sp where "sp = \<lparr>sp_env = env, sp_index = ri, sp_root = root, sp_seen = seen_blobs seen\<rparr>"
  let ?st = "st\<lparr>ws_encountered := []\<rparr>"
  have w: "walkable sp" using env by (simp add: walkable_def sp_def)
  have idx: "get_tree_index ri oid = Some root" using root get_idx_iff [OF env(4)] by (simp add: get_tree_index_def get_tree_oid_def)
  have inv: "walk_inv sp {} ?st"
    by (rule walk_invI) (use seen(1) symbols idx in \<open>auto simp: sp_def st table_fits_def seen_closed_def queued_def intro: path_to.here\<close>)
  obtain s where s: "yields (visit_trees env ri ?st) (Inr s)" "walk_inv sp {} s" "ws_worklist s = []" "grows ?st s"
    using visit_trees_ok [OF w _ inv] env(4) by (auto simp: sp_def)
  note d = walk_invD [OF s(2)]
  have closed: "blobs_under env ri t \<subseteq> seen_blobs seen \<union> set (ws_encountered s)" if "t \<in> seen_trees (ws_seen s)" for t
    using walk_inv_closed [OF s(2,3) _ that] unfolding blobs_under_def by (auto simp: sp_def)
  have "root \<in> seen_trees (ws_seen s)" using s(4) by (auto simp: grows_def st)
  then have enc: "set (ws_encountered s) = blobs_under env ri root - seen_blobs seen"
    using closed d(6) by (fastforce simp: sp_def)
  let ?seen = "fold (\<lambda>idx seen. snd (insert_blob idx seen)) (ws_encountered s) (ws_seen s)"
  let ?s = "s\<lparr>ws_seen := ?seen, ws_encountered := []\<rparr>"
  have run: "yields (visit_tree env ri st) (Inr ?s)"
    unfolding visit_tree_def by (rule yields_and_then [OF s(1) yields_git_ok])
  have blobs: "seen_blobs ?seen = seen_blobs seen \<union> blobs_under env ri root"
    using d(3) by (auto simp: seen_blobs_fold enc sp_def)
  have intro: "set (map (get_blob_index ri \<circ> fst) (ws_introduced s)) = Some ` (blobs_under env ri root - seen_blobs seen)"
    using d(5) by (simp add: sp_def enc)
  have "(\<exists>oid path. (oid, path) \<in> set (ws_introduced s) \<and> get_blob_index ri oid = Some b) \<longleftrightarrow>
      b \<in> blobs_under env ri root - seen_blobs seen" for b
  proof -
    have "(\<exists>oid path. (oid, path) \<in> set (ws_introduced s) \<and> get_blob_index ri oid = Some b) \<longleftrightarrow>
        Some b \<in> set (map (get_blob_index ri \<circ> fst) (ws_introduced s))" by (force simp: image_iff)
    then show ?thesis unfolding intro by auto
  qed
  moreover have "\<forall>(oid, path) \<in> set (ws_introduced s). blob_at env ri root oid path \<and> get_blob_index ri oid \<noteq> None"
    using d(7) intro by (force simp: sp_def)
  moreover have "seen_closed env ri ?seen"
    using closed blobs enc by (auto simp: seen_closed_def seen_blobs_fold)
  moreover have "table_fits env ri (ws_symbols s)" using d(1,2) by (simp add: table_fits_def sp_def)
  ultimately show ?thesis using run blobs by (intro exI [of _ ?s]) simp
qed

section \<open>Exclusions and shared trees\<close>

text \<open>A root with two names for one subtree; the pattern excludes the file under the first name only.\<close>

definition shared_env :: git_env where
  "shared_env =
     \<lparr>find_tree_iter = (\<lambda>oid.
        if oid = ''r'' then
          Some [Some \<lparr>te_kind = EntryTree, te_filename = ''a'', te_oid = ''t''\<rparr>,
                Some \<lparr>te_kind = EntryTree, te_filename = ''b'', te_oid = ''t''\<rparr>]
        else Some [Some \<lparr>te_kind = EntryBlob, te_filename = ''x'', te_oid = ''f''\<rparr>]),
      to_path = Some, exclude_globset = Some (\<lambda>p. p = ''a/x'')\<rparr>"

definition shared_index :: repository_index where
  "shared_index = index_empty\<lparr>ri_trees := \<lparr>oid_to_idx = [0, 1], idx_to_oid = [''r'', ''t'']\<rparr>,
     ri_blobs := \<lparr>oid_to_idx = [0], idx_to_oid = [''f'']\<rparr>\<rparr>"

definition shared_start :: walk_state where
  "shared_start =
     \<lparr>ws_symbols = table_new, ws_seen = snd (insert_tree 0 seen_new), ws_introduced = [],
      ws_worklist = [([], ''r'')], ws_encountered = []\<rparr>"

lemmas shared_defs = shared_env_def shared_index_def shared_start_def

lemmas walk_defs = visit_tree_def visit_trees.simps visit_entry_def visit_subtree_def visit_blob_def push_tree_def
  get_tree_index_def get_blob_index_def get_idx_def slice_get_def is_candidate_tree_def tree_is_covered_def index_empty_def
  contains_tree_def contains_blob_def insert_tree_def seen_insert_def seen_new_def
  intern_child_def get_or_intern_def table_new_def from_range_def u32_max_def render_symbol_path_def resolve_def
  subslice_def tree_path_is_excluded_def path_is_excluded_def slash_def
  run_unlimited_def and_then_def bind_def ret_def git_ok_def or_panic_def unlimited_def check_deadline_def

text \<open>
  With path exclusions the walk can miss an included path: when one tree appears under two names and a pattern
  excludes a file in it under the name that is visited first, the tree counts as seen, so the file is not
  reported under the second name either, although no pattern excludes it there.
\<close>

lemma exclusion_hides_shared_file:
  "(\<exists>st. run_unlimited (visit_tree shared_env shared_index shared_start) = Some (Inr st) \<and> ws_introduced st = []) \<and>
   blob_at shared_env shared_index 0 ''f'' ''b/x'' \<and> \<not> path_is_excluded shared_env ''b/x'' \<and> get_blob_index shared_index ''f'' = Some 0"
proof (intro conjI)
  show "\<exists>st. run_unlimited (visit_tree shared_env shared_index shared_start) = Some (Inr st) \<and> ws_introduced st = []"
    by (simp add: shared_defs walk_defs)
  have "path_to shared_env shared_index 0 ([] @ [''b'']) 1"
    using path_to.down [OF path_to.here, of "\<lparr>te_kind = EntryTree, te_filename = ''b'', te_oid = ''t''\<rparr>" shared_env shared_index 0 1]
    by (simp add: shared_defs tree_entries_def get_tree_oid_def get_oid_def get_tree_index_def get_idx_def slice_get_def flatten_def List.map_filter_def)
  then show "blob_at shared_env shared_index 0 ''f'' ''b/x''" unfolding blob_at_def
    by (intro exI [of _ "[''b'']"] exI [of _ 1] exI [of _ "\<lparr>te_kind = EntryBlob, te_filename = ''x'', te_oid = ''f''\<rparr>"])
      (simp add: shared_defs tree_entries_def get_tree_oid_def get_oid_def slice_get_def flatten_def List.map_filter_def is_blob_entry_def join_path_def slash_def)
  show "\<not> path_is_excluded shared_env ''b/x''" by (simp add: shared_env_def path_is_excluded_def)
  show "get_blob_index shared_index ''f'' = Some 0" by (simp add: shared_index_def get_blob_index_def get_idx_def slice_get_def)
qed

end
