(* ===== verification/Commit_History.thy ===== *)
theory Commit_History
  imports Tree_Walk "HOL-Library.Multiset"
begin

text \<open>
  The traversal of the commit graph: \<open>GitMetadataGraph\<close> of \<open>src/git_metadata_graph.rs\<close>.  Commits are
  visited after their parents; each passes the objects its history has seen on to its children, and lists the
  blobs that its tree adds.  The theory shows that the traversal ends, fails exactly on cyclic graphs, and
  attributes every blob to exactly the commits that have it while none of their ancestors does.

  The order in which the graph library lists the outgoing edges of a node is a parameter.
\<close>

section \<open>\<open>GitMetadataGraph\<close>\<close>

record commit_metadata =
  cm_oid :: oid
  cm_tree_idx :: "nat option"

text \<open>Nodes and edges are numbered in the order they were added.\<close>

record git_metadata_graph =
  commit_oid_to_node_idx :: "oid \<rightharpoonup> nat"
  node_weights :: "commit_metadata list"
  graph_edges :: "(nat \<times> nat) list"

definition graph_empty :: git_metadata_graph where
  "graph_empty = \<lparr>commit_oid_to_node_idx = Map.empty, node_weights = [], graph_edges = []\<rparr>"

definition get_commit_idx :: "oid \<Rightarrow> nat option \<Rightarrow> git_metadata_graph \<Rightarrow> git_metadata_graph \<times> nat" where
  "get_commit_idx oid tree_idx g =
     (case commit_oid_to_node_idx g oid of
        Some idx \<Rightarrow>
          ((case tree_idx of
              Some t \<Rightarrow> g\<lparr>node_weights := (node_weights g)[idx := (node_weights g ! idx)\<lparr>cm_tree_idx := Some t\<rparr>]\<rparr>
            | None \<Rightarrow> g), idx)
      | None \<Rightarrow>
          let idx = length (node_weights g) in
          (g\<lparr>commit_oid_to_node_idx := (commit_oid_to_node_idx g)(oid \<mapsto> idx),
             node_weights := node_weights g @ [\<lparr>cm_oid = oid, cm_tree_idx = tree_idx\<rparr>]\<rparr>, idx))"

definition add_commit_edge :: "nat \<Rightarrow> nat \<Rightarrow> git_metadata_graph \<Rightarrow> git_metadata_graph" where
  "add_commit_edge parent_idx child_idx g = g\<lparr>graph_edges := graph_edges g @ [(parent_idx, child_idx)]\<rparr>"

definition outgoing :: "git_metadata_graph \<Rightarrow> nat \<Rightarrow> nat list" where
  "outgoing g c = filter (\<lambda>e. fst (graph_edges g ! e) = c) [0..<length (graph_edges g)]"

definition incoming :: "git_metadata_graph \<Rightarrow> nat \<Rightarrow> nat list" where
  "incoming g c = filter (\<lambda>e. snd (graph_edges g ! e) = c) [0..<length (graph_edges g)]"

definition out_degree :: "git_metadata_graph \<Rightarrow> nat \<Rightarrow> nat" where
  "out_degree g c = length (outgoing g c) mod 2 ^ 32"

section \<open>\<open>get_repo_metadata_with_deadline\<close>\<close>

record history_state =
  hs_seen_sets :: "seen_object_set option list"
  hs_introduced :: "(oid \<times> bytes) list list"
  hs_visited_edges :: "nat set"
  hs_visited_commits :: "nat set"
  hs_worklist :: "(nat \<times> nat) list"
  hs_symbols :: bstring_table

text \<open>\<open>BinaryHeap::pop\<close> of pairs \<open>(Reverse(out_deg), commit)\<close>: least out-degree first, then the greatest commit.\<close>

definition pops_before :: "nat \<times> nat \<Rightarrow> nat \<times> nat \<Rightarrow> bool" where
  "pops_before a b \<longleftrightarrow> fst a < fst b \<or> fst a = fst b \<and> snd b < snd a"

definition heap_pop :: "(nat \<times> nat) list \<Rightarrow> ((nat \<times> nat) \<times> (nat \<times> nat) list) option" where
  "heap_pop heap =
     (case heap of
        [] \<Rightarrow> None
      | x # xs \<Rightarrow> let best = fold (\<lambda>b a. if pops_before b a then b else a) xs x in Some (best, remove1 best heap))"

definition initial_history :: "git_metadata_graph \<Rightarrow> history_state" where
  "initial_history g =
     (let n = length (node_weights g); roots = filter (\<lambda>idx. length (incoming g idx) = 0) [0..<n] in
      \<lparr>hs_seen_sets = fold (\<lambda>r ss. ss[r := Some seen_new]) roots (replicate n None),
       hs_introduced = replicate n [], hs_visited_edges = {}, hs_visited_commits = {},
       hs_worklist = fold (\<lambda>r wl. wl @ [(out_degree g r, r)]) roots [], hs_symbols = table_new\<rparr>)"

text \<open>The tree of a commit, with what is seen before it and what it introduces.\<close>

definition visit_commit_tree ::
  "git_env \<Rightarrow> repository_index \<Rightarrow> nat option \<Rightarrow> seen_object_set \<Rightarrow> (oid \<times> bytes) list \<Rightarrow> bstring_table \<Rightarrow>
   (seen_object_set \<times> (oid \<times> bytes) list \<times> bstring_table) gitm" where
  "visit_commit_tree env ri tree_idx seen introduced symbols =
     (let unchanged = git_ok (seen, introduced, symbols) in
      case tree_idx of
        None \<Rightarrow> unchanged
      | Some t \<Rightarrow>
          if \<not> is_candidate_tree ri t then unchanged
          else
            (case tree_is_covered ri t seen of
               None \<Rightarrow> ret (Inl Panicked)
             | Some True \<Rightarrow> unchanged
             | Some False \<Rightarrow>
                 (case insert_tree t seen of (new, seen) \<Rightarrow>
                    if \<not> new then unchanged
                    else
                      (case get_tree_oid ri t of
                         None \<Rightarrow> ret (Inl Panicked)
                       | Some oid \<Rightarrow>
                           and_then (visit_tree env ri
                             \<lparr>ws_symbols = symbols, ws_seen = seen, ws_introduced = introduced,
                              ws_worklist = [([], oid)], ws_encountered = []\<rparr>)
                             (\<lambda>st. git_ok (ws_seen st, ws_introduced st, ws_symbols st))))))"

text \<open>The loop over the outgoing edges; the last child takes the state over instead of a copy.\<close>

fun edge_loop :: "git_metadata_graph \<Rightarrow> nat list \<Rightarrow> seen_object_set option \<Rightarrow> history_state \<Rightarrow> history_state option" where
  "edge_loop g [] seen st = Some st"
| "edge_loop g (e # edges) seen st =
     (if \<not> e < length (graph_edges g) then None
      else if e \<in> hs_visited_edges st then edge_loop g edges seen st
      else
        let st = st\<lparr>hs_visited_edges := insert e (hs_visited_edges st)\<rparr>;
            child = snd (graph_edges g ! e)
        in case slice_get (hs_seen_sets st) child of
             None \<Rightarrow> None
           | Some child_seen \<Rightarrow>
               let push = (\<lambda>st. if list_ex (\<lambda>e. e \<notin> hs_visited_edges st) (incoming g child) then st
                                else st\<lparr>hs_worklist := hs_worklist st @ [(out_degree g child, child)]\<rparr>)
               in (case child_seen of
                     Some cs \<Rightarrow>
                       (case seen of
                          None \<Rightarrow> None
                        | Some s \<Rightarrow>
                            edge_loop g edges seen (push (st\<lparr>hs_seen_sets := (hs_seen_sets st)[child := Some (union_update cs s)]\<rparr>)))
                   | None \<Rightarrow>
                       edge_loop g edges (if edges = [] then None else seen)
                         (push (st\<lparr>hs_seen_sets := (hs_seen_sets st)[child := seen]\<rparr>))))"

definition visit_commit ::
  "(nat list \<Rightarrow> nat list) \<Rightarrow> git_env \<Rightarrow> repository_index \<Rightarrow> git_metadata_graph \<Rightarrow> nat \<Rightarrow> history_state \<Rightarrow> history_state gitm" where
  "visit_commit edge_order env ri g c st =
     (case (slice_get (hs_seen_sets st) c, slice_get (hs_introduced st) c, slice_get (node_weights g) c) of
        (Some (Some seen), Some introduced, Some md) \<Rightarrow>
          and_then (visit_commit_tree env ri (cm_tree_idx md) seen introduced (hs_symbols st))
            (\<lambda>(seen, introduced, symbols).
               or_panic (edge_loop g (edge_order (outgoing g c)) (Some seen)
                 (st\<lparr>hs_seen_sets := (hs_seen_sets st)[c := None], hs_introduced := (hs_introduced st)[c := introduced],
                     hs_symbols := symbols\<rparr>)))
      | _ \<Rightarrow> ret (Inl Panicked))"

definition history_work :: "git_metadata_graph \<Rightarrow> history_state \<Rightarrow> nat" where
  "history_work g st = card ({..<length (graph_edges g)} - hs_visited_edges st) + length (hs_worklist st)"

lemma edge_loop_work: "edge_loop g edges seen st = Some st' \<Longrightarrow> history_work g st' \<le> history_work g st"
proof (induction edges arbitrary: seen st)
  case (Cons e edges)
  show ?case
  proof (cases "e < length (graph_edges g) \<and> e \<notin> hs_visited_edges st")
    case False
    then show ?thesis using Cons by (auto split: if_splits)
  next
    case True
    let ?U = "{..<length (graph_edges g)} - hs_visited_edges st"
    have "Suc (card (?U - {e})) = card ?U" by (rule card_Suc_Diff1 [rotated]) (use True in auto)
    moreover have "{..<length (graph_edges g)} - insert e (hs_visited_edges st) = ?U - {e}" by auto
    ultimately have less: "history_work g s \<le> history_work g st"
      if "hs_visited_edges s = insert e (hs_visited_edges st)" "length (hs_worklist s) \<le> Suc (length (hs_worklist st))" for s
      using that by (simp add: history_work_def)
    obtain seen' s where "edge_loop g edges seen' s = Some st'" "hs_visited_edges s = insert e (hs_visited_edges st)"
      "length (hs_worklist s) \<le> Suc (length (hs_worklist st))"
      using Cons(2) True by (fastforce simp: Let_def split: option.splits if_splits)
    then show ?thesis using Cons(1) less by (meson le_trans)
  qed
qed simp

lemma visit_commit_work:
  assumes "visit_commit edge_order env ri g c st k t = Inr (Inr st', t')"
  shows "history_work g st' \<le> history_work g st"
proof -
  obtain seen s where s: "edge_loop g (edge_order (outgoing g c)) seen s = Some st'" "history_work g s = history_work g st"
    using assms by (fastforce simp: visit_commit_def and_then_def bind_def ret_def or_panic_def history_work_def
        split: option.splits sum.splits)
  then show ?thesis using edge_loop_work by metis
qed

lemma heap_pop_facts:
  assumes "heap_pop wl = Some (best, rest)"
  shows "best \<in> set wl" "rest = remove1 best wl" "length wl = Suc (length rest)"
proof -
  obtain x xs where wl: "wl = x # xs" using assms by (cases wl) (auto simp: heap_pop_def)
  have mem: "fold (\<lambda>b a. if pops_before b a then b else a) ys a \<in> insert a (set ys)" for ys a
    by (induction ys arbitrary: a) fastforce+
  show "best \<in> set wl" "rest = remove1 best wl" using assms mem [of xs x] by (auto simp: heap_pop_def wl Let_def)
  then show "length wl = Suc (length rest)" by (simp add: length_remove1) (metis Suc_pred length_pos_if_in_set)
qed

text \<open>The main loop; \<open>put\<close> on the map of visited commits panics outside the graph.\<close>

function commit_loop ::
  "(nat list \<Rightarrow> nat list) \<Rightarrow> git_env \<Rightarrow> repository_index \<Rightarrow> git_metadata_graph \<Rightarrow> history_state \<Rightarrow> history_state gitm" where
  "commit_loop edge_order env ri g st =
     (case heap_pop (hs_worklist st) of
        None \<Rightarrow> git_ok st
      | Some ((_, c), rest) \<Rightarrow> timed
          (if \<not> c < length (node_weights g) then ret (Inl Panicked)
           else if c \<in> hs_visited_commits st then commit_loop edge_order env ri g (st\<lparr>hs_worklist := rest\<rparr>)
           else
             and_then (visit_commit edge_order env ri g c
                         (st\<lparr>hs_worklist := rest, hs_visited_commits := insert c (hs_visited_commits st)\<rparr>))
               (commit_loop edge_order env ri g)))"
  by pat_completeness auto
termination
proof (relation "measure (\<lambda>(edge_order, env, ri, g, st). history_work g st)", goal_cases)
  case (2 edge_order env ri g st x p rest d c)
  then show ?case using heap_pop_facts(3) [of "hs_worklist st"] by (auto simp: history_work_def)
next
  case (3 edge_order env ri g st x p rest d c k t u t' k' t2 st' t3)
  have "history_work g st' \<le> history_work g (st\<lparr>hs_worklist := rest, hs_visited_commits := insert c (hs_visited_commits st)\<rparr>)"
    using 3 visit_commit_work by blast
  then show ?case using 3 heap_pop_facts(3) [of "hs_worklist st"] by (auto simp: history_work_def)
qed simp

declare commit_loop.simps [simp del]

record commit_blob_metadata =
  cb_commit_oid :: oid
  cb_introduced_blobs :: "(oid \<times> bytes) list"

definition get_repo_metadata_with_deadline ::
  "(nat list \<Rightarrow> nat list) \<Rightarrow> git_env \<Rightarrow> repository_index \<Rightarrow> git_metadata_graph \<Rightarrow> commit_blob_metadata list gitm" where
  "get_repo_metadata_with_deadline edge_order env ri g =
     and_then (commit_loop edge_order env ri g (initial_history g)) (\<lambda>st.
       if card (hs_visited_edges st) \<noteq> length (graph_edges g) then ret (Inl CycleDetected)
       else git_ok (map (\<lambda>(md, introduced). \<lparr>cb_commit_oid = cm_oid md, cb_introduced_blobs = introduced\<rparr>)
         (filter (\<lambda>(md, introduced). introduced \<noteq> []) (zip (node_weights g) (hs_introduced st)))))"

section \<open>The history of a commit\<close>

definition parent_of :: "git_metadata_graph \<Rightarrow> nat \<Rightarrow> nat \<Rightarrow> bool" where
  "parent_of g p c \<longleftrightarrow> (p, c) \<in> set (graph_edges g)"

definition commit_blobs :: "git_env \<Rightarrow> repository_index \<Rightarrow> git_metadata_graph \<Rightarrow> nat \<Rightarrow> nat set" where
  "commit_blobs env ri g c = (case cm_tree_idx (node_weights g ! c) of None \<Rightarrow> {} | Some t \<Rightarrow> blobs_under env ri t)"

definition ancestor_blobs :: "git_env \<Rightarrow> repository_index \<Rightarrow> git_metadata_graph \<Rightarrow> nat \<Rightarrow> nat set" where
  "ancestor_blobs env ri g c = (\<Union>a \<in> {a. (parent_of g)\<^sup>+\<^sup>+ a c}. commit_blobs env ri g a)"

definition history_blobs :: "git_env \<Rightarrow> repository_index \<Rightarrow> git_metadata_graph \<Rightarrow> nat \<Rightarrow> nat set" where
  "history_blobs env ri g c = ancestor_blobs env ri g c \<union> commit_blobs env ri g c"

text \<open>Edges join commits of the graph and trees are indexed.\<close>

definition graph_valid :: "repository_index \<Rightarrow> git_metadata_graph \<Rightarrow> bool" where
  "graph_valid ri g \<longleftrightarrow>
     (\<forall>(p, c) \<in> set (graph_edges g). p < length (node_weights g) \<and> c < length (node_weights g)) \<and>
     (\<forall>md \<in> set (node_weights g). \<forall>t. cm_tree_idx md = Some t \<longrightarrow> t < length (idx_to_oid (ri_trees ri)))"

lemma ancestor_blobs_parents:
  "ancestor_blobs env ri g c = (\<Union>p \<in> {p. parent_of g p c}. history_blobs env ri g p)"
proof -
  have "(parent_of g)\<^sup>+\<^sup>+ a c \<longleftrightarrow> (\<exists>p. parent_of g p c \<and> (a = p \<or> (parent_of g)\<^sup>+\<^sup>+ a p))" for a
    by (subst tranclp.simps) blast
  then show ?thesis by (auto simp: ancestor_blobs_def history_blobs_def)
qed

lemma set_incoming: "set (incoming g c) = {e. e < length (graph_edges g) \<and> snd (graph_edges g ! e) = c}"
  by (auto simp: incoming_def)

lemma set_outgoing: "set (outgoing g c) = {e. e < length (graph_edges g) \<and> fst (graph_edges g ! e) = c}" "distinct (outgoing g c)"
  by (auto simp: outgoing_def)

lemma parent_of_edge: "parent_of g p c \<longleftrightarrow> (\<exists>e \<in> set (incoming g c). fst (graph_edges g ! e) = p)"
  by (force simp: parent_of_def set_incoming in_set_conv_nth)

lemma seen_closed_union: "seen_closed env ri a \<Longrightarrow> seen_closed env ri b \<Longrightarrow> seen_closed env ri (union_update a b)"
  by (auto simp: seen_closed_def union_update_def)

section \<open>The invariant of the traversal\<close>

text \<open>The edges that leave visited commits are visited, except for those in \<open>extra\<close> that are still to come.\<close>

definition visited_from :: "git_metadata_graph \<Rightarrow> nat set \<Rightarrow> nat set" where
  "visited_from g V = {e. e < length (graph_edges g) \<and> fst (graph_edges g ! e) \<in> V}"

definition ready :: "git_metadata_graph \<Rightarrow> nat set \<Rightarrow> nat set \<Rightarrow> nat set" where
  "ready g V VE = {c. c < length (node_weights g) \<and> c \<notin> V \<and> set (incoming g c) \<subseteq> VE}"

definition handed_down :: "git_env \<Rightarrow> repository_index \<Rightarrow> git_metadata_graph \<Rightarrow> nat set \<Rightarrow> nat \<Rightarrow> seen_object_set option \<Rightarrow> bool" where
  "handed_down env ri g VE c seen \<longleftrightarrow>
     (case seen of
        None \<Rightarrow> incoming g c \<noteq> [] \<and> set (incoming g c) \<inter> VE = {}
      | Some s \<Rightarrow> seen_closed env ri s \<and>
          seen_blobs s = (\<Union>e \<in> set (incoming g c) \<inter> VE. history_blobs env ri g (fst (graph_edges g ! e))))"

definition introduces :: "git_env \<Rightarrow> repository_index \<Rightarrow> git_metadata_graph \<Rightarrow> nat \<Rightarrow> (oid \<times> bytes) list \<Rightarrow> bool" where
  "introduces env ri g c introduced \<longleftrightarrow>
     (\<forall>b. (\<exists>oid path. (oid, path) \<in> set introduced \<and> get_blob_index ri oid = Some b) \<longleftrightarrow>
        b \<in> commit_blobs env ri g c - ancestor_blobs env ri g c) \<and>
     (\<forall>(oid, path) \<in> set introduced. get_blob_index ri oid \<noteq> None \<and>
        (\<exists>t. cm_tree_idx (node_weights g ! c) = Some t \<and> blob_at env ri t oid path))"

definition history_inv :: "git_env \<Rightarrow> repository_index \<Rightarrow> git_metadata_graph \<Rightarrow> nat set \<Rightarrow> history_state \<Rightarrow> bool" where
  "history_inv env ri g extra st \<longleftrightarrow>
     (let n = length (node_weights g); V = hs_visited_commits st; VE = hs_visited_edges st in
      length (hs_seen_sets st) = n \<and> length (hs_introduced st) = n \<and> VE = visited_from g V - extra \<and>
      V \<subseteq> {c. c < n \<and> Wellfounded.accp (parent_of g) c \<and> set (incoming g c) \<subseteq> VE} \<and>
      distinct (map snd (hs_worklist st)) \<and> snd ` set (hs_worklist st) = ready g V VE \<and>
      (\<forall>c < n. c \<notin> V \<longrightarrow> handed_down env ri g VE c (hs_seen_sets st ! c)) \<and>
      (\<forall>c \<in> V. introduces env ri g c (hs_introduced st ! c)) \<and>
      (\<forall>c < n. c \<notin> V \<longrightarrow> hs_introduced st ! c = []) \<and>
      table_fits env ri (hs_symbols st))"

lemma history_invD:
  assumes "history_inv env ri g extra st"
  shows "length (hs_seen_sets st) = length (node_weights g)" "length (hs_introduced st) = length (node_weights g)"
    "hs_visited_edges st = visited_from g (hs_visited_commits st) - extra"
    "c \<in> hs_visited_commits st \<Longrightarrow> c < length (node_weights g) \<and> Wellfounded.accp (parent_of g) c \<and> set (incoming g c) \<subseteq> hs_visited_edges st"
    "distinct (map snd (hs_worklist st))" "snd ` set (hs_worklist st) = ready g (hs_visited_commits st) (hs_visited_edges st)"
    "c < length (node_weights g) \<Longrightarrow> c \<notin> hs_visited_commits st \<Longrightarrow> handed_down env ri g (hs_visited_edges st) c (hs_seen_sets st ! c)"
    "c \<in> hs_visited_commits st \<Longrightarrow> introduces env ri g c (hs_introduced st ! c)"
    "c < length (node_weights g) \<Longrightarrow> c \<notin> hs_visited_commits st \<Longrightarrow> hs_introduced st ! c = []"
    "table_fits env ri (hs_symbols st)"
  using assms unfolding history_inv_def Let_def by blast+

lemma history_invI:
  assumes "length (hs_seen_sets st) = length (node_weights g)" "length (hs_introduced st) = length (node_weights g)"
    "hs_visited_edges st = visited_from g (hs_visited_commits st) - extra"
    "\<And>c. c \<in> hs_visited_commits st \<Longrightarrow> c < length (node_weights g) \<and> Wellfounded.accp (parent_of g) c \<and> set (incoming g c) \<subseteq> hs_visited_edges st"
    "distinct (map snd (hs_worklist st))" "snd ` set (hs_worklist st) = ready g (hs_visited_commits st) (hs_visited_edges st)"
    "\<And>c. c < length (node_weights g) \<Longrightarrow> c \<notin> hs_visited_commits st \<Longrightarrow> handed_down env ri g (hs_visited_edges st) c (hs_seen_sets st ! c)"
    "\<And>c. c \<in> hs_visited_commits st \<Longrightarrow> introduces env ri g c (hs_introduced st ! c)"
    "\<And>c. c < length (node_weights g) \<Longrightarrow> c \<notin> hs_visited_commits st \<Longrightarrow> hs_introduced st ! c = []"
    "table_fits env ri (hs_symbols st)"
  shows "history_inv env ri g extra st"
  using assms unfolding history_inv_def Let_def by blast

lemma handed_down_other: "snd (graph_edges g ! e) \<noteq> c \<Longrightarrow> handed_down env ri g (insert e VE) c seen = handed_down env ri g VE c seen"
proof -
  assume "snd (graph_edges g ! e) \<noteq> c"
  then have "set (incoming g c) \<inter> insert e VE = set (incoming g c) \<inter> VE" by (auto simp: set_incoming)
  then show ?thesis unfolding handed_down_def by (simp only:)
qed

text \<open>Following one edge.\<close>

definition follow_edge :: "git_metadata_graph \<Rightarrow> nat \<Rightarrow> seen_object_set \<Rightarrow> history_state \<Rightarrow> history_state" where
  "follow_edge g e s st =
     (let child = snd (graph_edges g ! e);
          st = st\<lparr>hs_visited_edges := insert e (hs_visited_edges st), hs_seen_sets := (hs_seen_sets st)[child := Some s]\<rparr>
      in if set (incoming g child) \<subseteq> hs_visited_edges st
         then st\<lparr>hs_worklist := hs_worklist st @ [(out_degree g child, child)]\<rparr> else st)"

lemma edge_loop_step:
  assumes e: "e < length (graph_edges g)" "e \<notin> hs_visited_edges st" and child: "snd (graph_edges g ! e) < length (hs_seen_sets st)"
  shows "edge_loop g (e # edges) (Some s) st =
    (case hs_seen_sets st ! snd (graph_edges g ! e) of
       Some cs \<Rightarrow> edge_loop g edges (Some s) (follow_edge g e (union_update cs s) st)
     | None \<Rightarrow> edge_loop g edges (if edges = [] then None else Some s) (follow_edge g e s st))"
  using assms by (auto simp: Let_def slice_get_def follow_edge_def list_ex_iff subset_iff split: option.splits)

lemma follow_edge_simps [simp]:
  "hs_visited_edges (follow_edge g e s st) = insert e (hs_visited_edges st)"
  "hs_visited_commits (follow_edge g e s st) = hs_visited_commits st"
  "hs_introduced (follow_edge g e s st) = hs_introduced st"
  "hs_symbols (follow_edge g e s st) = hs_symbols st"
  "hs_seen_sets (follow_edge g e s st) = (hs_seen_sets st)[snd (graph_edges g ! e) := Some s]"
  "hs_worklist (follow_edge g e s st) = hs_worklist st @
     (if set (incoming g (snd (graph_edges g ! e))) \<subseteq> insert e (hs_visited_edges st)
      then [(out_degree g (snd (graph_edges g ! e)), snd (graph_edges g ! e))] else [])"
  by (simp_all add: follow_edge_def Let_def)

lemma follow_edge_inv:
  assumes valid: "graph_valid ri g" and inv: "history_inv env ri g (insert e extra) st" and e: "e < length (graph_edges g)" "e \<notin> extra"
    "fst (graph_edges g ! e) \<in> hs_visited_commits st"
    and s: "handed_down env ri g (insert e (hs_visited_edges st)) (snd (graph_edges g ! e)) (Some s)"
  shows "history_inv env ri g extra (follow_edge g e s st)" "snd (graph_edges g ! e) \<notin> hs_visited_commits st"
    "snd (graph_edges g ! e) < length (node_weights g)"
proof -
  note d = history_invD [OF inv]
  let ?d = "snd (graph_edges g ! e)" and ?V = "hs_visited_commits st" and ?VE = "hs_visited_edges st"
  have new: "e \<notin> ?VE" "e \<in> set (incoming g ?d)" using d(3) e by (auto simp: set_incoming)
  show dV: "?d \<notin> ?V" using d(4) [of ?d] new by blast
  show dn: "?d < length (node_weights g)" 
    using valid nth_mem [OF e(1)] by (cases "graph_edges g ! e") (auto simp: graph_valid_def)
  have ready: "ready g ?V (insert e ?VE) = ready g ?V ?VE \<union> (if set (incoming g ?d) \<subseteq> insert e ?VE then {?d} else {})"
  proof (rule set_eqI)
    fix c
    have "set (incoming g c) \<subseteq> insert e ?VE \<longleftrightarrow> set (incoming g c) \<subseteq> ?VE" if "c \<noteq> ?d"
      using that by (auto simp: set_incoming)
    then show "c \<in> ready g ?V (insert e ?VE) \<longleftrightarrow>
        c \<in> ready g ?V ?VE \<union> (if set (incoming g ?d) \<subseteq> insert e ?VE then {?d} else {})"
      using dV dn new by (cases "c = ?d") (auto simp: ready_def)
  qed
  have notready: "?d \<notin> ready g ?V ?VE" using new by (auto simp: ready_def)
  show "history_inv env ri g extra (follow_edge g e s st)"
  proof (rule history_invI)
    show "hs_visited_edges (follow_edge g e s st) = visited_from g (hs_visited_commits (follow_edge g e s st)) - extra"
      using d(3) e by (auto simp: visited_from_def)
    show "distinct (map snd (hs_worklist (follow_edge g e s st)))" using d(5,6) notready by auto
    show "snd ` set (hs_worklist (follow_edge g e s st)) = ready g (hs_visited_commits (follow_edge g e s st)) (hs_visited_edges (follow_edge g e s st))"
      using d(6) ready by auto
  next
    fix c assume "c < length (node_weights g)" "c \<notin> hs_visited_commits (follow_edge g e s st)"
    then show "handed_down env ri g (hs_visited_edges (follow_edge g e s st)) c (hs_seen_sets (follow_edge g e s st) ! c)"
      using d(1,7) s handed_down_other [of g e c] by (cases "c = ?d") auto
  next
    fix c assume "c \<in> hs_visited_commits (follow_edge g e s st)"
    then show "c < length (node_weights g) \<and> Wellfounded.accp (parent_of g) c \<and> set (incoming g c) \<subseteq> hs_visited_edges (follow_edge g e s st)"
      using d(4) [of c] by auto
  qed (use d(1,2,8-10) in auto)
qed

text \<open>Handing the state of a visited commit to a child.\<close>

lemma handed_down_extend:
  assumes old: "handed_down env ri g VE c seen" and e: "e \<in> set (incoming g c)"
    and s: "seen_closed env ri s" "seen_blobs s = history_blobs env ri g (fst (graph_edges g ! e))"
  shows "handed_down env ri g (insert e VE) c (Some (case seen of None \<Rightarrow> s | Some cs \<Rightarrow> union_update cs s))"
proof -
  let ?h = "\<lambda>e. history_blobs env ri g (fst (graph_edges g ! e))"
  have "set (incoming g c) \<inter> insert e VE = insert e (set (incoming g c) \<inter> VE)" using e by auto
  then have eq: "(\<Union>e \<in> set (incoming g c) \<inter> insert e VE. ?h e) = ?h e \<union> (\<Union>e \<in> set (incoming g c) \<inter> VE. ?h e)" by simp
  show ?thesis
  proof (cases seen)
    case None
    then have "set (incoming g c) \<inter> VE = {}" using old by (simp add: handed_down_def)
    then show ?thesis using None s eq by (simp add: handed_down_def)
  next
    case (Some cs)
    then have "seen_closed env ri cs" "seen_blobs cs = (\<Union>e \<in> set (incoming g c) \<inter> VE. ?h e)" using old by (simp_all add: handed_down_def)
    then have "seen_blobs (union_update cs s) = ?h e \<union> (\<Union>e \<in> set (incoming g c) \<inter> VE. ?h e)"
      using s(2) by (auto simp: union_update_def)
    moreover have "seen_closed env ri (union_update cs s)" using \<open>seen_closed env ri cs\<close> s(1) by (rule seen_closed_union)
    ultimately show ?thesis using Some eq by (simp add: handed_down_def)
  qed
qed

lemma edge_loop_inv:
  assumes valid: "graph_valid ri g" and "history_inv env ri g (set edges) st" "distinct edges" "set edges \<subseteq> set (outgoing g c)"
    and c: "c \<in> hs_visited_commits st" and s: "seen_closed env ri s" "seen_blobs s = history_blobs env ri g c"
    and seen: "seen = Some s \<or> edges = []"
  shows "\<exists>st'. edge_loop g edges seen st = Some st' \<and> history_inv env ri g {} st' \<and> hs_visited_commits st' = hs_visited_commits st"
  using assms(2-4) c seen
proof (induction edges arbitrary: st seen)
  case Nil
  then show ?case by simp
next
  case (Cons e edges)
  have e: "e < length (graph_edges g)" "fst (graph_edges g ! e) = c" "e \<notin> set edges" using Cons(3,4) by (auto simp: set_outgoing)
  note d = history_invD [OF Cons(2)]
  let ?d = "snd (graph_edges g ! e)"
  have inc: "e \<in> set (incoming g ?d)" using e by (simp add: set_incoming)
  have new: "e \<notin> hs_visited_edges st" using d(3) by auto
  have dn: "?d < length (node_weights g)" using valid nth_mem [OF e(1)] by (cases "graph_edges g ! e") (auto simp: graph_valid_def)
  have dV: "?d \<notin> hs_visited_commits st" using d(4) [of ?d] new inc by blast
  let ?s = "case hs_seen_sets st ! ?d of None \<Rightarrow> s | Some cs \<Rightarrow> union_update cs s"
  have down: "handed_down env ri g (insert e (hs_visited_edges st)) ?d (Some ?s)"
    by (rule handed_down_extend [OF d(7) [OF dn dV] inc s(1)]) (simp add: s(2) e(2))
  have inv: "history_inv env ri g (set edges) (follow_edge g e ?s st)"
    by (rule follow_edge_inv(1) [OF valid _ e(1,3) _ down]) (use Cons(2) e(2) Cons(5) in simp_all)
  have "edge_loop g (e # edges) seen st =
      edge_loop g edges (if edges = [] \<and> hs_seen_sets st ! ?d = None then None else Some s) (follow_edge g e ?s st)"
    using edge_loop_step [OF e(1) new, of edges s] dn d(1) Cons(6) by (auto split: option.splits)
  moreover have "\<exists>st'. edge_loop g edges (if edges = [] \<and> hs_seen_sets st ! ?d = None then None else Some s) (follow_edge g e ?s st) = Some st' \<and>
      history_inv env ri g {} st' \<and> hs_visited_commits st' = hs_visited_commits (follow_edge g e ?s st)"
    by (rule Cons(1) [OF inv]) (use Cons(3-5) in auto)
  ultimately show ?case by simp
qed

section \<open>One commit\<close>

lemma visit_commit_tree_ok:
  assumes env: "exclude_globset env = None" "prunes_soundly env ri" "names_fit env ri" "bimap_ok (ri_trees ri)"
    and valid: "graph_valid ri g" "c < length (node_weights g)"
    and seen: "seen_closed env ri seen" "seen_blobs seen = ancestor_blobs env ri g c" and symbols: "table_fits env ri symbols"
  shows "\<exists>seen' introduced symbols'. yields (visit_commit_tree env ri (cm_tree_idx (node_weights g ! c)) seen [] symbols)
      (Inr (seen', introduced, symbols')) \<and> seen_closed env ri seen' \<and> seen_blobs seen' = history_blobs env ri g c \<and>
    introduces env ri g c introduced \<and> table_fits env ri symbols'"
proof (cases "cm_tree_idx (node_weights g ! c)")
  case None
  then have none: "commit_blobs env ri g c = {}" by (simp add: commit_blobs_def)
  have "yields (visit_commit_tree env ri None seen [] symbols) (Inr (seen, [], symbols))"
    by (simp add: visit_commit_tree_def yields_git_ok)
  moreover have "introduces env ri g c []" by (simp add: introduces_def none)
  ultimately show ?thesis using None none seen symbols unfolding history_blobs_def by (metis sup_bot_right)
next
  case (Some t)
  have tn: "t < length (idx_to_oid (ri_trees ri))" using valid Some nth_mem [OF valid(2)] by (auto simp: graph_valid_def)
  have cb: "commit_blobs env ri g c = blobs_under env ri t" by (simp add: commit_blobs_def Some)
  obtain cov where cov: "tree_is_covered ri t seen = Some cov" "cov \<longrightarrow> blobs_under env ri t \<subseteq> seen_blobs seen"
    "\<not> is_candidate_tree ri t \<longrightarrow> blobs_under env ri t = {}"
    using env(2) tn unfolding prunes_soundly_def by blast
  show ?thesis
  proof (cases "\<not> is_candidate_tree ri t \<or> cov \<or> t \<in> seen_trees seen")
    case True
    have "yields (visit_commit_tree env ri (Some t) seen [] symbols) (Inr (seen, [], symbols))"
      using True cov(1) by (cases cov) (auto simp: visit_commit_tree_def Let_def insert_tree_def seen_insert_def yields_git_ok)
    moreover have sub: "blobs_under env ri t \<subseteq> seen_blobs seen" using True cov seen(1) by (auto simp: seen_closed_def)
    moreover have "introduces env ri g c []" using sub cb seen(2) by (auto simp: introduces_def)
    moreover have "seen_blobs seen = history_blobs env ri g c" using sub cb seen(2) by (auto simp: history_blobs_def)
    ultimately show ?thesis using Some seen(1) symbols by metis
  next
    case False
    obtain oid where oid: "get_tree_oid ri t = Some oid" using tn by (simp add: get_tree_oid_def get_oid_def slice_get_def)
    let ?st = "\<lparr>ws_symbols = symbols, ws_seen = snd (insert_tree t seen), ws_introduced = [], ws_worklist = [([], oid)], ws_encountered = []\<rparr>"
    obtain st where st: "yields (visit_tree env ri ?st) (Inr st)" "table_fits env ri (ws_symbols st)"
      "seen_closed env ri (ws_seen st)" "seen_blobs (ws_seen st) = seen_blobs seen \<union> blobs_under env ri t"
      "\<forall>b. (\<exists>oid path. (oid, path) \<in> set (ws_introduced st) \<and> get_blob_index ri oid = Some b) \<longleftrightarrow>
         b \<in> blobs_under env ri t - seen_blobs seen"
      "\<forall>(oid, path) \<in> set (ws_introduced st). blob_at env ri t oid path \<and> get_blob_index ri oid \<noteq> None"
      using visit_tree_reports [OF env seen(1) _ oid refl symbols, of "[]"] False by blast
    have "yields (and_then (visit_tree env ri ?st) (\<lambda>st. git_ok (ws_seen st, ws_introduced st, ws_symbols st)))
        (Inr (ws_seen st, ws_introduced st, ws_symbols st))"
      by (rule yields_and_then [OF st(1)]) (rule yields_git_ok)
    moreover have "insert_tree t seen = (True, snd (insert_tree t seen))" using False by (simp add: insert_tree_def seen_insert_def)
    ultimately have "yields (visit_commit_tree env ri (Some t) seen [] symbols) (Inr (ws_seen st, ws_introduced st, ws_symbols st))"
      using False cov(1) oid by (cases "insert_tree t seen") (auto simp: visit_commit_tree_def Let_def)
    moreover have "introduces env ri g c (ws_introduced st)" using st(5,6) Some cb seen(2) by (auto simp: introduces_def)
    moreover have "seen_blobs (ws_seen st) = history_blobs env ri g c" using st(4) cb seen(2) by (simp add: history_blobs_def)
    ultimately show ?thesis using st(2,3) Some by metis
  qed
qed

lemma remove1_key:
  assumes "distinct (map snd wl)" "x \<in> set wl"
  shows "snd ` set (remove1 x wl) = snd ` set wl - {snd x}" "distinct (map snd (remove1 x wl))"
  using assms by (induction wl) (auto simp: image_iff)

text \<open>The hypotheses of the traversal.\<close>

definition traversable :: "(nat list \<Rightarrow> nat list) \<Rightarrow> git_env \<Rightarrow> repository_index \<Rightarrow> git_metadata_graph \<Rightarrow> bool" where
  "traversable edge_order env ri g \<longleftrightarrow>
     exclude_globset env = None \<and> prunes_soundly env ri \<and> names_fit env ri \<and> bimap_ok (ri_trees ri) \<and>
     graph_valid ri g \<and> (\<forall>es. mset (edge_order es) = mset es)"

lemma ready_seen:
  assumes inv: "history_inv env ri g {} st" and c: "c \<in> ready g (hs_visited_commits st) (hs_visited_edges st)"
  shows "\<exists>s. hs_seen_sets st ! c = Some s \<and> seen_closed env ri s \<and> seen_blobs s = ancestor_blobs env ri g c"
proof -
  have inc: "c < length (node_weights g)" "c \<notin> hs_visited_commits st" "set (incoming g c) \<subseteq> hs_visited_edges st" using c by (auto simp: ready_def)
  note h = history_invD(7) [OF inv inc(1,2)]
  have all: "set (incoming g c) \<inter> hs_visited_edges st = set (incoming g c)" using inc(3) by blast
  then obtain s where s: "hs_seen_sets st ! c = Some s" using h by (cases "hs_seen_sets st ! c") (auto simp: handed_down_def)
  have "seen_closed env ri s" "seen_blobs s = (\<Union>e \<in> set (incoming g c). history_blobs env ri g (fst (graph_edges g ! e)))"
    using h s all by (simp_all add: handed_down_def)
  moreover have "(\<Union>e \<in> set (incoming g c). history_blobs env ri g (fst (graph_edges g ! e))) = ancestor_blobs env ri g c"
    unfolding ancestor_blobs_parents parent_of_edge by auto
  ultimately show ?thesis using s by simp
qed

text \<open>The state in which the children of a commit are about to be told.\<close>

lemma enter_commit:
  assumes inv: "history_inv env ri g {} st" and pop: "heap_pop (hs_worklist st) = Some ((d, c), rest)"
    and intro: "introduces env ri g c introduced" and symbols: "table_fits env ri symbols"
  shows "history_inv env ri g (set (outgoing g c)) (st\<lparr>hs_worklist := rest, hs_visited_commits := insert c (hs_visited_commits st),
      hs_seen_sets := (hs_seen_sets st)[c := None], hs_introduced := (hs_introduced st)[c := introduced], hs_symbols := symbols\<rparr>)"
    (is "history_inv env ri g _ ?st")
proof -
  note h = history_invD [OF inv] and pf = heap_pop_facts [OF pop]
  let ?V = "hs_visited_commits st" and ?VE = "hs_visited_edges st"
  have "c \<in> ready g ?V ?VE" using pf(1) h(6) by force
  then have c: "c < length (node_weights g)" "c \<notin> ?V" "set (incoming g c) \<subseteq> ?VE" by (auto simp: ready_def)
  have acc: "Wellfounded.accp (parent_of g) c"
  proof (rule accpI)
    fix p assume "parent_of g p c"
    then obtain e where "e \<in> set (incoming g c)" "fst (graph_edges g ! e) = p" by (auto simp: parent_of_edge)
    then have "p \<in> ?V" using c(3) h(3) by (auto simp: visited_from_def)
    then show "Wellfounded.accp (parent_of g) p" using h(4) by blast
  qed
  have wl: "distinct (map snd rest)" "snd ` set rest = ready g ?V ?VE - {c}"
    using remove1_key [OF h(5) pf(1)] h(6) by (simp_all add: pf(2))
  show ?thesis
  proof (rule history_invI)
    show "hs_visited_edges ?st = visited_from g (hs_visited_commits ?st) - set (outgoing g c)"
      using h(3) c(2) by (auto simp: visited_from_def set_outgoing)
    show "snd ` set (hs_worklist ?st) = ready g (hs_visited_commits ?st) (hs_visited_edges ?st)" using wl(2) by (auto simp: ready_def)
  next
    fix c' assume "c' \<in> hs_visited_commits ?st"
    then show "c' < length (node_weights g) \<and> Wellfounded.accp (parent_of g) c' \<and> set (incoming g c') \<subseteq> hs_visited_edges ?st"
      using h(4) [of c'] c acc by auto
  next
    fix c' assume "c' < length (node_weights g)" "c' \<notin> hs_visited_commits ?st"
    then show "handed_down env ri g (hs_visited_edges ?st) c' (hs_seen_sets ?st ! c')" "hs_introduced ?st ! c' = []"
      using h(7,9) by auto
  next
    fix c' assume "c' \<in> hs_visited_commits ?st"
    then show "introduces env ri g c' (hs_introduced ?st ! c')" using h(2,8) intro c(1) by (cases "c' = c") auto
  qed (use h(1,2) wl(1) symbols in auto)
qed

lemma visit_commit_ok:
  assumes t: "traversable edge_order env ri g" and inv: "history_inv env ri g {} st" and pop: "heap_pop (hs_worklist st) = Some ((d, c), rest)"
  shows "c < length (node_weights g)" "c \<notin> hs_visited_commits st"
    "\<exists>st'. yields (visit_commit edge_order env ri g c (st\<lparr>hs_worklist := rest, hs_visited_commits := insert c (hs_visited_commits st)\<rparr>)) (Inr st') \<and>
      history_inv env ri g {} st' \<and> hs_visited_commits st' = insert c (hs_visited_commits st)"
proof -
  note h = history_invD [OF inv] and pf = heap_pop_facts [OF pop]
  have ready: "c \<in> ready g (hs_visited_commits st) (hs_visited_edges st)" using pf(1) h(6) by force
  then show cn: "c < length (node_weights g)" "c \<notin> hs_visited_commits st" by (auto simp: ready_def)
  have tr: "exclude_globset env = None" "prunes_soundly env ri" "names_fit env ri" "bimap_ok (ri_trees ri)" "graph_valid ri g"
    "mset (edge_order (outgoing g c)) = mset (outgoing g c)" using t by (auto simp: traversable_def)
  obtain s where s: "hs_seen_sets st ! c = Some s" "seen_closed env ri s" "seen_blobs s = ancestor_blobs env ri g c"
    using ready_seen [OF inv ready] by blast
  obtain s' introduced symbols where v: "yields (visit_commit_tree env ri (cm_tree_idx (node_weights g ! c)) s [] (hs_symbols st)) (Inr (s', introduced, symbols))"
    "seen_closed env ri s'" "seen_blobs s' = history_blobs env ri g c" "introduces env ri g c introduced" "table_fits env ri symbols"
    using visit_commit_tree_ok [OF tr(1-5) cn(1) s(2,3) h(10)] by blast
  let ?st = "st\<lparr>hs_worklist := rest, hs_visited_commits := insert c (hs_visited_commits st)\<rparr>"
  let ?st2 = "?st\<lparr>hs_seen_sets := (hs_seen_sets st)[c := None], hs_introduced := (hs_introduced st)[c := introduced], hs_symbols := symbols\<rparr>"
  have edges: "set (edge_order (outgoing g c)) = set (outgoing g c)" "distinct (edge_order (outgoing g c))"
    using mset_eq_setD [OF tr(6)] mset_eq_imp_distinct_iff [OF tr(6)] set_outgoing(2) by auto
  obtain st' where st': "edge_loop g (edge_order (outgoing g c)) (Some s') ?st2 = Some st'" "history_inv env ri g {} st'"
    "hs_visited_commits st' = hs_visited_commits ?st2"
    using edge_loop_inv [OF tr(5) _ edges(2) _ _ v(2,3), of ?st2 "Some s'"] enter_commit [OF inv pop v(4,5)] edges by auto
  have "yields (visit_commit edge_order env ri g c ?st) (Inr st')"
    using cn(1) h(1,2) h(9) [OF cn] s(1) st'(1)
    by (simp add: visit_commit_def slice_get_def)
      (rule yields_and_then [OF v(1)], simp add: yields_or_panic)
  then show "\<exists>st'. yields (visit_commit edge_order env ri g c ?st) (Inr st') \<and> history_inv env ri g {} st' \<and>
      hs_visited_commits st' = insert c (hs_visited_commits st)" using st'(2,3) by auto
qed

lemma commit_loop_ok:
  assumes t: "traversable edge_order env ri g" and "history_inv env ri g {} st"
  shows "\<exists>st'. yields (commit_loop edge_order env ri g st) (Inr st') \<and> history_inv env ri g {} st' \<and> hs_worklist st' = []"
  using assms(2)
proof (induction "history_work g st" arbitrary: st rule: less_induct)
  case less
  show ?case
  proof (cases "heap_pop (hs_worklist st)")
    case None
    then have "hs_worklist st = []" by (auto simp: heap_pop_def Let_def split: list.splits)
    moreover have "yields (commit_loop edge_order env ri g st) (Inr st)"
      by (simp add: commit_loop.simps [of edge_order env ri g st] None yields_git_ok)
    ultimately show ?thesis using less(2) by blast
  next
    case (Some p)
    obtain d c rest where p: "heap_pop (hs_worklist st) = Some ((d, c), rest)" using Some by (cases p) auto
    let ?st = "st\<lparr>hs_worklist := rest, hs_visited_commits := insert c (hs_visited_commits st)\<rparr>"
    obtain s where s: "yields (visit_commit edge_order env ri g c ?st) (Inr s)" "history_inv env ri g {} s"
      using visit_commit_ok(3) [OF t less(2) p] by blast
    obtain k u u' where "visit_commit edge_order env ri g c ?st k u = Inr (Inr s, u')" using yields_some_run [OF s(1)] by blast
    then have "history_work g s \<le> history_work g ?st" by (rule visit_commit_work)
    then have smaller: "history_work g s < history_work g st" using heap_pop_facts(3) [OF p] by (simp add: history_work_def)
    obtain st' where st': "yields (commit_loop edge_order env ri g s) (Inr st')" "history_inv env ri g {} st'" "hs_worklist st' = []"
      using less(1) [OF smaller s(2)] by blast
    have "yields (and_then (visit_commit edge_order env ri g c ?st) (commit_loop edge_order env ri g)) (Inr st')"
      by (rule yields_and_then [OF s(1)]) (rule st'(1))
    then have "yields (commit_loop edge_order env ri g st) (Inr st')"
      using visit_commit_ok(1,2) [OF t less(2) p] by (simp add: commit_loop.simps [of edge_order env ri g st] p yields_timed)
    then show ?thesis using st'(2,3) by blast
  qed
qed

section \<open>Start and end of the traversal\<close>

lemma roots_seen:
  "distinct roots \<Longrightarrow> set roots \<subseteq> {..<n} \<Longrightarrow> length ss = n \<Longrightarrow> c < n \<Longrightarrow>
   fold (\<lambda>r ss. ss[r := Some seen_new]) roots ss ! c = (if c \<in> set roots then Some seen_new else ss ! c)"
  by (induction roots arbitrary: ss) auto

lemma fold_update_length: "length (fold (\<lambda>r ss. ss[r := v]) roots ss) = length ss"
  by (induction roots arbitrary: ss) auto

lemma fold_append_map: "fold (\<lambda>r wl. wl @ [f r]) roots wl = wl @ map f roots"
  by (induction roots arbitrary: wl) auto

lemma table_fits_new: "table_fits env ri table_new"
  by (auto simp: table_fits_def table_ok_def table_new_def)

lemma initial_history_inv:
  assumes "names_fit env ri"
  shows "history_inv env ri g {} (initial_history g)"
proof (rule history_invI)
  let ?n = "length (node_weights g)"
  let ?roots = "filter (\<lambda>idx. length (incoming g idx) = 0) [0..<?n]"
  have wl: "map snd (hs_worklist (initial_history g)) = ?roots"
    by (simp add: initial_history_def Let_def fold_append_map comp_def)
  then show "distinct (map snd (hs_worklist (initial_history g)))" by simp
  have "snd ` set (hs_worklist (initial_history g)) = set ?roots" using wl by (metis set_map)
  then show "snd ` set (hs_worklist (initial_history g)) =
      ready g (hs_visited_commits (initial_history g)) (hs_visited_edges (initial_history g))"
    by (auto simp: ready_def initial_history_def Let_def)
  show "table_fits env ri (hs_symbols (initial_history g))" using assms
    by (simp add: initial_history_def Let_def table_fits_new)
  fix c assume c: "c < ?n"
  have "hs_seen_sets (initial_history g) ! c = (if c \<in> set ?roots then Some seen_new else None)"
    unfolding initial_history_def Let_def history_state.simps by (subst roots_seen [of _ ?n]) (use c in auto)
  then show "handed_down env ri g (hs_visited_edges (initial_history g)) c (hs_seen_sets (initial_history g) ! c)"
    using c by (auto simp: handed_down_def initial_history_def Let_def seen_closed_def seen_new_def)
qed (auto simp: initial_history_def Let_def fold_update_length visited_from_def)

lemma finished_visits:
  assumes inv: "history_inv env ri g {} st" and wl: "hs_worklist st = []" and c: "c < length (node_weights g)"
    and acc: "Wellfounded.accp (parent_of g) c" and valid: "graph_valid ri g"
  shows "c \<in> hs_visited_commits st"
  using acc c
proof (induction rule: accp_induct_rule)
  case (1 c)
  have "set (incoming g c) \<subseteq> hs_visited_edges st"
  proof
    fix e assume e: "e \<in> set (incoming g c)"
    then have "parent_of g (fst (graph_edges g ! e)) c" by (auto simp: parent_of_edge)
    moreover from this have "fst (graph_edges g ! e) < length (node_weights g)" using valid by (auto simp: parent_of_def graph_valid_def)
    ultimately have "fst (graph_edges g ! e) \<in> hs_visited_commits st" by (rule "1.IH")
    then show "e \<in> hs_visited_edges st" using e history_invD(3) [OF inv] by (auto simp: visited_from_def set_incoming)
  qed
  then show ?case using history_invD(6) [OF inv] wl "1.prems" by (auto simp: ready_def)
qed

text \<open>The commits that are visited at the end are those without a cycle behind them.\<close>

lemma finished:
  assumes inv: "history_inv env ri g {} st" and wl: "hs_worklist st = []" and valid: "graph_valid ri g"
  shows "hs_visited_commits st = {c. c < length (node_weights g) \<and> Wellfounded.accp (parent_of g) c}"
    "card (hs_visited_edges st) = length (graph_edges g) \<longleftrightarrow> acyclicP (parent_of g)"
proof -
  let ?E = "{..<length (graph_edges g)}"
  show V: "hs_visited_commits st = {c. c < length (node_weights g) \<and> Wellfounded.accp (parent_of g) c}"
    using finished_visits [OF inv wl _ _ valid] history_invD(4) [OF inv] by blast
  have VE: "hs_visited_edges st = visited_from g (hs_visited_commits st)" using history_invD(3) [OF inv] by simp
  then have sub: "hs_visited_edges st \<subseteq> ?E" by (auto simp: visited_from_def)
  have fin: "finite {(x, y). parent_of g x y}" by (rule finite_subset [of _ "set (graph_edges g)"]) (auto simp: parent_of_def)
  have wf: "acyclicP (parent_of g) \<longleftrightarrow> wfP (parent_of g)"
    unfolding wfp_def using finite_acyclic_wf [OF fin] wf_acyclic [of "{(x, y). parent_of g x y}"] by auto
  have "card (hs_visited_edges st) = length (graph_edges g) \<longleftrightarrow> hs_visited_edges st = ?E"
    using card_subset_eq [OF finite_lessThan sub] by (metis card_lessThan)
  also have "\<dots> \<longleftrightarrow> (\<forall>p c. parent_of g p c \<longrightarrow> Wellfounded.accp (parent_of g) p)"
  proof
    assume all: "hs_visited_edges st = ?E"
    show "\<forall>p c. parent_of g p c \<longrightarrow> Wellfounded.accp (parent_of g) p"
    proof (intro allI impI)
      fix p c assume "parent_of g p c"
      then obtain e where "e < length (graph_edges g)" "fst (graph_edges g ! e) = p" by (auto simp: parent_of_edge set_incoming)
      then have "p \<in> hs_visited_commits st" using all VE by (auto simp: visited_from_def)
      then show "Wellfounded.accp (parent_of g) p" using V by simp
    qed
  next
    assume acc: "\<forall>p c. parent_of g p c \<longrightarrow> Wellfounded.accp (parent_of g) p"
    have "fst (graph_edges g ! e) \<in> hs_visited_commits st" if "e < length (graph_edges g)" for e
      using acc valid nth_mem [OF that] V by (cases "graph_edges g ! e") (auto simp: parent_of_def graph_valid_def)
    then show "hs_visited_edges st = ?E" using VE by (auto simp: visited_from_def)
  qed
  also have "\<dots> \<longleftrightarrow> wfP (parent_of g)" 
    using accp_wfpI [of "parent_of g"] accp_wfpD [of "parent_of g"] by (auto intro: accpI)
  finally show "card (hs_visited_edges st) = length (graph_edges g) \<longleftrightarrow> acyclicP (parent_of g)" using wf by simp
qed

section \<open>The result\<close>

text \<open>What the traversal should report: the commits that introduce something, in the order of the graph.\<close>

definition reports_introductions ::
  "git_env \<Rightarrow> repository_index \<Rightarrow> git_metadata_graph \<Rightarrow> commit_blob_metadata list \<Rightarrow> bool" where
  "reports_introductions env ri g result \<longleftrightarrow>
     (\<exists>introduced. length introduced = length (node_weights g) \<and>
        (\<forall>c < length (node_weights g). introduces env ri g c (introduced ! c)) \<and>
        result = map (\<lambda>(md, introduced). \<lparr>cb_commit_oid = cm_oid md, cb_introduced_blobs = introduced\<rparr>)
          (filter (\<lambda>(md, introduced). introduced \<noteq> []) (zip (node_weights g) introduced)))"

lemma get_repo_metadata_cases:
  assumes t: "traversable edge_order env ri g"
  shows "acyclicP (parent_of g) \<Longrightarrow>
      \<exists>result. yields (get_repo_metadata_with_deadline edge_order env ri g) (Inr result) \<and> reports_introductions env ri g result"
    "\<not> acyclicP (parent_of g) \<Longrightarrow> yields (get_repo_metadata_with_deadline edge_order env ri g) (Inl CycleDetected)"
proof -
  have tr: "names_fit env ri" "graph_valid ri g" using t by (simp_all add: traversable_def)
  obtain st where st: "yields (commit_loop edge_order env ri g (initial_history g)) (Inr st)" "history_inv env ri g {} st" "hs_worklist st = []"
    using commit_loop_ok [OF t initial_history_inv [OF tr(1)]] by blast
  note f = finished [OF st(2,3) tr(2)] and h = history_invD [OF st(2)]
  let ?result = "map (\<lambda>(md, introduced). \<lparr>cb_commit_oid = cm_oid md, cb_introduced_blobs = introduced\<rparr>)
         (filter (\<lambda>(md, introduced). introduced \<noteq> []) (zip (node_weights g) (hs_introduced st)))"
  have run: "yields (get_repo_metadata_with_deadline edge_order env ri g) v"
    if "yields (if card (hs_visited_edges st) \<noteq> length (graph_edges g) then ret (Inl CycleDetected) else git_ok ?result) v" for v
    unfolding get_repo_metadata_with_deadline_def by (rule yields_and_then [OF st(1)]) (rule that)
  {
    assume acyc: "acyclicP (parent_of g)"
    have "Wellfounded.accp (parent_of g) c" for c
    proof -
      have "finite {(x, y). parent_of g x y}" by (rule finite_subset [of _ "set (graph_edges g)"]) (auto simp: parent_of_def)
      then have "wfP (parent_of g)" using acyc finite_acyclic_wf by (simp add: wfp_def)
      then show ?thesis by (rule accp_wfpD)
    qed
    then have "introduces env ri g c (hs_introduced st ! c)" if "c < length (node_weights g)" for c using that h(8) f(1) by simp
    then have "reports_introductions env ri g ?result" using h(2) by (auto simp: reports_introductions_def)
    moreover have "yields (get_repo_metadata_with_deadline edge_order env ri g) (Inr ?result)"
      using acyc f(2) by (intro run) (simp add: yields_git_ok)
    ultimately show "\<exists>result. yields (get_repo_metadata_with_deadline edge_order env ri g) (Inr result) \<and> reports_introductions env ri g result"
      by blast
  next
    assume "\<not> acyclicP (parent_of g)"
    then show "yields (get_repo_metadata_with_deadline edge_order env ri g) (Inl CycleDetected)"
      using f(2) by (intro run) (simp add: yields_ret)
  }
qed

text \<open>
  C6. On a commit graph without cycles, and without path exclusions, the traversal succeeds (unless the deadline
  passes).  The list of a commit then holds exactly the indexed blobs that its tree has and the tree of no
  ancestor has, each with a path that leads to it in the commit's tree; commits that introduce nothing are left
  out, whatever the order in which the graph lists its edges.
\<close>

theorem history_attributes_introductions:
  assumes "traversable edge_order env ri g" "acyclicP (parent_of g)"
  shows "\<exists>introduced.
    yields (get_repo_metadata_with_deadline edge_order env ri g)
      (Inr (map (\<lambda>(md, introduced). \<lparr>cb_commit_oid = cm_oid md, cb_introduced_blobs = introduced\<rparr>)
        (filter (\<lambda>(md, introduced). introduced \<noteq> []) (zip (node_weights g) introduced)))) \<and>
    length introduced = length (node_weights g) \<and>
    (\<forall>c < length (node_weights g).
       {b. \<exists>oid path. (oid, path) \<in> set (introduced ! c) \<and> get_blob_index ri oid = Some b} =
         commit_blobs env ri g c - ancestor_blobs env ri g c \<and>
       (\<forall>(oid, path) \<in> set (introduced ! c).
          \<exists>t. cm_tree_idx (node_weights g ! c) = Some t \<and> blob_at env ri t oid path))"
proof -
  obtain introduced where i: "length introduced = length (node_weights g)"
    "\<forall>c < length (node_weights g). introduces env ri g c (introduced ! c)"
    "yields (get_repo_metadata_with_deadline edge_order env ri g)
      (Inr (map (\<lambda>(md, introduced). \<lparr>cb_commit_oid = cm_oid md, cb_introduced_blobs = introduced\<rparr>)
        (filter (\<lambda>(md, introduced). introduced \<noteq> []) (zip (node_weights g) introduced))))"
    using get_repo_metadata_cases(1) [OF assms] by (auto simp: reports_introductions_def)
  have "{b. \<exists>oid path. (oid, path) \<in> set (introduced ! c) \<and> get_blob_index ri oid = Some b} =
         commit_blobs env ri g c - ancestor_blobs env ri g c"
    "\<forall>(oid, path) \<in> set (introduced ! c). \<exists>t. cm_tree_idx (node_weights g ! c) = Some t \<and> blob_at env ri t oid path"
    if "c < length (node_weights g)" for c
    using i(2) that unfolding introduces_def by blast+
  then show ?thesis using i(1,3) by blast
qed

text \<open>A history of two commits: the second adds a file to the directory of the first.\<close>

definition sample_env :: git_env where
  "sample_env =
     \<lparr>find_tree_iter = (\<lambda>oid.
        if oid = ''t1'' then Some [Some \<lparr>te_kind = EntryBlob, te_filename = ''a'', te_oid = ''b1''\<rparr>]
        else if oid = ''t2'' then
          Some [Some \<lparr>te_kind = EntryTree, te_filename = ''d'', te_oid = ''t1''\<rparr>,
                Some \<lparr>te_kind = EntryBlob, te_filename = ''c'', te_oid = ''b2''\<rparr>]
        else None),
      to_path = Some, exclude_globset = None\<rparr>"

definition sample_index :: repository_index where
  "sample_index = index_empty\<lparr>ri_trees := \<lparr>oid_to_idx = [0, 1], idx_to_oid = [''t1'', ''t2'']\<rparr>,
     ri_blobs := \<lparr>oid_to_idx = [0, 1], idx_to_oid = [''b1'', ''b2'']\<rparr>\<rparr>"

definition sample_graph :: "(nat \<times> nat) list \<Rightarrow> git_metadata_graph" where
  "sample_graph edges =
     \<lparr>commit_oid_to_node_idx = [''c1'' \<mapsto> 0, ''c2'' \<mapsto> 1],
      node_weights = [\<lparr>cm_oid = ''c1'', cm_tree_idx = Some 0\<rparr>, \<lparr>cm_oid = ''c2'', cm_tree_idx = Some 1\<rparr>],
      graph_edges = edges\<rparr>"

lemma prunes_soundly_unfiltered:
  "ri_candidate_trees ri = None \<Longrightarrow> ri_candidate_summaries ri = None \<Longrightarrow> prunes_soundly env ri"
  by (auto simp: prunes_soundly_def is_candidate_tree_def tree_is_covered_def)

lemma sample_traversable:
  assumes "set edges \<subseteq> {0, 1} \<times> {0, 1}"
  shows "traversable rev sample_env sample_index (sample_graph edges)"
proof -
  have "length (idx_to_oid (ri_trees sample_index)) = 2" "{..<2::nat} = {0, 1}" by (auto simp: sample_index_def)
  moreover have "te_filename ` set (tree_entries sample_env sample_index 0) = {''a''}"
      "te_filename ` set (tree_entries sample_env sample_index 1) = {''d'', ''c''}"
    by (simp_all add: sample_index_def tree_entries_def sample_env_def get_tree_oid_def get_oid_def slice_get_def flatten_def List.map_filter_def)
  ultimately have "names_of sample_env sample_index = {''a'', ''d'', ''c''}"
    unfolding names_of_def by (simp add: insert_commute)
  then have "names_fit sample_env sample_index" by (simp add: names_fit_def u32_max_def)
  moreover have "prunes_soundly sample_env sample_index"
    by (rule prunes_soundly_unfiltered) (simp_all add: sample_index_def index_empty_def)
  moreover have "graph_valid sample_index (sample_graph edges)" using assms by (auto simp: graph_valid_def sample_graph_def sample_index_def)
  moreover have "exclude_globset sample_env = None" "bimap_ok (ri_trees sample_index)"
    by (simp_all add: sample_env_def sample_index_def bimap_ok_def upt_rec)
  ultimately show ?thesis by (simp add: traversable_def)
qed

lemma acyclic_if_increasing: "(\<forall>(p, c) \<in> set (graph_edges g). p < c) \<Longrightarrow> acyclicP (parent_of g)"
  by (rule acyclic_subset [OF wf_acyclic [OF wf_less_than]]) (auto simp: parent_of_def)

theorem history_attributes_introductions_witness:
  "\<exists>introduced.
    yields (get_repo_metadata_with_deadline rev sample_env sample_index (sample_graph [(0, 1)]))
      (Inr (map (\<lambda>(md, introduced). \<lparr>cb_commit_oid = cm_oid md, cb_introduced_blobs = introduced\<rparr>)
        (filter (\<lambda>(md, introduced). introduced \<noteq> []) (zip (node_weights (sample_graph [(0, 1)])) introduced))))
    \<and> length introduced = 2"
proof -
  have g: "traversable rev sample_env sample_index (sample_graph [(0, 1)])" by (rule sample_traversable) simp
  have a: "acyclicP (parent_of (sample_graph [(0, 1)]))" by (rule acyclic_if_increasing) (simp add: sample_graph_def)
  show ?thesis using history_attributes_introductions [OF g a] by (auto simp: sample_graph_def)
qed

text \<open>
  C33. A commit graph with a cycle (a damaged or forged object database) is refused: the traversal still ends and
  returns the error instead of metadata for a part of the history.
\<close>

theorem history_rejects_cycles:
  assumes "traversable edge_order env ri g" "\<not> acyclicP (parent_of g)"
  shows "yields (get_repo_metadata_with_deadline edge_order env ri g) (Inl CycleDetected)"
  using get_repo_metadata_cases(2) [OF assms] .

theorem history_rejects_cycles_witness:
  "yields (get_repo_metadata_with_deadline rev sample_env sample_index (sample_graph [(0, 1), (1, 0)])) (Inl CycleDetected)"
proof (rule history_rejects_cycles)
  show "traversable rev sample_env sample_index (sample_graph [(0, 1), (1, 0)])" by (rule sample_traversable) simp
  have "(0, 1) \<in> {(x, y). parent_of (sample_graph [(0, 1), (1, 0)]) x y}" "(1, 0) \<in> {(x, y). parent_of (sample_graph [(0, 1), (1, 0)]) x y}"
    by (simp_all add: parent_of_def sample_graph_def)
  then have "(0, 0) \<in> {(x, y). parent_of (sample_graph [(0, 1), (1, 0)]) x y}\<^sup>+" by (meson r_into_trancl trancl_trans)
  then show "\<not> acyclicP (parent_of (sample_graph [(0, 1), (1, 0)]))" unfolding acyclic_def by blast
qed

end
