(* ===== verification/Commit_Graph.thy ===== *)
theory Commit_Graph
  imports Commit_History
begin

text \<open>
  How the enumerator of \<open>src/git_repo_enumerator.rs\<close> builds the commit graph.  The graph has exactly the commits
  that can be read and whose tree is indexed, with their parents, and an edge for every parent they name.
\<close>

section \<open>Commits\<close>

record signature =
  sg_name :: bytes
  sg_email :: bytes
  sg_time :: bytes

record git_commit =
  gc_tree :: oid
  gc_parents :: "oid list"
  gc_committer :: "signature option"
  gc_author :: "signature option"

text \<open>Seconds and offset.\<close>

type_synonym git_time = "int \<times> int"

text \<open>A repository as the enumerator sees it.\<close>

record git_repo =
  object_iter :: "oid option list"
  find_header :: "oid \<Rightarrow> object_header option"
  find_blob :: "oid \<Rightarrow> bytes option"
  find_commit :: "oid \<Rightarrow> git_commit option"
  parse_time :: "bytes \<Rightarrow> git_time option"
  tree_env :: git_env

section \<open>The commit graph\<close>

definition add_parents :: "nat \<Rightarrow> oid list \<Rightarrow> git_metadata_graph \<Rightarrow> git_metadata_graph" where
  "add_parents commit_idx parents g =
     fold (\<lambda>parent_oid g. case get_commit_idx parent_oid None g of (g, parent_idx) \<Rightarrow> add_commit_edge parent_idx commit_idx g) parents g"

definition add_commit :: "git_repo \<Rightarrow> repository_index \<Rightarrow> oid \<Rightarrow> git_metadata_graph \<Rightarrow> git_metadata_graph" where
  "add_commit repo ri commit_oid g =
     (case find_commit repo commit_oid of
        None \<Rightarrow> g
      | Some commit \<Rightarrow>
          (case get_tree_index ri (gc_tree commit) of
             None \<Rightarrow> g
           | Some tree_idx \<Rightarrow>
               (case get_commit_idx commit_oid (Some tree_idx) g of (g, commit_idx) \<Rightarrow>
                  add_parents commit_idx (gc_parents commit) g)))"

definition build_commit_graph :: "git_repo \<Rightarrow> repository_index \<Rightarrow> git_metadata_graph gitm" where
  "build_commit_graph repo ri =
     fold_git (\<lambda>commit_oid g. timed (git_ok (add_commit repo ri commit_oid g))) (idx_to_oid (ri_commits ri)) graph_empty"

section \<open>The graph by object ids\<close>

definition graph_ok :: "git_metadata_graph \<Rightarrow> bool" where
  "graph_ok g \<longleftrightarrow>
     (\<forall>oid i. commit_oid_to_node_idx g oid = Some i \<longleftrightarrow> i < length (node_weights g) \<and> cm_oid (node_weights g ! i) = oid) \<and>
     (\<forall>(p, c) \<in> set (graph_edges g). p < length (node_weights g) \<and> c < length (node_weights g))"

definition node_tree :: "git_metadata_graph \<Rightarrow> oid \<Rightarrow> nat option option" where
  "node_tree g oid = map_option (\<lambda>i. cm_tree_idx (node_weights g ! i)) (commit_oid_to_node_idx g oid)"

definition oid_edges :: "git_metadata_graph \<Rightarrow> (oid \<times> oid) set" where
  "oid_edges g = (\<lambda>(p, c). (cm_oid (node_weights g ! p), cm_oid (node_weights g ! c))) ` set (graph_edges g)"

lemma graph_ok_empty: "graph_ok graph_empty" "node_tree graph_empty = Map.empty" "oid_edges graph_empty = {}"
  by (simp_all add: graph_ok_def graph_empty_def node_tree_def oid_edges_def fun_eq_iff)

lemma get_commit_idx_ok:
  assumes g: "graph_ok g" and r: "get_commit_idx oid t g = (g', i)"
  shows "graph_ok g'" "commit_oid_to_node_idx g' oid = Some i" "oid_edges g' = oid_edges g"
    "node_tree g' = (node_tree g)(oid \<mapsto> (case t of Some t \<Rightarrow> Some t | None \<Rightarrow> case node_tree g oid of None \<Rightarrow> None | Some t \<Rightarrow> t))"
    "\<And>oid' j. commit_oid_to_node_idx g oid' = Some j \<Longrightarrow> commit_oid_to_node_idx g' oid' = Some j"
proof -
  have all: "graph_ok g' \<and> commit_oid_to_node_idx g' oid = Some i \<and> oid_edges g' = oid_edges g \<and>
    node_tree g' = (node_tree g)(oid \<mapsto> (case t of Some t \<Rightarrow> Some t | None \<Rightarrow> case node_tree g oid of None \<Rightarrow> None | Some t \<Rightarrow> t)) \<and>
    (\<forall>oid' j. commit_oid_to_node_idx g oid' = Some j \<longrightarrow> commit_oid_to_node_idx g' oid' = Some j)"
  proof (cases "commit_oid_to_node_idx g oid")
    case (Some k)
    then have k: "k < length (node_weights g)" "cm_oid (node_weights g ! k) = oid" using g by (auto simp: graph_ok_def)
    show ?thesis
    proof (cases t)
      case None
      then show ?thesis using Some r g by (auto simp: get_commit_idx_def node_tree_def fun_eq_iff)
    next
      case 2: (Some tt)
      let ?nw = "(node_weights g)[k := (node_weights g ! k)\<lparr>cm_tree_idx := Some tt\<rparr>]"
      have g': "g' = g\<lparr>node_weights := ?nw\<rparr>" "i = k" using r Some 2 by (auto simp: get_commit_idx_def)
      have oids: "cm_oid (?nw ! j) = cm_oid (node_weights g ! j)" for j
        using k(1) by (cases "j = k") simp_all
      have "graph_ok g'" using g oids by (simp add: graph_ok_def g')
      moreover have "oid_edges g' = oid_edges g" using oids by (simp add: oid_edges_def g')
      moreover have "node_tree g' = (node_tree g)(oid \<mapsto> Some tt)"
      proof
        fix x
        show "node_tree g' x = ((node_tree g)(oid \<mapsto> Some tt)) x"
        proof (cases "x = oid")
          case False
          then have "commit_oid_to_node_idx g x \<noteq> Some k" using g k by (auto simp: graph_ok_def)
          then show ?thesis using False by (cases "commit_oid_to_node_idx g x") (auto simp: node_tree_def g')
        qed (use Some k in \<open>simp add: node_tree_def g'\<close>)
      qed
      ultimately show ?thesis using Some g' 2 by simp
    qed
  next
    case None
    let ?n = "length (node_weights g)"
    have g': "g' = g\<lparr>commit_oid_to_node_idx := (commit_oid_to_node_idx g)(oid \<mapsto> ?n),
        node_weights := node_weights g @ [\<lparr>cm_oid = oid, cm_tree_idx = t\<rparr>]\<rparr>" "i = ?n" using r None by (auto simp: get_commit_idx_def Let_def)
    have ix: "commit_oid_to_node_idx g x = Some j \<longleftrightarrow> j < ?n \<and> cm_oid (node_weights g ! j) = x" for x j using g by (simp add: graph_ok_def)
    have "cm_oid (node_weights g ! j) \<noteq> oid" if "j < ?n" for j using ix [of oid j] None that by auto
    then have "graph_ok g'" using g ix by (auto simp: graph_ok_def g' nth_append less_Suc_eq)
    moreover have "oid_edges g' = oid_edges g" using g by (force simp: oid_edges_def g' graph_ok_def nth_append intro!: image_cong)
    moreover have "node_tree g' = (node_tree g)(oid \<mapsto> t)"
    proof
      fix x
      show "node_tree g' x = ((node_tree g)(oid \<mapsto> t)) x"
        using ix [of x] by (cases "commit_oid_to_node_idx g x") (auto simp: node_tree_def g' nth_append)
    qed
    moreover have "node_tree g oid = None" using None by (simp add: node_tree_def)
    ultimately show ?thesis using None g' by (auto split: option.splits)
  qed
  then show "graph_ok g'" "commit_oid_to_node_idx g' oid = Some i" "oid_edges g' = oid_edges g"
    "node_tree g' = (node_tree g)(oid \<mapsto> (case t of Some t \<Rightarrow> Some t | None \<Rightarrow> case node_tree g oid of None \<Rightarrow> None | Some t \<Rightarrow> t))"
    "\<And>oid' j. commit_oid_to_node_idx g oid' = Some j \<Longrightarrow> commit_oid_to_node_idx g' oid' = Some j"
    by blast+
qed

interpretation commits: interner graph_ok commit_oid_to_node_idx "\<lambda>g i. map_option cm_oid (slice_get (node_weights g) i)"
  "\<lambda>oid g. Some (prod.swap (get_commit_idx oid tree_idx g))" for tree_idx
proof
  fix g g' oid i oid' i'
  show "graph_ok g \<Longrightarrow> commit_oid_to_node_idx g oid = Some i \<Longrightarrow> map_option cm_oid (slice_get (node_weights g) i) = Some oid"
    by (simp add: graph_ok_def slice_get_def)
  assume g: "graph_ok g" and "Some (prod.swap (get_commit_idx oid tree_idx g)) = Some (i, g')"
  then have r: "get_commit_idx oid tree_idx g = (g', i)" by (cases "get_commit_idx oid tree_idx g") simp
  show "graph_ok g'" "commit_oid_to_node_idx g' oid = Some i" using get_commit_idx_ok [OF g r] by blast+
  show "commit_oid_to_node_idx g oid' = Some i' \<Longrightarrow> commit_oid_to_node_idx g' oid' = Some i'" by (rule get_commit_idx_ok(5) [OF g r])
qed

lemma add_commit_edge_ok:
  assumes "graph_ok g" "commit_oid_to_node_idx g p = Some i" "commit_oid_to_node_idx g c = Some j"
  shows "graph_ok (add_commit_edge i j g)" "oid_edges (add_commit_edge i j g) = insert (p, c) (oid_edges g)"
    "node_tree (add_commit_edge i j g) = node_tree g" "commit_oid_to_node_idx (add_commit_edge i j g) = commit_oid_to_node_idx g"
  using assms by (auto simp: graph_ok_def add_commit_edge_def oid_edges_def node_tree_def fun_eq_iff)

lemma add_parents_ok:
  assumes "graph_ok g" "commit_oid_to_node_idx g c = Some j"
  shows "graph_ok (add_parents j parents g) \<and> oid_edges (add_parents j parents g) = oid_edges g \<union> set parents \<times> {c} \<and>
    node_tree (add_parents j parents g) = (\<lambda>oid. if node_tree g oid = None \<and> oid \<in> set parents then Some None else node_tree g oid)"
  using assms
proof (induction parents arbitrary: g)
  case Nil
  then show ?case by (simp add: add_parents_def)
next
  case (Cons p parents)
  obtain g1 i where r: "get_commit_idx p None g = (g1, i)" by fastforce
  note g1 = get_commit_idx_ok [OF Cons(2) r]
  note g2 = add_commit_edge_ok [OF g1(1,2) g1(5) [OF Cons(3)]]
  have step: "add_parents j (p # parents) g = add_parents j parents (add_commit_edge i j g1)" by (simp add: add_parents_def r)
  have "node_tree g1 = (\<lambda>oid. if node_tree g oid = None \<and> oid = p then Some None else node_tree g oid)"
    unfolding g1(4) by (auto simp: fun_eq_iff split: option.splits)
  then show ?case using Cons.IH [OF g2(1)] g1(3,5) g2(2,3,4) Cons(3) unfolding step by (auto simp: fun_eq_iff)
qed

text \<open>The commits that enter the graph by themselves, and the relation between a commit and its parents.\<close>

definition recorded :: "git_repo \<Rightarrow> repository_index \<Rightarrow> oid \<Rightarrow> (git_commit \<times> nat) option" where
  "recorded repo ri oid =
     (case find_commit repo oid of
        None \<Rightarrow> None
      | Some commit \<Rightarrow> map_option (\<lambda>t. (commit, t)) (get_tree_index ri (gc_tree commit)))"

definition names_parent :: "git_repo \<Rightarrow> repository_index \<Rightarrow> oid set \<Rightarrow> oid \<Rightarrow> oid \<Rightarrow> bool" where
  "names_parent repo ri commits p c \<longleftrightarrow> c \<in> commits \<and> (\<exists>commit t. recorded repo ri c = Some (commit, t) \<and> p \<in> set (gc_parents commit))"

definition graph_of :: "git_repo \<Rightarrow> repository_index \<Rightarrow> oid set \<Rightarrow> git_metadata_graph \<Rightarrow> bool" where
  "graph_of repo ri commits g \<longleftrightarrow>
     graph_ok g \<and> oid_edges g = {(p, c). names_parent repo ri commits p c} \<and>
     (\<forall>oid. node_tree g oid =
        (if oid \<in> commits \<and> recorded repo ri oid \<noteq> None then Some (map_option snd (recorded repo ri oid))
         else if \<exists>c. names_parent repo ri commits oid c then Some None else None))"

lemma add_commit_graph:
  assumes g: "graph_of repo ri commits g"
  shows "graph_of repo ri (insert oid commits) (add_commit repo ri oid g)"
proof (cases "recorded repo ri oid")
  case None
  then have "add_commit repo ri oid g = g"
    by (auto simp: add_commit_def recorded_def split: option.splits)
  moreover have "names_parent repo ri (insert oid commits) = names_parent repo ri commits"
    using None by (auto simp: fun_eq_iff names_parent_def)
  ultimately show ?thesis using g None by (auto simp: graph_of_def)
next
  case (Some ct)
  obtain commit t where ct: "ct = (commit, t)" by fastforce
  have r: "find_commit repo oid = Some commit" "get_tree_index ri (gc_tree commit) = Some t"
    using Some ct by (auto simp: recorded_def split: option.splits)
  obtain g1 j where g1: "get_commit_idx oid (Some t) g = (g1, j)" by fastforce
  have gg: "graph_ok g" "oid_edges g = {(p, c). names_parent repo ri commits p c}" using g by (simp_all add: graph_of_def)
  note f = get_commit_idx_ok [OF gg(1) g1]
  have eq: "add_commit repo ri oid g = add_parents j (gc_parents commit) g1" by (simp add: add_commit_def r g1)
  have np: "names_parent repo ri (insert oid commits) p c \<longleftrightarrow> names_parent repo ri commits p c \<or> c = oid \<and> p \<in> set (gc_parents commit)" for p c
    using Some ct by (auto simp: names_parent_def)
  have tree: "node_tree g x = (if x \<in> commits \<and> recorded repo ri x \<noteq> None then Some (map_option snd (recorded repo ri x))
         else if \<exists>c. names_parent repo ri commits x c then Some None else None)" for x using g by (simp add: graph_of_def)
  note a = add_parents_ok [OF f(1,2), of "gc_parents commit"]
  have "node_tree (add_parents j (gc_parents commit) g1) x =
        (if x \<in> insert oid commits \<and> recorded repo ri x \<noteq> None then Some (map_option snd (recorded repo ri x))
         else if \<exists>c. names_parent repo ri (insert oid commits) x c then Some None else None)" for x
    using a Some ct unfolding f(4) np by (simp add: tree) blast
  then show ?thesis unfolding graph_of_def eq using a gg(2) f(3) np by auto
qed

lemma build_commit_graph_ok:
  "\<exists>g. yields (build_commit_graph repo ri) (Inr g) \<and> graph_of repo ri (set (idx_to_oid (ri_commits ri))) g"
proof -
  let ?f = "\<lambda>commit_oid g. timed (git_ok (add_commit repo ri commit_oid g))"
  have "graph_of repo ri {} graph_empty" by (simp add: graph_of_def graph_ok_empty names_parent_def)
  moreover have "\<exists>g'. yields (?f x g) (Inr g') \<and> graph_of repo ri (set (pre @ [x])) g'" if "graph_of repo ri (set pre) g" for x g pre
    using add_commit_graph [OF that, of x] yields_timed [OF yields_git_ok] by force
  ultimately show ?thesis unfolding build_commit_graph_def
    using fold_git_inv [of "\<lambda>pre g. graph_of repo ri (set pre) g" graph_empty "idx_to_oid (ri_commits ri)" ?f] by auto
qed

section \<open>From numbers to ids\<close>

lemma commit_graph_okD:
  assumes "graph_ok g" "i < length (node_weights g)"
  shows "commit_oid_to_node_idx g (cm_oid (node_weights g ! i)) = Some i" "node_tree g (cm_oid (node_weights g ! i)) = Some (cm_tree_idx (node_weights g ! i))"
  using assms by (auto simp: graph_ok_def node_tree_def)

lemma distinct_commits:
  assumes "graph_ok g"
  shows "distinct (map cm_oid (node_weights g))"
  unfolding distinct_conv_nth using commit_graph_okD(1) [OF assms] by (simp, metis option.inject)

lemma graph_of_valid:
  assumes "graph_of repo ri commits g"
  shows "graph_valid ri g"
proof -
  have "t < length (idx_to_oid (ri_trees ri))" if md: "md \<in> set (node_weights g)" "cm_tree_idx md = Some t" for md t
  proof -
    obtain i where i: "i < length (node_weights g)" "node_weights g ! i = md" using md(1) by (auto simp: in_set_conv_nth)
    have "node_tree g (cm_oid md) = Some (Some t)" using commit_graph_okD(2) [of g i] assms i md(2) by (auto simp: graph_of_def)
    then have "map_option snd (recorded repo ri (cm_oid md)) = Some t" using assms by (auto simp: graph_of_def split: if_splits)
    then show ?thesis using tree_index_bound by (auto simp: recorded_def split: option.splits)
  qed
  then show ?thesis using assms unfolding graph_valid_def graph_of_def graph_ok_def by blast
qed

lemma parent_of_oid:
  assumes g: "graph_of repo ri commits g" and c: "c < length (node_weights g)"
  shows "parent_of g p c \<longleftrightarrow> p < length (node_weights g) \<and> names_parent repo ri commits (cm_oid (node_weights g ! p)) (cm_oid (node_weights g ! c))"
proof -
  have ok: "graph_ok g" and "oid_edges g = {(p, c). names_parent repo ri commits p c}" using g by (simp_all add: graph_of_def)
  then have e: "names_parent repo ri commits x y \<longleftrightarrow> (x, y) \<in> oid_edges g" for x y by simp
  have inj: "i = j" if "i < length (node_weights g)" "j < length (node_weights g)" "cm_oid (node_weights g ! i) = cm_oid (node_weights g ! j)" for i j
    using commit_graph_okD(1) [OF ok that(1)] commit_graph_okD(1) [OF ok that(2)] unfolding that(3) by simp
  have bound: "p < length (node_weights g) \<and> c < length (node_weights g)" if "(p, c) \<in> set (graph_edges g)" for p c
    using that ok by (auto simp: graph_ok_def)
  show ?thesis
  proof
    assume "parent_of g p c"
    then show "p < length (node_weights g) \<and> names_parent repo ri commits (cm_oid (node_weights g ! p)) (cm_oid (node_weights g ! c))"
      using bound [of p c] by (auto simp: parent_of_def e oid_edges_def intro: rev_image_eqI)
  next
    assume p: "p < length (node_weights g) \<and> names_parent repo ri commits (cm_oid (node_weights g ! p)) (cm_oid (node_weights g ! c))"
    then obtain p' c' where pc: "(p', c') \<in> set (graph_edges g)" "cm_oid (node_weights g ! p') = cm_oid (node_weights g ! p)"
      "cm_oid (node_weights g ! c') = cm_oid (node_weights g ! c)" by (auto simp: e oid_edges_def)
    have "p' = p" "c' = c" using bound [OF pc(1)] p c pc(2,3) by (auto intro: inj)
    then show "parent_of g p c" using pc(1) by (simp add: parent_of_def)
  qed
qed

lemma parents_are_nodes:
  assumes g: "graph_of repo ri commits g" and "names_parent repo ri commits x y"
  shows "\<exists>i < length (node_weights g). cm_oid (node_weights g ! i) = x" "\<exists>j < length (node_weights g). cm_oid (node_weights g ! j) = y"
proof -
  have "(x, y) \<in> oid_edges g" and ok: "graph_ok g" using assms by (simp_all add: graph_of_def)
  then obtain p c where "(p, c) \<in> set (graph_edges g)" "x = cm_oid (node_weights g ! p)" "y = cm_oid (node_weights g ! c)"
    by (auto simp: oid_edges_def)
  then show "\<exists>i < length (node_weights g). cm_oid (node_weights g ! i) = x" "\<exists>j < length (node_weights g). cm_oid (node_weights g ! j) = y"
    using ok by (auto simp: graph_ok_def)
qed

lemma ancestor_oid:
  assumes g: "graph_of repo ri commits g" and c: "c < length (node_weights g)"
  shows "(parent_of g)\<^sup>+\<^sup>+ a c \<longleftrightarrow> a < length (node_weights g) \<and> (names_parent repo ri commits)\<^sup>+\<^sup>+ (cm_oid (node_weights g ! a)) (cm_oid (node_weights g ! c))"
proof
  assume "(parent_of g)\<^sup>+\<^sup>+ a c"
  then show "a < length (node_weights g) \<and> (names_parent repo ri commits)\<^sup>+\<^sup>+ (cm_oid (node_weights g ! a)) (cm_oid (node_weights g ! c))"
    using c
  proof (induction rule: tranclp_induct)
    case (base y)
    then show ?case using parent_of_oid [OF g base(2)] by auto
  next
    case (step y z)
    then show ?case using parent_of_oid [OF g step(4)] by (auto intro: tranclp.trancl_into_trancl)
  qed
next
  assume a: "a < length (node_weights g) \<and> (names_parent repo ri commits)\<^sup>+\<^sup>+ (cm_oid (node_weights g ! a)) (cm_oid (node_weights g ! c))"
  have "\<forall>c < length (node_weights g). cm_oid (node_weights g ! c) = y \<longrightarrow> (parent_of g)\<^sup>+\<^sup>+ a c"
    if "(names_parent repo ri commits)\<^sup>+\<^sup>+ (cm_oid (node_weights g ! a)) y" for y
    using that
  proof (induction rule: tranclp_induct)
    case (base y)
    then show ?case using parent_of_oid [OF g] a by blast
  next
    case (step y z)
    obtain j where j: "j < length (node_weights g)" "cm_oid (node_weights g ! j) = y" using parents_are_nodes(1) [OF g step(2)] by blast
    show ?case
    proof (intro allI impI)
      fix c assume "c < length (node_weights g)" "cm_oid (node_weights g ! c) = z"
      then have "parent_of g j c" using parent_of_oid [OF g, of c j] j step(2) by simp
      moreover have "(parent_of g)\<^sup>+\<^sup>+ a j" using step(3) j by blast
      ultimately show "(parent_of g)\<^sup>+\<^sup>+ a c" by (rule tranclp.trancl_into_trancl [rotated])
    qed
  qed
  then show "(parent_of g)\<^sup>+\<^sup>+ a c" using c a by blast
qed

lemma acyclic_oid:
  assumes g: "graph_of repo ri commits g"
  shows "acyclicP (parent_of g) \<longleftrightarrow> acyclicP (names_parent repo ri commits)"
proof -
  have trancl: "(x, y) \<in> {(x, y). r x y}\<^sup>+ \<longleftrightarrow> r\<^sup>+\<^sup>+ x y" for r :: "'b \<Rightarrow> 'b \<Rightarrow> bool" and x y
    by (simp add: tranclp_unfold)
  have "c < length (node_weights g)" if "(parent_of g)\<^sup>+\<^sup>+ a c" for a c
    using that graph_of_valid [OF g] by (induction rule: tranclp_induct) (auto simp: parent_of_def graph_valid_def)
  moreover have "\<exists>i < length (node_weights g). cm_oid (node_weights g ! i) = x" if "(names_parent repo ri commits)\<^sup>+\<^sup>+ y x" for x y
    using that by (cases rule: tranclp.cases) (use parents_are_nodes [OF g] in blast)+
  ultimately show ?thesis unfolding acyclic_def trancl using ancestor_oid [OF g] by metis
qed

end
