(* ===== verification/Candidate_Summaries.thy ===== *)
theory Candidate_Summaries
  imports Commit_History
begin

unbundle bit_operations_syntax

text \<open>
  The bounded candidate sets of \<open>src/git_candidate_summaries.rs\<close>, which let the traversal of a large history
  skip subtrees, and the compaction of the tree index in \<open>src/git_metadata_graph.rs\<close>.  A summary that is not
  given up names exactly the candidate blobs below its tree, so skipping and compacting lose nothing.

  The trees are summarised by a thread pool whose workers share the results; the model takes them one after
  the other, in any order.
\<close>

section \<open>\<open>summarize\<close>\<close>

definition LIMIT :: nat where
  "LIMIT = 4"

record intern =
  in_ids :: "nat list \<rightharpoonup> summary"
  in_sets :: "nat list list"

record summary_state =
  ss_states :: "summary list"
  ss_intern :: intern

text \<open>\<open>merge\<close>: whether the candidates still fit, and the candidates; \<open>None\<close> is a panic.\<close>

definition merge :: "summary \<Rightarrow> nat list \<Rightarrow> intern \<Rightarrow> (bool \<times> nat list) option" where
  "merge state out intern =
     (if state = UNKNOWN \<or> state = OVERFLOW then Some (False, out)
      else
        map_option (\<lambda>added. let out = remdups_adj (sort (out @ added)) in (length out \<le> LIMIT, out))
          (if state = CLEAN then Some []
           else if state AND MULTI = 0 then Some [unat (state - 3)]
           else slice_get (in_sets intern) (unat (state AND NOT MULTI))))"

text \<open>The loop over the entries of a tree: whether the tree is given up, its own candidates, its subtrees.\<close>

fun scan_entries ::
  "repository_index \<Rightarrow> intern \<Rightarrow> tree_entry option list \<Rightarrow> nat list \<Rightarrow> nat list \<Rightarrow> (bool \<times> nat list \<times> nat list) gitm" where
  "scan_entries ri intern [] ids children = git_ok (False, ids, children)"
| "scan_entries ri intern (entry # entries) ids children = timed
     (case entry of
        None \<Rightarrow> git_ok (True, ids, children)
      | Some e \<Rightarrow>
          (case te_kind e of
             EntryTree \<Rightarrow>
               (case get_tree_index ri (te_oid e) of
                  Some child \<Rightarrow> scan_entries ri intern entries ids (children @ [child])
                | None \<Rightarrow> scan_entries ri intern entries ids children)
           | EntryLink \<Rightarrow> scan_entries ri intern entries ids children
           | EntryCommit \<Rightarrow> scan_entries ri intern entries ids children
           | _ \<Rightarrow>
               (case get_blob_index ri (te_oid e) of
                  None \<Rightarrow> scan_entries ri intern entries ids children
                | Some idx \<Rightarrow>
                    if unat (MULTI - 3) \<le> idx then git_ok (True, ids, children)
                    else
                      (case merge (word_of_nat idx + 3) ids intern of
                         None \<Rightarrow> ret (Inl Panicked)
                       | Some (True, ids) \<Rightarrow> scan_entries ri intern entries ids children
                       | Some (False, ids) \<Rightarrow> git_ok (True, ids, children)))))"

text \<open>The summary of a set of candidates, interned when it has several.\<close>

definition summary_of :: "nat list \<Rightarrow> intern \<Rightarrow> summary \<times> intern" where
  "summary_of ids intern =
     (if ids = [] then (CLEAN, intern)
      else if length ids = 1 then (word_of_nat (ids ! 0) + 3, intern)
      else
        case in_ids intern ids of
          Some i \<Rightarrow> (i, intern)
        | None \<Rightarrow>
            if unat MULTI \<le> length (in_sets intern) then (OVERFLOW, intern)
            else
              let i = MULTI OR word_of_nat (length (in_sets intern)) in
              (i, intern\<lparr>in_sets := in_sets intern @ [ids], in_ids := (in_ids intern)(ids \<mapsto> i)\<rparr>))"

definition MAX_DEPTH :: nat where
  "MAX_DEPTH = 64"

function summarize :: "git_env \<Rightarrow> repository_index \<Rightarrow> nat \<Rightarrow> nat \<Rightarrow> summary_state \<Rightarrow> (summary \<times> summary_state) gitm"
  and summarize_children ::
    "git_env \<Rightarrow> repository_index \<Rightarrow> nat \<Rightarrow> nat list \<Rightarrow> nat list \<Rightarrow> summary_state \<Rightarrow> (bool \<times> nat list \<times> summary_state) gitm" where
  "summarize env ri depth tree st =
     (case slice_get (ss_states st) tree of
        None \<Rightarrow> ret (Inl Panicked)
      | Some cached \<Rightarrow>
          if cached \<noteq> UNKNOWN then git_ok (cached, st)
          else timed
            (if MAX_DEPTH \<le> depth then git_ok (OVERFLOW, st)
             else
               case get_tree_oid ri tree of
                 None \<Rightarrow> ret (Inl Panicked)
               | Some oid \<Rightarrow>
                   and_then
                     (case find_tree_iter env oid of
                        None \<Rightarrow> git_ok (True, [], [])
                      | Some entries \<Rightarrow> scan_entries ri (ss_intern st) entries [] [])
                     (\<lambda>(overflow, ids, children).
                        and_then
                          (if overflow then git_ok (True, ids, st)
                           else summarize_children env ri (Suc depth) children ids st)
                          (\<lambda>(overflow, ids, st).
                             case (if overflow then (OVERFLOW, ss_intern st) else summary_of ids (ss_intern st)) of
                               (result, intern) \<Rightarrow>
                                 git_ok (result, st\<lparr>ss_states := (ss_states st)[tree := result], ss_intern := intern\<rparr>)))))"
| "summarize_children env ri depth [] ids st = git_ok (False, ids, st)"
| "summarize_children env ri depth (child # children) ids st =
     and_then (summarize env ri depth child st)
       (\<lambda>(state, st).
          case merge state ids (ss_intern st) of
            None \<Rightarrow> ret (Inl Panicked)
          | Some (True, ids) \<Rightarrow> summarize_children env ri depth children ids st
          | Some (False, ids) \<Rightarrow> git_ok (True, ids, st))"
  by pat_completeness auto
termination
  by (relation "measures [\<lambda>x. case x of Inl (env, ri, depth, tree, st) \<Rightarrow> Suc MAX_DEPTH - depth
                                     | Inr (env, ri, depth, children, ids, st) \<Rightarrow> Suc MAX_DEPTH - depth,
                          \<lambda>x. case x of Inl _ \<Rightarrow> 0 | Inr (env, ri, depth, children, ids, st) \<Rightarrow> Suc (length children)]")
    (auto simp: MAX_DEPTH_def)

declare summarize.simps [simp del]

section \<open>\<open>CandidateSummaries\<close>\<close>

definition build :: "nat list \<Rightarrow> git_env \<Rightarrow> repository_index \<Rightarrow> candidate_summaries gitm" where
  "build order env ri =
     and_then
       (fold_git (\<lambda>i st. and_then (or_panic (object_idx_new i)) (\<lambda>i. and_then (summarize env ri 0 i st) (\<lambda>(_, st). git_ok st)))
         order
         \<lparr>ss_states = replicate (length (idx_to_oid (ri_trees ri))) UNKNOWN, ss_intern = \<lparr>in_ids = Map.empty, in_sets = []\<rparr>\<rparr>)
       (\<lambda>st. git_ok \<lparr>cs_trees = ss_states st, cs_sets = in_sets (ss_intern st)\<rparr>)"

definition relevant :: "candidate_summaries \<Rightarrow> nat set" where
  "relevant cs = set (filter (\<lambda>i. cs_trees cs ! i \<noteq> CLEAN) [0..<length (cs_trees cs)])"

definition summaries_retain :: "nat set \<Rightarrow> candidate_summaries \<Rightarrow> candidate_summaries" where
  "summaries_retain selected cs =
     cs\<lparr>cs_trees := retain (map (\<lambda>i. i \<in> selected) [0..<length (cs_trees cs)]) (cs_trees cs)\<rparr>"

definition prepare_candidate_trees :: "nat list \<Rightarrow> git_env \<Rightarrow> repository_index \<Rightarrow> repository_index gitm" where
  "prepare_candidate_trees order env ri =
     and_then (build order env ri)
       (\<lambda>summaries. git_ok (ri\<lparr>ri_candidate_trees := Some (relevant summaries), ri_candidate_summaries := Some summaries\<rparr>))"

section \<open>What a summary stands for\<close>

lemma MULTI_eq: "MULTI = 2 ^ 31" "unat MULTI = 2 ^ 31" "unat (MULTI - 3) = 2 ^ 31 - 3"
  by (simp_all add: MULTI_def)

lemma bit_MULTI: "bit MULTI k \<longleftrightarrow> k = 31"
  unfolding MULTI_eq(1) bit_exp_iff by auto

lemma MULTI_bit: "w AND MULTI = 0 \<longleftrightarrow> \<not> bit w 31" for w :: summary
  using and_exp_eq_0_iff_not_bit [of w 31] by (simp only: MULTI_eq)

lemma MULTI_zero: "w AND MULTI = 0 \<longleftrightarrow> unat w < 2 ^ 31" for w :: summary
proof -
  have "w AND MULTI = 0 \<longleftrightarrow> \<not> bit (unat w) 31" by (simp add: MULTI_bit bit_unsigned_iff)
  also have "\<dots> \<longleftrightarrow> even (unat w div 2 ^ 31)" by (simp add: bit_iff_odd)
  also have "\<dots> \<longleftrightarrow> unat w < 2 ^ 31"
  proof -
    have "unat w < 2 ^ 32" using unsigned_less [of w] by simp
    then have "unat w div 2 ^ 31 < 2" by (simp add: div_less_iff_less_mult)
    then have "even (unat w div 2 ^ 31) \<longleftrightarrow> unat w div 2 ^ 31 = 0" by (auto simp: less_2_cases_iff)
    then show ?thesis by (simp add: div_eq_0_iff)
  qed
  finally show ?thesis .
qed

lemma single_summary:
  assumes "i < 2 ^ 31 - 3"
  shows "unat (word_of_nat i + 3 :: summary) = i + 3" "(word_of_nat i + 3 :: summary) AND MULTI = 0" "unat (word_of_nat i + 3 - 3 :: summary) = i"
proof -
  have i: "unat (word_of_nat i :: summary) = i" using assms by (simp add: unsigned_of_nat take_bit_nat_eq_self)
  show u: "unat (word_of_nat i + 3 :: summary) = i + 3" using assms i by (simp add: unat_word_ariths)
  show "(word_of_nat i + 3 :: summary) AND MULTI = 0" unfolding MULTI_zero u using assms by simp
  show "unat (word_of_nat i + 3 - 3 :: summary) = i" using i by simp
qed

lemma set_summary:
  assumes "n < 2 ^ 31"
  shows "(MULTI OR word_of_nat n) AND MULTI \<noteq> (0 :: summary)" "unat ((MULTI OR word_of_nat n) AND NOT MULTI :: summary) = n"
proof -
  let ?w = "word_of_nat n :: summary"
  have n: "unat ?w = n" using assms by (simp add: unsigned_of_nat take_bit_nat_eq_self)
  then have "?w AND MULTI = 0" using assms by (simp add: MULTI_zero)
  then have top: "\<not> bit ?w 31" unfolding MULTI_bit .
  have "bit (MULTI OR ?w) 31" by (simp add: bit_or_iff MULTI_def bit_push_bit_iff)
  then show "(MULTI OR ?w) AND MULTI \<noteq> 0" unfolding MULTI_bit by simp
  have "(MULTI OR ?w) AND NOT MULTI = ?w"
  proof (rule bit_eqI)
    fix k assume "possible_bit TYPE(32 word) k"
    then show "bit ((MULTI OR ?w) AND NOT MULTI) k = bit ?w k"
      using top by (cases "k = 31") (auto simp: bit_simps bit_MULTI)
  qed
  then show "unat ((MULTI OR ?w) AND NOT MULTI) = n" using n by simp
qed

text \<open>The candidates a summary names, if it names any.\<close>

definition denotes :: "nat list list \<Rightarrow> summary \<Rightarrow> nat list option" where
  "denotes sets state =
     (if state = UNKNOWN \<or> state = OVERFLOW then None
      else if state = CLEAN then Some []
      else if state AND MULTI = 0 then Some [unat (state - 3)]
      else slice_get sets (unat (state AND NOT MULTI)))"

definition summary_ok :: "nat list list \<Rightarrow> nat set \<Rightarrow> summary \<Rightarrow> bool" where
  "summary_ok sets blobs state \<longleftrightarrow>
     state = UNKNOWN \<or> state = OVERFLOW \<or> (\<exists>ids. denotes sets state = Some ids \<and> set ids = blobs)"

text \<open>Numbers that leave room for the tags.\<close>

definition small :: "nat list \<Rightarrow> bool" where
  "small ids \<longleftrightarrow> (\<forall>i \<in> set ids. i < 2 ^ 31 - 3)"

definition intern_ok :: "intern \<Rightarrow> bool" where
  "intern_ok intern \<longleftrightarrow>
     list_all small (in_sets intern) \<and> (\<forall>ids w. in_ids intern ids = Some w \<longrightarrow> denotes (in_sets intern) w = Some ids)"

definition summaries_ok :: "git_env \<Rightarrow> repository_index \<Rightarrow> summary_state \<Rightarrow> bool" where
  "summaries_ok env ri st \<longleftrightarrow>
     intern_ok (ss_intern st) \<and> length (ss_states st) = length (idx_to_oid (ri_trees ri)) \<and>
     (\<forall>t < length (ss_states st). summary_ok (in_sets (ss_intern st)) (blobs_under env ri t) (ss_states st ! t))"

lemma denotes_extends: "denotes sets state = Some ids \<Longrightarrow> denotes (sets @ more_sets) state = Some ids"
  by (auto simp: denotes_def slice_get_def nth_append split: if_splits)

lemma summary_ok_extends: "summary_ok sets blobs state \<Longrightarrow> summary_ok (sets @ more_sets) blobs state"
  using denotes_extends by (fastforce simp: summary_ok_def)

lemma denotes_tagged:
  "denotes sets UNKNOWN = None" "denotes sets OVERFLOW = None" "denotes sets CLEAN = Some []"
  "i < 2 ^ 31 - 3 \<Longrightarrow> denotes sets (word_of_nat i + 3) = Some [i]"
  "length sets < 2 ^ 31 \<Longrightarrow> denotes (sets @ [ids]) (MULTI OR word_of_nat (length sets)) = Some ids"
proof -
  show "denotes sets UNKNOWN = None" "denotes sets OVERFLOW = None" "denotes sets CLEAN = Some []"
    by (simp_all add: denotes_def UNKNOWN_def OVERFLOW_def CLEAN_def)
  show "denotes sets (word_of_nat i + 3) = Some [i]" if "i < 2 ^ 31 - 3"
  proof -
    have "word_of_nat i + 3 \<noteq> (w :: summary)" if "unat w \<le> 2" for w
      using that single_summary(1) [OF \<open>i < 2 ^ 31 - 3\<close>] by auto
    then show ?thesis using single_summary [OF \<open>i < 2 ^ 31 - 3\<close>]
      by (simp add: denotes_def UNKNOWN_def OVERFLOW_def CLEAN_def)
  qed
  show "denotes (sets @ [ids]) (MULTI OR word_of_nat (length sets)) = Some ids" if "length sets < 2 ^ 31"
  proof -
    have "UNKNOWN AND MULTI = 0" "OVERFLOW AND MULTI = 0" "CLEAN AND MULTI = 0"
      by (simp_all add: UNKNOWN_def OVERFLOW_def CLEAN_def MULTI_zero)
    then have "MULTI OR word_of_nat (length sets) \<noteq> UNKNOWN" "MULTI OR word_of_nat (length sets) \<noteq> OVERFLOW"
      "MULTI OR word_of_nat (length sets) \<noteq> CLEAN" using set_summary(1) [OF that] by metis+
    then show ?thesis using set_summary [OF that] unfolding denotes_def by (simp only: if_False simp_thms) (simp add: slice_get_def)
  qed
qed

lemma denotes_small: "list_all small sets \<Longrightarrow> denotes sets state = Some ids \<Longrightarrow> small ids"
proof -
  assume a: "list_all small sets" and d: "denotes sets state = Some ids"
  show ?thesis
  proof (cases "state AND MULTI = 0 \<and> state \<noteq> CLEAN")
    case True
    then have "ids = [unat (state - 3)]" "state \<notin> {0, 1, 2}" "unat state < 2 ^ 31"
      using d by (auto simp: denotes_def UNKNOWN_def OVERFLOW_def CLEAN_def MULTI_zero split: if_splits)
    moreover from this have "unat state \<notin> {0, 1, 2}" by (simp add: word_unat_eq_iff)
    ultimately show ?thesis by (simp add: small_def unat_sub_if_size word_le_nat_alt)
  next
    case False
    then show ?thesis using a d by (auto simp: denotes_def small_def list_all_iff slice_get_def split: if_splits)
  qed
qed

lemma merge_denotes:
  "merge state out intern =
     (if state = UNKNOWN \<or> state = OVERFLOW then Some (False, out)
      else map_option (\<lambda>added. (length (remdups_adj (sort (out @ added))) \<le> LIMIT, remdups_adj (sort (out @ added))))
        (denotes (in_sets intern) state))"
  by (simp add: merge_def denotes_def Let_def)

lemma covered_denotes:
  "covered cs tree ancestors =
     (case slice_get (cs_trees cs) tree of
        None \<Rightarrow> None
      | Some state \<Rightarrow> if state = UNKNOWN \<or> state = OVERFLOW then Some False
          else map_option (list_all (\<lambda>cand. cand \<in> ancestors)) (denotes (cs_sets cs) state))"
  by (simp add: covered_def denotes_def split: option.splits)

section \<open>Summaries are exact\<close>

lemma blobs_under_step:
  "blobs_under env ri t = {b. tree_blob env ri t b} \<union> (\<Union>t' \<in> {t'. tree_child env ri t t'}. blobs_under env ri t')"
  unfolding blobs_under_def by (auto elim: converse_rtranclpE intro: converse_rtranclp_into_rtranclp)

lemma set_remdups_adj_sort [simp]: "set (remdups_adj (sort (xs :: nat list))) = set xs"
  by simp

lemma merge_ok:
  assumes "summary_ok (in_sets intern) blobs state" "intern_ok intern" "small out"
  shows "\<exists>ok out'. merge state out intern = Some (ok, out') \<and> (ok \<longrightarrow> set out' = set out \<union> blobs \<and> small out')"
proof (cases "state = UNKNOWN \<or> state = OVERFLOW")
  case True
  then show ?thesis by (auto simp: merge_denotes)
next
  case False
  then obtain ids where ids: "denotes (in_sets intern) state = Some ids" "set ids = blobs" using assms(1) by (auto simp: summary_ok_def)
  have "small ids" using denotes_small [OF _ ids(1)] assms(2) by (simp add: intern_ok_def)
  then show ?thesis using False ids assms(3) by (auto simp: merge_denotes small_def)
qed

text \<open>What the entries of a tree add.\<close>

definition entry_blobs :: "repository_index \<Rightarrow> tree_entry list \<Rightarrow> nat set" where
  "entry_blobs ri es = {b. \<exists>e \<in> set es. is_blob_entry e \<and> get_blob_index ri (te_oid e) = Some b}"

definition entry_trees :: "repository_index \<Rightarrow> tree_entry list \<Rightarrow> nat set" where
  "entry_trees ri es = {t. \<exists>e \<in> set es. te_kind e = EntryTree \<and> get_tree_index ri (te_oid e) = Some t}"

lemma entry_sets_simps [simp]:
  "entry_blobs ri [] = {}" "entry_trees ri [] = {}"
  "entry_blobs ri (e # es) = (if is_blob_entry e then set_option (get_blob_index ri (te_oid e)) else {}) \<union> entry_blobs ri es"
  "entry_trees ri (e # es) = (if te_kind e = EntryTree then set_option (get_tree_index ri (te_oid e)) else {}) \<union> entry_trees ri es"
  by (auto simp: entry_blobs_def entry_trees_def)

lemma scan_entries_ok:
  assumes "small ids"
  shows "\<exists>overflow ids' children'. yields (scan_entries ri intern entries ids children) (Inr (overflow, ids', children')) \<and>
    (\<not> overflow \<longrightarrow> small ids' \<and> set ids' = set ids \<union> entry_blobs ri (flatten entries) \<and>
       set children' = set children \<union> entry_trees ri (flatten entries))"
  using assms
proof (induction entries arbitrary: ids children)
  case Nil
  then show ?case using yields_git_ok by fastforce
next
  case (Cons entry entries)
  have stop: "\<exists>overflow ids' children'. yields (timed (git_ok (True, x, y))) (Inr (overflow, ids', children')) \<and> (\<not> overflow \<longrightarrow> Q ids' children')" for x y Q
    using yields_timed [OF yields_git_ok, of "(True, x, y)"] by blast
  have go: "\<exists>overflow ids' children'. yields (timed (scan_entries ri intern entries ids2 children2)) (Inr (overflow, ids', children')) \<and>
    (\<not> overflow \<longrightarrow> small ids' \<and> set ids' = set ids2 \<union> entry_blobs ri (flatten entries) \<and>
       set children' = set children2 \<union> entry_trees ri (flatten entries))" if "small ids2" for ids2 children2
    using Cons.IH [OF that, of children2] by (elim exE conjE) (intro exI conjI, erule yields_timed)
  show ?case
  proof (cases entry)
    case None
    then show ?thesis using stop [of ids children] by simp
  next
    case (Some e)
    show ?thesis
    proof (cases "is_blob_entry e \<and> get_blob_index ri (te_oid e) \<noteq> None")
      case False
      obtain add where add: "set add = (if te_kind e = EntryTree then set_option (get_tree_index ri (te_oid e)) else {})"
        and eq1: "scan_entries ri intern (entry # entries) ids children = timed (scan_entries ri intern entries ids (children @ add))"
      proof (cases "te_kind e = EntryTree \<and> get_tree_index ri (te_oid e) \<noteq> None")
        case True
        then show ?thesis using that [of "[the (get_tree_index ri (te_oid e))]"] Some by auto
      next
        case False
        then show ?thesis using that [of "[]"] Some \<open>\<not> (is_blob_entry e \<and> _)\<close>
          by (cases "te_kind e") (simp_all add: is_blob_entry_def)
      qed
      have eq: "entry_blobs ri (flatten (entry # entries)) = entry_blobs ri (flatten entries)"
        using Some False by (cases "get_blob_index ri (te_oid e)") simp_all
      have eq2: "set (children @ add) \<union> entry_trees ri (flatten entries) = set children \<union> entry_trees ri (flatten (entry # entries))"
        unfolding Some by (simp add: add Un_assoc)
      show ?thesis unfolding eq1 eq using go [OF Cons.prems, of "children @ add"] unfolding eq2 .
    next
      case True
      then obtain idx where idx: "get_blob_index ri (te_oid e) = Some idx" by auto
      show ?thesis
      proof (cases "unat (MULTI - 3) \<le> idx")
        case True
        then show ?thesis using \<open>is_blob_entry e \<and> _\<close> Some idx stop [of ids children]
          by (cases "te_kind e") (simp_all add: is_blob_entry_def)
      next
        case False
        then have small: "idx < 2 ^ 31 - 3" by (simp add: MULTI_eq)
        have d: "denotes (in_sets intern) (word_of_nat idx + 3) = Some [idx]" by (rule denotes_tagged(4) [OF small])
        then have m: "merge (word_of_nat idx + 3) ids intern =
            Some (length (remdups_adj (sort (ids @ [idx]))) \<le> LIMIT, remdups_adj (sort (ids @ [idx])))"
          by (auto simp: merge_denotes denotes_def)
        have s: "small (remdups_adj (sort (ids @ [idx])))" using Cons.prems small by (auto simp: small_def)
        show ?thesis
        proof (cases "length (remdups_adj (sort (ids @ [idx]))) \<le> LIMIT")
          case True
          then show ?thesis using False \<open>is_blob_entry e \<and> _\<close> Some idx m go [OF s, of children]
            by (cases "te_kind e") (simp_all add: is_blob_entry_def)
        next
          case 2: False
          then show ?thesis using False \<open>is_blob_entry e \<and> _\<close> Some idx m stop
            by (cases "te_kind e") (simp_all add: is_blob_entry_def)
        qed
      qed
    qed
  qed
qed

lemma summary_of_ok:
  assumes "intern_ok intern" "small ids" "summary_of ids intern = (state, intern')"
  shows "intern_ok intern' \<and> (\<exists>zs. in_sets intern' = in_sets intern @ zs) \<and> summary_ok (in_sets intern') (set ids) state"
proof -
  consider "ids = []" | i where "ids = [i]" | w where "ids \<noteq> []" "length ids \<noteq> 1" "in_ids intern ids = Some w"
    | "ids \<noteq> []" "length ids \<noteq> 1" "in_ids intern ids = None" "unat MULTI \<le> length (in_sets intern)"
    | "ids \<noteq> []" "length ids \<noteq> 1" "in_ids intern ids = None" "length (in_sets intern) < 2 ^ 31"
  proof (cases "ids = [] \<or> length ids = 1")
    case False
    then show ?thesis using that(3,4,5) MULTI_eq(2) by (cases "in_ids intern ids") force+
  qed (use that(1,2) in \<open>auto simp: length_Suc_conv\<close>)
  then show ?thesis
  proof cases
    case 5
    let ?s = "MULTI OR word_of_nat (length (in_sets intern))"
    have i: "intern' = intern\<lparr>in_sets := in_sets intern @ [ids], in_ids := (in_ids intern)(ids \<mapsto> ?s)\<rparr>" "state = ?s"
      using assms(3) 5 MULTI_eq(2) by (auto simp: summary_of_def Let_def split: if_splits)
    have d: "denotes (in_sets intern @ [ids]) ?s = Some ids" by (rule denotes_tagged(5) [OF 5(4)])
    then have "intern_ok intern'" using assms(1,2) i(1) denotes_extends by (auto simp: intern_ok_def)
    then show ?thesis using i d by (auto simp: summary_ok_def)
  qed (use assms denotes_tagged in \<open>auto simp: summary_of_def summary_ok_def intern_ok_def small_def\<close>)
qed

definition grown :: "summary_state \<Rightarrow> summary_state \<Rightarrow> bool" where
  "grown st st' \<longleftrightarrow> (\<exists>zs. in_sets (ss_intern st') = in_sets (ss_intern st) @ zs)"

lemma grown_refl: "grown st st"
  by (simp add: grown_def)

lemma grown_trans: "grown a b \<Longrightarrow> grown b c \<Longrightarrow> grown a c"
  by (auto simp: grown_def)

lemma summaries_okD:
  assumes "summaries_ok env ri st"
  shows "intern_ok (ss_intern st)" "length (ss_states st) = length (idx_to_oid (ri_trees ri))"
    "t < length (idx_to_oid (ri_trees ri)) \<Longrightarrow> summary_ok (in_sets (ss_intern st)) (blobs_under env ri t) (ss_states st ! t)"
  using assms by (simp_all add: summaries_ok_def)

text \<open>What a call on a tree, and the loop over subtrees, establish.\<close>

definition tree_summarized :: "git_env \<Rightarrow> repository_index \<Rightarrow> nat \<Rightarrow> nat \<Rightarrow> summary_state \<Rightarrow> bool" where
  "tree_summarized env ri depth tree st \<longleftrightarrow>
     (\<exists>state st'. yields (summarize env ri depth tree st) (Inr (state, st')) \<and> summaries_ok env ri st' \<and> grown st st' \<and>
        summary_ok (in_sets (ss_intern st')) (blobs_under env ri tree) state)"

lemma summarize_children_ok:
  assumes IH: "\<And>tree st. summaries_ok env ri st \<Longrightarrow> tree < length (idx_to_oid (ri_trees ri)) \<Longrightarrow> tree_summarized env ri depth tree st"
    and "summaries_ok env ri st" "set children \<subseteq> {..<length (idx_to_oid (ri_trees ri))}" "small ids"
  shows "\<exists>overflow ids' st'. yields (summarize_children env ri depth children ids st) (Inr (overflow, ids', st')) \<and>
    summaries_ok env ri st' \<and> grown st st' \<and>
    (\<not> overflow \<longrightarrow> small ids' \<and> set ids' = set ids \<union> (\<Union>t \<in> set children. blobs_under env ri t))"
  using assms(2-4)
proof (induction children arbitrary: ids st)
  case Nil
  have "yields (summarize_children env ri depth [] ids st) (Inr (False, ids, st))" by (simp add: yields_git_ok)
  then show ?case using Nil grown_refl by fastforce
next
  case (Cons child children)
  obtain state st1 where s: "yields (summarize env ri depth child st) (Inr (state, st1))" "summaries_ok env ri st1" "grown st st1"
    "summary_ok (in_sets (ss_intern st1)) (blobs_under env ri child) state"
    using IH [OF Cons(2), of child] Cons(3) by (auto simp: tree_summarized_def)
  obtain ok ids1 where m: "merge state ids (ss_intern st1) = Some (ok, ids1)"
    "ok \<longrightarrow> set ids1 = set ids \<union> blobs_under env ri child \<and> small ids1"
    using merge_ok [OF s(4) summaries_okD(1) [OF s(2)] Cons(4)] by blast
  show ?case
  proof (cases ok)
    case False
    have "yields (summarize_children env ri depth (child # children) ids st) (Inr (True, ids1, st1))"
      unfolding summarize_children.simps by (rule yields_and_then [OF s(1)]) (simp add: m(1) False yields_git_ok)
    then show ?thesis using s(2,3) by blast
  next
    case True
    obtain overflow ids' st' where c: "yields (summarize_children env ri depth children ids1 st1) (Inr (overflow, ids', st'))"
      "summaries_ok env ri st'" "grown st1 st'"
      "\<not> overflow \<longrightarrow> small ids' \<and> set ids' = set ids1 \<union> (\<Union>t \<in> set children. blobs_under env ri t)"
      using Cons.IH [OF s(2), of ids1] Cons(3) m(2) True by auto
    have "yields (summarize_children env ri depth (child # children) ids st) (Inr (overflow, ids', st'))"
      unfolding summarize_children.simps by (rule yields_and_then [OF s(1)]) (simp add: m(1) True c(1))
    moreover have "\<not> overflow \<longrightarrow> small ids' \<and> set ids' = set ids \<union> (\<Union>t \<in> set (child # children). blobs_under env ri t)"
      using c(4) m(2) True by auto
    ultimately show ?thesis using c(2) grown_trans [OF s(3) c(3)] by blast
  qed
qed

text \<open>Storing the summary of a tree.\<close>

lemma store_summary:
  assumes st: "summaries_ok env ri st" and intern: "intern_ok intern" "in_sets intern = in_sets (ss_intern st) @ zs"
    and state: "summary_ok (in_sets intern) (blobs_under env ri tree) state"
  shows "summaries_ok env ri (st\<lparr>ss_states := (ss_states st)[tree := state], ss_intern := intern\<rparr>)"
    "grown st (st\<lparr>ss_states := (ss_states st)[tree := state], ss_intern := intern\<rparr>)"
proof -
  note d = summaries_okD [OF st]
  have "summary_ok (in_sets intern) (blobs_under env ri t) ((ss_states st)[tree := state] ! t)" if "t < length (ss_states st)" for t
    using that state summary_ok_extends [OF d(3) [of t]] d(2) intern(2) by (cases "t = tree") auto
  then show "summaries_ok env ri (st\<lparr>ss_states := (ss_states st)[tree := state], ss_intern := intern\<rparr>)"
    using intern(1) d(2) by (simp add: summaries_ok_def)
  show "grown st (st\<lparr>ss_states := (ss_states st)[tree := state], ss_intern := intern\<rparr>)" using intern(2) by (simp add: grown_def)
qed

lemma summarize_ok:
  "summaries_ok env ri st \<Longrightarrow> tree < length (idx_to_oid (ri_trees ri)) \<Longrightarrow> tree_summarized env ri depth tree st"
proof (induction "MAX_DEPTH - depth" arbitrary: depth tree st rule: less_induct)
  case less
  note d = summaries_okD [OF less(2)]
  let ?cached = "ss_states st ! tree"
  have get: "slice_get (ss_states st) tree = Some ?cached" using less(3) d(2) by (simp add: slice_get_def)
  obtain oid where oid: "get_tree_oid ri tree = Some oid" using less(3) by (simp add: get_tree_oid_def get_oid_def slice_get_def)
  show ?case
  proof (cases "?cached \<noteq> UNKNOWN \<or> MAX_DEPTH \<le> depth")
    case True
    let ?r = "if ?cached \<noteq> UNKNOWN then ?cached else OVERFLOW"
    have "yields (summarize env ri depth tree st) (Inr (?r, st))"
      using True get by (simp add: summarize.simps [of env ri depth tree st] yields_git_ok yields_timed)
    moreover have "summary_ok (in_sets (ss_intern st)) (blobs_under env ri tree) ?r" using d(3) [OF less(3)] by (auto simp: summary_ok_def)
    ultimately show ?thesis using less(2) grown_refl unfolding tree_summarized_def by blast
  next
    case False
    let ?scan = "case find_tree_iter env oid of None \<Rightarrow> git_ok (True, [], []) | Some entries \<Rightarrow> scan_entries ri (ss_intern st) entries [] []"
    obtain o1 ids1 children where s: "yields ?scan (Inr (o1, ids1, children))"
      "\<not> o1 \<longrightarrow> small ids1 \<and> set ids1 = entry_blobs ri (tree_entries env ri tree) \<and> set children = entry_trees ri (tree_entries env ri tree)"
    proof (cases "find_tree_iter env oid")
      case None
      then show ?thesis by (intro that [of True "[]" "[]"]) (simp_all add: yields_git_ok)
    next
      case (Some entries)
      then show ?thesis using that scan_entries_ok [of "[]" ri "ss_intern st" entries "[]"] oid
        by (auto simp: small_def tree_entries_def)
    qed
    let ?rest = "if o1 then git_ok (True, ids1, st) else summarize_children env ri (Suc depth) children ids1 st"
    obtain o2 ids2 st2 where c: "yields ?rest (Inr (o2, ids2, st2))" "summaries_ok env ri st2" "grown st st2"
      "\<not> o2 \<longrightarrow> small ids2 \<and> set ids2 = blobs_under env ri tree"
    proof (cases o1)
      case True
      then show ?thesis by (intro that [of True ids1 st]) (simp_all add: yields_git_ok less(2) grown_refl)
    next
      case 2: False
      have IH: "tree_summarized env ri (Suc depth) t st" if "summaries_ok env ri st" "t < length (idx_to_oid (ri_trees ri))" for t st
        by (rule less(1)) (use False that in auto)
      have sub: "set children \<subseteq> {..<length (idx_to_oid (ri_trees ri))}" using s(2) 2 tree_index_bound by (auto simp: entry_trees_def)
      have eq: "set ids1 \<union> (\<Union>t \<in> set children. blobs_under env ri t) = blobs_under env ri tree"
        using s(2) 2 blobs_under_step [of env ri tree] by (auto simp: entry_blobs_def entry_trees_def tree_blob_def tree_child_def)
      obtain o2 ids2 st2 where "yields (summarize_children env ri (Suc depth) children ids1 st) (Inr (o2, ids2, st2))"
        "summaries_ok env ri st2" "grown st st2" "\<not> o2 \<longrightarrow> small ids2 \<and> set ids2 = blobs_under env ri tree"
        using summarize_children_ok [OF IH less(2) sub, of ids1] s(2) 2 unfolding eq by blast
      then show ?thesis using 2 by (intro that [of o2 ids2 st2]) simp_all
    qed
    obtain state intern where r: "(if o2 then (OVERFLOW, ss_intern st2) else summary_of ids2 (ss_intern st2)) = (state, intern)" by fastforce
    have i: "intern_ok intern \<and> (\<exists>zs. in_sets intern = in_sets (ss_intern st2) @ zs) \<and> summary_ok (in_sets intern) (blobs_under env ri tree) state"
    proof (cases o2)
      case True
      then show ?thesis using r summaries_okD(1) [OF c(2)] by (auto simp: summary_ok_def)
    next
      case False
      then show ?thesis using summary_of_ok [OF summaries_okD(1) [OF c(2)], of ids2 state intern] r c(4) by auto
    qed
    let ?st = "st2\<lparr>ss_states := (ss_states st2)[tree := state], ss_intern := intern\<rparr>"
    have "yields (summarize env ri depth tree st) (Inr (state, ?st))"
    proof -
      have tail: "yields (and_then ?rest (\<lambda>(overflow, ids, st). case (if overflow then (OVERFLOW, ss_intern st) else summary_of ids (ss_intern st)) of
          (result, intern) \<Rightarrow> git_ok (result, st\<lparr>ss_states := (ss_states st)[tree := result], ss_intern := intern\<rparr>))) (Inr (state, ?st))"
        by (rule yields_and_then [OF c(1)]) (simp add: r yields_git_ok)
      have cond: "(?cached \<noteq> UNKNOWN) = False" "(MAX_DEPTH \<le> depth) = False" using False by simp_all
      show ?thesis unfolding summarize.simps [of env ri depth tree st] get oid option.case cond if_False
        by (rule yields_timed, rule yields_and_then [OF s(1)]) (use tail in simp)
    qed
    moreover obtain zs where "in_sets intern = in_sets (ss_intern st2) @ zs" using i by blast
    ultimately show ?thesis using store_summary [OF c(2), of intern zs tree state] i grown_trans [OF c(3)]
      unfolding tree_summarized_def by fastforce
  qed
qed

section \<open>The index with summaries\<close>

definition exact_summaries :: "git_env \<Rightarrow> repository_index \<Rightarrow> candidate_summaries \<Rightarrow> bool" where
  "exact_summaries env ri cs \<longleftrightarrow>
     length (cs_trees cs) = length (idx_to_oid (ri_trees ri)) \<and>
     (\<forall>t < length (cs_trees cs). summary_ok (cs_sets cs) (blobs_under env ri t) (cs_trees cs ! t))"

lemma build_ok:
  assumes n: "length (idx_to_oid (ri_trees ri)) \<le> Suc u32_max" and order: "set order \<subseteq> {..<length (idx_to_oid (ri_trees ri))}"
  shows "\<exists>cs. yields (build order env ri) (Inr cs) \<and> exact_summaries env ri cs"
proof -
  let ?st = "\<lparr>ss_states = replicate (length (idx_to_oid (ri_trees ri))) UNKNOWN, ss_intern = \<lparr>in_ids = Map.empty, in_sets = []\<rparr>\<rparr>"
  let ?f = "\<lambda>i st. and_then (or_panic (object_idx_new i)) (\<lambda>i. and_then (summarize env ri 0 i st) (\<lambda>(_, st). git_ok st))"
  have step: "\<exists>st'. yields (?f i st) (Inr st') \<and> summaries_ok env ri st'" if i: "i \<in> set order" and st: "summaries_ok env ri st" for i st
  proof -
    have "i < length (idx_to_oid (ri_trees ri))" using i order by auto
    then obtain state st' where s: "yields (summarize env ri 0 i st) (Inr (state, st'))" "summaries_ok env ri st'"
      using summarize_ok [OF st] unfolding tree_summarized_def by blast
    have idx: "yields (or_panic (object_idx_new i)) (Inr i)" using i order n
      by (simp add: object_idx_new_def subset_iff) (metis less_Suc_eq_le order_less_le_trans yields_or_panic)
    have "yields (and_then (summarize env ri 0 i st) (\<lambda>(_, st). git_ok st)) (Inr st')"
      by (rule yields_and_then [OF s(1)]) (simp add: yields_git_ok)
    then have "yields (?f i st) (Inr st')" by (rule yields_and_then [OF idx])
    then show ?thesis using s(2) by blast
  qed
  have "summaries_ok env ri ?st" by (simp add: summaries_ok_def intern_ok_def summary_ok_def)
  then obtain st where st: "yields (fold_git ?f order ?st) (Inr st)" "summaries_ok env ri st"
    using fold_git_inv [of "\<lambda>_. summaries_ok env ri" ?st order ?f] step by blast
  have "yields (build order env ri) (Inr \<lparr>cs_trees = ss_states st, cs_sets = in_sets (ss_intern st)\<rparr>)"
    unfolding build_def by (rule yields_and_then [OF st(1)]) (rule yields_git_ok)
  then show ?thesis using st(2) by (auto simp: exact_summaries_def summaries_ok_def)
qed

lemma covered_exact:
  assumes "exact_summaries env ri cs" "t < length (idx_to_oid (ri_trees ri))"
  shows "\<exists>c. covered cs t ancestors = Some c \<and> (c \<longrightarrow> blobs_under env ri t \<subseteq> ancestors) \<and>
    (cs_trees cs ! t \<noteq> UNKNOWN \<and> cs_trees cs ! t \<noteq> OVERFLOW \<longrightarrow> c = (blobs_under env ri t \<subseteq> ancestors))"
    "t \<notin> relevant cs \<Longrightarrow> blobs_under env ri t = {}"
proof -
  have ok: "t < length (cs_trees cs)" "summary_ok (cs_sets cs) (blobs_under env ri t) (cs_trees cs ! t)"
    using assms by (auto simp: exact_summaries_def)
  then show "\<exists>c. covered cs t ancestors = Some c \<and> (c \<longrightarrow> blobs_under env ri t \<subseteq> ancestors) \<and>
    (cs_trees cs ! t \<noteq> UNKNOWN \<and> cs_trees cs ! t \<noteq> OVERFLOW \<longrightarrow> c = (blobs_under env ri t \<subseteq> ancestors))"
    by (auto simp: covered_denotes slice_get_def summary_ok_def list_all_iff)
  show "blobs_under env ri t = {}" if "t \<notin> relevant cs"
  proof -
    have "cs_trees cs ! t = CLEAN" using that ok(1) by (simp add: relevant_def)
    moreover have "CLEAN \<noteq> UNKNOWN" "CLEAN \<noteq> OVERFLOW" by (simp_all add: CLEAN_def UNKNOWN_def OVERFLOW_def)
    ultimately show ?thesis using ok(2) by (auto simp: summary_ok_def denotes_tagged)
  qed
qed

lemma blobs_under_cong:
  assumes "ri_trees ri = ri_trees ri'" "ri_blobs ri = ri_blobs ri'"
  shows "blobs_under env ri = blobs_under env ri'" "tree_entries env ri = tree_entries env ri'"
    "tree_child env ri = tree_child env ri'" "names_of env ri = names_of env ri'"
proof -
  show e: "tree_entries env ri = tree_entries env ri'" using assms by (simp add: fun_eq_iff tree_entries_def get_tree_oid_def)
  then show c: "tree_child env ri = tree_child env ri'" using assms by (simp add: fun_eq_iff tree_child_def get_tree_index_def)
  show "names_of env ri = names_of env ri'" using e assms by (simp add: names_of_def)
  have "tree_blob env ri = tree_blob env ri'" using assms e by (simp add: fun_eq_iff tree_blob_def get_blob_index_def)
  then show "blobs_under env ri = blobs_under env ri'" using c unfolding blobs_under_def by presburger
qed

lemma prepare_candidate_trees_ok:
  assumes "length (idx_to_oid (ri_trees ri)) \<le> Suc u32_max" "set order \<subseteq> {..<length (idx_to_oid (ri_trees ri))}"
  shows "\<exists>cs. yields (prepare_candidate_trees order env ri)
      (Inr (ri\<lparr>ri_candidate_trees := Some (relevant cs), ri_candidate_summaries := Some cs\<rparr>)) \<and> exact_summaries env ri cs"
proof -
  obtain cs where cs: "yields (build order env ri) (Inr cs)" "exact_summaries env ri cs" using build_ok [OF assms] by blast
  have "yields (prepare_candidate_trees order env ri) (Inr (ri\<lparr>ri_candidate_trees := Some (relevant cs), ri_candidate_summaries := Some cs\<rparr>))"
    unfolding prepare_candidate_trees_def by (rule yields_and_then [OF cs(1)]) (rule yields_git_ok)
  then show ?thesis using cs(2) by blast
qed

lemma prunes_soundly_summaries:
  assumes "exact_summaries env ri cs"
  shows "prunes_soundly env (ri\<lparr>ri_candidate_trees := Some (relevant cs), ri_candidate_summaries := Some cs\<rparr>)"
    (is "prunes_soundly env ?ri")
proof -
  have "blobs_under env ?ri = blobs_under env ri" by (rule blobs_under_cong) simp_all
  moreover have "\<exists>c. covered cs t ancestors = Some c \<and> (c \<longrightarrow> blobs_under env ri t \<subseteq> ancestors)"
    if "t < length (idx_to_oid (ri_trees ri))" for t ancestors using covered_exact(1) [OF assms that] by blast
  ultimately show ?thesis using covered_exact(2) [OF assms]
    by (simp add: prunes_soundly_def is_candidate_tree_def tree_is_covered_def)
qed

text \<open>
  C14. Preparing the candidate trees of a large history ends without an error, whatever the order of the work and
  also when trees are unreadable or nested deeper than the limit, and skipping by summaries loses nothing: a tree
  that is not a candidate has no candidate blob below it, and a tree counts as covered only if the ancestry of the
  commit has every candidate below it.  When the summary was not given up, coverage is exact.
\<close>

theorem summaries_skip_soundly:
  assumes "length (idx_to_oid (ri_trees ri)) \<le> 2 ^ 32" "set order = {..<length (idx_to_oid (ri_trees ri))}"
  shows "\<exists>ri' cs. yields (prepare_candidate_trees order env ri) (Inr ri') \<and> ri_candidate_summaries ri' = Some cs \<and>
    (\<forall>t < length (idx_to_oid (ri_trees ri)).
       (\<not> is_candidate_tree ri' t \<longrightarrow> blobs_under env ri t = {}) \<and>
       (\<forall>seen. \<exists>c. tree_is_covered ri' t seen = Some c \<and> (c \<longrightarrow> blobs_under env ri t \<subseteq> seen_blobs seen) \<and>
          (cs_trees cs ! t \<notin> {UNKNOWN, OVERFLOW} \<longrightarrow> c = (blobs_under env ri t \<subseteq> seen_blobs seen))))"
proof -
  obtain cs where cs: "yields (prepare_candidate_trees order env ri)
      (Inr (ri\<lparr>ri_candidate_trees := Some (relevant cs), ri_candidate_summaries := Some cs\<rparr>))" "exact_summaries env ri cs"
    using prepare_candidate_trees_ok [of ri order env] assms by (auto simp: u32_max_def)
  show ?thesis
  proof (intro exI conjI, rule cs(1))
    show "\<forall>t < length (idx_to_oid (ri_trees ri)).
       (\<not> is_candidate_tree (ri\<lparr>ri_candidate_trees := Some (relevant cs), ri_candidate_summaries := Some cs\<rparr>) t \<longrightarrow> blobs_under env ri t = {}) \<and>
       (\<forall>seen. \<exists>c. tree_is_covered (ri\<lparr>ri_candidate_trees := Some (relevant cs), ri_candidate_summaries := Some cs\<rparr>) t seen = Some c \<and>
          (c \<longrightarrow> blobs_under env ri t \<subseteq> seen_blobs seen) \<and>
          (cs_trees cs ! t \<notin> {UNKNOWN, OVERFLOW} \<longrightarrow> c = (blobs_under env ri t \<subseteq> seen_blobs seen)))"
      using covered_exact [OF cs(2)] by (simp add: is_candidate_tree_def tree_is_covered_def)
  qed simp
qed

theorem summaries_skip_soundly_witness:
  "\<exists>ri' cs. yields (prepare_candidate_trees [1, 0] sample_env sample_index) (Inr ri') \<and> ri_candidate_summaries ri' = Some cs \<and>
    (\<not> is_candidate_tree ri' 1 \<longrightarrow> blobs_under sample_env sample_index 1 = {})"
proof -
  have n: "length (idx_to_oid (ri_trees sample_index)) = 2" by (simp add: sample_index_def)
  have "set [1, 0] = {..<length (idx_to_oid (ri_trees sample_index))}" unfolding n by auto
  then show ?thesis using summaries_skip_soundly [of sample_index "[1, 0]" sample_env] n by force
qed

end
