(* ===== verification/Tree_Compaction.thy ===== *)
theory Tree_Compaction
  imports Candidate_Summaries
begin

text \<open>
  The compaction of the tree index to candidate trees: \<open>compact_candidate_trees\<close> of \<open>src/git_metadata_graph.rs\<close>.
  Trees get new numbers, the commit graph is renumbered, and every commit keeps its candidate blobs.
\<close>

section \<open>\<open>compact_candidate_trees\<close>\<close>

text \<open>The loop that renumbers the selected trees.\<close>

definition compact_tree :: "nat set \<Rightarrow> nat \<times> oid \<Rightarrow> nat list \<times> object_id_bimap \<Rightarrow> (nat list \<times> object_id_bimap) gitm" where
  "compact_tree selected = (\<lambda>(i, oid) (remap, trees).
     if i \<in> selected then
       and_then (or_panic (object_idx_new (length (idx_to_oid trees)))) (\<lambda>new.
         and_then (or_panic (bimap_insert oid trees)) (\<lambda>trees. git_ok (remap[i := new], trees)))
     else git_ok (remap, trees))"

text \<open>The loop over the commits of the graph.\<close>

definition remap_commit :: "nat list \<Rightarrow> commit_metadata \<Rightarrow> commit_metadata gitm" where
  "remap_commit remap md =
     (case cm_tree_idx md of
        None \<Rightarrow> git_ok md
      | Some old \<Rightarrow>
          and_then (or_panic (slice_get remap old))
            (\<lambda>new. git_ok (md\<lparr>cm_tree_idx := if new \<noteq> u32_max then Some new else None\<rparr>)))"

definition compact_candidate_trees ::
  "repository_index \<Rightarrow> git_metadata_graph \<Rightarrow> (repository_index \<times> git_metadata_graph) gitm" where
  "compact_candidate_trees ri g =
     (case ri_candidate_trees ri of
        None \<Rightarrow> git_ok (ri, g)
      | Some selected \<Rightarrow>
          let original_count = length (idx_to_oid (ri_trees ri)) in
          if card selected = original_count then git_ok (ri\<lparr>ri_candidate_trees := None\<rparr>, g)
          else if u32_max < original_count then git_ok (ri, g)
          else
            and_then (fold_git (compact_tree selected) (zip [0..<original_count] (idx_to_oid (ri_trees ri)))
                        (replicate original_count u32_max, bimap_empty))
              (\<lambda>(remap, trees).
                 and_then (fold_git (\<lambda>md commits. and_then (remap_commit remap md) (\<lambda>md. git_ok (commits @ [md]))) (node_weights g) [])
                   (\<lambda>commits. git_ok
                      (ri\<lparr>ri_candidate_trees := None, ri_trees := trees,
                          ri_candidate_summaries := map_option (summaries_retain selected) (ri_candidate_summaries ri)\<rparr>,
                       g\<lparr>node_weights := commits\<rparr>))))"

section \<open>The new numbers\<close>

text \<open>The selected trees below a number, in order.\<close>

definition selected_below :: "nat set \<Rightarrow> nat \<Rightarrow> nat list" where
  "selected_below selected n = filter (\<lambda>i. i \<in> selected) [0..<n]"

definition new_number :: "nat set \<Rightarrow> nat \<Rightarrow> nat" where
  "new_number selected i = length (selected_below selected i)"

lemma selected_below_simps [simp]:
  "selected_below selected 0 = []"
  "selected_below selected (Suc n) = selected_below selected n @ (if n \<in> selected then [n] else [])"
  by (simp_all add: selected_below_def)

lemma set_selected_below: "set (selected_below selected n) = {i \<in> selected. i < n}"
  by (auto simp: selected_below_def)

lemma selected_below_le: "length (selected_below selected n) \<le> n"
  by (simp add: selected_below_def) (metis diff_zero length_filter_le length_upt)

lemma nth_new_number: "i \<in> selected \<Longrightarrow> i < n \<Longrightarrow> new_number selected i < length (selected_below selected n) \<and>
    selected_below selected n ! new_number selected i = i"
proof (induction n)
  case (Suc n)
  then show ?case by (cases "i = n") (auto simp: new_number_def nth_append)
qed simp

lemma renumber_trees:
  assumes ok: "distinct oids" "length oids \<le> u32_max"
  shows "\<exists>remap trees. yields (fold_git (compact_tree selected) (zip [0..<length oids] oids) (replicate (length oids) u32_max, bimap_empty))
      (Inr (remap, trees)) \<and>
    bimap_ok trees \<and> idx_to_oid trees = map (\<lambda>i. oids ! i) (selected_below selected (length oids)) \<and>
    remap = map (\<lambda>i. if i \<in> selected then new_number selected i else u32_max) [0..<length oids]"
proof -
  let ?n = "length oids"
  define Q where "Q k st \<longleftrightarrow> bimap_ok (snd st) \<and> idx_to_oid (snd st) = map (\<lambda>i. oids ! i) (selected_below selected k) \<and>
    fst st = map (\<lambda>i. if i < k \<and> i \<in> selected then new_number selected i else u32_max) [0..<?n]" for k st
  have "\<exists>s'. yields (compact_tree selected (k, oids ! k) (remap, trees)) (Inr s') \<and> Q (Suc k) s'" if k: "k < ?n" and Q: "Q k (remap, trees)" for k remap trees
  proof (cases "k \<in> selected")
    case False
    then have "yields (compact_tree selected (k, oids ! k) (remap, trees)) (Inr (remap, trees))"
      by (simp add: compact_tree_def yields_git_ok)
    moreover have "i < Suc k \<and> i \<in> selected \<longleftrightarrow> i < k \<and> i \<in> selected" for i using False by (auto simp: less_Suc_eq)
    ultimately show ?thesis using Q False by (auto simp: Q_def)
  next
    case True
    have q: "bimap_ok trees" "idx_to_oid trees = map (\<lambda>i. oids ! i) (selected_below selected k)"
      "remap = map (\<lambda>i. if i < k \<and> i \<in> selected then new_number selected i else u32_max) [0..<?n]" using Q by (simp_all add: Q_def)
    have len: "length (idx_to_oid trees) \<le> u32_max" using q(2) selected_below_le [of selected k] k ok(2) by simp
    then obtain trees' where t: "bimap_insert (oids ! k) trees = Some trees'" using bimap_insert_succeeds by blast
    have new: "oids ! k \<notin> set (idx_to_oid trees)"
      using k ok(1) q(2) by (auto simp: set_selected_below nth_eq_iff_index_eq)
    have t': "bimap_ok trees'" "idx_to_oid trees' = idx_to_oid trees @ [oids ! k]" using bimap_insert_ok [OF q(1) t] new by simp_all
    have "yields (compact_tree selected (k, oids ! k) (remap, trees)) (Inr (remap[k := length (idx_to_oid trees)], trees'))"
      unfolding compact_tree_def using True len t
      by (simp add: object_idx_new_def) (rule yields_and_then [OF yields_or_panic], rule yields_and_then [OF yields_or_panic], rule yields_git_ok)
    moreover have "Q (Suc k) (remap[k := length (idx_to_oid trees)], trees')"
      using t' q k True by (auto simp: Q_def new_number_def less_Suc_eq nth_list_update intro!: nth_equalityI)
    ultimately show ?thesis by blast
  qed
  then have step: "\<exists>s'. yields (compact_tree selected (zip [0..<?n] oids ! k) s) (Inr s') \<and> Q (Suc k) s'" if "k < length (zip [0..<?n] oids)" "Q k s" for k s
    using that by (cases s) auto
  have init: "Q 0 (replicate ?n u32_max, bimap_empty)"
    by (auto simp: Q_def bimap_ok_empty map_replicate_const) (simp add: bimap_empty_def)
  obtain s where s: "yields (fold_git (compact_tree selected) (zip [0..<?n] oids) (replicate ?n u32_max, bimap_empty)) (Inr s)"
      "Q (length (zip [0..<?n] oids)) s"
    using fold_git_upto [of Q _ "zip [0..<?n] oids" "compact_tree selected", OF init step] by blast
  obtain remap trees where p: "s = (remap, trees)" by fastforce
  have q: "bimap_ok trees" "idx_to_oid trees = map (\<lambda>i. oids ! i) (selected_below selected ?n)"
    "remap = map (\<lambda>i. if i < ?n \<and> i \<in> selected then new_number selected i else u32_max) [0..<?n]"
    using s(2) by (simp_all add: Q_def p)
  have "remap = map (\<lambda>i. if i \<in> selected then new_number selected i else u32_max) [0..<?n]" unfolding q(3) by simp
  then show ?thesis using s(1) q(1,2) unfolding p by blast
qed

text \<open>The renumbered graph.\<close>

definition renumber_commit :: "nat set \<Rightarrow> commit_metadata \<Rightarrow> commit_metadata" where
  "renumber_commit selected md =
     md\<lparr>cm_tree_idx := (case cm_tree_idx md of None \<Rightarrow> None | Some t \<Rightarrow> if t \<in> selected then Some (new_number selected t) else None)\<rparr>"

lemma remap_commit_ok:
  assumes "remap = map (\<lambda>i. if i \<in> selected then new_number selected i else u32_max) [0..<n]" "n \<le> u32_max"
    and "\<forall>t. cm_tree_idx md = Some t \<longrightarrow> t < n"
  shows "yields (remap_commit remap md) (Inr (renumber_commit selected md))"
proof (cases "cm_tree_idx md")
  case None
  then have "renumber_commit selected md = md" by (cases md) (simp add: renumber_commit_def)
  then show ?thesis using None by (simp add: remap_commit_def yields_git_ok)
next
  case (Some t)
  then have t: "t < n" using assms(3) by simp
  then have r: "slice_get remap t = Some (if t \<in> selected then new_number selected t else u32_max)" by (simp add: assms(1) slice_get_def)
  have "new_number selected t < u32_max" using selected_below_le [of selected t] t assms(2) by (simp add: new_number_def)
  then show ?thesis unfolding remap_commit_def Some r option.case
    by (intro yields_and_then [OF yields_or_panic]) (simp add: renumber_commit_def Some yields_git_ok)
qed

lemma remap_commits_ok:
  assumes "remap = map (\<lambda>i. if i \<in> selected then new_number selected i else u32_max) [0..<n]" "n \<le> u32_max"
    and "\<forall>md \<in> set mds. \<forall>t. cm_tree_idx md = Some t \<longrightarrow> t < n"
  shows "yields (fold_git (\<lambda>md commits. and_then (remap_commit remap md) (\<lambda>md. git_ok (commits @ [md]))) mds []) (Inr (map (renumber_commit selected) mds))"
proof -
  let ?f = "\<lambda>md commits. and_then (remap_commit remap md) (\<lambda>md. git_ok (commits @ [md]))"
  have "yields (?f md commits) (Inr (commits @ [renumber_commit selected md]))" if "md \<in> set mds" for md commits
    by (rule yields_and_then [OF remap_commit_ok [OF assms(1,2)]]) (use assms(3) that in blast, rule yields_git_ok)
  then show ?thesis using fold_git_inv [of "\<lambda>pre commits. commits = map (renumber_commit selected) pre" "[]" mds ?f] by auto
qed

section \<open>A compacted index\<close>

text \<open>\<open>ri'\<close> holds the selected trees of \<open>ri\<close>, renumbered, and everything else unchanged.\<close>

definition compacts :: "nat set \<Rightarrow> repository_index \<Rightarrow> repository_index \<Rightarrow> bool" where
  "compacts selected ri ri' \<longleftrightarrow>
     bimap_ok (ri_trees ri) \<and> bimap_ok (ri_trees ri') \<and> ri_blobs ri' = ri_blobs ri \<and>
     idx_to_oid (ri_trees ri') =
       map (\<lambda>i. idx_to_oid (ri_trees ri) ! i) (selected_below selected (length (idx_to_oid (ri_trees ri))))"

definition old_number :: "nat set \<Rightarrow> repository_index \<Rightarrow> nat \<Rightarrow> nat" where
  "old_number selected ri k = selected_below selected (length (idx_to_oid (ri_trees ri))) ! k"

lemma old_number_bound:
  assumes "compacts selected ri ri'" "k < length (idx_to_oid (ri_trees ri'))"
  shows "old_number selected ri k < length (idx_to_oid (ri_trees ri))" "old_number selected ri k \<in> selected"
proof -
  have "old_number selected ri k \<in> set (selected_below selected (length (idx_to_oid (ri_trees ri))))"
    using assms nth_mem by (simp add: old_number_def compacts_def)
  then show "old_number selected ri k < length (idx_to_oid (ri_trees ri))" "old_number selected ri k \<in> selected"
    by (simp_all add: set_selected_below)
qed

lemma compacts_oid: "compacts selected ri ri' \<Longrightarrow> k < length (idx_to_oid (ri_trees ri')) \<Longrightarrow>
    get_tree_oid ri' k = get_tree_oid ri (old_number selected ri k)"
  using old_number_bound by (simp add: get_tree_oid_def get_oid_def slice_get_def) (simp add: compacts_def old_number_def)

lemma compacts_index:
  assumes c: "compacts selected ri ri'"
  shows "get_tree_index ri' oid = Some k \<longleftrightarrow>
    k < length (idx_to_oid (ri_trees ri')) \<and> get_tree_index ri oid = Some (old_number selected ri k)"
proof (cases "k < length (idx_to_oid (ri_trees ri'))")
  case True
  have ok: "bimap_ok (ri_trees ri)" "bimap_ok (ri_trees ri')" using c by (simp_all add: compacts_def)
  show ?thesis using compacts_oid [OF c True] True
    by (simp add: get_tree_index_def get_idx_iff [OF ok(1)] get_idx_iff [OF ok(2)] get_tree_oid_def)
qed (use tree_index_bound in blast)

lemma compacts_entries: "compacts selected ri ri' \<Longrightarrow> k < length (idx_to_oid (ri_trees ri')) \<Longrightarrow>
    tree_entries env ri' k = tree_entries env ri (old_number selected ri k)"
  by (simp add: tree_entries_def compacts_oid)

lemma compacts_child:
  "compacts selected ri ri' \<Longrightarrow> k < length (idx_to_oid (ri_trees ri')) \<Longrightarrow>
   tree_child env ri' k k' \<longleftrightarrow> k' < length (idx_to_oid (ri_trees ri')) \<and> tree_child env ri (old_number selected ri k) (old_number selected ri k')"
  by (auto simp: tree_child_def compacts_entries compacts_index)

lemma compacts_blob:
  "compacts selected ri ri' \<Longrightarrow> k < length (idx_to_oid (ri_trees ri')) \<Longrightarrow>
   tree_blob env ri' k b = tree_blob env ri (old_number selected ri k) b"
  by (simp add: tree_blob_def compacts_entries) (simp add: compacts_def get_blob_index_def)

lemma old_number_new:
  assumes "compacts selected ri ri'" "t \<in> selected" "t < length (idx_to_oid (ri_trees ri))"
  shows "new_number selected t < length (idx_to_oid (ri_trees ri'))" "old_number selected ri (new_number selected t) = t"
  using nth_new_number [OF assms(2,3)] assms(1) by (simp_all add: compacts_def old_number_def)

text \<open>Trees that are not selected hold no candidate, so nothing below the others changes.\<close>

definition drops_only_clean :: "nat set \<Rightarrow> git_env \<Rightarrow> repository_index \<Rightarrow> bool" where
  "drops_only_clean selected env ri \<longleftrightarrow>
     (\<forall>t < length (idx_to_oid (ri_trees ri)). t \<notin> selected \<longrightarrow> blobs_under env ri t = {})"

lemma compacts_blobs_under:
  assumes c: "compacts selected ri ri'" and clean: "drops_only_clean selected env ri" and k: "k < length (idx_to_oid (ri_trees ri'))"
  shows "blobs_under env ri' k = blobs_under env ri (old_number selected ri k)"
proof (intro equalityI subsetI)
  fix b assume "b \<in> blobs_under env ri' k"
  then obtain k' where path: "(tree_child env ri')\<^sup>*\<^sup>* k k'" and b: "tree_blob env ri' k' b" by (auto simp: blobs_under_def)
  from path have "k' < length (idx_to_oid (ri_trees ri')) \<and> (tree_child env ri)\<^sup>*\<^sup>* (old_number selected ri k) (old_number selected ri k')"
    by (induction rule: rtranclp_induct) (use k compacts_child [OF c] in \<open>auto intro: rtranclp.rtrancl_into_rtrancl\<close>)
  then show "b \<in> blobs_under env ri (old_number selected ri k)" using b compacts_blob [OF c] by (auto simp: blobs_under_def)
next
  fix b assume "b \<in> blobs_under env ri (old_number selected ri k)"
  then obtain t' where path: "(tree_child env ri)\<^sup>*\<^sup>* (old_number selected ri k) t'" and b: "tree_blob env ri t' b" by (auto simp: blobs_under_def)
  have "b \<in> blobs_under env ri' k" if "(tree_child env ri)\<^sup>*\<^sup>* x t'" "k < length (idx_to_oid (ri_trees ri'))" "old_number selected ri k = x" for x k
    using that
  proof (induction arbitrary: k rule: converse_rtranclp_induct)
    case base
    then show ?case using b compacts_blob [OF c, of k] by (auto simp: blobs_under_def)
  next
    case (step x y)
    have y: "y < length (idx_to_oid (ri_trees ri))" using step(1) tree_index_bound by (auto simp: tree_child_def)
    have "b \<in> blobs_under env ri y" using step(2) b by (auto simp: blobs_under_def)
    then have "y \<in> selected" using clean y by (auto simp: drops_only_clean_def)
    note new = old_number_new [OF c this y]
    have "tree_child env ri' k (new_number selected y)" using step(1,4,5) new compacts_child [OF c] by simp
    then show ?case using step(3) [OF new] blobs_under_child by blast
  qed
  then show "b \<in> blobs_under env ri' k" using path k by blast
qed

lemma compacts_path:
  assumes c: "compacts selected ri ri'" and k: "k < length (idx_to_oid (ri_trees ri'))" and "blob_at env ri' k oid path"
  shows "blob_at env ri (old_number selected ri k) oid path"
proof -
  have "k' < length (idx_to_oid (ri_trees ri')) \<and> path_to env ri (old_number selected ri k) names (old_number selected ri k')"
    if "path_to env ri' k names k'" for names k'
    using that
  proof (induction rule: path_to.induct)
    case here
    then show ?case using k by (simp add: path_to.here)
  next
    case (down names t e t')
    then show ?case using compacts_entries [OF c] compacts_index [OF c] by (auto intro: path_to.down)
  qed
  then show ?thesis using assms(3) compacts_entries [OF c] unfolding blob_at_def by metis
qed

lemma compacts_names: "compacts selected ri ri' \<Longrightarrow> names_fit env ri \<Longrightarrow> names_fit env ri'"
proof -
  assume c: "compacts selected ri ri'" and fit: "names_fit env ri"
  have "names_of env ri' \<subseteq> names_of env ri"
    using compacts_entries [OF c] old_number_bound [OF c] unfolding names_of_def by fastforce
  then have "(\<Sum>n \<in> names_of env ri'. length n) \<le> (\<Sum>n \<in> names_of env ri. length n)" by (rule sum_mono2 [OF finite_names]) simp
  then show ?thesis using fit by (simp add: names_fit_def)
qed

lemma summaries_retain_nth:
  "k < length (selected_below selected (length (cs_trees cs))) \<Longrightarrow>
   slice_get (cs_trees (summaries_retain selected cs)) k = slice_get (cs_trees cs) (selected_below selected (length (cs_trees cs)) ! k)"
proof -
  have "retain (map (\<lambda>i. i \<in> selected) [0..<length xs]) xs = map (\<lambda>i. xs ! i) (selected_below selected (length xs))" for xs :: "summary list"
  proof (induction xs rule: rev_induct)
    case (snoc x xs)
    have "map (\<lambda>i. (xs @ [x]) ! i) (selected_below selected (length xs)) = map (\<lambda>i. xs ! i) (selected_below selected (length xs))"
      by (auto simp: set_selected_below nth_append)
    then show ?case using snoc by (simp add: retain_def)
  qed (simp add: retain_def)
  moreover assume "k < length (selected_below selected (length (cs_trees cs)))"
  moreover from this have "selected_below selected (length (cs_trees cs)) ! k < length (cs_trees cs)"
    using nth_mem set_selected_below by blast
  ultimately show ?thesis by (simp add: summaries_retain_def slice_get_def)
qed

section \<open>The renumbered history\<close>

abbreviation renumber_graph :: "nat set \<Rightarrow> git_metadata_graph \<Rightarrow> git_metadata_graph" where
  "renumber_graph selected g \<equiv> g\<lparr>node_weights := map (renumber_commit selected) (node_weights g)\<rparr>"

lemma renumber_graph_parent [simp]: "parent_of (renumber_graph selected g) = parent_of g"
  by (simp add: fun_eq_iff parent_of_def)

lemma compacts_commit_blobs:
  assumes c: "compacts selected ri ri'" and clean: "drops_only_clean selected env ri" and valid: "graph_valid ri g"
    and n: "a < length (node_weights g)"
  shows "commit_blobs env ri' (renumber_graph selected g) a = commit_blobs env ri g a"
proof (cases "cm_tree_idx (node_weights g ! a)")
  case None
  then show ?thesis using n by (simp add: commit_blobs_def renumber_commit_def)
next
  case (Some t)
  have t: "t < length (idx_to_oid (ri_trees ri))" using valid Some nth_mem [OF n] by (auto simp: graph_valid_def)
  show ?thesis
  proof (cases "t \<in> selected")
    case True
    then show ?thesis using Some n compacts_blobs_under [OF c clean] old_number_new [OF c True t]
      by (simp add: commit_blobs_def renumber_commit_def)
  next
    case False
    then have "blobs_under env ri t = {}" using clean t by (simp add: drops_only_clean_def)
    then show ?thesis using Some n False by (simp add: commit_blobs_def renumber_commit_def)
  qed
qed

lemma compacts_introduces:
  assumes c: "compacts selected ri ri'" and clean: "drops_only_clean selected env ri" and valid: "graph_valid ri g"
    and n: "a < length (node_weights g)" and i: "introduces env ri' (renumber_graph selected g) a introduced"
  shows "introduces env ri g a introduced"
proof -
  note cb = compacts_commit_blobs [OF c clean valid]
  have "p < length (node_weights g)" if "(parent_of g)\<^sup>+\<^sup>+ p a" for p
    using that valid by (induction rule: tranclp_induct) (auto simp: parent_of_def graph_valid_def)
  then have "ancestor_blobs env ri' (renumber_graph selected g) a = ancestor_blobs env ri g a"
    unfolding ancestor_blobs_def renumber_graph_parent using cb by (intro SUP_cong) auto
  moreover have "get_blob_index ri' = get_blob_index ri" using c by (simp add: compacts_def fun_eq_iff get_blob_index_def)
  moreover have "\<exists>t. cm_tree_idx (node_weights g ! a) = Some t \<and> blob_at env ri t oid path"
    if k: "cm_tree_idx (node_weights (renumber_graph selected g) ! a) = Some k" "blob_at env ri' k oid path" for k oid path
  proof -
    obtain t where t: "cm_tree_idx (node_weights g ! a) = Some t" "t \<in> selected" "k = new_number selected t"
      using k(1) n by (auto simp: renumber_commit_def split: option.splits if_splits)
    have "t < length (idx_to_oid (ri_trees ri))" using valid t(1) nth_mem [OF n] by (auto simp: graph_valid_def)
    then show ?thesis using compacts_path [OF c _ k(2)] old_number_new [OF c t(2)] t by auto
  qed
  ultimately show ?thesis using i cb [OF n] unfolding introduces_def by (auto split: prod.splits) metis+
qed

lemma compacts_reports:
  assumes c: "compacts selected ri ri'" and clean: "drops_only_clean selected env ri" and valid: "graph_valid ri g"
    and r: "reports_introductions env ri' (renumber_graph selected g) result"
  shows "reports_introductions env ri g result"
proof -
  obtain introduced where i: "length introduced = length (node_weights g)"
    "\<forall>a < length (node_weights g). introduces env ri' (renumber_graph selected g) a (introduced ! a)"
    "result = map (\<lambda>(md, introduced). \<lparr>cb_commit_oid = cm_oid md, cb_introduced_blobs = introduced\<rparr>)
       (filter (\<lambda>(md, introduced). introduced \<noteq> []) (zip (map (renumber_commit selected) (node_weights g)) introduced))"
    using r by (auto simp: reports_introductions_def)
  have "result = map (\<lambda>(md, introduced). \<lparr>cb_commit_oid = cm_oid md, cb_introduced_blobs = introduced\<rparr>)
       (filter (\<lambda>(md, introduced). introduced \<noteq> []) (zip (node_weights g) introduced))"
    unfolding i(3) zip_map1 by (simp add: filter_map comp_def case_prod_unfold renumber_commit_def)
  moreover have "\<forall>a < length (node_weights g). introduces env ri g a (introduced ! a)"
    using i(2) compacts_introduces [OF c clean valid] by blast
  ultimately show ?thesis using i(1) unfolding reports_introductions_def by blast
qed

lemma compacts_prunes:
  assumes c: "compacts selected ri ri'" and clean: "drops_only_clean selected env ri" and p: "prunes_soundly env ri"
    and cs: "ri_candidate_trees ri' = None" "ri_candidate_summaries ri' = map_option (summaries_retain selected) (ri_candidate_summaries ri)"
    and len: "\<forall>cs. ri_candidate_summaries ri = Some cs \<longrightarrow> length (cs_trees cs) = length (idx_to_oid (ri_trees ri))"
  shows "prunes_soundly env ri'"
proof -
  have "tree_is_covered ri' k seen = tree_is_covered ri (old_number selected ri k) seen" if "k < length (idx_to_oid (ri_trees ri'))" for k seen
  proof (cases "ri_candidate_summaries ri")
    case None
    then show ?thesis using cs(2) by (simp add: tree_is_covered_def)
  next
    case (Some s)
    have "slice_get (cs_trees (summaries_retain selected s)) k = slice_get (cs_trees s) (old_number selected ri k)"
      using summaries_retain_nth [of k selected s] that c len Some by (simp add: old_number_def compacts_def)
    moreover have "cs_sets (summaries_retain selected s) = cs_sets s" by (simp add: summaries_retain_def)
    ultimately show ?thesis using Some cs(2) by (simp add: tree_is_covered_def covered_def split: option.splits)
  qed
  then show ?thesis using p compacts_blobs_under [OF c clean] old_number_bound [OF c] cs(1)
    unfolding prunes_soundly_def is_candidate_tree_def by simp
qed

text \<open>Dropping the set of candidate trees changes nothing when it held every tree.\<close>

lemma path_to_transfer:
  "path_to env ri root names t \<Longrightarrow> tree_entries env ri' = tree_entries env ri \<Longrightarrow> get_tree_index ri' = get_tree_index ri \<Longrightarrow>
   path_to env ri' root names t"
proof (induction rule: path_to.induct)
  case (down names t e t')
  then show ?case using path_to.down [of env ri' root names t e t'] by simp
qed (rule path_to.here)

lemma introduces_cong:
  assumes "ri_trees ri' = ri_trees ri" "ri_blobs ri' = ri_blobs ri"
  shows "introduces env ri' g c = introduces env ri g c"
proof -
  note cong = blobs_under_cong [OF assms, of env]
  have "get_tree_index ri' = get_tree_index ri" "get_blob_index ri' = get_blob_index ri"
    using assms by (simp_all add: fun_eq_iff get_tree_index_def get_blob_index_def)
  moreover from this have "path_to env ri' = path_to env ri" using cong(2) path_to_transfer [of env ri _ _ _ ri'] path_to_transfer [of env ri' _ _ _ ri]
    by (simp add: fun_eq_iff) blast
  ultimately show ?thesis using cong(1,2)
    by (simp add: fun_eq_iff introduces_def commit_blobs_def ancestor_blobs_def blob_at_def cong: option.case_cong)
qed

lemma traversable_all_candidates:
  assumes t: "traversable edge_order env ri g"
  shows "traversable edge_order env (ri\<lparr>ri_candidate_trees := None\<rparr>) g"
proof -
  let ?ri = "ri\<lparr>ri_candidate_trees := None\<rparr>"
  have cong: "blobs_under env ?ri = blobs_under env ri" "names_of env ?ri = names_of env ri" by (rule blobs_under_cong; simp)+
  have "tree_is_covered ?ri = tree_is_covered ri" by (simp add: fun_eq_iff tree_is_covered_def)
  then show ?thesis using t cong
    by (simp add: traversable_def prunes_soundly_def is_candidate_tree_def names_fit_def graph_valid_def)
qed

lemma graph_valid_renumber:
  assumes c: "compacts selected ri ri'" and valid: "graph_valid ri g"
  shows "graph_valid ri' (renumber_graph selected g)"
  using valid old_number_new(1) [OF c] by (fastforce simp: graph_valid_def renumber_commit_def split: option.splits if_splits)

text \<open>The operation as a whole: whichever branch it takes, the history stays what it was.\<close>

lemma compact_ok:
  assumes t: "traversable edge_order env ri g"
    and sel: "\<forall>selected. ri_candidate_trees ri = Some selected \<longrightarrow> selected \<subseteq> {..<length (idx_to_oid (ri_trees ri))}"
    and len: "\<forall>cs. ri_candidate_summaries ri = Some cs \<longrightarrow> length (cs_trees cs) = length (idx_to_oid (ri_trees ri))"
  shows "\<exists>ri' g'. yields (compact_candidate_trees ri g) (Inr (ri', g')) \<and> traversable edge_order env ri' g' \<and>
    parent_of g' = parent_of g \<and> ri_blobs ri' = ri_blobs ri \<and>
    (\<forall>result. reports_introductions env ri' g' result \<longrightarrow> reports_introductions env ri g result)"
proof (cases "ri_candidate_trees ri")
  case None
  then show ?thesis using t yields_git_ok by (fastforce simp: compact_candidate_trees_def)
next
  case (Some selected)
  let ?n = "length (idx_to_oid (ri_trees ri))"
  consider "card selected = ?n" | "card selected \<noteq> ?n" "u32_max < ?n" | "card selected \<noteq> ?n" "?n \<le> u32_max" by linarith
  then show ?thesis
  proof cases
    case 1
    then have "yields (compact_candidate_trees ri g) (Inr (ri\<lparr>ri_candidate_trees := None\<rparr>, g))"
      using Some by (simp add: compact_candidate_trees_def Let_def yields_git_ok)
    moreover have "reports_introductions env (ri\<lparr>ri_candidate_trees := None\<rparr>) g = reports_introductions env ri g"
      by (simp add: fun_eq_iff reports_introductions_def introduces_cong [of "ri\<lparr>ri_candidate_trees := None\<rparr>" ri])
    ultimately show ?thesis using traversable_all_candidates [OF t] by fastforce
  next
    case 2
    then show ?thesis using t Some yields_git_ok by (fastforce simp: compact_candidate_trees_def Let_def)
  next
    case 3
    have tr: "prunes_soundly env ri" "names_fit env ri" "bimap_ok (ri_trees ri)" "graph_valid ri g" using t by (simp_all add: traversable_def)
    obtain remap trees where r: "yields (fold_git (compact_tree selected) (zip [0..<?n] (idx_to_oid (ri_trees ri))) (replicate ?n u32_max, bimap_empty))
        (Inr (remap, trees))" "bimap_ok trees" "idx_to_oid trees = map (\<lambda>i. idx_to_oid (ri_trees ri) ! i) (selected_below selected ?n)"
      "remap = map (\<lambda>i. if i \<in> selected then new_number selected i else u32_max) [0..<?n]"
      using renumber_trees [of "idx_to_oid (ri_trees ri)" selected] 3(2) tr(3) by (auto simp: bimap_ok_def)
    let ?ri = "ri\<lparr>ri_candidate_trees := None, ri_trees := trees, ri_candidate_summaries := map_option (summaries_retain selected) (ri_candidate_summaries ri)\<rparr>"
    have "yields (compact_candidate_trees ri g) (Inr (?ri, renumber_graph selected g))"
    proof -
      have "\<forall>md \<in> set (node_weights g). \<forall>t. cm_tree_idx md = Some t \<longrightarrow> t < ?n" using tr(4) by (auto simp: graph_valid_def)
      note m = remap_commits_ok [OF r(4) 3(2) this]
      show ?thesis using Some 3 unfolding compact_candidate_trees_def Let_def
        by simp (rule yields_and_then [OF r(1)], simp, rule yields_and_then [OF m], rule yields_git_ok)
    qed
    moreover have c: "compacts selected ri ?ri" using r(2,3) tr(3) by (simp add: compacts_def)
    moreover have clean: "drops_only_clean selected env ri" using tr(1) Some by (auto simp: drops_only_clean_def prunes_soundly_def is_candidate_tree_def)
    moreover have "traversable edge_order env ?ri (renumber_graph selected g)"
      using t compacts_prunes [OF c clean tr(1) _ _ len] compacts_names [OF c tr(2)] r(2) graph_valid_renumber [OF c tr(4)]
      by (simp add: traversable_def)
    ultimately show ?thesis using compacts_reports [OF c clean tr(4)] by fastforce
  qed
qed

end
