(* ===== verification/Git_Enumerator.thy ===== *)
theory Git_Enumerator
  imports Commit_Graph Tree_Compaction Utf8_Lossy
begin

text \<open>
  The enumeration of the blobs of a Git repository with the commits that introduced them:
  \<open>GitRepoWithMetadataEnumerator\<close> of \<open>src/git_repo_enumerator.rs\<close>.  It puts together the object index, the
  content filter, the candidate trees, the commit graph and its traversal.

  The object database and its decoding of commits and dates (package \<open>gix\<close>) and the content filter are
  parameters.  A timeout inside the traversal is caught by the code, but the check that follows fails too,
  since the clock does not run backwards; the model ends there at once.
\<close>

section \<open>Results\<close>

record commit_info =
  commit_id :: oid
  author_name :: "bytes option"
  author_email :: "bytes option"
  committer_name :: bytes
  committer_email :: bytes
  committer_timestamp :: git_time

record blob_appearance =
  commit_metadata :: commit_info
  app_path :: bytes

record git_blob_metadata =
  blob_oid :: oid
  first_seen :: "blob_appearance list"

definition CONTENT_PREPASS_MIN_BLOBS :: nat where
  "CONTENT_PREPASS_MIN_BLOBS = 1000000"

definition parse_sig_time :: "git_repo \<Rightarrow> bytes \<Rightarrow> git_time" where
  "parse_sig_time repo raw = (case parse_time repo raw of Some t \<Rightarrow> t | None \<Rightarrow> (0, 0))"

text \<open>The pool of identities that lives as long as the process.\<close>

definition intern_git_identity :: "bytes \<Rightarrow> bytes set \<Rightarrow> bytes \<times> bytes set" where
  "intern_git_identity value pool = (if value \<in> pool then (value, pool) else (value, insert value pool))"

section \<open>Assembling the metadata\<close>

definition commit_info_of :: "git_repo \<Rightarrow> oid \<Rightarrow> git_commit \<Rightarrow> signature \<Rightarrow> bytes set \<Rightarrow> commit_info \<times> bytes set" where
  "commit_info_of repo oid commit committer pool =
     (let intern = (\<lambda>value. intern_git_identity (from_utf8_lossy value));
          (a_name, pool) = (case gc_author commit of None \<Rightarrow> (None, pool) | Some a \<Rightarrow> apfst Some (intern (sg_name a) pool));
          (a_email, pool) = (case gc_author commit of None \<Rightarrow> (None, pool) | Some a \<Rightarrow> apfst Some (intern (sg_email a) pool));
          (c_name, pool) = intern (sg_name committer) pool;
          (c_email, pool) = intern (sg_email committer) pool
      in (\<lparr>commit_id = oid, author_name = a_name, author_email = a_email, committer_name = c_name,
           committer_email = c_email, committer_timestamp = parse_sig_time repo (sg_time committer)\<rparr>, pool))"

text \<open>One introduced blob; the hash table of the index compares the ids of the blobs.\<close>

definition push_appearance ::
  "nat list \<Rightarrow> commit_info \<Rightarrow> oid \<times> bytes \<Rightarrow> git_blob_metadata list \<Rightarrow> git_blob_metadata list" where
  "push_appearance blob_index cm = (\<lambda>(oid, path) blobs.
     case find (\<lambda>idx. map_option blob_oid (slice_get blobs idx) = Some oid) blob_index of
       None \<Rightarrow> blobs
     | Some idx \<Rightarrow>
         blobs[idx := (blobs ! idx)\<lparr>first_seen := first_seen (blobs ! idx) @ [\<lparr>commit_metadata = cm, app_path = path\<rparr>]\<rparr>])"

definition assemble_commit ::
  "git_repo \<Rightarrow> nat list \<Rightarrow> commit_blob_metadata \<Rightarrow> git_blob_metadata list \<times> bytes set \<Rightarrow> git_blob_metadata list \<times> bytes set" where
  "assemble_commit repo blob_index e = (\<lambda>(blobs, pool).
     if cb_introduced_blobs e = [] then (blobs, pool)
     else
       case find_commit repo (cb_commit_oid e) of
         None \<Rightarrow> (blobs, pool)
       | Some commit \<Rightarrow>
           (case gc_committer commit of
              None \<Rightarrow> (blobs, pool)
            | Some committer \<Rightarrow>
                (case commit_info_of repo (cb_commit_oid e) commit committer pool of (cm, pool) \<Rightarrow>
                   (fold (push_appearance blob_index cm) (cb_introduced_blobs e) blobs, pool))))"

text \<open>The closure of \<open>retain_mut\<close>: the blob with its appearances filtered, if it stays.\<close>

definition retain_blob :: "git_env \<Rightarrow> git_blob_metadata \<Rightarrow> git_blob_metadata option" where
  "retain_blob env blob =
     (if first_seen blob \<noteq> [] then
        let kept = filter (\<lambda>entry. \<not> path_is_excluded env (app_path entry)) (first_seen blob)
        in if kept = [] then None else Some (blob\<lparr>first_seen := kept\<rparr>)
      else Some blob)"

definition assemble_blobs ::
  "git_repo \<Rightarrow> repository_index \<Rightarrow> git_error + commit_blob_metadata list \<Rightarrow> bytes set \<Rightarrow> (git_blob_metadata list \<times> bytes set) gitm" where
  "assemble_blobs repo ri meta_result pool = timed
     (let blobs = map (\<lambda>oid. \<lparr>blob_oid = oid, first_seen = []\<rparr>) (idx_to_oid (ri_blobs ri)) in
      timed
        (case meta_result of
           Inl Panicked \<Rightarrow> ret (Inl Panicked)
         | Inl _ \<Rightarrow> git_ok (blobs, pool)
         | Inr metadata \<Rightarrow>
             and_then
               (fold_git (\<lambda>e st. timed (git_ok (assemble_commit repo (oid_to_idx (ri_blobs ri)) e st))) metadata (blobs, pool))
               (\<lambda>(blobs, pool). timed (timed (git_ok (List.map_filter (retain_blob (tree_env repo)) blobs, pool))))))"

section \<open>\<open>run_with_minimum_blobs\<close>\<close>

text \<open>The content filter of a large repository; \<open>None\<close> is the early return without blobs.\<close>

definition filter_index ::
  "nat list \<Rightarrow> git_repo \<Rightarrow> content_filter option \<Rightarrow> nat \<Rightarrow> repository_index \<Rightarrow> repository_index option gitm" where
  "filter_index tree_order repo flt minimum_blobs ri =
     (case flt of
        None \<Rightarrow> git_ok (Some ri)
      | Some flt \<Rightarrow>
          if num_blobs ri < minimum_blobs then git_ok (Some ri)
          else
            and_then (retain_content_candidates (find_header repo) (find_blob repo) flt ri)
              (\<lambda>(ri, _). if num_blobs ri = 0 then git_ok None
                 else and_then (prepare_candidate_trees tree_order (tree_env repo) ri) (\<lambda>ri. git_ok (Some ri))))"

definition run_with_minimum_blobs ::
  "(nat list \<Rightarrow> nat list) \<Rightarrow> (nat \<Rightarrow> nat list) \<Rightarrow> git_repo \<Rightarrow> content_filter option \<Rightarrow> nat \<Rightarrow> bytes set \<Rightarrow>
   (git_blob_metadata list \<times> bytes set) gitm" where
  "run_with_minimum_blobs edge_order tree_order repo flt minimum_blobs pool = timed
     (and_then (new_with_deadline (find_header repo) (object_iter repo)) (\<lambda>ri.
      and_then (filter_index (tree_order (length (idx_to_oid (ri_trees ri)))) repo flt minimum_blobs ri) (\<lambda>filtered.
      case filtered of
        None \<Rightarrow> git_ok ([], pool)
      | Some ri \<Rightarrow>
          and_then (build_commit_graph repo ri) (\<lambda>g.
          and_then (compact_candidate_trees ri g) (\<lambda>(ri, g).
          bind (get_repo_metadata_with_deadline edge_order (tree_env repo) ri g) (\<lambda>meta_result.
          assemble_blobs repo ri meta_result pool))))))"

definition run_with_deadline ::
  "(nat list \<Rightarrow> nat list) \<Rightarrow> (nat \<Rightarrow> nat list) \<Rightarrow> git_repo \<Rightarrow> content_filter option \<Rightarrow> bytes set \<Rightarrow> (git_blob_metadata list \<times> bytes set) gitm" where
  "run_with_deadline edge_order tree_order repo flt pool =
     run_with_minimum_blobs edge_order tree_order repo flt CONTENT_PREPASS_MIN_BLOBS pool"

section \<open>The content filter\<close>

definition prepass_selects :: "git_repo \<Rightarrow> content_filter \<Rightarrow> oid \<Rightarrow> bool" where
  "prepass_selects repo flt oid = (case prepass_blob (find_header repo) (find_blob repo) flt oid of Some (keep, _) \<Rightarrow> keep | None \<Rightarrow> False)"

definition filter_runs :: "git_repo \<Rightarrow> content_filter \<Rightarrow> bool" where
  "filter_runs repo flt \<longleftrightarrow> (\<forall>oid. prepass_blob (find_header repo) (find_blob repo) flt oid \<noteq> None)"

lemma retain_map_filter: "retain (map P xs) xs = filter P xs"
  by (induction xs) (auto simp: retain_def)

lemma insert_all_ok:
  assumes "distinct oids" "length oids \<le> Suc u32_max"
  shows "\<exists>bm. yields (fold_git (\<lambda>oid bm. or_panic (bimap_insert oid bm)) oids bimap_empty) (Inr bm) \<and> bimap_ok bm \<and> idx_to_oid bm = oids"
proof -
  let ?Q = "\<lambda>k bm. bimap_ok bm \<and> idx_to_oid bm = take k oids"
  have step: "\<exists>bm'. yields (or_panic (bimap_insert (oids ! k) bm)) (Inr bm') \<and> ?Q (Suc k) bm'" if k: "k < length oids" and q: "?Q k bm" for k bm
  proof -
    obtain bm' where b: "bimap_insert (oids ! k) bm = Some bm'" using bimap_insert_succeeds [of bm "oids ! k"] k q assms(2) by auto
    have "oids ! k \<notin> set (take k oids)" using assms(1) k by (auto simp: in_set_conv_nth nth_eq_iff_index_eq)
    then have "?Q (Suc k) bm'" using bimap_insert_ok [of bm "oids ! k" bm'] q b k by (simp add: take_Suc_conv_app_nth)
    then show ?thesis using b by (intro exI [of _ bm']) (simp add: yields_or_panic)
  qed
  obtain bm where "yields (fold_git (\<lambda>oid bm. or_panic (bimap_insert oid bm)) oids bimap_empty) (Inr bm)" "?Q (length oids) bm"
    using fold_git_upto [of ?Q bimap_empty oids "\<lambda>oid bm. or_panic (bimap_insert oid bm)", OF _ step] bimap_ok_empty
    by (auto simp: bimap_empty_def)
  then show ?thesis by auto
qed

lemma retain_content_candidates_ok:
  assumes runs: "filter_runs repo flt" and ok: "bimap_ok (ri_blobs ri)" "num_blobs ri \<le> Suc u32_max"
  shows "\<exists>bm counts. yields (retain_content_candidates (find_header repo) (find_blob repo) flt ri)
      (Inr (ri\<lparr>ri_blobs := bm, ri_content_filtered := True\<rparr>, counts)) \<and>
    bimap_ok bm \<and> idx_to_oid bm = filter (prepass_selects repo flt) (idx_to_oid (ri_blobs ri))"
proof -
  let ?oids = "idx_to_oid (ri_blobs ri)"
  let ?f = "\<lambda>oid (selected, counts). timed
          (case prepass_blob (find_header repo) (find_blob repo) flt oid of
             None \<Rightarrow> ret (Inl FilterFailed)
           | Some (keep, clean) \<Rightarrow> git_ok (selected @ [keep], count_clean clean counts))"
  have step: "\<exists>s'. yields (?f oid s) (Inr s') \<and> fst s' = fst s @ [prepass_selects repo flt oid]" for oid s
  proof -
    obtain keep clean where p: "prepass_blob (find_header repo) (find_blob repo) flt oid = Some (keep, clean)"
      using runs by (fastforce simp: filter_runs_def)
    have "yields (?f oid s) (Inr (fst s @ [keep], count_clean clean (snd s)))"
      by (cases s) (simp add: p yields_timed yields_git_ok)
    then show ?thesis using p by (fastforce simp: prepass_selects_def)
  qed
  obtain s where s: "yields (fold_git ?f ?oids ([], 0, 0)) (Inr s)" "fst s = map (prepass_selects repo flt) ?oids"
    using fold_git_inv [of "\<lambda>pre s. fst s = map (prepass_selects repo flt) pre" "([], 0, 0)" ?oids ?f] step by fastforce
  have kept: "retain (fst s) ?oids = filter (prepass_selects repo flt) ?oids" unfolding s(2) by (rule retain_map_filter)
  have len: "length (filter (prepass_selects repo flt) ?oids) \<le> Suc u32_max"
    using ok(2) by (simp add: num_blobs_def) (rule le_trans [OF length_filter_le])
  obtain bm where bm: "yields (fold_git (\<lambda>oid bm. or_panic (bimap_insert oid bm)) (filter (prepass_selects repo flt) ?oids) bimap_empty) (Inr bm)"
    "bimap_ok bm" "idx_to_oid bm = filter (prepass_selects repo flt) ?oids"
    using insert_all_ok [OF _ len] ok(1) by (auto simp: bimap_ok_def)
  have "yields (retain_blob_indexes (fst s) ri) (Inr (ri\<lparr>ri_blobs := bm, ri_content_filtered := True\<rparr>))"
    unfolding retain_blob_indexes_def kept by (rule yields_and_then [OF bm(1)]) (rule yields_git_ok)
  then have "yields (and_then (retain_blob_indexes (fst s) ri) (\<lambda>ri. git_ok (ri, snd s))) (Inr (ri\<lparr>ri_blobs := bm, ri_content_filtered := True\<rparr>, snd s))"
    by (rule yields_and_then) (rule yields_git_ok)
  then have "yields (retain_content_candidates (find_header repo) (find_blob repo) flt ri) (Inr (ri\<lparr>ri_blobs := bm, ri_content_filtered := True\<rparr>, snd s))"
    unfolding retain_content_candidates_def by (intro yields_and_then [OF s(1)]) (simp add: case_prod_unfold)
  then show ?thesis using bm(2,3) by blast
qed

text \<open>The blobs that are left, and what the rest of the enumeration relies on.\<close>

definition selected_blobs :: "git_repo \<Rightarrow> content_filter option \<Rightarrow> nat \<Rightarrow> repository_index \<Rightarrow> oid list" where
  "selected_blobs repo flt minimum_blobs ri =
     (case flt of
        Some f \<Rightarrow> if minimum_blobs \<le> num_blobs ri then filter (prepass_selects repo f) (idx_to_oid (ri_blobs ri)) else idx_to_oid (ri_blobs ri)
      | None \<Rightarrow> idx_to_oid (ri_blobs ri))"

definition index_ready :: "git_env \<Rightarrow> repository_index \<Rightarrow> bool" where
  "index_ready env ri \<longleftrightarrow>
     bimap_ok (ri_trees ri) \<and> bimap_ok (ri_blobs ri) \<and> prunes_soundly env ri \<and>
     (\<forall>selected. ri_candidate_trees ri = Some selected \<longrightarrow> selected \<subseteq> {..<length (idx_to_oid (ri_trees ri))}) \<and>
     (\<forall>cs. ri_candidate_summaries ri = Some cs \<longrightarrow> length (cs_trees cs) = length (idx_to_oid (ri_trees ri)))"

lemma filter_index_ok:
  assumes ready: "index_ready (tree_env repo) ri" and size: "num_blobs ri \<le> Suc u32_max" "length (idx_to_oid (ri_trees ri)) \<le> Suc u32_max"
    and runs: "\<forall>f. flt = Some f \<longrightarrow> filter_runs repo f" and order: "set order \<subseteq> {..<length (idx_to_oid (ri_trees ri))}"
  shows "yields (filter_index order repo flt minimum_blobs ri) (Inr None) \<and> selected_blobs repo flt minimum_blobs ri = [] \<or>
    (\<exists>ri'. yields (filter_index order repo flt minimum_blobs ri) (Inr (Some ri')) \<and> index_ready (tree_env repo) ri' \<and>
       ri_trees ri' = ri_trees ri \<and> ri_commits ri' = ri_commits ri \<and> idx_to_oid (ri_blobs ri') = selected_blobs repo flt minimum_blobs ri)"
proof (cases "\<exists>f. flt = Some f \<and> minimum_blobs \<le> num_blobs ri")
  case False
  then have "filter_index order repo flt minimum_blobs ri = git_ok (Some ri)" "selected_blobs repo flt minimum_blobs ri = idx_to_oid (ri_blobs ri)"
    by (auto simp: filter_index_def selected_blobs_def split: option.splits)
  then show ?thesis using ready by (auto intro: yields_git_ok)
next
  case True
  then obtain f where f: "flt = Some f" "minimum_blobs \<le> num_blobs ri" by blast
  obtain bm counts where r: "yields (retain_content_candidates (find_header repo) (find_blob repo) f ri)
      (Inr (ri\<lparr>ri_blobs := bm, ri_content_filtered := True\<rparr>, counts))" "bimap_ok bm" "idx_to_oid bm = filter (prepass_selects repo f) (idx_to_oid (ri_blobs ri))"
    using retain_content_candidates_ok [of repo f ri] runs f(1) ready size(1) by (auto simp: index_ready_def)
  let ?ri = "ri\<lparr>ri_blobs := bm, ri_content_filtered := True\<rparr>"
  have sel: "selected_blobs repo flt minimum_blobs ri = idx_to_oid bm" using f r(3) by (simp add: selected_blobs_def)
  have start: "yields (filter_index order repo flt minimum_blobs ri) v"
    if "yields (if num_blobs ?ri = 0 then git_ok None else and_then (prepare_candidate_trees order (tree_env repo) ?ri) (\<lambda>ri. git_ok (Some ri))) v" for v
    using f unfolding filter_index_def by simp (rule yields_and_then [OF r(1)], use that in simp)
  show ?thesis
  proof (cases "num_blobs ?ri = 0")
    case True
    then show ?thesis using sel start [of "Inr None"] by (simp add: yields_git_ok num_blobs_def)
  next
    case False
    obtain cs where cs: "yields (prepare_candidate_trees order (tree_env repo) ?ri) (Inr (?ri\<lparr>ri_candidate_trees := Some (relevant cs), ri_candidate_summaries := Some cs\<rparr>))"
      "exact_summaries (tree_env repo) ?ri cs" using prepare_candidate_trees_ok [of ?ri order "tree_env repo"] size(2) order by auto
    let ?ri' = "?ri\<lparr>ri_candidate_trees := Some (relevant cs), ri_candidate_summaries := Some cs\<rparr>"
    have "yields (and_then (prepare_candidate_trees order (tree_env repo) ?ri) (\<lambda>ri. git_ok (Some ri))) (Inr (Some ?ri'))"
      by (rule yields_and_then [OF cs(1)]) (rule yields_git_ok)
    then have "yields (filter_index order repo flt minimum_blobs ri) (Inr (Some ?ri'))" using False by (intro start) simp
    moreover have "index_ready (tree_env repo) ?ri'"
      using ready r(2) prunes_soundly_summaries [OF cs(2)] cs(2) by (auto simp: index_ready_def exact_summaries_def relevant_def)
    ultimately show ?thesis using sel by fastforce
  qed
qed

section \<open>The appearances of a blob\<close>

text \<open>Appearances as pairs of a commit and a path.\<close>

definition seen_at :: "git_blob_metadata \<Rightarrow> (oid \<times> bytes) set" where
  "seen_at blob = (\<lambda>app. (commit_id (commit_metadata app), app_path app)) ` set (first_seen blob)"

text \<open>The commit and its committer can be decoded.\<close>

definition signed :: "git_repo \<Rightarrow> oid \<Rightarrow> bool" where
  "signed repo c \<longleftrightarrow> (\<exists>commit. find_commit repo c = Some commit \<and> gc_committer commit \<noteq> None)"

definition holds_blobs :: "oid list \<Rightarrow> (nat \<Rightarrow> (oid \<times> bytes) set) \<Rightarrow> git_blob_metadata list \<Rightarrow> bool" where
  "holds_blobs oids apps blobs \<longleftrightarrow> map blob_oid blobs = oids \<and> (\<forall>i < length oids. seen_at (blobs ! i) = apps i)"

lemma push_appearance_ok:
  assumes d: "distinct oids" and h: "holds_blobs oids apps blobs"
  shows "holds_blobs oids (\<lambda>i. apps i \<union> (if oids ! i = oid then {(commit_id cm, path)} else {}))
    (push_appearance [0..<length oids] cm (oid, path) blobs)"
proof -
  have len: "length blobs = length oids" and nth: "map blob_oid blobs = oids" and seen: "\<forall>i < length oids. seen_at (blobs ! i) = apps i"
    using h by (auto simp: holds_blobs_def)
  have get: "map_option blob_oid (slice_get blobs i) = Some oid \<longleftrightarrow> oids ! i = oid" if i: "i < length oids" for i
    using nth_map [of i blobs blob_oid] i len unfolding nth by (simp add: slice_get_def)
  show ?thesis
  proof (cases "oid \<in> set oids")
    case False
    have ne: "oids ! i \<noteq> oid" if "i < length oids" for i using False that nth_mem by blast
    then have "map_option blob_oid (slice_get blobs i) \<noteq> Some oid" if "i \<in> set [0..<length oids]" for i
      using get that by (metis atLeastLessThan_upt atLeastLessThan_iff)
    then have "find (\<lambda>idx. map_option blob_oid (slice_get blobs idx) = Some oid) [0..<length oids] = None"
      unfolding find_None_iff by blast
    moreover note ne
    ultimately show ?thesis using h by (simp add: push_appearance_def holds_blobs_def)
  next
    case True
    then obtain k where k: "k < length oids" "oids ! k = oid" by (auto simp: in_set_conv_nth)
    obtain j where j: "find (\<lambda>idx. map_option blob_oid (slice_get blobs idx) = Some oid) [0..<length oids] = Some j"
      using get [OF k(1)] k by (cases "find (\<lambda>idx. map_option blob_oid (slice_get blobs idx) = Some oid) [0..<length oids]") (auto simp: find_None_iff)
    then have jj: "j < length oids" "map_option blob_oid (slice_get blobs j) = Some oid" unfolding find_Some_iff by auto
    then have "oids ! j = oid" using get by blast
    note jj(1) this
    then have "j = k" using nth_eq_iff_index_eq [OF d jj(1) k(1)] k(2) by simp
    let ?b = "(blobs ! k)\<lparr>first_seen := first_seen (blobs ! k) @ [\<lparr>commit_metadata = cm, app_path = path\<rparr>]\<rparr>"
    have "push_appearance [0..<length oids] cm (oid, path) blobs = blobs[k := ?b]" using j \<open>j = k\<close> by (simp add: push_appearance_def)
    moreover have "map blob_oid (blobs[k := ?b]) = oids"
    proof -
      have "map blob_oid (blobs[k := ?b]) = (map blob_oid blobs)[k := map blob_oid blobs ! k]" using k(1) len by (simp add: map_update)
      then show ?thesis by (simp only: list_update_id nth)
    qed
    moreover have "oids ! i = oid \<longleftrightarrow> i = k" if "i < length oids" for i using that d k by (auto simp: nth_eq_iff_index_eq)
    ultimately show ?thesis using seen len k(1) by (simp add: holds_blobs_def nth_list_update) (simp add: seen_at_def)
  qed
qed

lemma holds_blobs_cong: "holds_blobs oids apps blobs \<Longrightarrow> (\<And>i. i < length oids \<Longrightarrow> apps i = apps' i) \<Longrightarrow> holds_blobs oids apps' blobs"
  by (simp add: holds_blobs_def)

lemma push_appearances_ok:
  assumes d: "distinct oids" and "holds_blobs oids apps blobs"
  shows "holds_blobs oids (\<lambda>i. apps i \<union> {(commit_id cm, path) | path. (oids ! i, path) \<in> set introduced})
    (fold (push_appearance [0..<length oids] cm) introduced blobs)"
  using assms(2)
proof (induction introduced arbitrary: apps blobs)
  case (Cons x introduced)
  obtain oid path where x: "x = (oid, path)" by fastforce
  note h = Cons.IH [OF push_appearance_ok [OF d Cons(2), of oid cm path]]
  show ?case unfolding x fold_simps by (rule holds_blobs_cong [OF h]) auto
qed simp

lemma commit_info_id: "commit_id (fst (commit_info_of repo oid commit committer pool)) = oid"
  by (simp add: commit_info_of_def Let_def case_prod_unfold)

lemma assemble_commit_ok:
  assumes d: "distinct oids" and h: "holds_blobs oids apps (fst st)"
  shows "holds_blobs oids (\<lambda>i. apps i \<union> {(cb_commit_oid e, path) | path. signed repo (cb_commit_oid e) \<and> (oids ! i, path) \<in> set (cb_introduced_blobs e)})
    (fst (assemble_commit repo [0..<length oids] e st))"
proof (cases "cb_introduced_blobs e = [] \<or> \<not> signed repo (cb_commit_oid e)")
  case True
  then have "fst (assemble_commit repo [0..<length oids] e st) = fst st"
    by (cases st) (auto simp: assemble_commit_def signed_def split: option.splits)
  then show ?thesis using True h by (auto simp: holds_blobs_def)
next
  case False
  then obtain commit committer where c: "find_commit repo (cb_commit_oid e) = Some commit" "gc_committer commit = Some committer"
    by (auto simp: signed_def)
  let ?cm = "fst (commit_info_of repo (cb_commit_oid e) commit committer (snd st))"
  have "fst (assemble_commit repo [0..<length oids] e st) = fold (push_appearance [0..<length oids] ?cm) (cb_introduced_blobs e) (fst st)"
    using False c by (cases st) (simp add: assemble_commit_def case_prod_unfold)
  then show ?thesis using push_appearances_ok [OF d h, of ?cm "cb_introduced_blobs e"] False by (simp add: commit_info_id)
qed

lemma assemble_blobs_ok:
  assumes env: "exclude_globset (tree_env repo) = None" and ok: "bimap_ok (ri_blobs ri)"
  shows "\<exists>blobs pool'. yields (assemble_blobs repo ri (Inr metadata) pool) (Inr (blobs, pool')) \<and>
    holds_blobs (idx_to_oid (ri_blobs ri))
      (\<lambda>i. {(cb_commit_oid e, path) | e path. e \<in> set metadata \<and> signed repo (cb_commit_oid e) \<and>
         (idx_to_oid (ri_blobs ri) ! i, path) \<in> set (cb_introduced_blobs e)}) blobs"
proof -
  let ?oids = "idx_to_oid (ri_blobs ri)"
  have bm: "oid_to_idx (ri_blobs ri) = [0..<length ?oids]" "distinct ?oids" using ok by (simp_all add: bimap_ok_def)
  let ?apps = "\<lambda>es i. {(cb_commit_oid e, path) | e path. e \<in> set es \<and> signed repo (cb_commit_oid e) \<and> (?oids ! i, path) \<in> set (cb_introduced_blobs e)}"
  let ?blobs = "map (\<lambda>oid. \<lparr>blob_oid = oid, first_seen = []\<rparr>) ?oids"
  let ?f = "\<lambda>e st. timed (git_ok (assemble_commit repo (oid_to_idx (ri_blobs ri)) e st))"
  have step: "\<exists>st'. yields (?f e st) (Inr st') \<and> holds_blobs ?oids (?apps (es @ [e])) (fst st')" if h: "holds_blobs ?oids (?apps es) (fst st)" for e st es
  proof (intro exI conjI)
    show "yields (?f e st) (Inr (assemble_commit repo [0..<length ?oids] e st))" unfolding bm(1) by (rule yields_timed [OF yields_git_ok])
    show "holds_blobs ?oids (?apps (es @ [e])) (fst (assemble_commit repo [0..<length ?oids] e st))"
      by (rule holds_blobs_cong [OF assemble_commit_ok [OF bm(2) h]]) auto
  qed
  have "holds_blobs ?oids (?apps []) (fst (?blobs, pool))" by (simp add: holds_blobs_def seen_at_def comp_def)
  then obtain st where st: "yields (fold_git ?f metadata (?blobs, pool)) (Inr st)" "holds_blobs ?oids (?apps metadata) (fst st)"
    using fold_git_inv [of "\<lambda>es st. holds_blobs ?oids (?apps es) (fst st)" "(?blobs, pool)" metadata ?f] step by blast
  have "retain_blob (tree_env repo) blob = Some blob" for blob using env by (simp add: retain_blob_def path_is_excluded_def)
  then have all: "List.map_filter (retain_blob (tree_env repo)) blobs = blobs" for blobs by (induction blobs) (simp_all add: List.map_filter_def)
  have "yields (assemble_blobs repo ri (Inr metadata) pool) (Inr (fst st, snd st))"
    unfolding assemble_blobs_def Let_def sum.case
    by (rule yields_timed, rule yields_timed, rule yields_and_then [OF st(1)]) (simp add: case_prod_unfold all yields_timed yields_git_ok)
  then show ?thesis using st(2) by blast
qed

lemma assemble_blobs_cyclic: "yields (assemble_blobs repo ri (Inl CycleDetected) pool)
    (Inr (map (\<lambda>oid. \<lparr>blob_oid = oid, first_seen = []\<rparr>) (idx_to_oid (ri_blobs ri)), pool))"
  unfolding assemble_blobs_def Let_def sum.case git_error.case by (rule yields_timed [OF yields_timed [OF yields_git_ok]])

section \<open>The enumeration as a whole\<close>

text \<open>
  The repository fits the numbers of the model and has no path exclusions; the graph lists every edge and the
  trees are visited once each.
\<close>

definition enumerable ::
  "(nat list \<Rightarrow> nat list) \<Rightarrow> (nat \<Rightarrow> nat list) \<Rightarrow> git_repo \<Rightarrow> content_filter option \<Rightarrow> repository_index \<Rightarrow> bool" where
  "enumerable edge_order tree_order repo flt ri \<longleftrightarrow>
     length (object_iter repo) \<le> Suc u32_max \<and> exclude_globset (tree_env repo) = None \<and>
     indexes (indexable (find_header repo) (object_iter repo)) ri \<and> names_fit (tree_env repo) ri \<and>
     (\<forall>es. mset (edge_order es) = mset es) \<and> (\<forall>n. set (tree_order n) = {..<n}) \<and>
     (\<forall>f. flt = Some f \<longrightarrow> filter_runs repo f)"

lemma indexes_unique: "indexes objs ri \<Longrightarrow> indexes objs ri' \<Longrightarrow> ri = ri'"
proof -
  assume a: "indexes objs ri" and b: "indexes objs ri'"
  have eq: "bimap_of k ri = bimap_of k ri'" for k using a b by (auto simp: indexes_def bimap_ok_def intro: object_id_bimap.equality)
  show ?thesis using eq [of KindTree] eq [of KindBlob] eq [of KindCommit] eq [of KindTag] a b
    by (intro repository_index.equality) (simp_all add: bimap_of_def indexes_def)
qed

lemma indexes_ready:
  assumes "indexes objs ri" "length objs \<le> Suc u32_max"
  shows "index_ready env ri" "num_blobs ri \<le> Suc u32_max" "length (idx_to_oid (ri_trees ri)) \<le> Suc u32_max"
proof -
  have k: "bimap_ok (bimap_of k ri)" "length (idx_to_oid (bimap_of k ri)) \<le> length objs" for k
  proof -
    show "bimap_ok (bimap_of k ri)" using assms(1) by (simp add: indexes_def)
    have "length (firsts (of_kind k objs)) \<le> length (filter (\<lambda>obj. fst obj = k) objs)" using length_firsts [of "of_kind k objs"] by (simp add: of_kind_def)
    also have "\<dots> \<le> length objs" by (rule length_filter_le)
    finally show "length (idx_to_oid (bimap_of k ri)) \<le> length objs" using assms(1) by (simp add: indexes_def)
  qed
  show "index_ready env ri" using k(1) [of KindTree] k(1) [of KindBlob] assms(1) prunes_soundly_unfiltered
    by (simp add: index_ready_def bimap_of_def indexes_def)
  show "num_blobs ri \<le> Suc u32_max" "length (idx_to_oid (ri_trees ri)) \<le> Suc u32_max"
    using k(2) [of KindBlob] k(2) [of KindTree] assms(2) by (simp_all add: bimap_of_def num_blobs_def)
qed

section \<open>Specification\<close>

text \<open>A file of a commit, as a blob with its path; and when a commit is the first of its history to have the blob.\<close>

definition has_blob :: "git_repo \<Rightarrow> repository_index \<Rightarrow> oid \<Rightarrow> oid \<Rightarrow> bytes \<Rightarrow> bool" where
  "has_blob repo ri c oid path \<longleftrightarrow>
     c \<in> set (idx_to_oid (ri_commits ri)) \<and>
     (\<exists>commit t. recorded repo ri c = Some (commit, t) \<and> blob_at (tree_env repo) ri t oid path)"

abbreviation parent_commit :: "git_repo \<Rightarrow> repository_index \<Rightarrow> oid \<Rightarrow> oid \<Rightarrow> bool" where
  "parent_commit repo ri \<equiv> names_parent repo ri (set (idx_to_oid (ri_commits ri)))"

definition introduces_blob :: "git_repo \<Rightarrow> repository_index \<Rightarrow> oid \<Rightarrow> oid \<Rightarrow> bool" where
  "introduces_blob repo ri c oid \<longleftrightarrow>
     (\<exists>path. has_blob repo ri c oid path) \<and> (\<forall>a path. (parent_commit repo ri)\<^sup>+\<^sup>+ a c \<longrightarrow> \<not> has_blob repo ri a oid path)"

lemma path_reaches: "(\<exists>names. path_to env ri root names t) \<longleftrightarrow> (tree_child env ri)\<^sup>*\<^sup>* root t"
proof
  show "\<exists>names. path_to env ri root names t \<Longrightarrow> (tree_child env ri)\<^sup>*\<^sup>* root t" using path_to_reaches by blast
  show "(tree_child env ri)\<^sup>*\<^sup>* root t \<Longrightarrow> \<exists>names. path_to env ri root names t"
    by (induction rule: rtranclp_induct) (auto simp: tree_child_def intro: path_to.intros)
qed

lemma blobs_under_blob_at: "b \<in> blobs_under env ri t \<longleftrightarrow> (\<exists>oid path. blob_at env ri t oid path \<and> get_blob_index ri oid = Some b)"
  unfolding blobs_under_def blob_at_def tree_blob_def path_reaches [symmetric] by blast

lemma blob_index_nth:
  assumes "bimap_ok (ri_blobs ri)" "i < length (idx_to_oid (ri_blobs ri))"
  shows "get_blob_index ri oid = Some i \<longleftrightarrow> oid = idx_to_oid (ri_blobs ri) ! i"
  using assms get_idx_iff [OF assms(1)] by (auto simp: get_blob_index_def get_oid_def slice_get_def)

lemma node_has_blob:
  assumes g: "graph_of repo ri (set (idx_to_oid (ri_commits ri))) g" and c: "c < length (node_weights g)"
  shows "has_blob repo ri (cm_oid (node_weights g ! c)) oid path \<longleftrightarrow>
    (\<exists>t. cm_tree_idx (node_weights g ! c) = Some t \<and> blob_at (tree_env repo) ri t oid path)"
proof -
  have ok: "graph_ok g" using g by (simp add: graph_of_def)
  have "cm_tree_idx (node_weights g ! c) =
      (if cm_oid (node_weights g ! c) \<in> set (idx_to_oid (ri_commits ri)) then map_option snd (recorded repo ri (cm_oid (node_weights g ! c))) else None)"
    using commit_graph_okD(2) [OF ok c] g unfolding graph_of_def
    by (cases "recorded repo ri (cm_oid (node_weights g ! c))") (auto split: if_splits)
  then show ?thesis by (auto simp: has_blob_def)
qed

lemma node_commit_blobs:
  assumes g: "graph_of repo ri (set (idx_to_oid (ri_commits ri))) g" and c: "c < length (node_weights g)"
    and i: "bimap_ok (ri_blobs ri)" "i < length (idx_to_oid (ri_blobs ri))"
  shows "i \<in> commit_blobs (tree_env repo) ri g c \<longleftrightarrow> (\<exists>path. has_blob repo ri (cm_oid (node_weights g ! c)) (idx_to_oid (ri_blobs ri) ! i) path)"
  unfolding node_has_blob [OF g c] commit_blobs_def
  by (cases "cm_tree_idx (node_weights g ! c)") (auto simp: blobs_under_blob_at blob_index_nth [OF i])

lemma node_introduces:
  assumes g: "graph_of repo ri (set (idx_to_oid (ri_commits ri))) g" and c: "c < length (node_weights g)"
    and i: "bimap_ok (ri_blobs ri)" "i < length (idx_to_oid (ri_blobs ri))"
  shows "i \<in> commit_blobs (tree_env repo) ri g c - ancestor_blobs (tree_env repo) ri g c \<longleftrightarrow>
    introduces_blob repo ri (cm_oid (node_weights g ! c)) (idx_to_oid (ri_blobs ri) ! i)"
proof -
  let ?o = "\<lambda>a. cm_oid (node_weights g ! a)" and ?blob = "idx_to_oid (ri_blobs ri) ! i"
  have node: "\<exists>a < length (node_weights g). ?o a = x" if "(parent_commit repo ri)\<^sup>+\<^sup>+ x y" for x y
    using that by (induction rule: tranclp_induct) (use parents_are_nodes(1) [OF g] in blast)+
  have "i \<in> ancestor_blobs (tree_env repo) ri g c \<longleftrightarrow> (\<exists>a. (parent_of g)\<^sup>+\<^sup>+ a c \<and> i \<in> commit_blobs (tree_env repo) ri g a)"
    by (auto simp: ancestor_blobs_def)
  also have "\<dots> \<longleftrightarrow> (\<exists>a < length (node_weights g). (parent_commit repo ri)\<^sup>+\<^sup>+ (?o a) (?o c) \<and> (\<exists>path. has_blob repo ri (?o a) ?blob path))"
    using ancestor_oid [OF g c] node_commit_blobs [OF g _ i] by blast
  also have "\<dots> \<longleftrightarrow> (\<exists>x path. (parent_commit repo ri)\<^sup>+\<^sup>+ x (?o c) \<and> has_blob repo ri x ?blob path)" using node by metis
  finally show ?thesis using node_commit_blobs [OF g c i] by (auto simp: introduces_blob_def)
qed

lemma recorded_node:
  assumes g: "graph_of repo ri (set (idx_to_oid (ri_commits ri))) g" and "has_blob repo ri c oid path"
  shows "\<exists>i < length (node_weights g). cm_oid (node_weights g ! i) = c"
proof -
  have "node_tree g c \<noteq> None" using assms by (auto simp: graph_of_def has_blob_def)
  then show ?thesis using g by (auto simp: node_tree_def graph_of_def graph_ok_def)
qed

lemma appearances_ok:
  assumes g: "graph_of repo ri (set (idx_to_oid (ri_commits ri))) g" and r: "reports_introductions (tree_env repo) ri g metadata"
    and i: "bimap_ok (ri_blobs ri)" "i < length (idx_to_oid (ri_blobs ri))"
    and apps: "apps = {(cb_commit_oid e, path) | e path. e \<in> set metadata \<and> signed repo (cb_commit_oid e) \<and>
         (idx_to_oid (ri_blobs ri) ! i, path) \<in> set (cb_introduced_blobs e)}"
  shows "(\<exists>path. (c, path) \<in> apps) \<longleftrightarrow> signed repo c \<and> introduces_blob repo ri c (idx_to_oid (ri_blobs ri) ! i)"
    "(c, path) \<in> apps \<Longrightarrow> has_blob repo ri c (idx_to_oid (ri_blobs ri) ! i) path"
proof -
  let ?n = "length (node_weights g)" and ?o = "\<lambda>a. cm_oid (node_weights g ! a)" and ?blob = "idx_to_oid (ri_blobs ri) ! i"
  obtain introduced where intro: "length introduced = ?n" "\<forall>a < ?n. introduces (tree_env repo) ri g a (introduced ! a)"
    "metadata = map (\<lambda>(md, introduced). \<lparr>cb_commit_oid = cm_oid md, cb_introduced_blobs = introduced\<rparr>)
       (filter (\<lambda>(md, introduced). introduced \<noteq> []) (zip (node_weights g) introduced))" using r by (auto simp: reports_introductions_def)
  have mem: "(c, path) \<in> apps \<longleftrightarrow> (\<exists>a < ?n. ?o a = c \<and> signed repo c \<and> (?blob, path) \<in> set (introduced ! a))" for c path
  proof -
    have e: "e \<in> set metadata \<longleftrightarrow> (\<exists>a < ?n. introduced ! a \<noteq> [] \<and> e = \<lparr>cb_commit_oid = ?o a, cb_introduced_blobs = introduced ! a\<rparr>)" for e
      unfolding intro(3) using intro(1) by (auto simp: in_set_zip image_iff)
    show ?thesis
    proof
      assume "\<exists>a < ?n. ?o a = c \<and> signed repo c \<and> (?blob, path) \<in> set (introduced ! a)"
      then obtain a where a: "a < ?n" "?o a = c" "signed repo c" "(?blob, path) \<in> set (introduced ! a)" by blast
      then have "\<lparr>cb_commit_oid = ?o a, cb_introduced_blobs = introduced ! a\<rparr> \<in> set metadata" unfolding e by force
      then show "(c, path) \<in> apps" unfolding apps using a by force
    qed (auto simp: apps e)
  qed
  have a: "(\<exists>path. (?blob, path) \<in> set (introduced ! a)) \<longleftrightarrow> introduces_blob repo ri (?o a) ?blob" if "a < ?n" for a
  proof -
    have "introduces (tree_env repo) ri g a (introduced ! a)" using intro(2) that by blast
    then have "(\<exists>oid path. (oid, path) \<in> set (introduced ! a) \<and> get_blob_index ri oid = Some i) \<longleftrightarrow>
        i \<in> commit_blobs (tree_env repo) ri g a - ancestor_blobs (tree_env repo) ri g a" unfolding introduces_def by blast
    then show ?thesis using node_introduces [OF g that i] by (simp add: blob_index_nth [OF i])
  qed
  show "(\<exists>path. (c, path) \<in> apps) \<longleftrightarrow> signed repo c \<and> introduces_blob repo ri c ?blob"
    unfolding mem using a recorded_node [OF g] by (metis introduces_blob_def)
  show "has_blob repo ri c ?blob path" if c: "(c, path) \<in> apps"
  proof -
    obtain a where a: "a < ?n" "?o a = c" "(?blob, path) \<in> set (introduced ! a)" using c mem by blast
    then show ?thesis using intro(2) node_has_blob [OF g a(1), of ?blob path] unfolding introduces_def by blast
  qed
qed

text \<open>The history does not depend on which blobs the index holds.\<close>

lemma history_cong:
  assumes "ri_trees ri' = ri_trees ri" "ri_commits ri' = ri_commits ri"
  shows "recorded repo ri' = recorded repo ri" "parent_commit repo ri' = parent_commit repo ri"
    "has_blob repo ri' = has_blob repo ri" "introduces_blob repo ri' = introduces_blob repo ri" "names_of env ri' = names_of env ri"
proof -
  have e: "tree_entries env ri' = tree_entries env ri" for env using assms(1) by (simp add: fun_eq_iff tree_entries_def get_tree_oid_def)
  have t: "get_tree_index ri' = get_tree_index ri" using assms(1) by (simp add: fun_eq_iff get_tree_index_def)
  have "path_to env ri' = path_to env ri" for env
    using path_to_transfer [of env ri _ _ _ ri'] path_to_transfer [of env ri' _ _ _ ri] e [of env] t by (simp add: fun_eq_iff) blast
  then have b: "blob_at env ri' = blob_at env ri" for env using e by (simp add: fun_eq_iff blob_at_def)
  show r: "recorded repo ri' = recorded repo ri" using t by (simp add: fun_eq_iff recorded_def split: option.splits)
  show p: "parent_commit repo ri' = parent_commit repo ri" using r assms(2) by (simp add: fun_eq_iff names_parent_def)
  show h: "has_blob repo ri' = has_blob repo ri" using r b assms(2) by (simp add: fun_eq_iff has_blob_def)
  show "introduces_blob repo ri' = introduces_blob repo ri" by (simp add: fun_eq_iff introduces_blob_def h p)
  show "names_of env ri' = names_of env ri" using e assms(1) by (simp add: names_of_def)
qed

text \<open>The stages after the index.\<close>

lemma enumerate_filtered:
  assumes ready: "index_ready (tree_env repo) ri" and env: "exclude_globset (tree_env repo) = None" and fit: "names_fit (tree_env repo) ri"
    and order: "\<forall>es. mset (edge_order es) = mset es"
    and stages: "stages = and_then (build_commit_graph repo ri) (\<lambda>g. and_then (compact_candidate_trees ri g) (\<lambda>(ri, g).
          bind (get_repo_metadata_with_deadline edge_order (tree_env repo) ri g) (\<lambda>meta_result. assemble_blobs repo ri meta_result pool)))"
  shows "\<exists>blobs pool'. yields stages (Inr (blobs, pool')) \<and> map blob_oid blobs = idx_to_oid (ri_blobs ri) \<and>
    (if acyclicP (parent_commit repo ri) then
       \<forall>blob \<in> set blobs. (\<forall>c. (\<exists>path. (c, path) \<in> seen_at blob) \<longleftrightarrow> signed repo c \<and> introduces_blob repo ri c (blob_oid blob)) \<and>
         (\<forall>(c, path) \<in> seen_at blob. has_blob repo ri c (blob_oid blob) path)
     else \<forall>blob \<in> set blobs. first_seen blob = [])"
proof -
  let ?env = "tree_env repo" and ?oids = "idx_to_oid (ri_blobs ri)"
  obtain g where g: "yields (build_commit_graph repo ri) (Inr g)" "graph_of repo ri (set (idx_to_oid (ri_commits ri))) g"
    using build_commit_graph_ok by blast
  have t: "traversable edge_order ?env ri g"
    using ready env fit order graph_of_valid [OF g(2)] by (simp add: traversable_def index_ready_def)
  obtain ri2 g2 where c: "yields (compact_candidate_trees ri g) (Inr (ri2, g2))" "traversable edge_order ?env ri2 g2"
    "parent_of g2 = parent_of g" "ri_blobs ri2 = ri_blobs ri" "\<forall>result. reports_introductions ?env ri2 g2 result \<longrightarrow> reports_introductions ?env ri g result"
    using compact_ok [OF t] ready unfolding index_ready_def by blast
  have ok: "bimap_ok (ri_blobs ri)" using ready by (simp add: index_ready_def)
  have acyc: "acyclicP (parent_of g2) \<longleftrightarrow> acyclicP (parent_commit repo ri)" using acyclic_oid [OF g(2)] c(3) by simp
  have run: "yields stages v" if meta: "yields (get_repo_metadata_with_deadline edge_order ?env ri2 g2) m" "yields (assemble_blobs repo ri2 m pool) v" for m v
    unfolding stages by (rule yields_and_then [OF g(1)], rule yields_and_then [OF c(1)]) (simp, rule yields_bind [OF meta(1)], rule meta(2))
  show ?thesis
  proof (cases "acyclicP (parent_commit repo ri)")
    case True
    obtain metadata where m: "yields (get_repo_metadata_with_deadline edge_order ?env ri2 g2) (Inr metadata)" "reports_introductions ?env ri g metadata"
      using get_repo_metadata_cases(1) [OF c(2)] True acyc c(5) by blast
    let ?apps = "\<lambda>i. {(cb_commit_oid e, path) | e path. e \<in> set metadata \<and> signed repo (cb_commit_oid e) \<and> (?oids ! i, path) \<in> set (cb_introduced_blobs e)}"
    obtain blobs pool' where b: "yields (assemble_blobs repo ri2 (Inr metadata) pool) (Inr (blobs, pool'))" "holds_blobs ?oids ?apps blobs"
      using assemble_blobs_ok [of repo ri2 metadata pool] env ok unfolding c(4) by blast
    have oids: "map blob_oid blobs = ?oids" using b(2) by (simp add: holds_blobs_def)
    have "(\<forall>c. (\<exists>path. (c, path) \<in> seen_at blob) \<longleftrightarrow> signed repo c \<and> introduces_blob repo ri c (blob_oid blob)) \<and>
         (\<forall>(c, path) \<in> seen_at blob. has_blob repo ri c (blob_oid blob) path)" if blob: "blob \<in> set blobs" for blob
    proof -
      obtain i where i: "i < length blobs" "blobs ! i = blob" using blob by (auto simp: in_set_conv_nth)
      have n: "i < length ?oids" "blob_oid blob = ?oids ! i" using i nth_map [of i blobs blob_oid] length_map [of blob_oid blobs] unfolding oids by auto
      have "seen_at blob = ?apps i" using b(2) n(1) i(2) by (auto simp: holds_blobs_def)
      then show ?thesis using appearances_ok [OF g(2) m(2) ok n(1) refl] unfolding n(2) by auto
    qed
    then show ?thesis using run [OF m(1) b(1)] oids True by (intro exI [of _ blobs] exI [of _ pool']) simp
  next
    case False
    have m: "yields (get_repo_metadata_with_deadline edge_order ?env ri2 g2) (Inl CycleDetected)"
      using get_repo_metadata_cases(2) [OF c(2)] False acyc by blast
    show ?thesis using run [OF m assemble_blobs_cyclic] False c(4) by (force simp: comp_def)
  qed
qed

text \<open>What the blobs carry: their introductions, or nothing if the history cannot be traversed.\<close>

definition history_told :: "git_repo \<Rightarrow> repository_index \<Rightarrow> git_blob_metadata list \<Rightarrow> bool" where
  "history_told repo ri blobs \<longleftrightarrow>
     (if acyclicP (parent_commit repo ri) then
        \<forall>blob \<in> set blobs. (\<forall>c. (\<exists>path. (c, path) \<in> seen_at blob) \<longleftrightarrow> signed repo c \<and> introduces_blob repo ri c (blob_oid blob)) \<and>
          (\<forall>(c, path) \<in> seen_at blob. has_blob repo ri c (blob_oid blob) path)
      else \<forall>blob \<in> set blobs. first_seen blob = [])"

lemma run_ok:
  assumes e: "enumerable edge_order tree_order repo flt ri"
  shows "\<exists>blobs pool'. yields (run_with_minimum_blobs edge_order tree_order repo flt minimum_blobs pool) (Inr (blobs, pool')) \<and>
    map blob_oid blobs = selected_blobs repo flt minimum_blobs ri \<and> history_told repo ri blobs"
proof -
  have en: "length (object_iter repo) \<le> Suc u32_max" "exclude_globset (tree_env repo) = None"
    "indexes (indexable (find_header repo) (object_iter repo)) ri" "names_fit (tree_env repo) ri"
    "\<forall>es. mset (edge_order es) = mset es" "\<forall>n. set (tree_order n) = {..<n}" "\<forall>f. flt = Some f \<longrightarrow> filter_runs repo f"
    using e by (auto simp: enumerable_def)
  obtain ri0 where "yields (new_with_deadline (find_header repo) (object_iter repo)) (Inr ri0)"
      "indexes (indexable (find_header repo) (object_iter repo)) ri0" using new_with_deadline_ok [OF en(1)] by blast
  then have new: "yields (new_with_deadline (find_header repo) (object_iter repo)) (Inr ri)" using indexes_unique en(3) by metis
  have "length (indexable (find_header repo) (object_iter repo)) \<le> Suc u32_max"
    using length_flatten [of "map (index_object (find_header repo)) (object_iter repo)"] en(1) by (simp add: indexable_def)
  note ready = indexes_ready [OF en(3) this]
  let ?order = "tree_order (length (idx_to_oid (ri_trees ri)))"
  have order: "set ?order \<subseteq> {..<length (idx_to_oid (ri_trees ri))}" using en(6) by simp
  let ?rest = "\<lambda>filtered. case filtered of None \<Rightarrow> git_ok ([], pool)
      | Some ri \<Rightarrow> and_then (build_commit_graph repo ri) (\<lambda>g. and_then (compact_candidate_trees ri g) (\<lambda>(ri, g).
          bind (get_repo_metadata_with_deadline edge_order (tree_env repo) ri g) (\<lambda>meta_result. assemble_blobs repo ri meta_result pool)))"
  have run: "yields (run_with_minimum_blobs edge_order tree_order repo flt minimum_blobs pool) v"
    if f: "yields (filter_index ?order repo flt minimum_blobs ri) (Inr filtered)" "yields (?rest filtered) v" for filtered v
    unfolding run_with_minimum_blobs_def by (rule yields_timed, rule yields_and_then [OF new], rule yields_and_then [OF f(1)]) (rule f(2))
  consider "yields (filter_index ?order repo flt minimum_blobs ri) (Inr None)" "selected_blobs repo flt minimum_blobs ri = []"
    | ri' where "yields (filter_index ?order repo flt minimum_blobs ri) (Inr (Some ri'))" "index_ready (tree_env repo) ri'"
       "ri_trees ri' = ri_trees ri" "ri_commits ri' = ri_commits ri" "idx_to_oid (ri_blobs ri') = selected_blobs repo flt minimum_blobs ri"
    using filter_index_ok [OF ready en(7) order] by blast
  then show ?thesis
  proof cases
    case 1
    have "yields (?rest None) (Inr ([], pool))" by (simp add: yields_git_ok)
    then show ?thesis using run [OF 1(1)] 1(2) by (intro exI [of _ "[]"] exI [of _ pool]) (simp add: history_told_def)
  next
    case (2 ri')
    note cong = history_cong [OF 2(3,4)]
    have fit: "names_fit (tree_env repo) ri'" using en(4) cong(5) by (simp add: names_fit_def)
    obtain blobs pool' where b: "yields (?rest (Some ri')) (Inr (blobs, pool'))" "map blob_oid blobs = idx_to_oid (ri_blobs ri')" "history_told repo ri' blobs"
      using enumerate_filtered [OF 2(2) en(2) fit en(5) refl, of pool] unfolding history_told_def by auto
    have "history_told repo ri blobs" using b(3) unfolding history_told_def cong(2-4) .
    then show ?thesis using run [OF 2(1) b(1)] b(2) 2(5) by (intro exI [of _ blobs] exI [of _ pool']) simp
  qed
qed

text \<open>
  C4. Without path exclusions and on a history without cycles, the enumeration lists the indexed blobs (those
  the content filter keeps, when it runs) once each, in the order of the object database.  A commit is listed
  as an appearance of a blob exactly if its committer can be decoded, its tree has the blob at some path, and
  no commit in its ancestry has the blob anywhere; and each listed path is one where that commit has the blob.
  Numbering objects, filtering contents, summarising and compacting trees leave no trace in the result.
\<close>

theorem enumeration_reports_history:
  assumes "enumerable edge_order tree_order repo flt ri" "acyclicP (parent_commit repo ri)"
  shows "\<exists>blobs pool'. yields (run_with_minimum_blobs edge_order tree_order repo flt minimum_blobs pool) (Inr (blobs, pool')) \<and>
    map blob_oid blobs = selected_blobs repo flt minimum_blobs ri \<and>
    (\<forall>blob \<in> set blobs.
       (\<forall>c. (\<exists>path. (c, path) \<in> seen_at blob) \<longleftrightarrow> signed repo c \<and> introduces_blob repo ri c (blob_oid blob)) \<and>
       (\<forall>(c, path) \<in> seen_at blob. has_blob repo ri c (blob_oid blob) path))"
  using run_ok [OF assms(1), of minimum_blobs pool] assms(2) unfolding history_told_def by simp

text \<open>A repository with the two commits of the sample history.\<close>

definition sample_repo :: git_repo where
  "sample_repo =
     \<lparr>object_iter = [Some ''c1'', None, Some ''t1'', Some ''b1'', Some ''t2'', Some ''b2'', Some ''b3'', Some ''c2'', Some ''b1''],
      find_header = (\<lambda>oid.
        if oid \<in> {''c1'', ''c2''} then Some \<lparr>oh_kind = KindCommit, oh_size = 200\<rparr>
        else if oid \<in> {''t1'', ''t2''} then Some \<lparr>oh_kind = KindTree, oh_size = 60\<rparr>
        else if oid \<in> {''b1'', ''b2''} then Some \<lparr>oh_kind = KindBlob, oh_size = 20\<rparr>
        else Some \<lparr>oh_kind = KindBlob, oh_size = 19\<rparr>),
      find_blob = (\<lambda>_. None),
      find_commit = (\<lambda>oid.
        if oid = ''c1'' then Some \<lparr>gc_tree = ''t1'', gc_parents = [], gc_committer = Some \<lparr>sg_name = ''n'', sg_email = ''e'', sg_time = ''0''\<rparr>, gc_author = None\<rparr>
        else if oid = ''c2'' then Some \<lparr>gc_tree = ''t2'', gc_parents = [''c1''], gc_committer = Some \<lparr>sg_name = ''n'', sg_email = ''e'', sg_time = ''0''\<rparr>, gc_author = None\<rparr>
        else None),
      parse_time = (\<lambda>_. None), tree_env = sample_env\<rparr>"

definition sample_repo_index :: repository_index where
  "sample_repo_index = sample_index\<lparr>ri_commits := \<lparr>oid_to_idx = [0, 1], idx_to_oid = [''c1'', ''c2'']\<rparr>\<rparr>"

lemma sample_enumerable: "enumerable rev (\<lambda>n. rev [0..<n]) sample_repo None sample_repo_index"
proof -
  have idx: "indexable (find_header sample_repo) (object_iter sample_repo) =
      [(KindCommit, ''c1''), (KindTree, ''t1''), (KindBlob, ''b1''), (KindTree, ''t2''), (KindBlob, ''b2''), (KindCommit, ''c2''), (KindBlob, ''b1'')]"
    by (simp add: indexable_def sample_repo_def index_object_def MIN_SCANNABLE_BLOB_SIZE_def)
  have "bimap_ok (bimap_of k sample_repo_index) \<and> idx_to_oid (bimap_of k sample_repo_index) =
      firsts (of_kind k (indexable (find_header sample_repo) (object_iter sample_repo)))" for k
    unfolding idx by (cases k) (simp_all add: bimap_of_def sample_repo_index_def sample_index_def index_empty_def bimap_empty_def bimap_ok_def
        of_kind_def firsts_def upt_rec)
  then have "indexes (indexable (find_header sample_repo) (object_iter sample_repo)) sample_repo_index"
    by (simp add: indexes_def) (simp add: sample_repo_index_def sample_index_def index_empty_def)
  moreover have "names_fit (tree_env sample_repo) sample_repo_index"
  proof -
    have "names_of sample_env sample_repo_index = names_of sample_env sample_index"
      by (rule blobs_under_cong(4)) (simp_all add: sample_repo_index_def)
    then show ?thesis using sample_traversable [of "[]"] by (simp add: traversable_def names_fit_def sample_repo_def)
  qed
  moreover have "exclude_globset (tree_env sample_repo) = None" by (simp add: sample_repo_def sample_env_def)
  ultimately show ?thesis by (auto simp: enumerable_def) (simp add: sample_repo_def u32_max_def)
qed

theorem enumeration_reports_history_witness:
  "\<exists>blobs pool'. yields (run_with_minimum_blobs rev (\<lambda>n. rev [0..<n]) sample_repo None 0 {}) (Inr (blobs, pool')) \<and>
    map blob_oid blobs = [''b1'', ''b2'']"
proof -
  have "recorded sample_repo sample_repo_index ''c1'' = Some (\<lparr>gc_tree = ''t1'', gc_parents = [],
      gc_committer = Some \<lparr>sg_name = ''n'', sg_email = ''e'', sg_time = ''0''\<rparr>, gc_author = None\<rparr>, 0)"
    by (simp add: recorded_def sample_repo_def sample_repo_index_def sample_index_def get_tree_index_def get_idx_def slice_get_def)
  then have "p = ''c1''" if "parent_commit sample_repo sample_repo_index p c" for p c
    using that by (auto simp: names_parent_def sample_repo_index_def recorded_def sample_repo_def split: option.splits)
  moreover have "c \<noteq> ''c1''" if "parent_commit sample_repo sample_repo_index p c" for p c
    using that by (auto simp: names_parent_def recorded_def sample_repo_def split: option.splits)
  ultimately have "\<not> (parent_commit sample_repo sample_repo_index)\<^sup>+\<^sup>+ x x" for x by (metis tranclpD tranclp.cases)
  then have "acyclicP (parent_commit sample_repo sample_repo_index)" by (simp add: acyclic_def tranclp_unfold)
  moreover have "selected_blobs sample_repo None 0 sample_repo_index = [''b1'', ''b2'']"
    by (simp add: selected_blobs_def sample_repo_index_def sample_index_def)
  ultimately show ?thesis using enumeration_reports_history [OF sample_enumerable, of 0 "{}"] by metis
qed

text \<open>The blobs of the database that are large enough to hold a secret, and those of them the filter must let through.\<close>

definition listed_blobs :: "git_repo \<Rightarrow> oid set" where
  "listed_blobs repo = {oid. Some oid \<in> set (object_iter repo) \<and>
     (\<exists>header. find_header repo oid = Some header \<and> oh_kind header = KindBlob \<and> 20 \<le> oh_size header)}"

definition passes_filter :: "git_repo \<Rightarrow> content_filter \<Rightarrow> oid \<Rightarrow> bool" where
  "passes_filter repo flt oid \<longleftrightarrow>
     (\<exists>header. find_header repo oid = Some header \<and> \<not> exceeds_max_blob_size flt (oh_size header) \<and>
        (4194304 < oh_size header \<or> find_blob repo oid = None \<or> (\<exists>data. find_blob repo oid = Some data \<and> may_match flt data = Some True)))"

lemma indexed_blobs:
  assumes "indexes (indexable (find_header repo) (object_iter repo)) ri"
  shows "set (idx_to_oid (ri_blobs ri)) = listed_blobs repo" "distinct (idx_to_oid (ri_blobs ri))" "num_blobs ri = card (listed_blobs repo)"
proof -
  have blobs: "idx_to_oid (ri_blobs ri) = firsts (of_kind KindBlob (indexable (find_header repo) (object_iter repo)))"
    using assms by (auto simp: indexes_def bimap_of_def dest: spec [of _ KindBlob])
  have "set (of_kind KindBlob (flatten (map (index_object (find_header repo)) oids))) = {oid. Some oid \<in> set oids \<and>
       (\<exists>header. find_header repo oid = Some header \<and> oh_kind header = KindBlob \<and> 20 \<le> oh_size header)}" for oids
  proof (induction oids)
    case (Cons o' oids)
    show ?case using Cons by (cases "index_object (find_header repo) o'")
      (auto simp: of_kind_def index_object_def MIN_SCANNABLE_BLOB_SIZE_def split: option.splits if_splits)
  qed (simp add: of_kind_def)
  then show s: "set (idx_to_oid (ri_blobs ri)) = listed_blobs repo" by (simp add: blobs indexable_def listed_blobs_def)
  show d: "distinct (idx_to_oid (ri_blobs ri))" by (simp add: blobs)
  show "num_blobs ri = card (listed_blobs repo)" using distinct_card [OF d] s by (simp add: num_blobs_def)
qed

lemma prepass_selects_iff:
  assumes "oid \<in> listed_blobs repo"
  shows "prepass_selects repo flt oid \<longleftrightarrow> passes_filter repo flt oid"
proof -
  obtain header where h: "find_header repo oid = Some header" using assms by (auto simp: listed_blobs_def)
  show ?thesis
    by (auto simp: prepass_selects_def prepass_blob_def passes_filter_def h MAX_PREPASS_BLOB_BYTES_def Let_def split: option.splits if_splits)
qed

text \<open>
  C15. No blob is lost, whatever the commits look like.  Without path exclusions, and as long as the scanner of the content
  filter does not fail, the enumeration ends with a result that names exactly once every readable blob of the object
  database with at least twenty bytes, also if no commit refers to it, if a tree that holds it is missing, or if the commit
  graph is refused because of a cycle.  Only a content filter on a repository of the minimum size removes blobs: those over
  the scan limit, and those of at most 4 MiB whose content could be read and cannot match.
\<close>

theorem enumeration_loses_no_blob:
  assumes "enumerable edge_order tree_order repo flt ri"
  shows "\<exists>blobs pool'. yields (run_with_minimum_blobs edge_order tree_order repo flt minimum_blobs pool) (Inr (blobs, pool')) \<and>
    distinct (map blob_oid blobs) \<and>
    set (map blob_oid blobs) =
      {oid \<in> listed_blobs repo. case flt of None \<Rightarrow> True | Some f \<Rightarrow> card (listed_blobs repo) < minimum_blobs \<or> passes_filter repo f oid}"
proof -
  obtain blobs pool' where b: "yields (run_with_minimum_blobs edge_order tree_order repo flt minimum_blobs pool) (Inr (blobs, pool'))"
    "map blob_oid blobs = selected_blobs repo flt minimum_blobs ri" using run_ok [OF assms] by blast
  have "indexes (indexable (find_header repo) (object_iter repo)) ri" using assms by (simp add: enumerable_def)
  note ix = indexed_blobs [OF this]
  have "distinct (selected_blobs repo flt minimum_blobs ri)" using ix(2) by (auto simp: selected_blobs_def split: option.split)
  moreover have "set (selected_blobs repo flt minimum_blobs ri) =
      {oid \<in> listed_blobs repo. case flt of None \<Rightarrow> True | Some f \<Rightarrow> card (listed_blobs repo) < minimum_blobs \<or> passes_filter repo f oid}"
    using prepass_selects_iff [of _ repo] by (auto simp: selected_blobs_def ix(1,3) split: option.splits)
  ultimately show ?thesis using b by metis
qed

text \<open>A filter for blobs with a marker, on a repository whose blobs can be read.\<close>

definition marker_filter :: content_filter where
  "marker_filter = \<lparr>exceeds_max_blob_size = (\<lambda>size. 1000 < size), may_match = (\<lambda>data. Some (CHR ''!'' \<in> set data))\<rparr>"

definition readable_repo :: git_repo where
  "readable_repo = sample_repo\<lparr>find_blob := (\<lambda>oid. if oid = ''b1'' then Some ''nothing of interest'' else if oid = ''b2'' then Some ''a secret! of someone'' else None)\<rparr>"

lemma readable_enumerable: "enumerable rev (\<lambda>n. rev [0..<n]) readable_repo (Some marker_filter) sample_repo_index"
proof -
  have "prepass_blob header blob marker_filter oid \<noteq> None" for header blob oid
    unfolding prepass_blob_def by (cases "header oid"; cases "blob oid") (auto simp: marker_filter_def)
  then have "filter_runs readable_repo marker_filter" by (simp add: filter_runs_def)
  moreover have "enumerable e t readable_repo None ri = enumerable e t sample_repo None ri" for e t ri
    by (simp add: enumerable_def readable_repo_def)
  moreover have "enumerable e t repo (Some f) ri \<longleftrightarrow> enumerable e t repo None ri \<and> filter_runs repo f" for e t repo f ri
    by (auto simp: enumerable_def)
  ultimately show ?thesis using sample_enumerable by blast
qed

theorem enumeration_loses_no_blob_witness:
  "\<exists>blobs pool'. yields (run_with_minimum_blobs rev (\<lambda>n. rev [0..<n]) readable_repo (Some marker_filter) 2 {}) (Inr (blobs, pool')) \<and>
    map blob_oid blobs = [''b2'']"
proof -
  have l: "listed_blobs readable_repo = {''b1'', ''b2''}" by (auto simp: listed_blobs_def readable_repo_def sample_repo_def)
  then have "{oid \<in> listed_blobs readable_repo. card (listed_blobs readable_repo) < 2 \<or> passes_filter readable_repo marker_filter oid} = {''b2''}"
    by (auto simp: passes_filter_def readable_repo_def sample_repo_def marker_filter_def)
  moreover have "map f xs = [x]" if "distinct (map f xs)" "set (map f xs) = {x}" for f and xs :: "git_blob_metadata list" and x :: oid
    using that by (cases xs) (auto simp: subset_singleton_iff)
  ultimately show ?thesis using enumeration_loses_no_blob [OF readable_enumerable, of 2 "{}"] by simp metis
qed

end
