(* ===== verification/Git_Candidates.thy ===== *)
theory Git_Candidates
  imports Git_Index Base64_Scan Text_Encoding
begin

unbundle bit_operations_syntax

text \<open>
  The content filter of \<open>src/git_candidates.rs\<close>, which decides before any path is known whether a blob of a
  large history can hold a finding.  It must never drop a blob that the matcher would find something in: the
  theory shows that what it drops has no decodable Unicode text, no rule hit on any range the matcher scans, and
  no Base64 text the matcher would decode.

  The compiled rules (package \<open>vectorscan\<close>) and the checksum test of the \<open>tar\<close> package are parameters.
\<close>

section \<open>The tests on the bytes\<close>

definition starts_with :: "nat list \<Rightarrow> bytes \<Rightarrow> bool" where
  "starts_with vs bytes \<longleftrightarrow> map byte_val (take (length vs) bytes) = vs"

definition possible_unicode :: "bytes \<Rightarrow> bool" where
  "possible_unicode bytes \<longleftrightarrow>
     (if starts_with [0xff, 0xfe] bytes \<or> starts_with [0xfe, 0xff] bytes \<or> starts_with [0, 0, 0xfe, 0xff] bytes then True
      else if length bytes < 8 \<or> length bytes mod 2 \<noteq> 0 then False
      else
        let units = length bytes div 2;
            required = units div 5 * 3 + div_ceil (units mod 5 * 3) 5
        in required \<le> length (memchr_iter (CHR 0x00) bytes))"

definition looks_like_zip :: "bytes \<Rightarrow> bool" where
  "looks_like_zip bytes \<longleftrightarrow>
     starts_with [0x50, 0x4b, 3, 4] bytes \<or> starts_with [0x50, 0x4b, 5, 6] bytes \<or> starts_with [0x50, 0x4b, 7, 8] bytes"

definition has_pdf_magic :: "bytes \<Rightarrow> bool" where
  "has_pdf_magic bytes \<longleftrightarrow> starts_with [0x25, 0x50, 0x44, 0x46, 0x2d] bytes"

definition possible_archive :: "(bytes \<Rightarrow> bool) \<Rightarrow> bytes \<Rightarrow> bool" where
  "possible_archive tar_checksum_ok bytes \<longleftrightarrow>
     looks_like_zip bytes \<or> starts_with [0x1f, 0x8b] bytes \<or> starts_with [0x42, 0x5a, 0x68] bytes \<or>
     starts_with [0xfd, 0x37, 0x7a, 0x58, 0x5a, 0] bytes \<or>
     starts_with [0xd0, 0xcf, 0x11, 0xe0, 0xa1, 0xb1, 0x1a, 0xe1] bytes \<or>
     (2 \<le> length bytes \<and>
        (let h0 = byte_val (bytes ! 0); h1 = byte_val (bytes ! 1)
         in h0 AND 0x0f = 8 \<and> drop_bit 4 h0 \<le> 7 \<and> (h0 * 256 + h1) mod 31 = 0)) \<or>
     (512 \<le> length bytes \<and> tar_checksum_ok (take 512 bytes)) \<or>
     (16 \<le> length bytes \<and>
        (let size = u32_from_le_bytes (bytes ! 12, bytes ! 13, bytes ! 14, bytes ! 15)
         in 0 < size \<and> size \<le> length bytes - 16))"

definition base64_sextet :: "byte \<Rightarrow> nat" where
  "base64_sextet b =
     (if is_ascii_upper b then byte_val b - byte_val (CHR ''A'')
      else if is_ascii_lower b then byte_val b - byte_val (CHR ''a'') + 26
      else if is_ascii_digit b then byte_val b - byte_val (CHR ''0'') + 52
      else if b = CHR ''+'' \<or> b = CHR ''-'' then 62
      else if b = CHR ''/'' \<or> b = CHR ''_'' then 63
      else 0)"

definition quartet_is_ascii :: "byte \<times> byte \<times> byte \<times> byte \<Rightarrow> bool" where
  "quartet_is_ascii = (\<lambda>(q0, q1, q2, q3).
     base64_sextet q0 < 32 \<and>
     (q2 = CHR ''='' \<or> base64_sextet q1 AND 8 = 0) \<and>
     (q3 = CHR ''='' \<or> base64_sextet q2 AND 2 = 0))"

definition decodes_to_ascii :: "bytes \<Rightarrow> bool" where
  "decodes_to_ascii bytes \<longleftrightarrow> list_all quartet_is_ascii (fst (as_chunks4 bytes))"

function possible_base64_from :: "bytes \<Rightarrow> nat \<Rightarrow> bool" where
  "possible_base64_from bytes i =
     (if i < length bytes then
        let start = skip_while (\<lambda>b. \<not> is_base64_byte b) bytes i;
            run_end = skip_while is_base64_byte bytes start;
            stop = skip_padding 2 bytes run_end;
            len = stop - start
        in if 32 \<le> len \<and> len mod 4 = 0 \<and> decodes_to_ascii (subslice bytes start stop) then True
           else possible_base64_from bytes stop
      else False)"
  by pat_completeness auto
termination
proof (relation "measure (\<lambda>(bytes, i). length bytes - i)", goal_cases)
  case (2 bytes i start run_end stop len)
  then show ?case using token_advances [of i bytes start run_end] by simp
qed simp

declare possible_base64_from.simps [simp del]

definition possible_base64 :: "bytes \<Rightarrow> bool" where
  "possible_base64 bytes = possible_base64_from bytes 0"

section \<open>\<open>GitContentFilter\<close>\<close>

definition BASE64_SCAN_LIMIT :: nat where
  "BASE64_SCAN_LIMIT = 64 * 1024 * 1024"

definition MAX_CHUNK_SIZE :: nat where
  "MAX_CHUNK_SIZE = 8 * 1024 * 1024"

definition CHUNK_OVERLAP :: nat where
  "CHUNK_OVERLAP = 64 * 1024"

record git_content_filter =
  scanner_rules :: "bytes \<Rightarrow> nat list option"
  tar_checksum_ok :: "bytes \<Rightarrow> bool"
  num_rules :: nat
  base64 :: bool
  archives :: bool
  unlimited_resources :: bool
  max_blob_size :: "nat option"

definition resources_exceeds :: "git_content_filter \<Rightarrow> nat \<Rightarrow> nat \<Rightarrow> bool" where
  "resources_exceeds f value limit \<longleftrightarrow> \<not> unlimited_resources f \<and> limit < value"

definition filter_exceeds_max_blob_size :: "git_content_filter \<Rightarrow> nat \<Rightarrow> bool" where
  "filter_exceeds_max_blob_size f bytes = (case max_blob_size f of None \<Rightarrow> False | Some limit \<Rightarrow> limit < bytes)"

text \<open>The loop over overlapping chunks: whether a rule is hit, or an error of the scanner.\<close>

function scan_chunks :: "git_content_filter \<Rightarrow> bytes \<Rightarrow> nat \<Rightarrow> bool option" where
  "scan_chunks f bytes offset =
     (if offset < length bytes then
        let stop = min (offset + MAX_CHUNK_SIZE) (length bytes) in
        case scanner_rules f (subslice bytes offset stop) of
          None \<Rightarrow> None
        | Some rules \<Rightarrow>
            if list_ex (\<lambda>rule. rule < num_rules f) rules then Some True
            else if stop = length bytes then Some False
            else scan_chunks f bytes (stop - CHUNK_OVERLAP)
      else Some False)"
  by pat_completeness auto
termination
  by (relation "measure (\<lambda>(f, bytes, offset). length bytes - offset)") (auto simp: MAX_CHUNK_SIZE_def CHUNK_OVERLAP_def min_def split: if_splits)

declare scan_chunks.simps [simp del]

definition filter_may_match :: "git_content_filter \<Rightarrow> bytes \<Rightarrow> bool option" where
  "filter_may_match f bytes =
     (if possible_unicode bytes then Some True
      else if archives f \<and> (possible_archive (tar_checksum_ok f) bytes \<or> has_pdf_magic bytes) then Some True
      else
        case scan_chunks f bytes 0 of
          None \<Rightarrow> None
        | Some True \<Rightarrow> Some True
        | Some False \<Rightarrow> Some (base64 f \<and> \<not> resources_exceeds f (length bytes) BASE64_SCAN_LIMIT \<and> possible_base64 bytes))"

definition content_filter_of :: "git_content_filter \<Rightarrow> content_filter" where
  "content_filter_of f = \<lparr>exceeds_max_blob_size = filter_exceeds_max_blob_size f, may_match = filter_may_match f\<rparr>"

section \<open>The ranges of the matcher\<close>

text \<open>The ranges that \<open>scan_and_process_raw_matches\<close> of \<open>src/matcher/mod.rs\<close> hands to the scanner.\<close>

function matcher_ranges :: "nat \<Rightarrow> nat \<Rightarrow> (nat \<times> nat) list" where
  "matcher_ranges len offset =
     (if offset < len then
        let stop = min (offset + MAX_CHUNK_SIZE) len in
        (offset, stop) # (if stop = len then [] else matcher_ranges len (stop - CHUNK_OVERLAP))
      else [])"
  by pat_completeness auto
termination
  by (relation "measure (\<lambda>(len, offset). len - offset)") (auto simp: MAX_CHUNK_SIZE_def CHUNK_OVERLAP_def min_def split: if_splits)

declare matcher_ranges.simps [simp del]

lemma matcher_ranges_cover:
  "offset \<le> a \<Longrightarrow> a \<le> b \<Longrightarrow> b \<le> len \<Longrightarrow> a < len \<Longrightarrow> b - a \<le> CHUNK_OVERLAP \<Longrightarrow>
   \<exists>(s, e) \<in> set (matcher_ranges len offset). s \<le> a \<and> b \<le> e"
proof (induction len offset rule: matcher_ranges.induct)
  case (1 len offset)
  let ?stop = "min (offset + MAX_CHUNK_SIZE) len"
  have off: "offset < len" using 1 by simp
  show ?case
  proof (cases "b \<le> ?stop")
    case True
    then show ?thesis using 1(2) off by (subst matcher_ranges.simps) (auto simp: Let_def)
  next
    case False
    then have "?stop \<noteq> len" "?stop - CHUNK_OVERLAP \<le> a" using 1 by auto
    then have "\<exists>(s, e) \<in> set (matcher_ranges len (?stop - CHUNK_OVERLAP)). s \<le> a \<and> b \<le> e" using 1 off by blast
    then show ?thesis using off \<open>?stop \<noteq> len\<close> by (subst matcher_ranges.simps) (auto simp: Let_def)
  qed
qed

lemma scan_chunks_ranges:
  "scan_chunks f bytes offset = Some hit \<Longrightarrow>
   hit \<longleftrightarrow> (\<exists>(s, e) \<in> set (matcher_ranges (length bytes) offset). \<exists>rules. scanner_rules f (subslice bytes s e) = Some rules \<and> (\<exists>rule \<in> set rules. rule < num_rules f))"
proof (induction f bytes offset rule: scan_chunks.induct)
  case (1 f bytes offset)
  define stop where "stop = min (offset + MAX_CHUNK_SIZE) (length bytes)"
  let ?hits = "\<lambda>(s, e). \<exists>rules. scanner_rules f (subslice bytes s e) = Some rules \<and> (\<exists>rule \<in> set rules. rule < num_rules f)"
  show ?case
  proof (cases "offset < length bytes")
    case False
    then show ?thesis using 1(2) by (simp add: scan_chunks.simps matcher_ranges.simps)
  next
    case True
    have ranges: "matcher_ranges (length bytes) offset =
        (offset, stop) # (if stop = length bytes then [] else matcher_ranges (length bytes) (stop - CHUNK_OVERLAP))"
      using True by (subst matcher_ranges.simps) (simp add: Let_def stop_def [symmetric])
    obtain rules where rules: "scanner_rules f (subslice bytes offset stop) = Some rules"
      using 1(2) True by (subst (asm) scan_chunks.simps) (auto simp: Let_def stop_def [symmetric] split: option.splits)
    show ?thesis
    proof (cases "list_ex (\<lambda>rule. rule < num_rules f) rules")
      case hit: True
      then have "scan_chunks f bytes offset = Some True" using True rules by (subst scan_chunks.simps) (simp add: Let_def stop_def [symmetric])
      then show ?thesis using 1(2) hit rules unfolding ranges by (auto simp: list_ex_iff)
    next
      case no: False
      show ?thesis
      proof (cases "stop = length bytes")
        case fin: True
        then have "scan_chunks f bytes offset = Some False" using True rules no by (subst scan_chunks.simps) (simp add: Let_def stop_def [symmetric])
        then show ?thesis using 1(2) no rules fin unfolding ranges by (auto simp: list_ex_iff)
      next
        case cont: False
        then have "scan_chunks f bytes offset = scan_chunks f bytes (stop - CHUNK_OVERLAP)"
          using True rules no by (subst scan_chunks.simps) (simp add: Let_def stop_def [symmetric])
        then have "hit \<longleftrightarrow> (\<exists>r \<in> set (matcher_ranges (length bytes) (stop - CHUNK_OVERLAP)). ?hits r)"
          using 1(1) [OF True stop_def rules no cont] 1(2) by simp
        then show ?thesis using cont no rules unfolding ranges by (auto simp: list_ex_iff)
      qed
    qed
  qed
qed

section \<open>The filter is conservative\<close>

lemma starts_withI: "take n bytes = xs \<Longrightarrow> length vs = n \<Longrightarrow> map byte_val xs = vs \<Longrightarrow> starts_with vs bytes"
  by (simp add: starts_with_def)

lemma possible_unicode_superset:
  assumes "decode bytes = Some text"
  shows "possible_unicode bytes"
proof -
  obtain enc start where "select_encoding bytes = Some (enc, start)" using assms by (auto simp: decode_def split: option.splits)
  then consider "take 4 bytes = [CHR 0xFF, CHR 0xFE, CHR 0x00, CHR 0x00]" | "take 4 bytes = [CHR 0x00, CHR 0x00, CHR 0xFE, CHR 0xFF]"
    | "take 2 bytes = [CHR 0xFF, CHR 0xFE]" | "take 2 bytes = [CHR 0xFE, CHR 0xFF]" | "guess bytes \<noteq> None"
    by (auto simp: select_encoding_def split: if_splits)
  then show ?thesis
  proof cases
    case 1
    have "take 2 bytes = take 2 (take 4 bytes)" by simp
    then have "take 2 bytes = [CHR 0xFF, CHR 0xFE]" unfolding 1 by simp
    then have "starts_with [0xff, 0xfe] bytes" by (rule starts_withI) (simp_all add: byte_val_def)
    then show ?thesis by (simp add: possible_unicode_def)
  next
    case 2
    then have "starts_with [0, 0, 0xfe, 0xff] bytes" by (rule starts_withI) (simp_all add: byte_val_def)
    then show ?thesis by (simp add: possible_unicode_def)
  next
    case 3
    then have "starts_with [0xff, 0xfe] bytes" by (rule starts_withI) (simp_all add: byte_val_def)
    then show ?thesis by (simp add: possible_unicode_def)
  next
    case 4
    then have "starts_with [0xfe, 0xff] bytes" by (rule starts_withI) (simp_all add: byte_val_def)
    then show ?thesis by (simp add: possible_unicode_def)
  next
    case 5
    then show ?thesis by (auto simp: guess_def possible_unicode_def minimum_zeros_def Let_def split: if_splits)
  qed
qed

text \<open>
  What the documentation of the Base64 decoders says of accepted input: every quartet stands for three bytes, or for
  one or two when it ends in padding.
\<close>

definition alphabet :: bytes where
  "alphabet = ''ABCDEFGHIJKLMNOPQRSTUVWXYZabcdefghijklmnopqrstuvwxyz0123456789''"

definition alphabet_value :: "byte \<Rightarrow> nat" where
  "alphabet_value b =
     (if b \<in> {CHR ''+'', CHR ''-''} then 62 else if b \<in> {CHR ''/'', CHR ''_''} then 63
      else length (takeWhile (\<lambda>c. c \<noteq> b) alphabet))"

definition quartet_bytes :: "byte \<times> byte \<times> byte \<times> byte \<Rightarrow> nat list" where
  "quartet_bytes = (\<lambda>(q0, q1, q2, q3).
     let v = alphabet_value;
         b0 = 4 * v q0 + v q1 div 16; b1 = 16 * (v q1 mod 16) + v q2 div 4; b2 = 64 * (v q2 mod 4) + v q3
     in if q2 = CHR ''='' then [b0] else if q3 = CHR ''='' then [b0, b1] else [b0, b1, b2])"

definition decoders_follow_rfc :: "base64_engines \<Rightarrow> bool" where
  "decoders_follow_rfc eng \<longleftrightarrow>
     (\<forall>bs d. length bs mod 4 = 0 \<longrightarrow> decode_any eng bs = Some d \<longrightarrow> map byte_val d = concat (map quartet_bytes (fst (as_chunks4 bs))))"

lemma and_power_zero: "v AND 8 = 0 \<longleftrightarrow> even (v div 8)" "v AND 2 = 0 \<longleftrightarrow> even (v div 2)" for v :: nat
proof -
  have "bit v 3 \<longleftrightarrow> odd (v div 8)" "bit v 1 \<longleftrightarrow> odd (v div 2)" by (simp_all add: bit_iff_odd)
  moreover have "v AND 8 = 0 \<longleftrightarrow> \<not> bit v 3" "v AND 2 = 0 \<longleftrightarrow> \<not> bit v 1"
    using and_exp_eq_0_iff_not_bit [of v 3] and_exp_eq_0_iff_not_bit [of v 1] by (simp_all only: power_one_right) simp
  ultimately show "v AND 8 = 0 \<longleftrightarrow> even (v div 8)" "v AND 2 = 0 \<longleftrightarrow> even (v div 2)" by simp_all
qed

lemma base64_byte_alphabet:
  assumes "is_base64_byte b"
  shows "b \<in> set (alphabet @ ''+-/_'')"
proof -
  have b: "b = char_of (byte_val b)" by (simp add: byte_val_def)
  have "map char_of ([65..<91] @ [97..<123] @ [48..<58::nat]) = alphabet" by (simp add: alphabet_def upt_rec char_of_def bit_0)
  then have "set alphabet = char_of ` ({65..<91} \<union> ({97..<123} \<union> {48..<58::nat}))" by (metis set_map set_append set_upt)
  then have "b \<in> set alphabet" if "byte_val b \<in> {65..<91} \<union> ({97..<123} \<union> {48..<58})" using that b by blast
  moreover have "byte_val b \<in> {65..<91} \<union> ({97..<123} \<union> {48..<58}) \<or> b \<in> set ''+-/_''"
    using assms unfolding is_base64_byte_def ascii_class_defs by auto
  ultimately show ?thesis by auto
qed

lemma base64_sextet_alphabet:
  assumes "is_base64_byte b"
  shows "base64_sextet b = alphabet_value b \<and> alphabet_value b < 64"
proof -
  have "list_all (\<lambda>b. base64_sextet b = alphabet_value b \<and> alphabet_value b < 64) (alphabet @ ''+-/_'')"
    by (simp add: alphabet_def alphabet_value_def base64_sextet_def ascii_class_defs byte_val_def)
  then show ?thesis using base64_byte_alphabet [OF assms] unfolding list_all_iff by blast
qed

lemma ascii_quartet:
  assumes "list_all (\<lambda>n. n < 128) (quartet_bytes (q0, q1, q2, q3))" "is_base64_byte q0" "is_base64_byte q1" "is_base64_byte q2 \<or> q2 = CHR ''=''"
  shows "quartet_is_ascii (q0, q1, q2, q3)"
proof -
  note v = base64_sextet_alphabet [OF assms(2)] base64_sextet_alphabet [OF assms(3)]
  have b0: "4 * alphabet_value q0 + alphabet_value q1 div 16 < 128" using assms(1) by (auto simp: quartet_bytes_def Let_def split: if_splits)
  then have "base64_sextet q0 < 32" using v by simp
  moreover have "base64_sextet q1 AND 8 = 0" if "q2 \<noteq> CHR ''=''"
  proof -
    have "16 * (alphabet_value q1 mod 16) + alphabet_value q2 div 4 < 128" using that assms(1) by (auto simp: quartet_bytes_def Let_def split: if_splits)
    then have "alphabet_value q1 mod 16 < 8" by simp
    then show ?thesis unfolding and_power_zero using v by presburger
  qed
  moreover have "base64_sextet q2 AND 2 = 0" if "q3 \<noteq> CHR ''=''"
  proof (cases "q2 = CHR ''=''")
    case True
    then show ?thesis by (simp add: base64_sextet_def ascii_class_defs byte_val_def)
  next
    case False
    then have "64 * (alphabet_value q2 mod 4) + alphabet_value q3 < 128" using that assms(1) by (auto simp: quartet_bytes_def Let_def split: if_splits)
    then have "alphabet_value q2 mod 4 < 2" by simp
    then show ?thesis unfolding and_power_zero using base64_sextet_alphabet [of q2] assms(4) False by presburger
  qed
  ultimately show ?thesis unfolding quartet_is_ascii_def prod.case by metis
qed

lemma chunks4_mem:
  "(q0, q1, q2, q3) \<in> set (fst (as_chunks4 ts)) \<Longrightarrow>
   \<exists>k. 4 * k + 3 < length ts \<and> q0 = ts ! (4 * k) \<and> q1 = ts ! (4 * k + 1) \<and> q2 = ts ! (4 * k + 2)"
proof (induction ts rule: as_chunks4.induct)
  case (1 a b c d rest)
  show ?case
  proof (cases "(q0, q1, q2, q3) \<in> set (fst (as_chunks4 rest))")
    case True
    then obtain k where "4 * k + 3 < length rest" "q0 = rest ! (4 * k)" "q1 = rest ! (4 * k + 1)" "q2 = rest ! (4 * k + 2)" using 1(1) by blast
    then show ?thesis by (intro exI [of _ "Suc k"]) simp
  next
    case False
    then have "(q0, q1, q2) = (a, b, c)" using 1(2) by (auto simp: case_prod_unfold Let_def)
    then show ?thesis by (intro exI [of _ 0]) simp
  qed
qed auto

text \<open>A token is a run of alphabet bytes with at most two bytes of padding.\<close>

lemma token_bytes:
  assumes "x < token_end input s - s" "s \<le> length input"
  shows "subslice input s (token_end input s) ! x = CHR ''='' \<or> is_base64_byte (subslice input s (token_end input s) ! x)"
    "x + 2 < token_end input s - s \<Longrightarrow> is_base64_byte (subslice input s (token_end input s) ! x)"
proof -
  let ?k = "skip_while is_base64_byte input s"
  have le: "token_end input s \<le> length input" using assms(2) by (simp add: token_end_def skip_padding_le skip_while_le)
  have nth: "subslice input s (token_end input s) ! x = input ! (s + x)" using assms le by (simp add: subslice_def)
  have run: "is_base64_byte (input ! (s + x))" if "s + x < ?k" using skip_while_all [of s "s + x" is_base64_byte input] that by simp
  have pad: "input ! (s + x) = CHR ''=''" if "?k \<le> s + x" using skip_padding_all [of ?k "s + x" 2 input] that assms(1) by (simp add: token_end_def)
  show "subslice input s (token_end input s) ! x = CHR ''='' \<or> is_base64_byte (subslice input s (token_end input s) ! x)"
    using run pad unfolding nth by (cases "s + x < ?k") auto
  have "token_end input s \<le> ?k + 2" using skip_padding_bound [of 2 input ?k] by (simp add: token_end_def)
  then show "is_base64_byte (subslice input s (token_end input s) ! x)" if "x + 2 < token_end input s - s"
    using that run unfolding nth by simp
qed

lemma decoded_token_ascii:
  assumes rfc: "decoders_follow_rfc eng" and s: "s \<le> length input" and d: "decode_token eng input s (token_end input s) \<noteq> []"
  shows "32 \<le> token_end input s - s \<and> (token_end input s - s) mod 4 = 0 \<and> decodes_to_ascii (subslice input s (token_end input s))"
proof -
  let ?ts = "subslice input s (token_end input s)"
  obtain out where out: "32 \<le> token_end input s - s" "(token_end input s - s) mod 4 = 0" "decode_any eng ?ts = Some out" "is_ascii out"
    using d by (auto simp: decode_token_def Let_def split: if_splits option.splits)
  have le: "token_end input s \<le> length input" using s by (simp add: token_end_def skip_padding_le skip_while_le)
  then have len: "length ?ts = token_end input s - s" by (simp add: subslice_def)
  have "map byte_val out = concat (map quartet_bytes (fst (as_chunks4 ?ts)))" using rfc out(2,3) len by (simp add: decoders_follow_rfc_def)
  moreover have "list_all (\<lambda>n. n < 128) (map byte_val out)" using out(4) by (simp add: is_ascii_def list_all_iff)
  ultimately have all: "list_all (\<lambda>n. n < 128) (quartet_bytes q)" if "q \<in> set (fst (as_chunks4 ?ts))" for q
    using that by (auto simp: list_all_iff)
  have "quartet_is_ascii q" if q: "q \<in> set (fst (as_chunks4 ?ts))" for q
  proof -
    obtain q0 q1 q2 q3 where qq: "q = (q0, q1, q2, q3)" by (cases q)
    obtain k where k: "4 * k + 3 < length ?ts" "q0 = ?ts ! (4 * k)" "q1 = ?ts ! (4 * k + 1)" "q2 = ?ts ! (4 * k + 2)"
      using chunks4_mem q unfolding qq by blast
    have al: "is_base64_byte q0" "is_base64_byte q1" "q2 = CHR ''='' \<or> is_base64_byte q2"
      using token_bytes(2) [of "4 * k" input s] token_bytes(2) [of "4 * k + 1" input s] token_bytes(1) [of "4 * k + 2" input s] k s len by simp_all
    show ?thesis unfolding qq
      by (rule ascii_quartet) (use all [OF q] al in \<open>auto simp: qq\<close>)
  qed
  then show ?thesis using out(1,2) by (simp add: decodes_to_ascii_def list_all_iff)
qed

lemma possible_base64_superset:
  assumes "decoders_follow_rfc eng"
  shows "at_boundary bytes i \<Longrightarrow> base64_tokens eng bytes i \<noteq> [] \<Longrightarrow> possible_base64_from bytes i"
proof (induction bytes i rule: possible_base64_from.induct)
  case (1 bytes i)
  let ?start = "skip_while (\<lambda>b. \<not> is_base64_byte b) bytes i"
  have i: "i < length bytes" using 1(3) by (cases "i < length bytes") (auto simp: base64_tokens_def)
  have le: "?start \<le> length bytes" using i by (simp add: skip_while_le)
  show ?case
  proof (cases "decode_token eng bytes ?start (token_end bytes ?start) = []")
    case False
    then show ?thesis using decoded_token_ascii [OF assms le] i
      by (subst possible_base64_from.simps) (simp add: Let_def token_end_def)
  next
    case True
    then have "base64_tokens eng bytes (token_end bytes ?start) \<noteq> []" using base64_tokens_round [OF i 1(2) refl, of eng] 1(3) by simp
    then have "possible_base64_from bytes (token_end bytes ?start)"
      if "\<not> (32 \<le> token_end bytes ?start - ?start \<and> (token_end bytes ?start - ?start) mod 4 = 0 \<and> decodes_to_ascii (subslice bytes ?start (token_end bytes ?start)))"
      using 1(1) [OF i refl refl refl refl] that token_end_boundary [OF le] by (simp add: token_end_def)
    then show ?thesis using i by (subst possible_base64_from.simps) (auto simp: Let_def token_end_def)
  qed
qed

text \<open>
  C5. The content filter drops no blob the matcher could find something in.  When it answers no, the bytes are not
  UTF-16 or UTF-32 text for the decoder, the scanner reports no rule of the catalogue on any range the matcher
  would scan, and, when Base64 is decoded at all, Base64 discovery returns nothing.
\<close>

theorem content_filter_drops_only_clean:
  assumes "decoders_follow_rfc eng" "filter_may_match f bytes = Some False"
  shows "decode bytes = None \<and>
    (\<forall>(s, e) \<in> set (matcher_ranges (length bytes) 0). \<forall>rules. scanner_rules f (subslice bytes s e) = Some rules \<longrightarrow>
       (\<forall>rule \<in> set rules. num_rules f \<le> rule)) \<and>
    (base64 f \<and> \<not> resources_exceeds f (length bytes) BASE64_SCAN_LIMIT \<longrightarrow> get_base64_strings eng bytes = Some [])"
proof -
  have m: "\<not> possible_unicode bytes" "scan_chunks f bytes 0 = Some False"
    "base64 f \<Longrightarrow> \<not> resources_exceeds f (length bytes) BASE64_SCAN_LIMIT \<Longrightarrow> \<not> possible_base64 bytes"
    using assms(2) by (auto simp: filter_may_match_def split: if_splits option.splits bool.splits)
  have "decode bytes = None" using m(1) possible_unicode_superset by (cases "decode bytes") auto
  moreover have "\<forall>(s, e) \<in> set (matcher_ranges (length bytes) 0). \<forall>rules. scanner_rules f (subslice bytes s e) = Some rules \<longrightarrow>
       (\<forall>rule \<in> set rules. num_rules f \<le> rule)" using scan_chunks_ranges [OF m(2)] by (auto simp: not_less [symmetric])
  moreover have "get_base64_strings eng bytes = Some []" if "base64 f" "\<not> resources_exceeds f (length bytes) BASE64_SCAN_LIMIT"
    using m(3) [OF that] possible_base64_superset [OF assms(1), of bytes 0] by (auto simp: get_base64_strings_eq possible_base64_def at_boundary_def)
  ultimately show ?thesis by blast
qed

text \<open>A decoder that accepts one text, and a blob with a Base64 run that decodes to bytes above 127.\<close>

definition one_text :: base64_engines where
  "one_text = \<lparr>standard = (\<lambda>bs. if bs = ''QUFBQUFBQUFBQUFBQUFBQUFBQUFBQUFB'' then Some ''AAAAAAAAAAAAAAAAAAAAAAAA'' else None),
     url_safe = (\<lambda>_. None), url_safe_no_pad = (\<lambda>_. None)\<rparr>"

definition quiet_filter :: git_content_filter where
  "quiet_filter = \<lparr>scanner_rules = (\<lambda>_. Some [1]), tar_checksum_ok = (\<lambda>_. False), num_rules = 1, base64 = True, archives = True,
     unlimited_resources = False, max_blob_size = None\<rparr>"

definition noisy_blob :: bytes where
  "noisy_blob = ''key=////////////////////////////////''"

lemma one_text_follows_rfc: "decoders_follow_rfc one_text"
proof -
  have "alphabet_value (CHR ''Q'') = 16" "alphabet_value (CHR ''U'') = 20" "alphabet_value (CHR ''F'') = 5" "alphabet_value (CHR ''B'') = 1"
    by (simp_all add: alphabet_value_def alphabet_def)
  then have "quartet_bytes (CHR ''Q'', CHR ''U'', CHR ''F'', CHR ''B'') = [65, 65, 65]" by (simp add: quartet_bytes_def)
  then show ?thesis
    by (auto simp: decoders_follow_rfc_def one_text_def decode_any_def byte_val_def split: if_splits option.splits)
qed

lemma quiet_filter_rejects: "filter_may_match quiet_filter noisy_blob = Some False"
proof -
  have "\<not> possible_unicode noisy_blob" by code_simp
  moreover have "\<not> possible_archive (\<lambda>_. False) noisy_blob" "\<not> has_pdf_magic noisy_blob"
    by (simp_all add: noisy_blob_def possible_archive_def looks_like_zip_def has_pdf_magic_def starts_with_def byte_val_def
        Let_def)
  moreover have "\<not> possible_base64 noisy_blob" by code_simp
  moreover have "length noisy_blob = 36" by (simp add: noisy_blob_def)
  then have "scan_chunks quiet_filter noisy_blob 0 = Some False"
    by (subst scan_chunks.simps) (simp add: quiet_filter_def MAX_CHUNK_SIZE_def)
  ultimately show ?thesis by (simp add: filter_may_match_def quiet_filter_def)
qed

theorem content_filter_drops_only_clean_witness:
  "decode noisy_blob = None \<and> get_base64_strings one_text noisy_blob = Some []"
  using content_filter_drops_only_clean [OF one_text_follows_rfc quiet_filter_rejects]
  by (simp add: quiet_filter_def resources_exceeds_def BASE64_SCAN_LIMIT_def noisy_blob_def)

end
