(* ===== verification/Candidate_Search.thy ===== *)
theory Candidate_Search
  imports Kf_Prelude "HOL-Library.Multiset" "HOL-Library.List_Lexorder" "HOL-Library.Product_Lexorder"
begin

text \<open>
  Verification of credential components with several candidates:
  \<open>crates/kingfisher-scanner/src/validation/candidates.rs\<close>.

  The search tries combinations of candidates, given by one index per component, in the order of the sum of
  their indexes, without building the product.  The theory shows that it tries exactly what a scan over the
  sorted product tries, so that each combination is tried at most once and better ranked ones come first.

  The callback, the remaining time before each attempt and the verification slot are parameters.
\<close>

section \<open>The ranked search\<close>

datatype 'v candidate_check = Accepted 'v | Rejected | Unresolved string bool

record search_failure =
  sf_attempted :: nat
  sf_reason :: string
  sf_unavailable :: bool

text \<open>
  What the search asks of its surroundings: whether a slot is granted in time, whether there is a deadline, whether
  no time remains before an attempt, the answer of the callback to an attempt, and the result limit.
\<close>

record 'v verifier =
  slot_granted :: bool
  has_deadline :: bool
  no_time_left :: "nat \<Rightarrow> bool"
  validate :: "nat \<Rightarrow> nat list \<Rightarrow> 'v candidate_check"
  unlimited_results :: bool

definition MAX_COMBINATIONS :: nat where
  "MAX_COMBINATIONS = 16"

type_synonym ranked = "nat \<times> nat list"

text \<open>The heap gives the least pair of score and indexes.\<close>

definition pop_least :: "ranked list \<Rightarrow> (ranked \<times> ranked list) option" where
  "pop_least queue = (if queue = [] then None else let x = Min (set queue) in Some (x, remove1 x queue))"

text \<open>The loop over the dimensions; \<open>None\<close> is the panic of an index out of range.\<close>

fun push_successors ::
  "nat list \<Rightarrow> nat \<Rightarrow> nat list \<Rightarrow> nat list \<Rightarrow> nat list set \<times> ranked list \<Rightarrow> (nat list set \<times> ranked list) option" where
  "push_successors lengths score indices [] st = Some st"
| "push_successors lengths score indices (dimension # dimensions) (seen, queue) =
     (case slice_get indices dimension of
        None \<Rightarrow> None
      | Some i \<Rightarrow>
          let after = indices[dimension := i + 1] in
          if i + 1 < lengths ! dimension \<and> after \<notin> seen
          then push_successors lengths score indices dimensions (insert after seen, queue @ [(score + 1, after)])
          else push_successors lengths score indices dimensions (seen, queue))"

definition usize_max :: nat where
  "usize_max = 2 ^ 64 - 1"

definition saturating_product :: "nat list \<Rightarrow> nat" where
  "saturating_product lengths = fold (\<lambda>len n. min (n * len) usize_max) lengths 1"

definition exhausted :: "nat list \<Rightarrow> nat \<Rightarrow> search_failure" where
  "exhausted lengths attempted =
     \<lparr>sf_attempted = attempted,
      sf_reason = (if attempted < saturating_product lengths then ''combination budget exhausted''
                   else ''no candidate combination verified''),
      sf_unavailable = False\<rparr>"

text \<open>Every successor raises one index, so the search ends.\<close>

definition room :: "nat list \<Rightarrow> nat list \<Rightarrow> nat" where
  "room lengths indices = (\<Sum>i<length lengths. lengths ! i - indices ! i)"

lemma room_step:
  assumes "d < length lengths" "d < length indices" "indices ! d + 1 < lengths ! d"
  shows "room lengths (indices[d := indices ! d + 1]) < room lengths indices"
  unfolding room_def by (rule sum_strict_mono_ex1) (use assms in \<open>auto simp: nth_list_update intro: bexI [of _ d]\<close>)

lemma push_successors_room:
  assumes "push_successors lengths score indices dims (seen, queue) = Some (seen', queue')" "set dims \<subseteq> {..<length lengths}"
  shows "\<exists>new. queue' = queue @ new \<and> (\<forall>x \<in> set new. room lengths (snd x) < room lengths indices)"
  using assms
proof (induction dims arbitrary: seen queue)
  case (Cons d dims)
  then obtain i where i: "slice_get indices d = Some i" by (auto split: option.splits)
  then have d: "d < length indices" "i = indices ! d" by (auto simp: slice_get_def split: if_splits)
  show ?case
  proof (cases "i + 1 < lengths ! d \<and> indices[d := i + 1] \<notin> seen")
    case True
    then have "\<exists>new. queue' = (queue @ [(score + 1, indices[d := i + 1])]) @ new \<and> (\<forall>x \<in> set new. room lengths (snd x) < room lengths indices)"
      by (intro Cons(1) [of "insert (indices[d := i + 1]) seen"]) (use Cons(2,3) True i in \<open>auto simp: Let_def\<close>)
    moreover have "room lengths (indices[d := i + 1]) < room lengths indices" using True d Cons(3) room_step [of d lengths indices] by simp
    ultimately show ?thesis by fastforce
  next
    case False
    then show ?thesis using Cons i by (auto simp: Let_def)
  qed
qed simp

lemma pop_least_mset: "pop_least queue = Some (x, rest) \<Longrightarrow> mset queue = add_mset x (mset rest)"
  by (auto simp: pop_least_def Let_def split: if_splits)

lemma successors_decrease:
  assumes "pop_least queue = Some ((score, indices), rest)"
    "push_successors lengths score indices [0..<length lengths] (seen, rest) = Some (seen', queue')"
  shows "(image_mset (room lengths \<circ> snd) (mset queue'), image_mset (room lengths \<circ> snd) (mset queue)) \<in> mult less_than"
proof -
  obtain new where new: "queue' = rest @ new" "\<forall>x \<in> set new. room lengths (snd x) < room lengths indices"
    using push_successors_room [OF assms(2)] by (auto simp: lessThan_atLeast0)
  let ?m = "\<lambda>q. image_mset (room lengths \<circ> snd) (mset q)"
  have "(?m rest + ?m new, ?m rest + {#room lengths indices#}) \<in> mult less_than"
    by (rule one_step_implies_mult) (use new(2) in auto)
  then show ?thesis using pop_least_mset [OF assms(1)] new(1) by simp
qed

function search_loop ::
  "'v verifier \<Rightarrow> nat list \<Rightarrow> nat list set \<Rightarrow> ranked list \<Rightarrow> nat \<Rightarrow> (search_failure + 'v) option" where
  "search_loop vf lengths seen queue attempted =
     (case pop_least queue of
        None \<Rightarrow> Some (Inl (exhausted lengths attempted))
      | Some ((score, indices), rest) \<Rightarrow>
          if has_deadline vf \<and> no_time_left vf attempted
          then Some (Inl \<lparr>sf_attempted = attempted, sf_reason = ''time budget exhausted'', sf_unavailable = True\<rparr>)
          else
            let attempted = attempted + 1 in
            case validate vf attempted indices of
              Accepted v \<Rightarrow> Some (Inr v)
            | Unresolved reason unavailable \<Rightarrow>
                Some (Inl \<lparr>sf_attempted = attempted, sf_reason = reason, sf_unavailable = unavailable\<rparr>)
            | Rejected \<Rightarrow>
                if \<not> unlimited_results vf \<and> attempted = MAX_COMBINATIONS then Some (Inl (exhausted lengths attempted))
                else
                  (case push_successors lengths score indices [0..<length lengths] (seen, rest) of
                     None \<Rightarrow> None
                   | Some (seen, queue) \<Rightarrow> search_loop vf lengths seen queue attempted))"
  by pat_completeness auto
termination
  by (relation "inv_image (mult less_than) (\<lambda>(vf, lengths, seen, queue, attempted). image_mset (room lengths \<circ> snd) (mset queue))")
    (auto intro: wf_mult successors_decrease)

declare search_loop.simps [simp del]

definition search :: "'v verifier \<Rightarrow> nat list \<Rightarrow> (search_failure + 'v) option" where
  "search vf lengths =
     (if \<not> slot_granted vf
      then Some (Inl \<lparr>sf_attempted = 0, sf_reason = ''time budget exhausted while waiting for a verification slot'', sf_unavailable = True\<rparr>)
      else
        let initial = replicate (length lengths) 0 in
        search_loop vf lengths {initial} [(0, initial)] 0)"

section \<open>The search is a scan over the ranked combinations\<close>

definition box :: "nat list \<Rightarrow> nat list set" where
  "box lengths = {v. length v = length lengths \<and> (\<forall>i < length lengths. v ! i < lengths ! i)}"

definition rank :: "nat list \<Rightarrow> ranked" where
  "rank v = (sum_list v, v)"

definition ranked_combinations :: "nat list \<Rightarrow> ranked list" where
  "ranked_combinations lengths = sort (map rank (product_lists (map (\<lambda>n. [0..<n]) lengths)))"

fun try_in_order :: "'v verifier \<Rightarrow> nat list \<Rightarrow> nat \<Rightarrow> ranked list \<Rightarrow> search_failure + 'v" where
  "try_in_order vf lengths attempted [] = Inl (exhausted lengths attempted)"
| "try_in_order vf lengths attempted (c # cs) =
     (if has_deadline vf \<and> no_time_left vf attempted
      then Inl \<lparr>sf_attempted = attempted, sf_reason = ''time budget exhausted'', sf_unavailable = True\<rparr>
      else
        case validate vf (attempted + 1) (snd c) of
          Accepted v \<Rightarrow> Inr v
        | Unresolved reason unavailable \<Rightarrow> Inl \<lparr>sf_attempted = attempted + 1, sf_reason = reason, sf_unavailable = unavailable\<rparr>
        | Rejected \<Rightarrow>
            if \<not> unlimited_results vf \<and> attempted + 1 = MAX_COMBINATIONS then Inl (exhausted lengths (attempted + 1))
            else try_in_order vf lengths (attempted + 1) cs)"

lemma snd_rank [simp]: "snd (rank v) = v"
  by (simp add: rank_def)

lemma rank_inj [simp]: "rank u = rank v \<longleftrightarrow> u = v"
  by (auto simp: rank_def)

lemma set_ranked: "set (ranked_combinations lengths) = rank ` box lengths"
  by (auto simp: ranked_combinations_def product_lists_set box_def list_all2_conv_all_nth)

lemma distinct_combinations: "list_all distinct xss \<Longrightarrow> distinct (product_lists xss)"
proof (induction xss)
  case (Cons xs xss)
  have "distinct (concat (map (\<lambda>x. map (Cons x) ps) xs))" if "distinct ps" "distinct xs" for ps
    using that(2) by (induction xs) (auto simp: distinct_map that(1))
  then show ?case using Cons by simp
qed simp

lemma distinct_ranked: "distinct (ranked_combinations lengths)"
  by (auto simp: ranked_combinations_def distinct_map inj_on_def list_all_iff intro: distinct_combinations)

lemma sorted_ranked: "sorted (ranked_combinations lengths)"
  by (simp add: ranked_combinations_def)

definition successors :: "nat list \<Rightarrow> nat list \<Rightarrow> nat list set" where
  "successors lengths v = {v[d := v ! d + 1] | d. d < length lengths \<and> v ! d + 1 < lengths ! d}"

lemma successor_box: "v \<in> box lengths \<Longrightarrow> w \<in> successors lengths v \<Longrightarrow> w \<in> box lengths \<and> rank v < rank w \<and> sum_list w = sum_list v + 1"
  by (auto simp: successors_def box_def rank_def nth_list_update sum_list_update)

lemma predecessor:
  assumes "v \<in> box lengths" "v \<noteq> replicate (length lengths) 0"
  shows "\<exists>u \<in> box lengths. v \<in> successors lengths u"
proof -
  obtain d where d: "d < length lengths" "v ! d \<noteq> 0" using assms by (auto simp: box_def list_eq_iff_nth_eq)
  let ?u = "v[d := v ! d - 1]"
  have "?u[d := ?u ! d + 1] = v" using d assms(1) by (simp add: box_def list_update_same_conv)
  moreover have "?u \<in> box lengths" "?u ! d + 1 < lengths ! d" using d assms(1) by (auto simp: box_def nth_list_update)
  ultimately show ?thesis using d(1) by (intro bexI [of _ ?u]) (force simp: successors_def simp del: list_update_overwrite nth_list_update)+
qed

lemma push_successors_adds:
  assumes "length v = length lengths" "set dims \<subseteq> {..<length lengths}"
  shows "\<exists>new. push_successors lengths (sum_list v) v dims (seen, queue) =
      Some (seen \<union> {v[d := v ! d + 1] | d. d \<in> set dims \<and> v ! d + 1 < lengths ! d}, queue @ new) \<and> distinct new \<and>
    set new = rank ` ({v[d := v ! d + 1] | d. d \<in> set dims \<and> v ! d + 1 < lengths ! d} - seen)"
  using assms(2)
proof (induction dims arbitrary: seen queue)
  case (Cons d dims)
  let ?w = "v[d := v ! d + 1]"
  let ?S = "\<lambda>ds. {v[d := v ! d + 1] | d. d \<in> set ds \<and> v ! d + 1 < lengths ! d}"
  have d: "slice_get v d = Some (v ! d)" using Cons(2) assms(1) by (simp add: slice_get_def)
  have S: "?S (d # dims) = (if v ! d + 1 < lengths ! d then insert ?w (?S dims) else ?S dims)" by auto
  show ?case
  proof (cases "v ! d + 1 < lengths ! d \<and> ?w \<notin> seen")
    case True
    have r: "rank ?w = (sum_list v + 1, ?w)" using Cons(2) assms(1) by (simp add: rank_def sum_list_update)
    obtain new where new: "push_successors lengths (sum_list v) v dims (insert ?w seen, queue @ [rank ?w]) =
        Some (insert ?w seen \<union> ?S dims, (queue @ [rank ?w]) @ new)" "distinct new" "set new = rank ` (?S dims - insert ?w seen)"
      using Cons(1) [of "insert ?w seen" "queue @ [rank ?w]"] Cons(2) by auto
    have "set (rank ?w # new) = rank ` (?S (d # dims) - seen)" using True new(3) unfolding S by auto
    moreover have "distinct (rank ?w # new)" using new(2,3) by auto
    ultimately show ?thesis using new(1) d True r unfolding S by (intro exI [of _ "rank ?w # new"]) (simp add: Let_def)
  next
    case False
    then have S': "?S (d # dims) - seen = ?S dims - seen" "seen \<union> ?S (d # dims) = seen \<union> ?S dims" unfolding S by auto
    show ?thesis unfolding S' using Cons(1) [of seen queue] Cons(2) d by (simp add: Let_def, intro impI) (use False in simp)
  qed
qed simp

text \<open>
  The state after some attempts: what was tried is an initial part of the ranked combinations, the queue holds
  some of the rest, and every successor of a tried combination has been seen.
\<close>

definition search_inv :: "nat list \<Rightarrow> ranked list \<Rightarrow> ranked list \<Rightarrow> nat list set \<Rightarrow> ranked list \<Rightarrow> bool" where
  "search_inv lengths tried rest seen queue \<longleftrightarrow>
     ranked_combinations lengths = tried @ rest \<and> seen = snd ` (set tried \<union> set queue) \<and>
     set queue \<subseteq> set rest \<and> distinct queue \<and> replicate (length lengths) 0 \<in> seen \<and>
     (\<forall>x \<in> set tried. successors lengths (snd x) \<subseteq> seen)"

lemma least_is_queued:
  assumes inv: "search_inv lengths tried (x # rest) seen queue"
  shows "x \<in> set queue"
proof -
  have all: "set (tried @ x # rest) = rank ` box lengths" "distinct (tried @ x # rest)" "sorted (tried @ x # rest)"
    using inv set_ranked distinct_ranked sorted_ranked unfolding search_inv_def by metis+
  then obtain v where v: "x = rank v" "v \<in> box lengths" by auto
  have "v \<in> seen"
  proof (cases "v = replicate (length lengths) 0")
    case False
    then obtain u where u: "u \<in> box lengths" "v \<in> successors lengths u" using predecessor [OF v(2)] by blast
    have "rank u < x" using successor_box [OF u] by (simp add: v(1))
    then have "rank u \<in> set tried" using u(1) all by (auto simp: sorted_append leD)
    then have "successors lengths (snd (rank u)) \<subseteq> seen" using inv unfolding search_inv_def by blast
    then show ?thesis using u(2) by auto
  qed (use inv in \<open>unfold search_inv_def, blast\<close>)
  then obtain y where y: "y \<in> set tried \<union> set queue" "snd y = v" using inv by (auto simp: search_inv_def)
  then have "y \<in> rank ` box lengths" using all(1) inv by (auto simp: search_inv_def)
  then have "y = x" using y(2) v(1) by auto
  then show ?thesis using y(1) all(2) by auto
qed

lemma pop_least_ranked:
  assumes inv: "search_inv lengths tried (x # rest) seen queue"
  shows "pop_least queue = Some (x, remove1 x queue)"
proof -
  have "sorted (tried @ x # rest)" "set queue \<subseteq> set (x # rest)" using inv sorted_ranked unfolding search_inv_def by metis+
  then have "Min (set queue) = x" using least_is_queued [OF inv] by (intro Min_eqI) (auto simp: sorted_append)
  then show ?thesis using least_is_queued [OF inv] by (auto simp: pop_least_def)
qed

lemma search_inv_step:
  assumes inv: "search_inv lengths tried ((score, v) # rest) seen queue"
  shows "\<exists>seen' queue'. push_successors lengths score v [0..<length lengths] (seen, remove1 (score, v) queue) = Some (seen', queue') \<and>
    search_inv lengths (tried @ [(score, v)]) rest seen' queue'"
proof -
  let ?x = "(score, v)"
  have all: "set (tried @ ?x # rest) = rank ` box lengths" "distinct (tried @ ?x # rest)"
    using inv set_ranked distinct_ranked unfolding search_inv_def by metis+
  have sc: "score = sum_list v" "?x = rank v" "v \<in> box lengths" using all(1) by (auto simp: rank_def)
  have S: "{v[d := v ! d + 1] | d. d \<in> set [0..<length lengths] \<and> v ! d + 1 < lengths ! d} = successors lengths v"
    by (simp add: successors_def)
  obtain new where new: "push_successors lengths score v [0..<length lengths] (seen, remove1 ?x queue) = Some (seen \<union> successors lengths v, remove1 ?x queue @ new)"
      "distinct new" "set new = rank ` (successors lengths v - seen)"
    using push_successors_adds [of v lengths "[0..<length lengths]" seen "remove1 ?x queue"] sc(1,3) unfolding S
    by (auto simp: box_def lessThan_atLeast0)
  have q: "?x \<in> set queue" "distinct queue" "set queue \<subseteq> set (?x # rest)" "seen = snd ` (set tried \<union> set queue)"
    using least_is_queued [OF inv] inv by (simp_all add: search_inv_def)
  have sub: "set new \<subseteq> set rest"
  proof
    fix y
    assume "y \<in> set new"
    then obtain w where w: "y = rank w" "w \<in> successors lengths v" "w \<notin> seen" using new(3) by auto
    then have "y \<in> set (tried @ ?x # rest)" unfolding all(1) using successor_box [OF sc(3)] by blast
    moreover have "y \<notin> set tried" "y \<noteq> ?x" using w(1,3) q(1,4) by (force simp: rank_def)+
    ultimately show "y \<in> set rest" by auto
  qed
  have rm: "set (remove1 ?x queue) = set queue - {?x}" using q(2) by simp
  then have parts: "set (tried @ [?x]) \<union> set (remove1 ?x queue @ new) = (set tried \<union> set queue) \<union> set new" using q(1) by auto
  have fresh: "snd ` set new = successors lengths v - seen" by (simp add: new(3) image_image)
  then have seen: "seen \<union> successors lengths v = snd ` (set (tried @ [?x]) \<union> set (remove1 ?x queue @ new))"
    using image_Un [of snd "set tried \<union> set queue" "set new"] q(4) unfolding parts by auto
  have "\<forall>y \<in> set tried. successors lengths (snd y) \<subseteq> seen" using inv unfolding search_inv_def by blast
  then have "\<forall>y \<in> set (tried @ [?x]). successors lengths (snd y) \<subseteq> seen \<union> successors lengths v" by auto
  moreover have "snd y \<in> seen" if "y \<in> set queue" for y unfolding q(4) using that by blast
  then have "set new \<inter> set queue = {}" using fresh by blast
  then have "distinct (remove1 ?x queue @ new)" using q(2) new(2) rm by auto
  moreover have "set (remove1 ?x queue @ new) \<subseteq> set rest" using sub q(3) rm by auto
  moreover have "replicate (length lengths) 0 \<in> seen \<union> successors lengths v" "ranked_combinations lengths = (tried @ [?x]) @ rest"
    using inv unfolding search_inv_def by auto
  ultimately have "search_inv lengths (tried @ [?x]) rest (seen \<union> successors lengths v) (remove1 ?x queue @ new)"
    unfolding search_inv_def using seen by (intro conjI)
  then show ?thesis using new(1) by blast
qed

lemma search_loop_scans:
  "search_inv lengths tried rest seen queue \<Longrightarrow> search_loop vf lengths seen queue attempted = Some (try_in_order vf lengths attempted rest)"
proof (induction rest arbitrary: tried seen queue attempted)
  case Nil
  then show ?case by (subst search_loop.simps) (simp add: search_inv_def pop_least_def)
next
  case (Cons x rest)
  obtain score v where x: "x = (score, v)" by fastforce
  obtain seen' queue' where step: "push_successors lengths score v [0..<length lengths] (seen, remove1 x queue) = Some (seen', queue')"
    "search_inv lengths (tried @ [x]) rest seen' queue'" using search_inv_step Cons(2) unfolding x by blast
  then have "search_loop vf lengths seen' queue' (Suc attempted) = Some (try_in_order vf lengths (Suc attempted) rest)" using Cons(1) by blast
  then show ?case using pop_least_ranked [OF Cons(2)] step(1)
    by (subst search_loop.simps) (simp add: x Let_def split: candidate_check.split)
qed

lemma zeros_first:
  assumes "0 \<notin> set lengths"
  shows "search_inv lengths [] (ranked_combinations lengths) {replicate (length lengths) 0} [(0, replicate (length lengths) 0)]"
proof -
  have "replicate (length lengths) 0 \<in> box lengths" using assms by (auto simp: box_def gr0_conv_Suc in_set_conv_nth)
  moreover have "rank (replicate (length lengths) 0) = (0, replicate (length lengths) 0)" by (simp add: rank_def sum_list_replicate)
  ultimately have "(0, replicate (length lengths) 0) \<in> set (ranked_combinations lengths)" unfolding set_ranked by (metis imageI)
  then show ?thesis by (simp add: search_inv_def)
qed

text \<open>
  C9. When every component has a candidate, the search does not panic and gives the result of trying the combinations
  one after another in a list that holds every combination once, ordered by the sum of the indexes and then
  lexicographically; in particular an accepted combination is the first one in that order that is not rejected.
\<close>

theorem search_tries_in_rank_order:
  assumes "0 \<notin> set lengths" "slot_granted vf"
  shows "search vf lengths = Some (try_in_order vf lengths 0 (ranked_combinations lengths)) \<and>
    set (map snd (ranked_combinations lengths)) = {v. length v = length lengths \<and> (\<forall>i < length lengths. v ! i < lengths ! i)} \<and>
    distinct (map snd (ranked_combinations lengths)) \<and> sorted (map (\<lambda>v. (sum_list v, v)) (map snd (ranked_combinations lengths)))"
proof -
  have "rank (snd c) = c" if "c \<in> set (ranked_combinations lengths)" for c using that by (auto simp: set_ranked)
  then have own: "map (rank \<circ> snd) (ranked_combinations lengths) = ranked_combinations lengths" by (intro map_idI) simp
  have "snd ` set (ranked_combinations lengths) = box lengths" by (simp add: set_ranked image_image)
  moreover have "distinct (map snd (ranked_combinations lengths))"
    using distinct_ranked [of lengths] own by (metis distinct_map map_map)
  moreover have "map (\<lambda>v. (sum_list v, v)) (map snd (ranked_combinations lengths)) = ranked_combinations lengths"
    using own by (simp add: rank_def comp_def)
  ultimately show ?thesis using search_loop_scans [OF zeros_first [OF assms(1)]] assms(2) sorted_ranked [of lengths]
    by (simp add: search_def box_def Let_def)
qed

text \<open>Two components with two and three candidates; the third attempt is accepted.\<close>

theorem search_tries_in_rank_order_witness:
  "search \<lparr>slot_granted = True, has_deadline = True, no_time_left = (\<lambda>_. False),
     validate = (\<lambda>_ v. if v = [1, 0] then Accepted ''ok'' else Rejected), unlimited_results = False\<rparr> [2, 3] = Some (Inr ''ok'')"
proof -
  let ?vf = "\<lparr>slot_granted = True, has_deadline = True, no_time_left = (\<lambda>_. False),
     validate = (\<lambda>_ v. if v = [1, 0] then Accepted ''ok'' else Rejected), unlimited_results = False\<rparr>"
  have "ranked_combinations [2, 3] = [(0, [0, 0]), (1, [0, 1]), (1, [1, 0]), (2, [0, 2]), (2, [1, 1]), (3, [1, 2])]"
    by (simp add: ranked_combinations_def rank_def upt_rec insort_remove1)
  then show ?thesis using search_tries_in_rank_order [of "[2, 3]" ?vf] by (simp add: MAX_COMBINATIONS_def)
qed

end
