(* ===== verification/Http_Fallbacks.thy ===== *)
theory Http_Fallbacks
  imports Kf_Prelude
begin

text \<open>
  Alternative environments of HTTP validation and revocation, from \<open>crates/kingfisher-rules/src/rule.rs\<close>: the check
  of a rule's fallbacks, the validation configurations in the order they are tried, and the revocation that
  belongs to an environment.

  The theory shows that the configurations never panic on what the check accepts, that there are at most three,
  and that a fallback sends candidates only to targets of its own, never to those of the primary; the token endpoint
  of the service account that authenticates to the verifier is the one setting with an address that reuse inherits.
\<close>

section \<open>Requests and actions\<close>

text \<open>Matchers and multipart settings are not inspected here and stand for themselves as text.\<close>

record http_request =
  rq_method :: bytes
  rq_url :: bytes
  rq_fallback_urls :: "bytes list"
  rq_headers :: "(bytes \<times> bytes) list"
  rq_body :: "bytes option"
  rq_response_matcher :: "bytes list option"
  rq_multipart :: "bytes option"
  rq_response_is_html :: bool

record oauth2_password_credentials =
  oc_username :: "bytes option"
  oc_username_env :: "bytes option"
  oc_password :: "bytes option"
  oc_password_env :: "bytes option"
  oc_client_id :: bytes
  oc_client_secret :: "bytes option"
  oc_client_secret_env :: "bytes option"
  oc_scope :: "bytes option"

record oauth2_config =
  token_endpoint :: bytes
  token_header :: bytes
  ropc :: oauth2_password_credentials

record http_validation_auth =
  oauth2 :: oauth2_config

record http_validation =
  hv_request :: http_request
  hv_multipart :: "bytes option"
  hv_auth :: "http_validation_auth option"

record revocation_step =
  rs_name :: "bytes option"
  rs_request :: http_request
  rs_multipart :: "bytes option"
  rs_extract :: "(bytes \<times> bytes) list option"

datatype revocation = RevokeAWS | RevokeGCP | RevokeBetterleaks bytes | RevokeHttp http_validation | RevokeMultiStep "revocation_step list"

text \<open>Values of the expression tree of a Betterleaks validation, as its serialization gives them.\<close>

datatype json = JNull | JBool bool | JNumber int | JString bytes | JArray "json list" | JObject "(bytes \<times> json) list"

datatype validation = Assumed | AWS | AzureStorage | Coinbase | GCP | MongoDB | MySQL | Postgres | Jdbc | CredentialUri | JWT
  | Ethereum bytes | Raw bytes | Betterleaks json | Http http_validation | Grpc bytes

record http_fallback =
  fb_id :: bytes
  reuse_primary_validation_logic :: bool
  fb_url :: "bytes option"
  fb_validation :: "validation option"
  reuse_primary_revocation_logic :: bool
  fb_revocation_url :: "bytes option"
  fb_revocation_urls :: "bytes list"
  fb_revocation :: "revocation option"

text \<open>The fields of a rule that are read here.\<close>

record rule_syntax =
  authoritative :: bool
  rule_validation :: "validation option"
  rule_revocation :: "revocation option"
  fallbacks :: "http_fallback list"

datatype fallback_error =
    TooManyFallbacks | NoPrimaryHttp | MixedUrlLists | BadFallbackId | ReuseWithValidation | ReuseWithoutUrl
  | UrlWithoutReuse | IncompleteValidation | BadFallbackUrl | NoResponseMatcher
  | OverrideWithoutReuse | ReuseWithRevocation | NoPrimaryRevocation | WrongUrlField | NoRevocationUrl | StepMismatch
  | UnsupportedRevocation | StepCount | AlternativeUrls | NoFinalMatcher | UnknownFallback

definition MAX_HTTP_FALLBACKS :: nat where
  "MAX_HTTP_FALLBACKS = 2"

definition blank :: "bytes \<Rightarrow> bool" where
  "blank s \<longleftrightarrow> str_trim s = []"

definition ensure :: "bool \<Rightarrow> 'e \<Rightarrow> 'e + 'a \<Rightarrow> 'e + 'a" where
  "ensure b e r = (if b then r else Inl e)"

section \<open>Revocation of an environment\<close>

definition retarget :: "bytes \<Rightarrow> http_request \<Rightarrow> http_request" where
  "retarget url r = r\<lparr>rq_url := url, rq_fallback_urls := []\<rparr>"

definition resolved_revocation :: "http_fallback \<Rightarrow> revocation option \<Rightarrow> fallback_error + revocation option" where
  "resolved_revocation f primary =
     (if \<not> reuse_primary_revocation_logic f then
        ensure (fb_revocation_url f = None \<and> fb_revocation_urls f = []) OverrideWithoutReuse (Inr (fb_revocation f))
      else ensure (fb_revocation f = None) ReuseWithRevocation
        (case primary of
           None \<Rightarrow> Inl NoPrimaryRevocation
         | Some (RevokeHttp http) \<Rightarrow>
             ensure (fb_revocation_urls f = []) WrongUrlField
               (case fb_revocation_url f of
                  None \<Rightarrow> Inl NoRevocationUrl
                | Some url \<Rightarrow>
                    if blank url then Inl NoRevocationUrl
                    else Inr (Some (RevokeHttp (http\<lparr>hv_request := retarget url (hv_request http)\<rparr>))))
         | Some (RevokeMultiStep steps) \<Rightarrow>
             ensure (fb_revocation_url f = None) WrongUrlField
               (ensure (1 \<le> length steps \<and> length steps \<le> 2 \<and> length (fb_revocation_urls f) = length steps \<and>
                        list_all (\<lambda>url. \<not> blank url) (fb_revocation_urls f)) StepMismatch
                 (Inr (Some (RevokeMultiStep
                    (map2 (\<lambda>st url. st\<lparr>rs_request := retarget url (rs_request st)\<rparr>) steps (fb_revocation_urls f))))))
         | Some _ \<Rightarrow> Inl UnsupportedRevocation))"

section \<open>\<open>check_http_fallbacks\<close>\<close>

definition id_byte :: "byte \<Rightarrow> bool" where
  "id_byte c \<longleftrightarrow> is_ascii_alphanumeric c \<or> c \<in> {CHR ''_'', CHR ''.'', CHR ''-''}"

definition check_fallback_target :: "http_fallback \<Rightarrow> fallback_error + unit" where
  "check_fallback_target f =
     (if reuse_primary_validation_logic f then
        ensure (fb_validation f = None) ReuseWithValidation
          (ensure (case fb_url f of None \<Rightarrow> False | Some url \<Rightarrow> \<not> blank url) ReuseWithoutUrl (Inr ()))
      else
        ensure (fb_url f = None) UrlWithoutReuse
          (case fb_validation f of
             Some (Http http) \<Rightarrow>
               ensure (rq_fallback_urls (hv_request http) = [] \<and> \<not> blank (rq_url (hv_request http))) BadFallbackUrl
                 (ensure (case rq_response_matcher (hv_request http) of None \<Rightarrow> False | Some m \<Rightarrow> m \<noteq> []) NoResponseMatcher (Inr ()))
           | _ \<Rightarrow> Inl IncompleteValidation))"

definition has_matcher :: "http_request \<Rightarrow> bool" where
  "has_matcher r = (case rq_response_matcher r of None \<Rightarrow> False | Some m \<Rightarrow> m \<noteq> [])"

definition check_action :: "revocation \<Rightarrow> fallback_error + unit" where
  "check_action action =
     (let scalar = (\<lambda>requests. ensure (list_all (\<lambda>r. rq_fallback_urls r = []) requests) AlternativeUrls
                      (ensure (requests \<noteq> [] \<and> has_matcher (last requests)) NoFinalMatcher (Inr ())))
      in case action of
           RevokeHttp http \<Rightarrow> scalar [hv_request http]
         | RevokeMultiStep steps \<Rightarrow> ensure (1 \<le> length steps \<and> length steps \<le> 2) StepCount (scalar (map rs_request steps))
         | _ \<Rightarrow> Inl UnsupportedRevocation)"

fun check_fallbacks :: "revocation option \<Rightarrow> bytes set \<Rightarrow> http_fallback list \<Rightarrow> fallback_error + unit" where
  "check_fallbacks primary ids [] = Inr ()"
| "check_fallbacks primary ids (f # fs) =
     ensure (fb_id f \<noteq> [] \<and> fb_id f \<noteq> ''primary'' \<and> list_all id_byte (fb_id f) \<and> fb_id f \<notin> ids) BadFallbackId
       (case check_fallback_target f of
          Inl e \<Rightarrow> Inl e
        | Inr _ \<Rightarrow>
            (case resolved_revocation f primary of
               Inl e \<Rightarrow> Inl e
             | Inr None \<Rightarrow> check_fallbacks primary (insert (fb_id f) ids) fs
             | Inr (Some action) \<Rightarrow>
                 (case check_action action of
                    Inl e \<Rightarrow> Inl e
                  | Inr _ \<Rightarrow> check_fallbacks primary (insert (fb_id f) ids) fs)))"

definition check_http_fallbacks :: "rule_syntax \<Rightarrow> fallback_error + unit" where
  "check_http_fallbacks rule =
     (if fallbacks rule = [] then Inr ()
      else ensure (length (fallbacks rule) \<le> MAX_HTTP_FALLBACKS) TooManyFallbacks
        (case rule_validation rule of
           Some (Http primary) \<Rightarrow>
             ensure (rq_fallback_urls (hv_request primary) = []) MixedUrlLists
               (check_fallbacks (rule_revocation rule) {} (fallbacks rule))
         | _ \<Rightarrow> Inl NoPrimaryHttp))"

section \<open>The configurations\<close>

type_synonym configuration = "bytes option \<times> http_validation"

definition with_url :: "bytes \<Rightarrow> http_validation \<Rightarrow> http_validation" where
  "with_url url http = http\<lparr>hv_request := (hv_request http)\<lparr>rq_url := url\<rparr>\<rparr>"

definition without_alternatives :: "http_validation \<Rightarrow> http_validation" where
  "without_alternatives http = http\<lparr>hv_request := (hv_request http)\<lparr>rq_fallback_urls := []\<rparr>\<rparr>"

text \<open>\<open>None\<close> is the panic of \<open>unreachable!\<close> or \<open>expect\<close>.\<close>

definition fallback_configuration :: "http_validation \<Rightarrow> http_fallback \<Rightarrow> configuration option" where
  "fallback_configuration primary f =
     (if reuse_primary_validation_logic f then map_option (\<lambda>url. (Some (fb_id f), with_url url primary)) (fb_url f)
      else case fb_validation f of Some (Http http) \<Rightarrow> Some (Some (fb_id f), http) | _ \<Rightarrow> None)"

fun fallback_configurations :: "http_validation \<Rightarrow> http_fallback list \<Rightarrow> configuration list option" where
  "fallback_configurations primary [] = Some []"
| "fallback_configurations primary (f # fs) =
     (case fallback_configuration primary f of
        None \<Rightarrow> None
      | Some c \<Rightarrow> map_option ((#) c) (fallback_configurations primary fs))"

definition http_validations :: "rule_syntax \<Rightarrow> bool \<Rightarrow> (fallback_error + configuration list) option" where
  "http_validations rule enabled =
     (case check_http_fallbacks rule of
        Inl e \<Rightarrow> Some (Inl e)
      | Inr _ \<Rightarrow>
          (case rule_validation rule of
             Some (Http primary) \<Rightarrow>
               let first = (None, without_alternatives primary) in
               if \<not> enabled then Some (Inr [first])
               else if fallbacks rule = [] then
                 Some (Inr (first # map (\<lambda>url. (None, without_alternatives (with_url url primary)))
                   (take MAX_HTTP_FALLBACKS (rq_fallback_urls (hv_request primary)))))
               else map_option (\<lambda>cs. Inr (first # cs)) (fallback_configurations primary (fallbacks rule))
           | _ \<Rightarrow> Some (Inr [])))"

definition selected_revocation :: "rule_syntax \<Rightarrow> bytes option \<Rightarrow> fallback_error + revocation option" where
  "selected_revocation rule fallback_id =
     (case fallback_id of
        None \<Rightarrow> Inr (rule_revocation rule)
      | Some fid \<Rightarrow>
          (case find (\<lambda>f. fb_id f = fid) (fallbacks rule) of
             None \<Rightarrow> Inl UnknownFallback
           | Some f \<Rightarrow> resolved_revocation f (rule_revocation rule)))"

section \<open>Targets of an environment\<close>

lemma ensure_Inr [simp]: "ensure b e r = Inr x \<longleftrightarrow> b \<and> r = Inr x"
  by (simp add: ensure_def)

text \<open>The validation target and the revocation targets that a fallback names itself.\<close>

definition own_url :: "http_fallback \<Rightarrow> bytes option" where
  "own_url f =
     (if reuse_primary_validation_logic f then fb_url f
      else case fb_validation f of Some (Http http) \<Rightarrow> Some (rq_url (hv_request http)) | _ \<Rightarrow> None)"

definition request_urls :: "http_request \<Rightarrow> bytes list" where
  "request_urls r = rq_url r # rq_fallback_urls r"

text \<open>
  The addresses a validation contacts: those of its request, and the token endpoint of its authentication.  Revocation
  refuses authentication when it runs, so an action contacts its requests only.
\<close>

definition auth_endpoints :: "http_validation_auth option \<Rightarrow> bytes list" where
  "auth_endpoints auth = (case auth of None \<Rightarrow> [] | Some a \<Rightarrow> [token_endpoint (oauth2 a)])"

definition contacted_urls :: "http_validation \<Rightarrow> bytes list" where
  "contacted_urls http = request_urls (hv_request http) @ auth_endpoints (hv_auth http)"

text \<open>The token endpoint of an environment: its own, or with reuse the one of the primary.\<close>

definition environment_endpoints :: "http_validation \<Rightarrow> http_fallback \<Rightarrow> bytes list" where
  "environment_endpoints primary f =
     (if reuse_primary_validation_logic f then auth_endpoints (hv_auth primary)
      else case fb_validation f of Some (Http http) \<Rightarrow> auth_endpoints (hv_auth http) | _ \<Rightarrow> [])"

definition action_urls :: "revocation \<Rightarrow> bytes list" where
  "action_urls action =
     (case action of
        RevokeHttp http \<Rightarrow> request_urls (hv_request http)
      | RevokeMultiStep steps \<Rightarrow> concat (map (request_urls \<circ> rs_request) steps)
      | _ \<Rightarrow> [])"

definition own_revocation_urls :: "http_fallback \<Rightarrow> bytes list" where
  "own_revocation_urls f =
     (if reuse_primary_revocation_logic f then (case fb_revocation_url f of Some url \<Rightarrow> [url] | None \<Rightarrow> fb_revocation_urls f)
      else case fb_revocation f of Some action \<Rightarrow> action_urls action | None \<Rightarrow> [])"

lemma request_urls_retarget [simp]: "request_urls (retarget url r) = [url]"
  by (simp add: request_urls_def retarget_def)

lemma retarget_steps:
  "length steps = length urls \<Longrightarrow>
   concat (map (request_urls \<circ> rs_request \<circ> (\<lambda>(st, url). st\<lparr>rs_request := retarget url (rs_request st)\<rparr>)) (zip steps urls)) = urls"
  by (induction steps urls rule: list_induct2) simp_all

lemma resolved_revocation_targets:
  assumes "resolved_revocation f primary = Inr (Some action)"
  shows "action_urls action = own_revocation_urls f"
  using assms unfolding resolved_revocation_def
  by (auto simp: own_revocation_urls_def action_urls_def retarget_steps
      split: if_splits option.splits revocation.splits)

lemma check_fallbacks_ok:
  assumes "check_fallbacks primary ids fs = Inr ()"
  shows "distinct (map fb_id fs) \<and>
    (\<forall>f \<in> set fs. fb_id f \<notin> ids \<and> check_fallback_target f = Inr () \<and> (\<exists>a. resolved_revocation f primary = Inr a))"
  using assms
proof (induction fs arbitrary: ids)
  case (Cons f fs)
  obtain a where a: "check_fallback_target f = Inr ()" "resolved_revocation f primary = Inr a" "fb_id f \<notin> ids"
    using Cons(2) by (auto split: sum.splits)
  then have "check_fallbacks primary (insert (fb_id f) ids) fs = Inr ()" using Cons(2) by (auto split: sum.splits option.splits)
  note ih = Cons(1) [OF this]
  then have "fb_id f \<notin> fb_id ` set fs" by auto
  then show ?case using ih a by auto
qed simp

lemma fallback_configuration_ok:
  assumes "check_fallback_target f = Inr ()" "rq_fallback_urls (hv_request primary) = []"
  shows "\<exists>http url. fallback_configuration primary f = Some (Some (fb_id f), http) \<and> own_url f = Some url \<and> \<not> blank url \<and>
    contacted_urls http = url # environment_endpoints primary f"
  using assms unfolding check_fallback_target_def
  by (auto simp: fallback_configuration_def own_url_def with_url_def contacted_urls_def request_urls_def environment_endpoints_def split: if_splits option.splits validation.splits)

lemma fallback_configurations_ok:
  assumes "\<forall>f \<in> set fs. check_fallback_target f = Inr ()" "rq_fallback_urls (hv_request primary) = []"
  shows "\<exists>cs. fallback_configurations primary fs = Some cs \<and>
    list_all2 (\<lambda>f c. fst c = Some (fb_id f) \<and>
      (\<exists>url. own_url f = Some url \<and> \<not> blank url \<and> contacted_urls (snd c) = url # environment_endpoints primary f)) fs cs"
  using assms(1)
proof (induction fs)
  case (Cons f fs)
  then show ?case using fallback_configuration_ok [OF _ assms(2), of f] by fastforce
qed simp

lemma find_fallback: "distinct (map fb_id fs) \<Longrightarrow> f \<in> set fs \<Longrightarrow> find (\<lambda>g. fb_id g = fb_id f) fs = Some f"
  by (induction fs) auto

text \<open>What a list of configurations may hold for a rule.\<close>

definition stays_on_target :: "rule_syntax \<Rightarrow> configuration \<Rightarrow> bool" where
  "stays_on_target rule c \<longleftrightarrow>
     (\<exists>primary. rule_validation rule = Some (Http primary) \<and>
        (fst c = None \<longrightarrow> (\<exists>url \<in> set (request_urls (hv_request primary)). contacted_urls (snd c) = url # auth_endpoints (hv_auth primary))) \<and>
        (\<forall>fid. fst c = Some fid \<longrightarrow>
           (\<exists>f \<in> set (fallbacks rule). \<exists>url. fb_id f = fid \<and> own_url f = Some url \<and> \<not> blank url \<and>
              contacted_urls (snd c) = url # environment_endpoints primary f \<and>
              (\<exists>action. selected_revocation rule (Some fid) = Inr action \<and>
                 (\<forall>a. action = Some a \<longrightarrow> action_urls a = own_revocation_urls f)))))"

lemma http_validations_ok:
  "\<exists>r. http_validations rule enabled = Some r \<and>
     (\<forall>cs. r = Inr cs \<longrightarrow> length cs \<le> 3 \<and> (\<forall>c \<in> set cs. stays_on_target rule c))"
proof (cases "check_http_fallbacks rule")
  case (Inl e)
  then show ?thesis by (simp add: http_validations_def)
next
  case ok: (Inr u)
  show ?thesis
  proof (cases "\<exists>primary. rule_validation rule = Some (Http primary)")
    case False
    then show ?thesis using ok by (auto simp: http_validations_def split: option.splits validation.splits)
  next
    case True
    then obtain primary where p: "rule_validation rule = Some (Http primary)" by blast
    have plain: "stays_on_target rule (None, without_alternatives primary)"
      "url \<in> set (rq_fallback_urls (hv_request primary)) \<Longrightarrow> stays_on_target rule (None, without_alternatives (with_url url primary))" for url
      by (simp_all add: p stays_on_target_def without_alternatives_def with_url_def contacted_urls_def request_urls_def)
    show ?thesis
    proof (cases "enabled \<and> fallbacks rule \<noteq> []")
      case False
      then show ?thesis using ok p plain by (auto simp: http_validations_def Let_def MAX_HTTP_FALLBACKS_def dest: in_set_takeD)
    next
      case fb: True
      then have chk: "length (fallbacks rule) \<le> 2" "rq_fallback_urls (hv_request primary) = []"
        "check_fallbacks (rule_revocation rule) {} (fallbacks rule) = Inr ()"
        using ok p by (auto simp: check_http_fallbacks_def MAX_HTTP_FALLBACKS_def)
      note fs = check_fallbacks_ok [OF chk(3)]
      then obtain cs where cs: "fallback_configurations primary (fallbacks rule) = Some cs"
        "list_all2 (\<lambda>f c. fst c = Some (fb_id f) \<and>
          (\<exists>url. own_url f = Some url \<and> \<not> blank url \<and> contacted_urls (snd c) = url # environment_endpoints primary f)) (fallbacks rule) cs"
        using fallback_configurations_ok [OF _ chk(2), of "fallbacks rule"] by blast
      have "stays_on_target rule c" if c: "c \<in> set cs" for c
      proof -
        obtain f url where f: "f \<in> set (fallbacks rule)" "fst c = Some (fb_id f)" "own_url f = Some url" "\<not> blank url"
          "contacted_urls (snd c) = url # environment_endpoints primary f"
          using cs(2) c unfolding list_all2_conv_all_nth in_set_conv_nth by metis
        obtain a where "resolved_revocation f (rule_revocation rule) = Inr a" using fs f(1) by blast
        then have "selected_revocation rule (Some (fb_id f)) = Inr a \<and> (\<forall>x. a = Some x \<longrightarrow> action_urls x = own_revocation_urls f)"
          using find_fallback [OF _ f(1)] fs resolved_revocation_targets by (auto simp: selected_revocation_def)
        then show ?thesis using f p unfolding stays_on_target_def by auto
      qed
      moreover have "length cs \<le> 2" using list_all2_lengthD [OF cs(2)] chk(1) by simp
      ultimately show ?thesis using ok p fb cs(1) plain by (auto simp: http_validations_def Let_def)
    qed
  qed
qed

text \<open>
  C19. The validation configurations of a rule are always computed without a panic, and there are at most three of them.  A
  configuration of the primary contacts one of the URLs that the primary names.  A configuration of a named environment
  contacts the one URL that this environment names itself, which is not blank; revocation for it is defined and goes
  to its own revocation targets only.  Besides these, a configuration contacts only the token endpoint of its
  authentication: of the primary's when the environment reuses the primary's logic, and else of its own.
\<close>

theorem http_fallbacks_stay_on_target:
  "\<exists>r. http_validations rule enabled = Some r \<and>
     (\<forall>cs. r = Inr cs \<longrightarrow> length cs \<le> 3 \<and>
        (\<forall>(env, http) \<in> set cs. \<exists>primary. rule_validation rule = Some (Http primary) \<and>
           (env = None \<longrightarrow> (\<exists>url \<in> set (request_urls (hv_request primary)). contacted_urls http = url # auth_endpoints (hv_auth primary))) \<and>
           (\<forall>fid. env = Some fid \<longrightarrow>
              (\<exists>f \<in> set (fallbacks rule). \<exists>url. fb_id f = fid \<and> own_url f = Some url \<and> \<not> blank url \<and>
                 contacted_urls http = url # environment_endpoints primary f \<and>
                 (\<exists>action. selected_revocation rule (Some fid) = Inr action \<and>
                    (\<forall>a. action = Some a \<longrightarrow> action_urls a = own_revocation_urls f))))))"
  using http_validations_ok [of rule enabled] unfolding stays_on_target_def by (fastforce simp: case_prod_unfold)

text \<open>A primary with one named environment that reuses its logic at a target of its own.\<close>

definition sample_request :: "bytes \<Rightarrow> http_request" where
  "sample_request url = \<lparr>rq_method = ''GET'', rq_url = url, rq_fallback_urls = [], rq_headers = [], rq_body = None,
     rq_response_matcher = Some [''status''], rq_multipart = None, rq_response_is_html = False\<rparr>"

definition sample_http :: "bytes \<Rightarrow> http_validation" where
  "sample_http url = \<lparr>hv_request = sample_request url, hv_multipart = None,
     hv_auth = Some \<lparr>oauth2 = \<lparr>token_endpoint = ''https://login.example/'', token_header = ''Authorization'',
       ropc = \<lparr>oc_username = Some ''u'', oc_username_env = None, oc_password = None, oc_password_env = Some ''P'', oc_client_id = ''c'',
         oc_client_secret = None, oc_client_secret_env = None, oc_scope = None\<rparr>\<rparr>\<rparr>\<rparr>"

definition sample_rule :: rule_syntax where
  "sample_rule = \<lparr>authoritative = True, rule_validation = Some (Http (sample_http ''https://a.example/'')),
     rule_revocation = Some (RevokeHttp (sample_http ''https://a.example/revoke'')),
     fallbacks = [\<lparr>fb_id = ''eu'', reuse_primary_validation_logic = True, fb_url = Some ''https://b.example/'', fb_validation = None,
       reuse_primary_revocation_logic = True, fb_revocation_url = Some ''https://b.example/revoke'', fb_revocation_urls = [],
       fb_revocation = None\<rparr>]\<rparr>"

lemma not_blank_sample: "\<not> blank ''https://b.example/''" "\<not> blank ''https://b.example/revoke''"
  by code_simp+

lemma sample_configurations:
  "http_validations sample_rule True =
     Some (Inr [(None, sample_http ''https://a.example/''), (Some ''eu'', sample_http ''https://b.example/'')])"
  by (simp add: http_validations_def check_http_fallbacks_def check_fallback_target_def resolved_revocation_def check_action_def
      has_matcher_def ensure_def id_byte_def ascii_class_defs MAX_HTTP_FALLBACKS_def without_alternatives_def fallback_configuration_def
      with_url_def retarget_def not_blank_sample sample_rule_def sample_http_def sample_request_def Let_def)

theorem http_fallbacks_stay_on_target_witness:
  "\<exists>action http. http_validations sample_rule True = Some (Inr [(None, sample_http ''https://a.example/''), (Some ''eu'', http)]) \<and>
     contacted_urls http = [''https://b.example/'', ''https://login.example/''] \<and>
     selected_revocation sample_rule (Some ''eu'') = Inr (Some action) \<and> action_urls action = [''https://b.example/revoke'']"
proof -
  have f: "f \<in> set (fallbacks sample_rule) \<Longrightarrow> own_revocation_urls f = [''https://b.example/revoke''] \<and> own_url f = Some ''https://b.example/'' \<and>
      environment_endpoints (sample_http ''https://a.example/'') f = [''https://login.example/'']" for f
    by (auto simp: sample_rule_def own_revocation_urls_def own_url_def environment_endpoints_def auth_endpoints_def sample_http_def)
  have p: "rule_validation sample_rule = Some (Http primary) \<Longrightarrow> primary = sample_http ''https://a.example/''" for primary
    by (simp add: sample_rule_def)
  obtain action where a: "selected_revocation sample_rule (Some ''eu'') = Inr action"
    "\<forall>a. action = Some a \<longrightarrow> action_urls a = [''https://b.example/revoke'']"
    "contacted_urls (sample_http ''https://b.example/'') = [''https://b.example/'', ''https://login.example/'']"
    using http_fallbacks_stay_on_target [of sample_rule True] f p unfolding sample_configurations by fastforce
  have "action \<noteq> None" using a(1) by (auto simp: selected_revocation_def resolved_revocation_def sample_rule_def ensure_def split: if_splits)
  then show ?thesis using a sample_configurations by auto
qed

end
