(* ===== verification/Candidate_Eligibility.thy ===== *)
theory Candidate_Eligibility
  imports Http_Fallbacks
begin

text \<open>
  Which rules and components may be verified by trying candidates:
  \<open>supported_with_fallbacks\<close> and \<open>eligible_dependency\<close> of \<open>crates/kingfisher-scanner/src/validation/candidates.rs\<close>.

  Candidates are unproven values, so they may only be sent to destinations the rule fixes.  The theory shows that
  an accepted rule names every destination literally: no enabled HTTP configuration has a template in its URL,
  and no call of a Betterleaks expression leaves its authority to data.  URL parsing is a parameter.
\<close>

section \<open>Expressions as JSON values\<close>

fun json_index :: "json \<Rightarrow> bytes \<Rightarrow> json" where
  "json_index (JObject fs) key = (case map_of fs key of Some v \<Rightarrow> v | None \<Rightarrow> JNull)"
| "json_index _ key = JNull"

fun as_str :: "json \<Rightarrow> bytes option" where
  "as_str (JString s) = Some s"
| "as_str _ = None"

fun as_array :: "json \<Rightarrow> json list option" where
  "as_array (JArray vs) = Some vs"
| "as_array _ = None"

lemma size_field: "(key, v) \<in> set fs \<Longrightarrow> size v < size (JObject fs)"
  by (induction fs) auto

lemma size_json_index: "json_index value key' \<noteq> JNull \<Longrightarrow> size (json_index value key) < size value"
proof (cases "value")
  case (JObject fs)
  then show ?thesis using size_field [OF map_of_SomeD, of fs key] by (cases "map_of fs key") auto
qed simp_all

definition kind_is :: "json \<Rightarrow> bytes \<Rightarrow> bool" where
  "kind_is value name \<longleftrightarrow> json_index value ''kind'' = JString name"

function function_name :: "json \<Rightarrow> bytes option" where
  "function_name value =
     (if kind_is value ''identifier'' then as_str (json_index value ''value'')
      else if kind_is value ''member'' then
        (case function_name (json_index value ''node'') of
           None \<Rightarrow> None
         | Some name \<Rightarrow> map_option (\<lambda>property. name @ ''.'' @ property) (as_str (json_index (json_index value ''property'') ''value'')))
      else None)"
  by pat_completeness auto
termination
  by (relation "measure size") (auto simp: kind_is_def intro!: size_json_index [where key' = "''kind''"])

declare function_name.simps [simp del]

text \<open>The left end of a concatenation, and whether there was one.\<close>

function concat_prefix :: "bool \<Rightarrow> json \<Rightarrow> bool \<times> json" where
  "concat_prefix dynamic value =
     (if kind_is value ''binary'' \<and> json_index value ''operator'' = JString ''+''
      then concat_prefix True (json_index value ''left'') else (dynamic, value))"
  by pat_completeness auto
termination
  by (relation "measure (\<lambda>(dynamic, value). size value)") (auto simp: kind_is_def intro!: size_json_index [where key' = "''kind''"])

declare concat_prefix.simps [simp del]

section \<open>Destinations\<close>

record url =
  url_scheme :: bytes
  url_host :: "bytes option"
  url_username :: bytes
  url_password :: "bytes option"

text \<open>\<open>char::is_control\<close> on UTF-8 text: the C0 controls, DEL and the C1 controls.\<close>

fun has_control :: "bytes \<Rightarrow> bool" where
  "has_control [] = False"
| "has_control (b # bs) \<longleftrightarrow>
     byte_val b < 0x20 \<or> byte_val b = 0x7f \<or>
     (byte_val b = 0xc2 \<and> bs \<noteq> [] \<and> 0x80 \<le> byte_val (hd bs) \<and> byte_val (hd bs) < 0xa0) \<or> has_control bs"

text \<open>What follows the first occurrence of a separator, as \<open>split_once\<close> gives it.\<close>

fun after_first :: "bytes \<Rightarrow> bytes \<Rightarrow> bytes option" where
  "after_first sep s =
     (if prefix sep s then Some (drop (length sep) s) else case s of [] \<Rightarrow> None | _ # rest \<Rightarrow> after_first sep rest)"

declare after_first.simps [simp del]

definition web_scheme :: "url \<Rightarrow> bool" where
  "web_scheme u \<longleftrightarrow> url_scheme u = ''http'' \<or> url_scheme u = ''https''"

definition fixed_origin :: "(bytes \<Rightarrow> url option) \<Rightarrow> json \<Rightarrow> bool" where
  "fixed_origin parse_url value =
     (case concat_prefix False value of (dynamic, start) \<Rightarrow>
        (case (if kind_is start ''string'' then as_str (json_index start ''value'') else None) of
           None \<Rightarrow> False
         | Some raw \<Rightarrow>
             if has_control raw \<or> CHR 0x5C \<in> set raw then False
             else
               (case parse_url raw of
                  None \<Rightarrow> False
                | Some u \<Rightarrow>
                    if \<not> web_scheme u \<or> url_host u = None \<or> url_username u \<noteq> [] \<or> url_password u \<noteq> None then False
                    else \<not> dynamic \<or> (case after_first ''://'' raw of None \<Rightarrow> False | Some rest \<Rightarrow> CHR ''/'' \<in> set rest))))"

definition safe_headers :: "json option \<Rightarrow> bool" where
  "safe_headers value =
     (case value of
        None \<Rightarrow> True
      | Some value \<Rightarrow>
          kind_is value ''map'' \<and>
          (case as_array (json_index value ''pairs'') of
             None \<Rightarrow> False
           | Some pairs \<Rightarrow>
               list_all (\<lambda>pair. kind_is pair ''pair'' \<and> kind_is (json_index pair ''key'') ''string'' \<and>
                 (case as_str (json_index (json_index pair ''key'') ''value'') of
                    None \<Rightarrow> False
                  | Some key \<Rightarrow> \<not> eq_ignore_case (str_trim key) ''host'')) pairs))"

section \<open>Calls\<close>

definition pure_helpers :: "bytes list" where
  "pure_helpers = [''validate.unknown'', ''bytes'', ''base64.encode'', ''strings.urlQueryEscape'']"

text \<open>The check of one call: \<open>None\<close> rejects it, \<open>Some\<close> says whether it reaches the network.\<close>

definition call_effect :: "(bytes \<Rightarrow> url option) \<Rightarrow> json \<Rightarrow> bool option" where
  "call_effect parse_url value =
     (case function_name (json_index value ''callee'') of
        None \<Rightarrow> None
      | Some name \<Rightarrow>
          if name = ''aws.validate'' then Some True
          else if name = ''http.get'' \<or> name = ''http.post'' then
            (case as_array (json_index value ''arguments'') of
               None \<Rightarrow> None
             | Some args \<Rightarrow>
                 if \<not> (args \<noteq> [] \<and> fixed_origin parse_url (hd args)) \<or> \<not> safe_headers (slice_get args 1) then None else Some True)
          else if name \<in> set pure_helpers then Some False
          else None)"

fun inspect :: "(bytes \<Rightarrow> url option) \<Rightarrow> json \<Rightarrow> bool \<Rightarrow> bool \<times> bool"
  and inspect_fields :: "(bytes \<Rightarrow> url option) \<Rightarrow> (bytes \<times> json) list \<Rightarrow> bool \<Rightarrow> bool \<times> bool"
  and inspect_values :: "(bytes \<Rightarrow> url option) \<Rightarrow> json list \<Rightarrow> bool \<Rightarrow> bool \<times> bool" where
  "inspect parse_url (JObject fs) found =
     (if kind_is (JObject fs) ''call'' then
        (case call_effect parse_url (JObject fs) of
           None \<Rightarrow> (False, found)
         | Some network \<Rightarrow> inspect_fields parse_url fs (found \<or> network))
      else inspect_fields parse_url fs found)"
| "inspect parse_url (JArray vs) found = inspect_values parse_url vs found"
| "inspect parse_url _ found = (True, found)"
| "inspect_fields parse_url [] found = (True, found)"
| "inspect_fields parse_url ((_, v) # fs) found =
     (case inspect parse_url v found of (ok, found) \<Rightarrow> if ok then inspect_fields parse_url fs found else (False, found))"
| "inspect_values parse_url [] found = (True, found)"
| "inspect_values parse_url (v # vs) found =
     (case inspect parse_url v found of (ok, found) \<Rightarrow> if ok then inspect_values parse_url vs found else (False, found))"

section \<open>Rules and components\<close>

definition fixed_request :: "(bytes \<Rightarrow> url option) \<Rightarrow> http_validation \<Rightarrow> bool" where
  "fixed_request parse_url http \<longleftrightarrow>
     CHR ''{'' \<notin> set (rq_url (hv_request http)) \<and> CHR ''}'' \<notin> set (rq_url (hv_request http)) \<and>
     (case parse_url (rq_url (hv_request http)) of None \<Rightarrow> False | Some u \<Rightarrow> web_scheme u \<and> url_host u \<noteq> None) \<and>
     hv_multipart http = None \<and> rq_multipart (hv_request http) = None \<and>
     \<not> list_ex (\<lambda>(name, _). eq_ignore_case name ''host'') (rq_headers (hv_request http))"

text \<open>\<open>None\<close> is a panic while the configurations are resolved.\<close>

definition supported_with_fallbacks :: "(bytes \<Rightarrow> url option) \<Rightarrow> rule_syntax \<Rightarrow> bool \<Rightarrow> bool option" where
  "supported_with_fallbacks parse_url rule enabled =
     (if \<not> authoritative rule then Some False
      else
        case rule_validation rule of
          Some AWS \<Rightarrow> Some True
        | Some (Http _) \<Rightarrow>
            (case http_validations rule enabled of
               None \<Rightarrow> None
             | Some (Inl _) \<Rightarrow> Some False
             | Some (Inr configurations) \<Rightarrow> Some (list_all (\<lambda>(_, http). fixed_request parse_url http) configurations))
        | Some (Betterleaks expression) \<Rightarrow> (case inspect parse_url expression False of (ok, found) \<Rightarrow> Some (ok \<and> found))
        | _ \<Rightarrow> Some False)"

record candidate_dependency =
  verify_candidates :: bool
  dep_rule_id :: bytes
  dep_variable :: bytes

definition is_ascii_alphabetic :: "byte \<Rightarrow> bool" where
  "is_ascii_alphabetic b \<longleftrightarrow> is_ascii_upper b \<or> is_ascii_lower b"

fun split_words :: "bytes \<Rightarrow> bytes \<Rightarrow> bytes list" where
  "split_words word [] = [word]"
| "split_words word (b # bs) = (if is_ascii_alphabetic b then split_words (word @ [b]) bs else word # split_words [] bs)"

definition names_endpoint :: "bytes \<Rightarrow> bool" where
  "names_endpoint name =
     (let name = map to_ascii_lowercase name;
          endpoint_word = list_ex (\<lambda>part. part \<in> set [''url'', ''uri'', ''host'', ''hostname'', ''domain'', ''endpoint'', ''address'', ''port'', ''server''])
            (split_words [] name);
          name = rev (dropWhile (\<lambda>b. \<not> is_ascii_alphabetic b) (rev name))
      in endpoint_word \<or> list_ex (\<lambda>s. suffix s name) [''url'', ''uri'', ''hostname'', ''domain'', ''endpoint''])"

definition eligible_dependency :: "rule_syntax \<Rightarrow> candidate_dependency \<Rightarrow> bool" where
  "eligible_dependency rule dep \<longleftrightarrow>
     verify_candidates dep \<and> \<not> names_endpoint (dep_variable dep) \<and> \<not> names_endpoint (dep_rule_id dep) \<and>
     (case rule_validation rule of
        Some AWS \<Rightarrow> eq_ignore_case (dep_variable dep) ''AKID'' \<or> eq_ignore_case (dep_variable dep) ''AWS_SECRET_ACCESS_KEY''
      | _ \<Rightarrow> True)"

section \<open>Every destination is fixed\<close>

text \<open>The values inside a value, itself included.\<close>

inductive inside :: "json \<Rightarrow> json \<Rightarrow> bool" where
  inside_self: "inside v v"
| inside_field: "(key, v) \<in> set fs \<Longrightarrow> inside w v \<Longrightarrow> inside w (JObject fs)"
| inside_element: "v \<in> set vs \<Longrightarrow> inside w v \<Longrightarrow> inside w (JArray vs)"

inductive_simps inside_simps: "inside w JNull" "inside w (JBool b)" "inside w (JNumber n)" "inside w (JString s)"
  "inside w (JArray vs)" "inside w (JObject fs)"

definition calls_allowed :: "(bytes \<Rightarrow> url option) \<Rightarrow> json \<Rightarrow> bool" where
  "calls_allowed parse_url v \<longleftrightarrow> (\<forall>w. inside w v \<longrightarrow> kind_is w ''call'' \<longrightarrow> call_effect parse_url w \<noteq> None)"

definition calls_network :: "(bytes \<Rightarrow> url option) \<Rightarrow> json \<Rightarrow> bool" where
  "calls_network parse_url v \<longleftrightarrow> (\<exists>w. inside w v \<and> kind_is w ''call'' \<and> call_effect parse_url w = Some True)"

lemma calls_object:
  "calls_allowed p (JObject fs) \<longleftrightarrow> (kind_is (JObject fs) ''call'' \<longrightarrow> call_effect p (JObject fs) \<noteq> None) \<and> (\<forall>(key, v) \<in> set fs. calls_allowed p v)"
  "calls_network p (JObject fs) \<longleftrightarrow> kind_is (JObject fs) ''call'' \<and> call_effect p (JObject fs) = Some True \<or> (\<exists>(key, v) \<in> set fs. calls_network p v)"
  unfolding calls_allowed_def calls_network_def inside_simps by blast+

lemma calls_array:
  "calls_allowed p (JArray vs) \<longleftrightarrow> (\<forall>v \<in> set vs. calls_allowed p v)"
  "calls_network p (JArray vs) \<longleftrightarrow> (\<exists>v \<in> set vs. calls_network p v)"
  unfolding calls_allowed_def calls_network_def inside_simps by (auto simp: kind_is_def)

lemma calls_plain:
  "calls_allowed p JNull" "calls_allowed p (JBool b)" "calls_allowed p (JNumber n)" "calls_allowed p (JString s)"
  "\<not> calls_network p JNull" "\<not> calls_network p (JBool b)" "\<not> calls_network p (JNumber n)" "\<not> calls_network p (JString s)"
  unfolding calls_allowed_def calls_network_def inside_simps by (auto simp: kind_is_def)

lemma inspect_calls:
  "(fst (inspect p v found) \<longleftrightarrow> calls_allowed p v) \<and> (calls_allowed p v \<longrightarrow> (snd (inspect p v found) \<longleftrightarrow> found \<or> calls_network p v))"
  "(fst (inspect_fields p fs found) \<longleftrightarrow> (\<forall>(key, v) \<in> set fs. calls_allowed p v)) \<and>
   ((\<forall>(key, v) \<in> set fs. calls_allowed p v) \<longrightarrow> (snd (inspect_fields p fs found) \<longleftrightarrow> found \<or> (\<exists>(key, v) \<in> set fs. calls_network p v)))"
  "(fst (inspect_values p vs found) \<longleftrightarrow> (\<forall>v \<in> set vs. calls_allowed p v)) \<and>
   ((\<forall>v \<in> set vs. calls_allowed p v) \<longrightarrow> (snd (inspect_values p vs found) \<longleftrightarrow> found \<or> (\<exists>v \<in> set vs. calls_network p v)))"
proof (induction p v found and p fs found and p vs found rule: inspect_inspect_fields_inspect_values.induct)
  case (1 p fs found)
  then show ?case by (cases "call_effect p (JObject fs)") (auto simp: calls_object)
next
  case (5 p key v fs found)
  then show ?case by (cases "inspect p v found") auto
next
  case (7 p v vs found)
  then show ?case by (cases "inspect p v found") auto
qed (simp_all add: calls_array calls_plain)

text \<open>The authority of a URL; a literal start with a slash behind it fixes it, whatever follows.\<close>

definition authority :: "bytes \<Rightarrow> bytes option" where
  "authority s = map_option (takeWhile (\<lambda>b. b \<notin> {CHR ''/'', CHR ''?'', CHR ''#''})) (after_first ''://'' s)"

lemma after_first_short: "length s < length sep \<Longrightarrow> after_first sep s = None"
proof (induction s)
  case Nil
  then show ?case by (subst after_first.simps) auto
next
  case (Cons b s)
  then show ?case using prefix_length_le [of sep "b # s"] by (subst after_first.simps) auto
qed

lemma after_first_append: "after_first sep s = Some rest \<Longrightarrow> after_first sep (s @ t) = Some (rest @ t)"
proof (induction sep s rule: after_first.induct)
  case (1 sep s)
  show ?case
  proof (cases "prefix sep s")
    case True
    then obtain u where "s = sep @ u" by (auto simp: prefix_def)
    then show ?thesis using 1(2) by (simp add: after_first.simps [of sep "sep @ _"])
  next
    case False
    then obtain b s' where s: "s = b # s'" "after_first sep s' = Some rest" using 1(2) by (subst (asm) after_first.simps) (auto split: list.splits)
    then have ih: "after_first sep (s' @ t) = Some (rest @ t)" using 1(1) False by blast
    show ?thesis
    proof (cases "prefix sep (s @ t)")
      case True
      have "length s < length sep"
        using True False by (metis leI append_eq_conv_conj prefix_def prefix_length_prefix prefixI)
      then show ?thesis using 1(2) after_first_short by simp
    next
      case False
      then show ?thesis using s(1) ih by (subst after_first.simps) simp
    qed
  qed
qed

lemma authority_fixed:
  assumes "after_first ''://'' raw = Some rest" "CHR ''/'' \<in> set rest"
  shows "authority (raw @ t) = authority raw"
  using assms after_first_append [OF assms(1), of t] by (auto simp: authority_def takeWhile_append1)

text \<open>The URLs a rule may contact when it is validated over HTTP.\<close>

definition destinations :: "rule_syntax \<Rightarrow> http_validation \<Rightarrow> bool \<Rightarrow> bytes list" where
  "destinations rule primary enabled =
     rq_url (hv_request primary) #
     (if \<not> enabled then []
      else if fallbacks rule = [] then take MAX_HTTP_FALLBACKS (rq_fallback_urls (hv_request primary))
      else List.map_filter own_url (fallbacks rule))"

abbreviation configuration_url :: "configuration \<Rightarrow> bytes" where
  "configuration_url c \<equiv> rq_url (hv_request (snd c))"

lemma fallback_configurations_urls:
  "fallback_configurations primary fs = Some cs \<Longrightarrow> map configuration_url cs = List.map_filter own_url fs"
proof (induction fs arbitrary: cs)
  case (Cons f fs)
  then obtain c cs' where c: "fallback_configuration primary f = Some c" "fallback_configurations primary fs = Some cs'" "cs = c # cs'"
    by (auto split: option.splits)
  have "own_url f = Some (configuration_url c)" using c(1)
    by (auto simp: fallback_configuration_def own_url_def with_url_def split: if_splits option.splits validation.splits)
  then show ?case using Cons(1) c(2,3) by (simp add: List.map_filter_def)
qed (simp add: List.map_filter_def)

lemma http_validations_urls:
  assumes "http_validations rule enabled = Some (Inr cs)" "rule_validation rule = Some (Http primary)"
  shows "map configuration_url cs = destinations rule primary enabled"
  using assms fallback_configurations_urls
  by (auto simp: http_validations_def destinations_def Let_def without_alternatives_def with_url_def comp_def
      split: sum.splits if_splits)

text \<open>The first argument of a request starts with a literal that fixes scheme, host and authority.\<close>

definition fixed_target :: "(bytes \<Rightarrow> url option) \<Rightarrow> json \<Rightarrow> bool" where
  "fixed_target parse_url w \<longleftrightarrow>
     (\<exists>url args dynamic start raw u.
        json_index w ''arguments'' = JArray (url # args) \<and> concat_prefix False url = (dynamic, start) \<and>
        json_index start ''value'' = JString raw \<and> parse_url raw = Some u \<and> web_scheme u \<and> url_host u \<noteq> None \<and>
        url_username u = [] \<and> url_password u = None \<and>
        (dynamic \<longrightarrow> authority raw \<noteq> None \<and> (\<forall>t. authority (raw @ t) = authority raw)))"

lemma as_str_Some [simp]: "as_str v = Some s \<longleftrightarrow> v = JString s"
  by (cases v) auto

lemma as_array_Some [simp]: "as_array v = Some vs \<longleftrightarrow> v = JArray vs"
  by (cases v) auto

lemma fixed_origin_target:
  assumes "fixed_origin parse_url url" "json_index w ''arguments'' = JArray (url # args)"
  shows "fixed_target parse_url w"
proof -
  obtain dynamic start where s: "concat_prefix False url = (dynamic, start)" by fastforce
  obtain raw u where raw: "json_index start ''value'' = JString raw" "parse_url raw = Some u" "web_scheme u" "url_host u \<noteq> None"
    "url_username u = []" "url_password u = None"
    "dynamic \<Longrightarrow> \<exists>rest. after_first ''://'' raw = Some rest \<and> CHR ''/'' \<in> set rest"
    using assms(1) s by (auto simp: fixed_origin_def split: option.splits if_splits)
  have "dynamic \<longrightarrow> authority raw \<noteq> None \<and> (\<forall>t. authority (raw @ t) = authority raw)"
    using raw(7) authority_fixed by (auto simp: authority_def)
  then show ?thesis unfolding fixed_target_def using s raw assms(2) by blast
qed

lemma call_effect_name:
  assumes "call_effect parse_url w = Some network"
  shows "\<exists>name. function_name (json_index w ''callee'') = Some name \<and>
    name \<in> set ([''aws.validate'', ''http.get'', ''http.post''] @ pure_helpers) \<and>
    (network \<longrightarrow> name \<in> {''aws.validate'', ''http.get'', ''http.post''}) \<and>
    (name \<in> {''http.get'', ''http.post''} \<longrightarrow> fixed_target parse_url w)"
  using assms
  by (auto simp: call_effect_def pure_helpers_def neq_Nil_conv split: option.splits if_splits intro: fixed_origin_target)

text \<open>
  C10. A rule that may verify candidates is authoritative and sends them to fixed destinations only.  With HTTP
  validation, every URL of the primary and of the enabled alternatives is free of templates and has a web scheme
  and a host.  In a Betterleaks expression every call, however deep, is one of the permitted ones, at least one
  reaches the network, and the URL of every request starts with a literal whose authority no appended text changes.
\<close>

theorem candidates_go_to_fixed_destinations:
  assumes "supported_with_fallbacks parse_url rule enabled = Some True"
  shows "authoritative rule \<and>
    (case rule_validation rule of
       Some AWS \<Rightarrow> True
     | Some (Http primary) \<Rightarrow>
         (\<forall>url \<in> set (destinations rule primary enabled). CHR ''{'' \<notin> set url \<and> CHR ''}'' \<notin> set url \<and>
            (\<exists>u. parse_url url = Some u \<and> web_scheme u \<and> url_host u \<noteq> None))
     | Some (Betterleaks expr) \<Rightarrow>
         (\<forall>w. inside w expr \<longrightarrow> kind_is w ''call'' \<longrightarrow>
            (\<exists>name. function_name (json_index w ''callee'') = Some name \<and>
               name \<in> set ([''aws.validate'', ''http.get'', ''http.post''] @ pure_helpers) \<and>
               (name \<in> {''http.get'', ''http.post''} \<longrightarrow> fixed_target parse_url w))) \<and>
         (\<exists>w name. inside w expr \<and> kind_is w ''call'' \<and> function_name (json_index w ''callee'') = Some name \<and>
            name \<in> {''aws.validate'', ''http.get'', ''http.post''})
     | _ \<Rightarrow> False)"
proof -
  have a: "authoritative rule" using assms by (simp add: supported_with_fallbacks_def split: if_splits)
  show ?thesis
  proof (cases "\<exists>primary. rule_validation rule = Some (Http primary)")
    case True
    then obtain primary where p: "rule_validation rule = Some (Http primary)" by blast
    obtain cs where cs: "http_validations rule enabled = Some (Inr cs)" "\<forall>c \<in> set cs. fixed_request parse_url (snd c)"
      using assms a p by (auto simp: supported_with_fallbacks_def list_all_iff case_prod_unfold split: option.splits sum.splits)
    have "set (destinations rule primary enabled) = configuration_url ` set cs" using http_validations_urls [OF cs(1) p] by (metis set_map)
    then show ?thesis using cs(2) a p by (auto simp: fixed_request_def split: option.splits)
  next
    case False
    show ?thesis
    proof (cases "\<exists>expr. rule_validation rule = Some (Betterleaks expr)")
      case True
      then obtain expr where e: "rule_validation rule = Some (Betterleaks expr)" by blast
      then have i: "inspect parse_url expr False = (True, True)"
        using assms a by (auto simp: supported_with_fallbacks_def split: prod.splits)
      then have c: "calls_allowed parse_url expr" "calls_network parse_url expr" using inspect_calls(1) [of parse_url expr False] by auto
      have "\<exists>name. function_name (json_index w ''callee'') = Some name \<and>
          name \<in> set ([''aws.validate'', ''http.get'', ''http.post''] @ pure_helpers) \<and>
          (name \<in> {''http.get'', ''http.post''} \<longrightarrow> fixed_target parse_url w)" if w: "inside w expr" "kind_is w ''call''" for w
      proof -
        obtain network where "call_effect parse_url w = Some network" using c(1) w unfolding calls_allowed_def by blast
        from call_effect_name [OF this] show ?thesis by blast
      qed
      moreover obtain w where "inside w expr" "kind_is w ''call''" "call_effect parse_url w = Some True" using c(2) unfolding calls_network_def by blast
      moreover from call_effect_name [OF this(3)] obtain name where "function_name (json_index w ''callee'') = Some name"
        "name \<in> {''aws.validate'', ''http.get'', ''http.post''}" by blast
      ultimately show ?thesis using a unfolding e by (simp only: option.case validation.case simp_thms) blast
    next
      case False
      then show ?thesis using assms a \<open>\<nexists>primary. rule_validation rule = Some (Http primary)\<close>
        by (auto simp: supported_with_fallbacks_def split: option.splits validation.splits)
    qed
  qed
qed

text \<open>A request to a literal host whose path ends in a component.\<close>

definition sample_parse :: "bytes \<Rightarrow> url option" where
  "sample_parse s =
     (if s = ''https://a.example/v1/'' then Some \<lparr>url_scheme = ''https'', url_host = Some ''a.example'', url_username = [], url_password = None\<rparr>
      else None)"

definition name_node :: "bytes \<Rightarrow> json" where
  "name_node name = JObject [(''kind'', JString ''identifier''), (''value'', JString name)]"

definition sample_url :: json where
  "sample_url = JObject [(''kind'', JString ''binary''), (''operator'', JString ''+''),
     (''left'', JObject [(''kind'', JString ''string''), (''value'', JString ''https://a.example/v1/'')]), (''right'', name_node ''secret'')]"

definition sample_call :: json where
  "sample_call = JObject [(''kind'', JString ''call''),
     (''callee'', JObject [(''kind'', JString ''member''), (''node'', name_node ''http''), (''property'', name_node ''get'')]),
     (''arguments'', JArray [sample_url])]"

definition sample_betterleaks :: rule_syntax where
  "sample_betterleaks = \<lparr>authoritative = True, rule_validation = Some (Betterleaks sample_call), rule_revocation = None, fallbacks = []\<rparr>"

lemma sample_name: "function_name (json_index sample_call ''callee'') = Some ''http.get''"
  by (simp add: sample_call_def name_node_def function_name.simps kind_is_def)

lemma sample_supported: "supported_with_fallbacks sample_parse sample_betterleaks False = Some True"
proof -
  have "fixed_origin sample_parse sample_url"
    by (simp add: fixed_origin_def sample_url_def name_node_def concat_prefix.simps kind_is_def sample_parse_def web_scheme_def
        after_first.simps byte_val_def)
  moreover have "call_effect sample_parse sample_call = Some True" if "fixed_origin sample_parse sample_url"
    unfolding call_effect_def sample_name using that by (simp add: sample_call_def safe_headers_def slice_get_def)
  ultimately have "call_effect sample_parse sample_call = Some True" by blast
  then show ?thesis
    by (simp add: supported_with_fallbacks_def sample_betterleaks_def sample_call_def sample_url_def name_node_def kind_is_def)
qed

theorem candidates_go_to_fixed_destinations_witness:
  "fixed_target sample_parse sample_call"
proof -
  have "inside sample_call sample_call" "kind_is sample_call ''call''" by (simp_all add: inside_self sample_call_def kind_is_def)
  moreover have "rule_validation sample_betterleaks = Some (Betterleaks sample_call)" by (simp add: sample_betterleaks_def)
  ultimately have "\<exists>name. function_name (json_index sample_call ''callee'') = Some name \<and>
      (name \<in> {''http.get'', ''http.post''} \<longrightarrow> fixed_target sample_parse sample_call)"
    using candidates_go_to_fixed_destinations [OF sample_supported] by (simp only: option.case validation.case) blast
  then show ?thesis by (simp add: sample_name)
qed

end
