(* ===== verification/Ssh_Keys.thy ===== *)
theory Ssh_Keys
  imports Kf_Prelude
begin

text \<open>
  The structure check of OpenSSH private keys, \<open>openssh_fields\<close> of \<open>crates/kingfisher-rules/src/private_key.rs\<close>.

  A candidate that fails the check is dropped as a placeholder, so the check must accept every key that follows the
  format.  The theory shows this for keys in the clear with the known algorithms and for encrypted keys.
\<close>

section \<open>\<open>SshReader\<close>\<close>

text \<open>A reader consumes a prefix of the remaining bytes; \<open>None\<close> is the early return of the checks.\<close>

type_synonym 'a reader = "bytes \<Rightarrow> ('a \<times> bytes) option"

definition rd_ret :: "'a \<Rightarrow> 'a reader" where
  "rd_ret x = (\<lambda>bs. Some (x, bs))"

definition rd_bind :: "'a reader \<Rightarrow> ('a \<Rightarrow> 'b reader) \<Rightarrow> 'b reader" where
  "rd_bind m f = (\<lambda>bs. case m bs of None \<Rightarrow> None | Some (x, rest) \<Rightarrow> f x rest)"

definition rd_guard :: "bool \<Rightarrow> unit reader" where
  "rd_guard b = (\<lambda>bs. if b then Some ((), bs) else None)"

definition rd_rest :: "bytes reader" where
  "rd_rest = (\<lambda>bs. Some (bs, bs))"

definition rd_take :: "nat \<Rightarrow> bytes reader" where
  "rd_take len = (\<lambda>bs. if len \<le> length bs then Some (take len bs, drop len bs) else None)"

definition be_value :: "bytes \<Rightarrow> nat" where
  "be_value bs = foldl (\<lambda>n b. n * 256 + byte_val b) 0 bs"

definition rd_uint :: "nat reader" where
  "rd_uint = rd_bind (rd_take 4) (\<lambda>v. rd_ret (be_value v))"

definition rd_string :: "bytes reader" where
  "rd_string = rd_bind rd_uint rd_take"

text \<open>A number of strings, each with a test on its position and value.\<close>

fun rd_fields :: "nat \<Rightarrow> nat \<Rightarrow> (nat \<Rightarrow> bytes \<Rightarrow> bool) \<Rightarrow> unit reader" where
  "rd_fields field 0 ok = rd_ret ()"
| "rd_fields field (Suc n) ok = rd_bind rd_string (\<lambda>v. rd_bind (rd_guard (ok field v)) (\<lambda>_. rd_fields (Suc field) n ok))"

definition run_reader :: "'a reader \<Rightarrow> bytes \<Rightarrow> 'a option" where
  "run_reader m bs = map_option fst (m bs)"

section \<open>\<open>openssh_fields\<close>\<close>

definition magic :: bytes where
  "magic = ''openssh-key-v1'' @ [CHR 0x00]"

definition public_fields :: "bytes \<Rightarrow> nat option" where
  "public_fields algorithm =
     (if algorithm = ''ssh-rsa'' then Some 2
      else if algorithm = ''ssh-dss'' then Some 4
      else if algorithm = ''ssh-ed25519'' then Some 1
      else if prefix ''ecdsa-sha2-'' algorithm then Some 2
      else None)"

definition private_fields :: "bytes \<Rightarrow> nat option" where
  "private_fields algorithm =
     (if algorithm = ''ssh-rsa'' then Some 6
      else if algorithm = ''ssh-dss'' then Some 5
      else if algorithm = ''ssh-ed25519'' then Some 2
      else if prefix ''ecdsa-sha2-'' algorithm then Some 3
      else None)"

definition public_field_ok :: "bytes \<Rightarrow> nat \<Rightarrow> bytes \<Rightarrow> bool" where
  "public_field_ok algorithm field v \<longleftrightarrow> v \<noteq> [] \<and> (algorithm = ''ssh-ed25519'' \<longrightarrow> length v = 32)"

definition private_field_ok :: "bytes \<Rightarrow> nat \<Rightarrow> bytes \<Rightarrow> bool" where
  "private_field_ok algorithm field v \<longleftrightarrow> v \<noteq> [] \<and> (algorithm = ''ssh-ed25519'' \<longrightarrow> length v = (if field = 0 then 32 else 64))"

text \<open>One public key: its algorithm.\<close>

definition public_key :: "bytes reader" where
  "public_key =
     rd_bind rd_string (\<lambda>algorithm.
     rd_bind rd_rest (\<lambda>rest.
     rd_bind (rd_guard (algorithm \<noteq> [] \<and> rest \<noteq> [])) (\<lambda>_.
     case public_fields algorithm of
       None \<Rightarrow> rd_ret algorithm
     | Some field_count \<Rightarrow>
         rd_bind (rd_fields 0 field_count (public_field_ok algorithm)) (\<lambda>_.
         rd_bind rd_rest (\<lambda>rest.
         rd_bind (rd_guard (rest = [])) (\<lambda>_. rd_ret algorithm))))))"

fun public_keys :: "nat \<Rightarrow> bytes list reader" where
  "public_keys 0 = rd_ret []"
| "public_keys (Suc count) =
     rd_bind rd_string (\<lambda>public.
     case run_reader public_key public of
       None \<Rightarrow> (\<lambda>_. None)
     | Some algorithm \<Rightarrow> rd_bind (public_keys count) (\<lambda>algorithms. rd_ret (algorithm # algorithms)))"

text \<open>The private keys and the padding behind them; an unknown format ends the check.\<close>

fun private_keys :: "bytes list \<Rightarrow> bytes \<Rightarrow> unit option" where
  "private_keys [] private =
     (if 16 < length private \<or> \<not> list_all (\<lambda>(i, b). byte_val b = i + 1) (enumerate 0 private) then None else Some ())"
| "private_keys (public_algorithm # algorithms) private =
     (case rd_string private of
        None \<Rightarrow> None
      | Some (algorithm, rest) \<Rightarrow>
          if algorithm \<noteq> public_algorithm then None
          else
            case private_fields algorithm of
              None \<Rightarrow> if algorithm \<noteq> [] \<and> rest \<noteq> [] then Some () else None
            | Some field_count \<Rightarrow>
                (case rd_bind (rd_fields 0 field_count (private_field_ok algorithm)) (\<lambda>_. rd_string) rest of
                   None \<Rightarrow> None
                 | Some (_, rest) \<Rightarrow> private_keys algorithms rest))"

definition tag_len :: "bytes \<Rightarrow> nat option" where
  "tag_len cipher =
     (if cipher \<in> set [''aes128-gcm@openssh.com'', ''aes256-gcm@openssh.com'', ''chacha20-poly1305@openssh.com''] then Some 16
      else if cipher \<in> set [''aes128-ctr'', ''aes192-ctr'', ''aes256-ctr'', ''aes128-cbc'', ''aes192-cbc'', ''aes256-cbc'', ''3des-cbc''] then Some 0
      else None)"

definition bcrypt_options :: "unit reader" where
  "bcrypt_options =
     rd_bind rd_string (\<lambda>salt. rd_bind (rd_guard (salt \<noteq> [])) (\<lambda>_.
     rd_bind rd_uint (\<lambda>rounds. rd_bind (rd_guard (rounds \<noteq> 0)) (\<lambda>_.
     rd_bind rd_rest (\<lambda>rest. rd_guard (rest = []))))))"

definition check_encrypted :: "bytes \<Rightarrow> bytes \<Rightarrow> bytes \<Rightarrow> bytes \<Rightarrow> unit option" where
  "check_encrypted cipher kdf options rest =
     (if kdf = ''none'' \<or> options = [] then None
      else if kdf = ''bcrypt'' \<and> run_reader bcrypt_options options = None then None
      else if (case tag_len cipher of None \<Rightarrow> True | Some len \<Rightarrow> length rest = len) then Some () else None)"

definition check_plain :: "bytes \<Rightarrow> bytes \<Rightarrow> bytes list \<Rightarrow> bytes \<Rightarrow> bytes \<Rightarrow> unit option" where
  "check_plain kdf options algorithms private rest =
     (if kdf \<noteq> ''none'' \<or> options \<noteq> [] \<or> rest \<noteq> [] \<or> length private mod 8 \<noteq> 0 then None
      else
        case rd_bind rd_uint (\<lambda>a. rd_bind rd_uint (\<lambda>b. rd_guard (a = b))) private of
          None \<Rightarrow> None
        | Some (_, private) \<Rightarrow> private_keys algorithms private)"

definition openssh_body :: "unit reader" where
  "openssh_body =
     rd_bind rd_string (\<lambda>cipher.
     rd_bind rd_string (\<lambda>kdf.
     rd_bind rd_string (\<lambda>options.
     rd_bind (rd_guard (cipher \<noteq> [] \<and> kdf \<noteq> [])) (\<lambda>_.
     rd_bind rd_uint (\<lambda>count.
     rd_bind rd_rest (\<lambda>rest.
     rd_bind (rd_guard (count \<noteq> 0 \<and> count \<le> length rest div 4)) (\<lambda>_.
     rd_bind (public_keys count) (\<lambda>algorithms.
     rd_bind rd_string (\<lambda>private.
     rd_bind (rd_guard (private \<noteq> [])) (\<lambda>_.
     rd_bind rd_rest (\<lambda>rest.
     rd_guard
       ((if cipher \<noteq> ''none'' then check_encrypted cipher kdf options rest
         else check_plain kdf options algorithms private rest) = Some ()))))))))))))"

definition openssh_fields :: "bytes \<Rightarrow> unit option" where
  "openssh_fields bs = (if prefix magic bs then run_reader openssh_body (drop (length magic) bs) else None)"

definition openssh_key :: "bytes \<Rightarrow> bool" where
  "openssh_key bs \<longleftrightarrow> openssh_fields bs \<noteq> None"

section \<open>The format\<close>

definition be32 :: "nat \<Rightarrow> bytes" where
  "be32 n = map char_of [n div 2 ^ 24, n div 2 ^ 16, n div 2 ^ 8, n]"

definition ssh_string :: "bytes \<Rightarrow> bytes" where
  "ssh_string s = be32 (length s) @ s"

definition fits :: "bytes \<Rightarrow> bool" where
  "fits s \<longleftrightarrow> length s < 2 ^ 32"

record ssh_keypair =
  algorithm :: bytes
  public_values :: "bytes list"
  private_values :: "bytes list"
  comment :: bytes

definition encode_public :: "ssh_keypair \<Rightarrow> bytes" where
  "encode_public k = ssh_string (algorithm k) @ concat (map ssh_string (public_values k))"

definition encode_private :: "ssh_keypair \<Rightarrow> bytes" where
  "encode_private k = ssh_string (algorithm k) @ concat (map ssh_string (private_values k)) @ ssh_string (comment k)"

text \<open>A key of a known algorithm: the values the algorithm has, none empty, of the right size for Ed25519.\<close>

definition known_key :: "ssh_keypair \<Rightarrow> bool" where
  "known_key k \<longleftrightarrow>
     public_fields (algorithm k) = Some (length (public_values k)) \<and> private_fields (algorithm k) = Some (length (private_values k)) \<and>
     (\<forall>i < length (public_values k). public_field_ok (algorithm k) i (public_values k ! i)) \<and>
     (\<forall>i < length (private_values k). private_field_ok (algorithm k) i (private_values k ! i)) \<and>
     list_all fits (algorithm k # comment k # encode_public k # public_values k @ private_values k)"

definition padding :: "nat \<Rightarrow> bytes" where
  "padding n = map (\<lambda>i. char_of (i + 1)) [0..<n]"

definition header :: "bytes \<Rightarrow> bytes \<Rightarrow> bytes \<Rightarrow> bytes list \<Rightarrow> bytes" where
  "header cipher kdf options publics =
     magic @ ssh_string cipher @ ssh_string kdf @ ssh_string options @ be32 (length publics) @ concat (map ssh_string publics)"

definition private_section :: "nat \<Rightarrow> ssh_keypair list \<Rightarrow> nat \<Rightarrow> bytes" where
  "private_section checkint keys pad = be32 checkint @ be32 checkint @ concat (map encode_private keys) @ padding pad"

text \<open>Containers with keys of known algorithms in the clear, and encrypted containers.\<close>

inductive openssh_format :: "bytes \<Rightarrow> bool" where
  in_clear: "keys \<noteq> [] \<Longrightarrow> list_all known_key keys \<Longrightarrow> length keys < 2 ^ 32 \<Longrightarrow>
    checkint < 2 ^ 32 \<Longrightarrow> pad \<le> 16 \<Longrightarrow> fits (private_section checkint keys pad) \<Longrightarrow> length (private_section checkint keys pad) mod 8 = 0 \<Longrightarrow>
    openssh_format (header ''none'' ''none'' [] (map encode_public keys) @ ssh_string (private_section checkint keys pad))"
| encrypted: "keys \<noteq> [] \<Longrightarrow> list_all known_key keys \<Longrightarrow> length keys < 2 ^ 32 \<Longrightarrow>
    cipher \<notin> {[], ''none''} \<Longrightarrow> kdf \<notin> {[], ''none''} \<Longrightarrow> options \<noteq> [] \<Longrightarrow> private \<noteq> [] \<Longrightarrow> list_all fits [cipher, kdf, options, private] \<Longrightarrow>
    (kdf = ''bcrypt'' \<longrightarrow> (\<exists>salt rounds. salt \<noteq> [] \<and> 0 < rounds \<and> rounds < 2 ^ 32 \<and> fits salt \<and> options = ssh_string salt @ be32 rounds)) \<Longrightarrow>
    (\<forall>len. tag_len cipher = Some len \<longrightarrow> length tag = len) \<Longrightarrow>
    openssh_format (header cipher kdf options (map encode_public keys) @ ssh_string private @ tag)"

section \<open>Reading back\<close>

text \<open>A reader reads a value off its encoding and leaves what follows.\<close>

definition reads :: "'a reader \<Rightarrow> bytes \<Rightarrow> 'a \<Rightarrow> bool" where
  "reads m e v \<longleftrightarrow> (\<forall>rest. m (e @ rest) = Some (v, rest))"

lemma readsD: "reads m e v \<Longrightarrow> m (e @ rest) = Some (v, rest)"
  by (simp add: reads_def)

lemma reads_ret: "reads (rd_ret v) [] v"
  by (simp add: reads_def rd_ret_def)

lemma reads_bind: "reads m e v \<Longrightarrow> reads (f v) e' w \<Longrightarrow> reads (rd_bind m f) (e @ e') w"
  by (simp add: reads_def rd_bind_def)

lemma reads_guard: "b \<Longrightarrow> reads m e w \<Longrightarrow> reads (rd_bind (rd_guard b) (\<lambda>_. m)) e w"
  by (simp add: reads_def rd_bind_def rd_guard_def)

lemma reads_take: "reads (rd_take (length s)) s s"
  by (simp add: reads_def rd_take_def)

lemma be_value_u32: "n < 2 ^ 32 \<Longrightarrow> be_value (be32 n) = n"
proof -
  assume n: "n < 2 ^ 32"
  have "n div 2 ^ 24 mod 256 = n div 2 ^ 24" using n by (simp add: less_mult_imp_div_less)
  moreover have "n = ((n div 2 ^ 24 * 256 + n div 2 ^ 16 mod 256) * 256 + n div 2 ^ 8 mod 256) * 256 + n mod 256"
  proof -
    have "n div 2 ^ 16 = n div 2 ^ 24 * 256 + n div 2 ^ 16 mod 256" using div_mult_mod_eq [of "n div 2 ^ 16" 256] by (simp add: div_mult2_eq [symmetric])
    moreover have "n div 2 ^ 8 = n div 2 ^ 16 * 256 + n div 2 ^ 8 mod 256" using div_mult_mod_eq [of "n div 2 ^ 8" 256] by (simp add: div_mult2_eq [symmetric])
    moreover have "n = n div 2 ^ 8 * 256 + n mod 256" by simp
    ultimately show ?thesis by metis
  qed
  ultimately show ?thesis by (simp add: be_value_def be32_def byte_val_char_of)
qed

lemma length_be32 [simp]: "length (be32 n) = 4"
  by (simp add: be32_def)

lemma reads_uint: "n < 2 ^ 32 \<Longrightarrow> reads rd_uint (be32 n) n"
  unfolding rd_uint_def using reads_bind [OF reads_take [of "be32 n"] reads_ret, of be_value] by (simp add: be_value_u32)

lemma reads_string: "fits s \<Longrightarrow> reads rd_string (ssh_string s) s"
  using reads_bind [of rd_uint "be32 (length s)" "length s" rd_take s s] reads_uint [of "length s"] reads_take [of s]
  by (simp add: rd_string_def ssh_string_def fits_def)

lemma reads_fields:
  assumes "\<forall>i < length vs. ok (field + i) (vs ! i)" "list_all fits vs"
  shows "reads (rd_fields field (length vs) ok) (concat (map ssh_string vs)) ()"
  using assms
proof (induction vs arbitrary: field)
  case (Cons v vs)
  have "reads (rd_fields (Suc field) (length vs) ok) (concat (map ssh_string vs)) ()"
    by (rule Cons(1)) (use Cons(2,3) in \<open>auto dest: spec [of _ "Suc _"]\<close>)
  then have "reads (rd_bind (rd_guard (ok field v)) (\<lambda>_. rd_fields (Suc field) (length vs) ok)) (concat (map ssh_string vs)) ()"
    by (rule reads_guard [rotated]) (use Cons(2) in force)
  then have "reads (rd_fields field (length (v # vs)) ok) (ssh_string v @ concat (map ssh_string vs)) ()"
    unfolding list.size rd_fields.simps add_Suc_right add_0_right by (rule reads_bind [OF reads_string, rotated]) (use Cons(3) in simp)
  then show ?case by simp
qed (simp add: reads_ret)

lemma run_public_key:
  assumes "known_key k"
  shows "run_reader public_key (encode_public k) = Some (algorithm k)"
proof -
  let ?vs = "concat (map ssh_string (public_values k))"
  have k: "public_fields (algorithm k) = Some (length (public_values k))" "fits (algorithm k)" using assms by (simp_all add: known_key_def)
  then have "public_values k \<noteq> []" "algorithm k \<noteq> []" by (auto simp: public_fields_def split: if_splits)
  then have ne: "?vs \<noteq> []" "algorithm k \<noteq> []" by (auto simp: ssh_string_def be32_def neq_Nil_conv)
  have "reads (rd_fields 0 (length (public_values k)) (public_field_ok (algorithm k))) ?vs ()"
    by (rule reads_fields) (use assms in \<open>auto simp: known_key_def\<close>)
  from readsD [OF this, of "[]"] show ?thesis
    using readsD [OF reads_string [OF k(2)], of ?vs] ne k(1)
    by (simp add: run_reader_def public_key_def encode_public_def rd_bind_def rd_rest_def rd_guard_def rd_ret_def)
qed

lemma reads_public_keys:
  "list_all known_key keys \<Longrightarrow> reads (public_keys (length keys)) (concat (map (\<lambda>k. ssh_string (encode_public k)) keys)) (map algorithm keys)"
proof (induction keys)
  case (Cons k keys)
  then have "reads (public_keys (length keys)) (concat (map (\<lambda>k. ssh_string (encode_public k)) keys)) (map algorithm keys)" by simp
  from reads_bind [OF this reads_ret, of "\<lambda>as. algorithm k # as"]
  have "reads (rd_bind (public_keys (length keys)) (\<lambda>as. rd_ret (algorithm k # as))) (concat (map (\<lambda>k. ssh_string (encode_public k)) keys)) (algorithm k # map algorithm keys)" by simp
  moreover have "fits (encode_public k)" using Cons(2) by (simp add: known_key_def)
  ultimately have "reads (rd_bind rd_string (\<lambda>public. case run_reader public_key public of None \<Rightarrow> (\<lambda>_. None)
      | Some a \<Rightarrow> rd_bind (public_keys (length keys)) (\<lambda>as. rd_ret (a # as))))
      (ssh_string (encode_public k) @ concat (map (\<lambda>k. ssh_string (encode_public k)) keys)) (map algorithm (k # keys))"
    by (intro reads_bind [OF reads_string]) (use run_public_key [of k] Cons(2) in simp_all)
  then show ?case by simp
qed (simp add: reads_ret)

lemma private_keys_ok:
  assumes "list_all known_key keys" "pad \<le> 16"
  shows "private_keys (map algorithm keys) (concat (map encode_private keys) @ padding pad) = Some ()"
  using assms(1)
proof (induction keys)
  case Nil
  have "byte_val (padding pad ! i) = i + 1" if "i < pad" for i using that assms(2) by (simp add: padding_def byte_val_char_of)
  then show ?case using assms(2) by (auto simp: list_all_iff in_set_enumerate_eq padding_def)
next
  case (Cons k keys)
  let ?rest = "concat (map encode_private keys) @ padding pad"
  let ?vs = "concat (map ssh_string (private_values k))"
  have k: "private_fields (algorithm k) = Some (length (private_values k))" "fits (algorithm k)" "fits (comment k)"
    using Cons(2) by (simp_all add: known_key_def)
  have "reads (rd_fields 0 (length (private_values k)) (private_field_ok (algorithm k))) ?vs ()"
    by (rule reads_fields) (use Cons(2) in \<open>auto simp: known_key_def\<close>)
  then have "reads (rd_bind (rd_fields 0 (length (private_values k)) (private_field_ok (algorithm k))) (\<lambda>_. rd_string))
      (?vs @ ssh_string (comment k)) (comment k)" by (rule reads_bind) (rule reads_string [OF k(3)])
  from readsD [OF this, of ?rest] show ?case
    using readsD [OF reads_string [OF k(2)], of "(?vs @ ssh_string (comment k)) @ ?rest"] k(1) Cons by (simp add: encode_private_def [of k])
qed

lemma length_ssh_strings: "4 * length ks \<le> length (concat (map (\<lambda>k. ssh_string (f k)) ks))"
  by (induction ks) (simp_all add: ssh_string_def)

lemma openssh_body_accepts:
  assumes names: "cipher \<noteq> []" "kdf \<noteq> []" "private \<noteq> []" "list_all fits [cipher, kdf, options, private]"
    and keys: "keys \<noteq> []" "list_all known_key keys" "length keys < 2 ^ 32"
    and final: "(if cipher \<noteq> ''none'' then check_encrypted cipher kdf options tail
         else check_plain kdf options (map algorithm keys) private tail) = Some ()"
  shows "openssh_fields (header cipher kdf options (map encode_public keys) @ ssh_string private @ tail) = Some ()"
proof -
  let ?ps = "concat (map (\<lambda>k. ssh_string (encode_public k)) keys)"
  have f: "fits cipher" "fits kdf" "fits options" "fits private" using names(4) by simp_all
  have count: "length keys \<noteq> 0" "length keys \<le> length (?ps @ ssh_string private @ tail) div 4"
    using keys(1) length_ssh_strings [of keys encode_public] by (simp_all add: div_le_mono [of "4 * length keys" _ 4, simplified])
  have "openssh_body (ssh_string cipher @ ssh_string kdf @ ssh_string options @ be32 (length keys) @ ?ps @ ssh_string private @ tail) = Some ((), tail)"
    unfolding openssh_body_def rd_bind_def rd_rest_def rd_guard_def
      readsD [OF reads_string [OF f(1)]] readsD [OF reads_string [OF f(2)]] readsD [OF reads_string [OF f(3)]] option.case prod.case
    using names(1,2,3) final count(1)
    by (simp add: readsD [OF reads_uint [OF keys(3)]] readsD [OF reads_public_keys [OF keys(2)]] readsD [OF reads_string [OF f(4)]]
        count(2) [simplified])
  then show ?thesis by (simp add: openssh_fields_def header_def run_reader_def comp_def)
qed

lemma openssh_keys_accepted:
  assumes "openssh_format key"
  shows "openssh_key key"
  using assms
proof cases
  case (in_clear keys checkint pad)
  have "check_plain ''none'' [] (map algorithm keys) (private_section checkint keys pad) [] = Some ()"
    using in_clear(8) private_keys_ok [OF in_clear(3) in_clear(6)] readsD [OF reads_uint [OF in_clear(5)]]
    by (simp add: check_plain_def private_section_def rd_bind_def rd_guard_def)
  moreover have "private_section checkint keys pad \<noteq> []" by (simp add: private_section_def be32_def)
  moreover have "fits ''none''" "fits []" by (simp_all add: fits_def)
  ultimately show ?thesis
    using openssh_body_accepts [of "''none''" "''none''" "private_section checkint keys pad" "[]" keys "[]"] in_clear
    by (simp add: openssh_key_def)
next
  case (encrypted keys cipher kdf options secret tag)
  have "run_reader bcrypt_options options \<noteq> None" if bcrypt: "kdf = ''bcrypt''"
  proof -
    obtain salt rounds where o: "salt \<noteq> []" "0 < rounds" "rounds < 2 ^ 32" "fits salt" "options = ssh_string salt @ be32 rounds"
      using encrypted(10) bcrypt by blast
    show ?thesis using readsD [OF reads_string [OF o(4)], of "be32 rounds"] readsD [OF reads_uint [OF o(3)], of "[]"] o(1,2)
      by (simp add: o(5) run_reader_def bcrypt_options_def rd_bind_def rd_guard_def rd_rest_def)
  qed
  then have "check_encrypted cipher kdf options tag = Some ()" using encrypted(6,7,11)
    by (cases "tag_len cipher") (simp_all add: check_encrypted_def)
  then show ?thesis
    using openssh_body_accepts [OF _ _ encrypted(8,9,2,3,4), of tag] encrypted(1,5,6) by (simp add: openssh_key_def)
qed

definition sample_keypair :: ssh_keypair where
  "sample_keypair = \<lparr>algorithm = ''ssh-ed25519'', public_values = [replicate 32 (CHR ''a'')],
     private_values = [replicate 32 (CHR ''b''), replicate 64 (CHR ''c'')], comment = []\<rparr>"

lemma length_ssh_string: "length (ssh_string s) = 4 + length s"
  by (simp add: ssh_string_def)

lemma sample_keypair_known: "known_key sample_keypair"
  by (simp add: known_key_def sample_keypair_def public_fields_def private_fields_def public_field_ok_def private_field_ok_def fits_def
      encode_public_def length_ssh_string nth_Cons split: nat.splits)

definition sample_openssh :: bytes where
  "sample_openssh = header ''none'' ''none'' [] [encode_public sample_keypair] @ ssh_string (private_section 7 [sample_keypair] 5)"

lemma sample_openssh_format: "openssh_format sample_openssh"
proof -
  have len: "length (private_section 7 [sample_keypair] 5) = 136"
    by (simp add: private_section_def encode_private_def sample_keypair_def length_ssh_string padding_def)
  show ?thesis using openssh_format.in_clear [of "[sample_keypair]" 7 5] sample_keypair_known by (simp add: sample_openssh_def len fits_def)
qed

end
