(* ===== verification/Pgp_Keys.thy ===== *)
theory Pgp_Keys
  imports Ssh_Keys "HOL-Library.Word"
begin

unbundle bit_operations_syntax

text \<open>
  The structure check of OpenPGP secret keys, \<open>pgp_packets\<close> and \<open>crc24\<close> of
  \<open>crates/kingfisher-rules/src/private_key.rs\<close>.

  As for OpenSSH, a candidate that fails the check is dropped, so every stream of packets in the format must pass:
  packets with old and new headers and every way to write a length, and secret-key packets of the known algorithms
  with or without protection.
\<close>

section \<open>The checksum of the armor\<close>

definition crc_shift :: "32 word \<Rightarrow> 32 word" where
  "crc_shift crc = (let crc = push_bit 1 crc in if crc AND 0x1000000 \<noteq> 0 then crc XOR 0x1864cfb else crc)"

definition crc_byte :: "32 word \<Rightarrow> byte \<Rightarrow> 32 word" where
  "crc_byte crc b = (crc_shift ^^ 8) (crc XOR push_bit 16 (word_of_nat (byte_val b)))"

definition crc24 :: "bytes \<Rightarrow> 32 word" where
  "crc24 bs = foldl crc_byte 0xb704ce bs AND 0xffffff"

text \<open>Evaluation of the checksum on literals.\<close>

lemma push_bit_one: "push_bit 1 (numeral k :: 32 word) = numeral (num.Bit0 k)"
  by (metis mult_2 numeral_Bit0 push_bit_of_1 push_bit_eq_mult mult.commute power_one_right)

lemma crc_shift_numeral:
  "crc_shift (numeral k) =
     (if numeral (num.Bit0 k) AND (0x1000000 :: 32 word) \<noteq> 0 then numeral (num.Bit0 k) XOR 0x1864cfb else numeral (num.Bit0 k))"
  unfolding crc_shift_def push_bit_one Let_def ..

lemma crc_byte_unfold:
  "crc_byte crc b =
     crc_shift (crc_shift (crc_shift (crc_shift (crc_shift (crc_shift (crc_shift (crc_shift (crc XOR push_bit 16 (word_of_nat (byte_val b))))))))))"
  by (simp add: crc_byte_def numeral_eq_Suc)

section \<open>Secret-key packets\<close>

definition rd_byte :: "nat reader" where
  "rd_byte = rd_bind (rd_take 1) (\<lambda>v. rd_ret (byte_val (hd v)))"

definition pgp_mpi :: "unit reader" where
  "pgp_mpi = rd_bind (rd_take 2) (\<lambda>v. rd_bind (rd_take ((be_value v + 7) div 8)) (\<lambda>_. rd_ret ()))"

fun pgp_mpis :: "nat \<Rightarrow> unit reader" where
  "pgp_mpis 0 = rd_ret ()"
| "pgp_mpis (Suc n) = rd_bind pgp_mpi (\<lambda>_. pgp_mpis n)"

text \<open>A field of one to 255 bytes behind its size.\<close>

definition rd_sized :: "unit reader" where
  "rd_sized = rd_bind rd_byte (\<lambda>size. rd_bind (rd_guard (size \<noteq> 0)) (\<lambda>_. rd_bind (rd_take size) (\<lambda>_. rd_ret ())))"

definition rd_nonempty_rest :: "unit reader" where
  "rd_nonempty_rest = rd_bind rd_rest (\<lambda>rest. rd_guard (rest \<noteq> []))"

definition checksum16 :: "bytes \<Rightarrow> 16 word" where
  "checksum16 bs = foldl (\<lambda>sum b. sum + word_of_nat (byte_val b)) 0 bs"

definition mpi_counts :: "nat \<Rightarrow> (nat \<times> nat) option" where
  "mpi_counts alg =
     (if alg \<in> {1, 2, 3} then Some (2, 4)
      else if alg \<in> {16, 20} then Some (3, 1)
      else if alg = 17 then Some (4, 1)
      else if alg \<in> {18, 19, 22} then Some (1, 1)
      else None)"

text \<open>The unprotected secret integers and their checksum.\<close>

definition secret_integers :: "nat \<Rightarrow> unit reader" where
  "secret_integers n =
     rd_bind rd_rest (\<lambda>secret_bytes.
     rd_bind (pgp_mpis n) (\<lambda>_.
     rd_bind rd_rest (\<lambda>rest.
     let consumed = length secret_bytes - length rest in
     rd_bind (rd_take 2) (\<lambda>v.
     rd_bind rd_rest (\<lambda>rest.
     rd_guard (rest = [] \<and> word_of_nat (be_value v) = checksum16 (take consumed secret_bytes)))))))"

definition pgp_secret_reader :: "unit reader" where
  "pgp_secret_reader =
     rd_bind rd_byte (\<lambda>version.
     rd_bind (rd_take 4) (\<lambda>_.
     rd_bind (rd_take (if version = 2 \<or> version = 3 then 2 else 0)) (\<lambda>_.
     rd_bind rd_byte (\<lambda>alg.
     if \<not> (2 \<le> version \<and> version \<le> 4) then rd_nonempty_rest
     else
       case mpi_counts alg of
         None \<Rightarrow> rd_nonempty_rest
       | Some (public_mpis, secret_mpis) \<Rightarrow>
           rd_bind (if alg \<in> {18, 19, 22} then rd_sized else rd_ret ()) (\<lambda>_.
           rd_bind (pgp_mpis public_mpis) (\<lambda>_.
           rd_bind (if alg = 18 then rd_sized else rd_ret ()) (\<lambda>_.
           rd_bind rd_byte (\<lambda>usage.
           if usage \<noteq> 0 then rd_nonempty_rest else secret_integers secret_mpis))))))))"

definition pgp_secret_packet :: "bytes \<Rightarrow> bool" where
  "pgp_secret_packet packet \<longleftrightarrow> run_reader pgp_secret_reader packet \<noteq> None"

section \<open>Packets\<close>

text \<open>One length of a new header: the length and whether more chunks follow.\<close>

definition chunk_length :: "(nat \<times> bool) reader" where
  "chunk_length =
     rd_bind rd_byte (\<lambda>length.
     if length \<le> 191 then rd_ret (length, False)
     else if length \<le> 223 then rd_bind rd_byte (\<lambda>following. rd_ret ((length - 192) * 256 + following + 192, False))
     else if length \<le> 254 then rd_ret (2 ^ (length AND 0x1f), True)
     else rd_bind rd_uint (\<lambda>len. rd_ret (len, False)))"

lemma rd_take_shorter: "rd_take n bs = Some (v, rest) \<Longrightarrow> length rest + n = length bs"
  by (auto simp: rd_take_def split: if_splits)

lemma rd_byte_shorter: "rd_byte bs = Some (v, rest) \<Longrightarrow> length rest < length bs"
  by (auto simp: rd_byte_def rd_bind_def rd_ret_def dest: rd_take_shorter split: option.splits)

lemma chunk_length_shorter: "chunk_length bs = Some (v, rest) \<Longrightarrow> length rest < length bs"
  by (auto simp: chunk_length_def rd_bind_def rd_ret_def rd_uint_def dest!: rd_byte_shorter rd_take_shorter split: option.splits if_splits)

function new_packet :: "bytes \<Rightarrow> bytes \<Rightarrow> (bytes \<times> bytes) option" where
  "new_packet packet bs =
     (case chunk_length bs of
        None \<Rightarrow> None
      | Some ((len, partial), bs') \<Rightarrow>
          (case rd_take len bs' of
             None \<Rightarrow> None
           | Some (chunk, rest) \<Rightarrow> if partial then new_packet (packet @ chunk) rest else Some (packet @ chunk, rest)))"
  by pat_completeness auto
termination
  by (relation "measure (\<lambda>(packet, bs). length bs)") (auto dest!: chunk_length_shorter rd_take_shorter)

declare new_packet.simps [simp del]

definition old_packet :: "nat \<Rightarrow> bytes reader" where
  "old_packet hdr =
     (let size = (if hdr AND 3 = 0 then 1 else if hdr AND 3 = 1 then 2 else if hdr AND 3 = 2 then 4 else 0) in
      if size = 0 then rd_bind rd_rest (\<lambda>rest. rd_take (length rest))
      else rd_bind (rd_take size) (\<lambda>v. rd_take (be_value v)))"

definition packet_tag :: "nat \<Rightarrow> nat" where
  "packet_tag hdr = (if hdr AND 0x40 \<noteq> 0 then hdr AND 0x3f else drop_bit 2 hdr AND 0xf)"

definition pgp_packet :: "(nat \<times> bytes) reader" where
  "pgp_packet =
     rd_bind rd_byte (\<lambda>hdr.
     rd_bind (rd_guard (hdr AND 0x80 \<noteq> 0)) (\<lambda>_.
     rd_bind (if hdr AND 0x40 \<noteq> 0 then new_packet [] else old_packet hdr) (\<lambda>packet.
     rd_ret (packet_tag hdr, packet))))"

lemma new_packet_shorter: "new_packet packet bs = Some (p, rest) \<Longrightarrow> length rest < length bs"
proof (induction packet bs rule: new_packet.induct)
  case (1 packet bs)
  then obtain len partial bs' chunk rest' where r: "chunk_length bs = Some ((len, partial), bs')" "rd_take len bs' = Some (chunk, rest')"
    by (subst (asm) new_packet.simps) (auto split: option.splits)
  have "length rest' < length bs" using chunk_length_shorter [OF r(1)] rd_take_shorter [OF r(2)] by simp
  moreover have "partial \<Longrightarrow> new_packet (packet @ chunk) rest' = Some (p, rest)" "\<not> partial \<Longrightarrow> rest = rest'"
    using 1(2) r by (subst (asm) new_packet.simps, simp)+
  ultimately show ?case using 1(1) [OF r(1) refl refl r(2) refl] by (cases partial) auto
qed

lemma old_packet_shorter: "old_packet hdr bs = Some (p, rest) \<Longrightarrow> length rest \<le> length bs"
  by (auto simp: old_packet_def Let_def rd_bind_def rd_rest_def dest!: rd_take_shorter split: option.splits if_splits)

lemma pgp_packet_shorter: "pgp_packet bs = Some (p, rest) \<Longrightarrow> length rest < length bs"
  by (fastforce simp: pgp_packet_def rd_bind_def rd_guard_def rd_ret_def dest!: rd_byte_shorter
      dest: new_packet_shorter old_packet_shorter split: option.splits if_splits)

function pgp_loop :: "bool \<Rightarrow> bytes \<Rightarrow> unit option" where
  "pgp_loop secret bs =
     (if bs = [] then if secret then Some () else None
      else
        case pgp_packet bs of
          None \<Rightarrow> None
        | Some ((tag, packet), rest) \<Rightarrow>
            if tag = 5 \<or> tag = 7 then if pgp_secret_packet packet then pgp_loop True rest else None
            else pgp_loop secret rest)"
  by pat_completeness auto
termination
  by (relation "measure (\<lambda>(secret, bs). length bs)") (auto dest: pgp_packet_shorter)

declare pgp_loop.simps [simp del]

definition pgp_packets :: "bytes \<Rightarrow> unit option" where
  "pgp_packets bs = pgp_loop False bs"

definition pgp_key :: "bytes \<Rightarrow> bool" where
  "pgp_key bs \<longleftrightarrow> pgp_packets bs \<noteq> None"

section \<open>The format\<close>

definition be16 :: "nat \<Rightarrow> bytes" where
  "be16 n = [char_of (n div 256), char_of n]"

text \<open>An integer: its number of bits and its bytes.\<close>

definition mpi_ok :: "nat \<times> bytes \<Rightarrow> bool" where
  "mpi_ok = (\<lambda>(bits, data). bits < 2 ^ 16 \<and> length data = (bits + 7) div 8)"

definition encode_mpi :: "nat \<times> bytes \<Rightarrow> bytes" where
  "encode_mpi = (\<lambda>(bits, data). be16 bits @ data)"

definition sized_field :: "bool \<Rightarrow> bytes \<Rightarrow> bool" where
  "sized_field present e \<longleftrightarrow> (if present then \<exists>x. x \<noteq> [] \<and> length x < 256 \<and> e = char_of (length x) # x else e = [])"

text \<open>The secret part of a key with \<open>n\<close> integers, protected or in the clear.\<close>

definition secret_tail :: "nat \<Rightarrow> bytes \<Rightarrow> bool" where
  "secret_tail n e \<longleftrightarrow>
     (\<exists>(usage :: nat) protected. 0 < usage \<and> usage < 256 \<and> protected \<noteq> [] \<and> e = char_of usage # protected) \<or>
     (\<exists>ms. length ms = n \<and> list_all mpi_ok ms \<and>
        e = char_of (0::nat) # concat (map encode_mpi ms) @ be16 (unat (checksum16 (concat (map encode_mpi ms)))))"

definition secret_body :: "bytes \<Rightarrow> bool" where
  "secret_body body \<longleftrightarrow>
     (\<exists>(version :: nat) time validity alg np ns curve pubs kdf tail.
        version \<in> {2, 3, 4} \<and> length time = 4 \<and> length validity = (if version = 4 then 0 else 2) \<and>
        mpi_counts alg = Some (np, ns) \<and> sized_field (alg \<in> {18, 19, 22}) curve \<and> length pubs = np \<and> list_all mpi_ok pubs \<and>
        sized_field (alg = 18) kdf \<and> secret_tail ns tail \<and>
        body = char_of version # time @ validity @ char_of alg # curve @ concat (map encode_mpi pubs) @ kdf @ tail)"

text \<open>The ways to write a length in a new header, and the first chunks of a packet of unknown length.\<close>

definition new_length :: "nat \<Rightarrow> bytes \<Rightarrow> bool" where
  "new_length n e \<longleftrightarrow>
     n < 192 \<and> e = [char_of n] \<or>
     192 \<le> n \<and> n < 8384 \<and> e = [char_of ((n - 192) div 256 + 192), char_of ((n - 192) mod 256)] \<or>
     n < 2 ^ 32 \<and> e = char_of (255::nat) # be32 n"

definition chunk_ok :: "nat \<times> bytes \<Rightarrow> bool" where
  "chunk_ok = (\<lambda>(k, data). k \<le> 30 \<and> length data = 2 ^ k)"

definition encode_chunk :: "nat \<times> bytes \<Rightarrow> bytes" where
  "encode_chunk = (\<lambda>(k, data). char_of (224 + k) # data)"

definition old_length :: "nat \<Rightarrow> nat \<Rightarrow> bytes \<Rightarrow> bool" where
  "old_length t n e \<longleftrightarrow>
     t = 0 \<and> n < 2 ^ 8 \<and> e = [char_of n] \<or> t = 1 \<and> n < 2 ^ 16 \<and> e = be16 n \<or> t = 2 \<and> n < 2 ^ 32 \<and> e = be32 n"

inductive packet_encoding :: "nat \<Rightarrow> bytes \<Rightarrow> bytes \<Rightarrow> bool" where
  new_header: "tag < 64 \<Longrightarrow> list_all chunk_ok parts \<Longrightarrow> new_length (length final) e \<Longrightarrow>
    packet_encoding tag (concat (map snd parts) @ final) (char_of (192 + tag) # concat (map encode_chunk parts) @ e @ final)"
| old_header: "tag < 16 \<Longrightarrow> old_length t (length body) e \<Longrightarrow> packet_encoding tag body (char_of (128 + 4 * tag + t) # e @ body)"

text \<open>Streams in which some packet is a secret key or subkey, and each of those has the body of one.\<close>

inductive pgp_format :: "bytes \<Rightarrow> bool" where
  packets: "\<forall>(tag, body, e) \<in> set ps. packet_encoding tag body e \<and> (tag \<in> {5, 7} \<longrightarrow> secret_body body) \<Longrightarrow>
    \<exists>(tag, body, e) \<in> set ps. tag \<in> {5, 7} \<Longrightarrow> pgp_format (concat (map (\<lambda>(tag, body, e). e) ps))"

section \<open>Reading back\<close>

lemma and_masks [simp]:
  "n AND 3 = n mod 4" "n AND 0x3f = n mod 64" "n AND 0x1f = n mod 32" "n AND 0xf = n mod 16" for n :: nat
  using take_bit_eq_mask [of 2 n] take_bit_eq_mask [of 6 n] take_bit_eq_mask [of 5 n] take_bit_eq_mask [of 4 n]
  by (simp_all add: take_bit_eq_mod mask_eq_exp_minus_1)

lemma and_bits [simp]: "n AND 0x40 = 0 \<longleftrightarrow> even (n div 64)" "n AND 0x80 = 0 \<longleftrightarrow> even (n div 128)" for n :: nat
  using and_exp_eq_0_iff_not_bit [of n 6] and_exp_eq_0_iff_not_bit [of n 7] by (simp_all add: bit_iff_odd)

lemma reads_byte: "n < 256 \<Longrightarrow> reads rd_byte [char_of n] n"
  by (simp add: reads_def rd_byte_def rd_bind_def rd_take_def rd_ret_def byte_val_char_of)

lemma be_value_u16: "n < 2 ^ 16 \<Longrightarrow> be_value (be16 n) = n"
  by (simp add: be_value_def be16_def byte_val_char_of less_mult_imp_div_less)

lemma rd_take_append: "length e = n \<Longrightarrow> rd_take n (e @ rest) = Some (e, rest)"
  by (simp add: rd_take_def)

lemma reads_mpi:
  assumes "mpi_ok m"
  shows "reads pgp_mpi (encode_mpi m) ()"
proof -
  obtain bits data where m: "m = (bits, data)" "bits < 2 ^ 16" "length data = (bits + 7) div 8" using assms by (auto simp: mpi_ok_def)
  have "length (be16 bits) = 2" by (simp add: be16_def)
  then show ?thesis using be_value_u16 [OF m(2)] m(3)
    by (simp add: reads_def m(1) pgp_mpi_def encode_mpi_def rd_bind_def rd_take_append rd_ret_def)
qed

lemma bind_reads: "reads m e v \<Longrightarrow> rd_bind m f (e @ rest) = f v rest"
  by (simp add: reads_def rd_bind_def)

lemma reads_mpis: "list_all mpi_ok ms \<Longrightarrow> reads (pgp_mpis (length ms)) (concat (map encode_mpi ms)) ()"
  by (induction ms) (auto intro: reads_ret reads_bind [OF reads_mpi])

lemma reads_sized: "sized_field present e \<Longrightarrow> reads (if present then rd_sized else rd_ret ()) e ()"
proof (cases present)
  case True
  assume "sized_field present e"
  then obtain x where x: "x \<noteq> []" "length x < 256" "e = [char_of (length x)] @ x" using True by (auto simp: sized_field_def)
  have "reads rd_sized ([char_of (length x)] @ x) ()" unfolding rd_sized_def
    by (rule reads_bind [OF reads_byte [OF x(2)]], rule reads_guard) (use x(1) in \<open>simp_all add: reads_def rd_bind_def rd_take_append rd_ret_def\<close>)
  then show ?thesis using True x(3) by simp
qed (simp add: sized_field_def reads_ret)

lemma checksum16_bound: "unat (checksum16 bs) < 2 ^ 16"
  using unsigned_less [of "checksum16 bs"] by simp

lemma secret_integers_read:
  assumes "list_all mpi_ok ms"
  shows "secret_integers (length ms) (concat (map encode_mpi ms) @ be16 (unat (checksum16 (concat (map encode_mpi ms))))) = Some ((), [])"
proof -
  let ?ms = "concat (map encode_mpi ms)" and ?c = "unat (checksum16 (concat (map encode_mpi ms)))"
  have "rd_take 2 (be16 ?c) = Some (be16 ?c, [])" by (simp add: rd_take_def be16_def)
  then show ?thesis using readsD [OF reads_mpis [OF assms], of "be16 ?c"]
    by (simp add: secret_integers_def rd_bind_def rd_rest_def rd_guard_def Let_def be_value_u16 [OF checksum16_bound])
qed

lemma secret_tail_read:
  assumes "secret_tail n e"
  shows "rd_bind rd_byte (\<lambda>usage. if usage \<noteq> 0 then rd_nonempty_rest else secret_integers n) e \<noteq> None"
  using assms unfolding secret_tail_def
proof (elim disjE exE conjE)
  fix usage :: nat and protected
  assume u: "0 < usage" "usage < 256" "protected \<noteq> []" "e = char_of usage # protected"
  then show ?thesis using readsD [OF reads_byte [OF u(2)], of protected]
    by (simp add: rd_bind_def rd_nonempty_rest_def rd_rest_def rd_guard_def)
next
  fix ms
  assume ms: "length ms = n" "list_all mpi_ok ms"
    "e = char_of (0::nat) # concat (map encode_mpi ms) @ be16 (unat (checksum16 (concat (map encode_mpi ms))))"
  then show ?thesis
    using readsD [OF reads_byte [of 0], of "concat (map encode_mpi ms) @ be16 (unat (checksum16 (concat (map encode_mpi ms))))"]
      secret_integers_read [OF ms(2)] by (simp add: rd_bind_def)
qed

lemma mpi_counts_bound: "mpi_counts alg = Some c \<Longrightarrow> alg < 256"
  by (auto simp: mpi_counts_def split: if_splits)

lemma secret_body_accepted:
  assumes "secret_body body"
  shows "pgp_secret_packet body"
proof -
  obtain version :: nat and time validity alg np ns curve pubs kdf tail where
    b: "version \<in> {2, 3, 4}" "length time = 4" "length validity = (if version = 4 then 0 else 2)"
      "mpi_counts alg = Some (np, ns)" "sized_field (alg \<in> {18, 19, 22}) curve" "length pubs = np" "list_all mpi_ok pubs"
      "sized_field (alg = 18) kdf" "secret_tail ns tail"
      "body = char_of version # time @ validity @ char_of alg # curve @ concat (map encode_mpi pubs) @ kdf @ tail"
    using assms unfolding secret_body_def by (elim exE conjE)
  have v: "version < 256" "2 \<le> version" "version \<le> 4" "(if version = 2 \<or> version = 3 then 2 else 0) = length validity" using b(1,3) by auto
  let ?body = "rd_bind rd_byte (\<lambda>usage. if usage \<noteq> 0 then rd_nonempty_rest else secret_integers ns)"
  have t: "reads (rd_take 4) time time" "reads (rd_take (if version = 2 \<or> version = 3 then 2 else 0)) validity validity"
    unfolding v(4) using reads_take [of time] reads_take [of validity] b(2) by simp_all
  have "body = [char_of version] @ time @ validity @ [char_of alg] @ curve @ concat (map encode_mpi pubs) @ kdf @ tail" by (simp add: b(10))
  then have "pgp_secret_reader body = ?body tail"
    unfolding pgp_secret_reader_def
    by (simp only: bind_reads [OF reads_byte [OF v(1)]] bind_reads [OF t(1)] bind_reads [OF t(2)] bind_reads [OF reads_byte [OF mpi_counts_bound [OF b(4)]]]
        v(2,3) b(4) option.case prod.case simp_thms if_False bind_reads [OF reads_sized [OF b(5)]]
        bind_reads [OF reads_mpis [OF b(7), unfolded b(6)]] bind_reads [OF reads_sized [OF b(8)]])
  then show ?thesis using secret_tail_read [OF b(9)] by (simp add: pgp_secret_packet_def run_reader_def)
qed

lemma reads_new_length:
  assumes "new_length n e"
  shows "reads chunk_length e (n, False)"
  using assms unfolding new_length_def
proof (elim disjE conjE)
  assume "n < 192" "e = [char_of n]"
  then show ?thesis by (simp add: reads_def chunk_length_def rd_bind_def readsD [OF reads_byte, of n, simplified] rd_ret_def)
next
  assume n: "192 \<le> n" "n < 8384" and e: "e = [char_of ((n - 192) div 256 + 192), char_of ((n - 192) mod 256)]"
  have q: "(n - 192) div 256 < 32" using n by (simp add: less_mult_imp_div_less)
  have r1: "rd_byte (char_of ((n - 192) div 256 + 192) # rest) = Some ((n - 192) div 256 + 192, rest)" for rest
    using readsD [OF reads_byte [of "(n - 192) div 256 + 192"], of rest] q by simp
  have r2: "rd_byte (char_of (n - 192) # rest) = Some ((n - 192) mod 256, rest)" for rest
    by (simp add: rd_byte_def rd_bind_def rd_take_def rd_ret_def byte_val_char_of)
  show ?thesis using q n(1) by (simp add: reads_def e chunk_length_def rd_bind_def r1 r2 rd_ret_def)
next
  assume n: "n < 2 ^ 32" and e: "e = char_of (255::nat) # be32 n"
  have r: "rd_byte (char_of (255::nat) # rest) = Some (255, rest)" for rest using readsD [OF reads_byte [of 255], of rest] by simp
  show ?thesis by (simp add: reads_def e chunk_length_def rd_bind_def r readsD [OF reads_uint [OF n]] rd_ret_def)
qed

lemma new_packet_reads:
  assumes "list_all chunk_ok parts" "new_length (length final) e"
  shows "new_packet p (concat (map encode_chunk parts) @ e @ final @ rest) = Some (p @ concat (map snd parts) @ final, rest)"
  using assms(1)
proof (induction parts arbitrary: p)
  case Nil
  then show ?case using readsD [OF reads_new_length [OF assms(2)], of "final @ rest"]
    by (subst new_packet.simps) (simp add: rd_take_append)
next
  case (Cons part parts)
  obtain k data where part: "part = (k, data)" "k \<le> 30" "length data = 2 ^ k" using Cons(2) by (auto simp: chunk_ok_def)
  let ?rest = "data @ concat (map encode_chunk parts) @ e @ final @ rest"
  have "rd_byte (char_of (224 + k) # ?rest) = Some (224 + k, ?rest)" using readsD [OF reads_byte [of "224 + k"], of ?rest] part(2) by simp
  moreover have "(224 + k) mod 32 = k" using part(2) mod_mult_self2 [of k 32 7] by (simp add: add.commute)
  ultimately have "chunk_length (char_of (224 + k) # ?rest) = Some ((2 ^ k, True), ?rest)"
    using part(2) by (simp add: chunk_length_def rd_bind_def rd_ret_def)
  then show ?case using Cons part(3) by (subst new_packet.simps) (simp add: part(1) encode_chunk_def rd_take_append)
qed

lemma old_packet_reads:
  assumes "old_length t (length body) e" "hdr mod 4 = t"
  shows "reads (old_packet hdr) (e @ body) body"
proof -
  obtain size where s: "size \<noteq> 0" "length e = size" "be_value e = length body" "old_packet hdr = rd_bind (rd_take size) (\<lambda>v. rd_take (be_value v))"
    using assms unfolding old_length_def
  proof (elim disjE conjE)
    assume "t = 0" "length body < 2 ^ 8" "e = [char_of (length body)]"
    then show ?thesis using assms(2) by (intro that [of 1]) (simp_all add: old_packet_def be_value_def byte_val_char_of)
  next
    assume "t = 1" "length body < 2 ^ 16" "e = be16 (length body)"
    then show ?thesis using assms(2) be_value_u16 [of "length body"] by (intro that [of 2]) (simp_all add: old_packet_def, simp add: be16_def)
  next
    assume "t = 2" "length body < 2 ^ 32" "e = be32 (length body)"
    then show ?thesis using assms(2) be_value_u32 [of "length body"] by (intro that [of 4]) (simp_all add: old_packet_def)
  qed
  then show ?thesis by (simp add: reads_def rd_bind_def rd_take_append)
qed

lemma pgp_packet_reads:
  assumes "packet_encoding tag body e"
  shows "reads pgp_packet e (tag, body)"
  using assms
proof cases
  case (new_header parts final l)
  let ?h = "192 + tag"
  have d: "?h div 128 = 1" "?h div 64 = 3" using new_header(3) by (auto intro!: div_nat_eqI)
  then have h: "?h < 256" "odd (?h div 128)" "odd (?h div 64)" "?h mod 64 = tag" using new_header(3) mult_div_mod_eq [of 64 ?h] by simp_all
  have "reads (new_packet []) (concat (map encode_chunk parts) @ l @ final) body"
    using new_packet_reads [OF new_header(4,5), of "[]"] new_header(1) by (simp add: reads_def)
  then show ?thesis using readsD [OF reads_byte [OF h(1)]] h(2,3,4)
    by (simp add: reads_def new_header(2) pgp_packet_def rd_bind_def rd_guard_def rd_ret_def packet_tag_def)
next
  case (old_header t l)
  let ?h = "128 + 4 * tag + t"
  have t: "t < 4" using old_header(3) by (auto simp: old_length_def)
  then have d: "?h div 128 = 1" "?h div 64 = 2" "?h div 4 = 32 + tag" using old_header(2) by (auto intro!: div_nat_eqI)
  then have h: "?h < 256" "odd (?h div 128)" "even (?h div 64)" "?h mod 4 = t" "?h div 4 mod 16 = tag"
    using old_header(2) t mult_div_mod_eq [of 4 ?h] mod_mult_self2 [of tag 16 2] by (simp_all add: add.commute)
  show ?thesis using readsD [OF reads_byte [OF h(1)]] readsD [OF old_packet_reads [OF old_header(3) h(4)]] h(2,3,5)
    by (simp add: reads_def old_header(1) pgp_packet_def rd_bind_def rd_guard_def rd_ret_def packet_tag_def drop_bit_eq_div)
qed

lemma packet_encoding_nonempty: "packet_encoding tag body e \<Longrightarrow> e \<noteq> []"
  by (auto elim: packet_encoding.cases)

lemma pgp_loop_accepts:
  assumes "\<forall>(tag, body, e) \<in> set ps. packet_encoding tag body e \<and> (tag \<in> {5, 7} \<longrightarrow> secret_body body)"
    "secret \<or> (\<exists>(tag, body, e) \<in> set ps. tag \<in> {5, 7})"
  shows "pgp_loop secret (concat (map (\<lambda>(tag, body, e). e) ps)) = Some ()"
  using assms
proof (induction ps arbitrary: secret)
  case Nil
  then show ?case by (simp add: pgp_loop.simps)
next
  case (Cons p ps)
  obtain tag body e where p: "p = (tag, body, e)" by (cases p)
  have e: "packet_encoding tag body e" "tag \<in> {5, 7} \<Longrightarrow> pgp_secret_packet body" using Cons(2) p secret_body_accepted by auto
  let ?rest = "concat (map (\<lambda>(tag, body, e). e) ps)"
  have "pgp_loop (secret \<or> tag \<in> {5, 7}) ?rest = Some ()" by (rule Cons(1)) (use Cons(2,3) p in auto)
  then show ?case using readsD [OF pgp_packet_reads [OF e(1)], of ?rest] packet_encoding_nonempty [OF e(1)] e(2)
    by (subst pgp_loop.simps) (auto simp: p)
qed

lemma pgp_keys_accepted: "pgp_format key \<Longrightarrow> pgp_key key"
proof (induction rule: pgp_format.induct)
  case (packets ps)
  then show ?case using pgp_loop_accepts [of ps False] by (simp add: pgp_key_def pgp_packets_def)
qed

definition sample_protected :: bytes where
  "sample_protected = [char_of (4::nat)] @ ''time'' @ [char_of (1::nat)] @ concat (map encode_mpi [(8, ''n''), (5, ''e'')]) @ [char_of (254::nat)] @ ''cipher text''"

definition sample_plain :: bytes where
  "sample_plain = [char_of (3::nat)] @ ''time'' @ ''vp'' @ [char_of (19::nat)] @ [char_of (3::nat)] @ ''oid'' @ concat (map encode_mpi [(16, ''xy'')]) @
     [char_of (0::nat)] @ concat (map encode_mpi [(9, ''zz'')]) @ be16 (unat (checksum16 (concat (map encode_mpi [(9, ''zz'')]))))"

lemma secret_bodyI:
  "version \<in> {2, 3, 4} \<Longrightarrow> length time = 4 \<Longrightarrow> length validity = (if version = 4 then 0 else 2) \<Longrightarrow>
    mpi_counts alg = Some (np, ns) \<Longrightarrow> sized_field (alg \<in> {18, 19, 22}) curve \<Longrightarrow> length pubs = np \<Longrightarrow> list_all mpi_ok pubs \<Longrightarrow>
    sized_field (alg = 18) kdf \<Longrightarrow> secret_tail ns tail \<Longrightarrow>
    secret_body (char_of version # time @ validity @ char_of alg # curve @ concat (map encode_mpi pubs) @ kdf @ tail)" for version :: nat
  unfolding secret_body_def
  by (rule exI [of _ version], rule exI [of _ time], rule exI [of _ validity], rule exI [of _ alg], rule exI [of _ np], rule exI [of _ ns],
      rule exI [of _ curve], rule exI [of _ pubs], rule exI [of _ kdf], rule exI [of _ tail], intro conjI refl; assumption)

lemma sample_protected_body: "secret_body sample_protected"
proof -
  have "secret_tail 4 (char_of (254::nat) # ''cipher text'')" unfolding secret_tail_def
    by (rule disjI1, rule exI [of _ 254], rule exI [of _ "''cipher text''"]) simp
  then show ?thesis using secret_bodyI [of 4 "''time''" "[]" 1 2 4 "[]" "[(8, ''n''), (5, ''e'')]" "[]" "char_of (254::nat) # ''cipher text''"]
    by (simp add: sample_protected_def mpi_counts_def sized_field_def mpi_ok_def)
qed

lemma sample_plain_body: "secret_body sample_plain"
proof -
  let ?tail = "char_of (0::nat) # concat (map encode_mpi [(9, ''zz'')]) @ be16 (unat (checksum16 (concat (map encode_mpi [(9, ''zz'')]))))"
  have "secret_tail 1 ?tail" unfolding secret_tail_def by (rule disjI2, rule exI [of _ "[(9, ''zz'')]"]) (simp add: mpi_ok_def)
  moreover have "sized_field True (char_of (3::nat) # ''oid'')" unfolding sized_field_def by (simp add: exI [of _ "''oid''"])
  ultimately show ?thesis
    using secret_bodyI [of 3 "''time''" "''vp''" 19 1 1 "char_of (3::nat) # ''oid''" "[(16, ''xy'')]" "[]" ?tail]
    by (simp add: sample_plain_def mpi_counts_def sized_field_def [of False] mpi_ok_def del: One_nat_def)
qed

definition sample_pgp :: bytes where
  "sample_pgp = (char_of (197::nat) # [char_of (length sample_protected)] @ sample_protected) @ (char_of (157::nat) # be16 (length sample_plain) @ sample_plain)"

lemma sample_lengths: "length sample_protected = 24" "length sample_plain = 23"
  by (simp_all add: sample_protected_def sample_plain_def encode_mpi_def be16_def)

lemma sample_pgp_bytes:
  "sample_pgp =
    [CHR 0xC5, CHR 0x18, CHR 0x04, CHR 0x74, CHR 0x69, CHR 0x6D, CHR 0x65, CHR 0x01, CHR 0x00, CHR 0x08, CHR 0x6E,
     CHR 0x00, CHR 0x05, CHR 0x65, CHR 0xFE, CHR 0x63, CHR 0x69, CHR 0x70, CHR 0x68, CHR 0x65, CHR 0x72, CHR 0x20,
     CHR 0x74, CHR 0x65, CHR 0x78, CHR 0x74, CHR 0x9D, CHR 0x00, CHR 0x17, CHR 0x03, CHR 0x74, CHR 0x69, CHR 0x6D,
     CHR 0x65, CHR 0x76, CHR 0x70, CHR 0x13, CHR 0x03, CHR 0x6F, CHR 0x69, CHR 0x64, CHR 0x00, CHR 0x10, CHR 0x78,
     CHR 0x79, CHR 0x00, CHR 0x00, CHR 0x09, CHR 0x7A, CHR 0x7A, CHR 0x00, CHR 0xFD]"
  unfolding sample_pgp_def sample_lengths
  by (simp add: sample_protected_def sample_plain_def encode_mpi_def be16_def checksum16_def byte_val_def) (simp add: char_of_def bit_0)

lemma sample_crc24: "crc24 sample_pgp = 0xa74868"
  unfolding sample_pgp_bytes crc24_def by (simp add: crc_byte_unfold byte_val_def crc_shift_numeral)

lemma sample_pgp_format: "pgp_format sample_pgp"
proof -
  let ?e1 = "char_of (197::nat) # [char_of (length sample_protected)] @ sample_protected" and ?e2 = "char_of (157::nat) # be16 (length sample_plain) @ sample_plain"
  have "packet_encoding 5 sample_protected ?e1"
    using packet_encoding.new_header [of 5 "[]" sample_protected "[char_of (length sample_protected)]"]
    by (simp add: new_length_def sample_protected_def encode_mpi_def be16_def)
  moreover have "packet_encoding 7 sample_plain ?e2"
    using packet_encoding.old_header [of 7 1 sample_plain "be16 (length sample_plain)"]
    by (simp add: old_length_def sample_plain_def encode_mpi_def be16_def)
  ultimately show ?thesis
    using pgp_format.packets [of "[(5, sample_protected, ?e1), (7, sample_plain, ?e2)]"] sample_protected_body sample_plain_body by (simp add: sample_pgp_def)
qed

end
