(* ===== verification/Spec2Isabelle.thy ===== *)
theory Spec2Isabelle
  imports Location Match_Spans Base64_Scan Text_Encoding Inline_Ignore Components Component_Window
    Component_Index Overlap_Index Pyc_Marshal Context_Lexer Post_Processing Git_Enumerator Git_Candidates
    Candidate_Search Candidate_Eligibility Key_Armor
begin

text \<open>
  Kingfisher searches files, archives and Git histories for leaked secrets.  This development models the parts of
  it that decide by themselves what is read, what is reported and where: the enumeration of Git histories, the
  decoding of text, the scan primitives, the lexer that reads key and value pairs out of source code, and the
  passes that decide which findings survive.  Compiled rules, object databases, clocks and other packages are
  parameters.

  \<^bold>\<open>How the parts interact.\<close>  A Git repository is enumerated (\<open>src/git_repo_enumerator.rs\<close>): its objects get
  dense numbers, a content filter drops blobs that cannot hold a finding, summaries of trees prune the walk, and a
  topological traversal of the commits attributes every blob to the commits that introduce it.  The bytes of a
  blob are decoded when they are UTF-16 or UTF-32 (\<open>kingfisher-core\<close>), bytecode files give up their string
  constants, and Base64 runs are decoded (\<open>kingfisher-scanner\<close>).  The scanner runs the rules over the bytes,
  filters of rules drop malformed private keys, and the scanner records matched spans, maps them to lines and columns, and
  reads context candidates from the source.  What remains is settled after the scan: inline directives, required
  components, specificity, credential URIs and precedence between catalogs.  Findings with several candidate
  components are verified by trying ranked combinations.

  \<^bold>\<open>Shared theories.\<close>
  \<^item> \<open>Kf_Prelude\<close>: bytes, slices and searches of the standard library; results with the cooperative scan control
    of \<open>scan_control.rs\<close>, whose calculus (\<open>yields\<close>, \<open>ensures\<close>) carries the proofs about interruptible loops.
  \<^item> \<open>Numbering\<close>: the locale \<open>interner\<close>, the contract of a table that numbers names.  It is interpreted on the
    path symbols (\<open>Symbol_Table\<close>), the object ids (\<open>Git_Index\<close>) and the commit graph (\<open>Commit_Graph\<close>).
  \<^item> \<open>Utf8_Lossy\<close>: the standard library's lossy conversion of bytes to text.

  \<^bold>\<open>Git history\<close> (\<open>src/\<close>).
  \<^item> \<open>Symbol_Table\<close> (\<open>bstring_table.rs\<close>): one buffer of path names with 32-bit ranges.  Symbols read back.
  \<^item> \<open>Git_Index\<close> (\<open>git_metadata_graph.rs\<close>): numbering of objects, sets of seen objects, indexing with deadlines,
    the content prepass.  Indexing numbers the first occurrences of the readable objects in database order.
  \<^item> \<open>Tree_Walk\<close> (same file): the walk over a tree.  Without exclusions it reports exactly the indexed blobs that
    the ancestry has not seen, each with a path that leads to it; with exclusions a shared tree is a known gap.
  \<^item> \<open>Commit_History\<close> (same file): the traversal of the commits.  Blobs are attributed to the commits that
    introduce them, for every order of edges; cycles are rejected.
  \<^item> \<open>Candidate_Summaries\<close> (\<open>git_candidate_summaries.rs\<close>) and \<open>Tree_Compaction\<close>: summaries of at most four
    candidates per tree, and renumbering of the trees that remain.  Pruning never hides a candidate.
  \<^item> \<open>Commit_Graph\<close>, \<open>Git_Enumerator\<close> (\<open>git_repo_enumerator.rs\<close>): graph construction, assembly of the
    appearances, and the composition of all of the above into one result about the whole run.
  \<^item> \<open>Git_Candidates\<close> (\<open>git_candidates.rs\<close>): the content filter, shown to keep whatever the text decoder, the
    matcher's ranges or Base64 discovery could still use.

  \<^bold>\<open>Text and spans\<close> (\<open>crates/kingfisher-core\<close>, \<open>crates/kingfisher-scanner\<close>).
  \<^item> \<open>Location\<close> (\<open>location.rs\<close>, \<open>line_index.rs\<close>): the lazily extended newline index; answers do not depend on
    earlier queries, except for empty spans after a newline.
  \<^item> \<open>Text_Encoding\<close> (\<open>encoding.rs\<close>): detection and decoding; round trips behind byte order marks.
  \<^item> \<open>Match_Spans\<close>, \<open>Base64_Scan\<close> (\<open>primitives.rs\<close>): containment of matched spans, with the locale
    \<open>span_tracker\<close>; Base64 runs.
  \<^item> \<open>Pyc_Marshal\<close> (\<open>extraction/pyc.rs\<close>): the marshal reader on a work stack, with locales \<open>reader_relation\<close> and
    \<open>loop_relation\<close> for what every reader step preserves.

  \<^bold>\<open>Source context\<close> (\<open>context/parser\<close>).
  \<^item> \<open>Lexer_Literals\<close>, \<open>Literal_Values\<close>, \<open>Literal_Normalize\<close>, \<open>Comment_Strip\<close>, \<open>Context_Lexer\<close>: literals, their
    values, comments, logical lines and the extractors; no slice panics, and the stream offers the candidates in
    order until its sink stops.
  \<^item> \<open>Inline_Ignore\<close> (\<open>context/inline_ignore.rs\<close>): the budgeted search for directives and its cache.

  \<^bold>\<open>After the scan\<close> (\<open>postprocess.rs\<close>, \<open>components.rs\<close>, \<open>scanner.rs\<close>,
  \<open>validation/candidates.rs\<close>).
  \<^item> \<open>Components\<close>, \<open>Component_Window\<close>, \<open>Component_Index\<close>: removal of findings whose required components are
    missing, over the locale \<open>component_index\<close>; the result is the greatest supported set.
  \<^item> \<open>Overlap_Index\<close>: the implicit interval tree and the elimination of credential URIs.
  \<^item> \<open>Specificity\<close>, \<open>Catalog_Keep\<close>: precedence between findings, equal to plain specifications for every order in
    which hash tables are visited.
  \<^item> \<open>Post_Processing\<close> (\<open>scanner.rs\<close>): these passes in the order a scan runs them; the composition is that of their
    specifications and reports nothing that was not found.
  \<^item> \<open>Candidate_Search\<close>, \<open>Candidate_Eligibility\<close>: the ranked search over candidate combinations, equal to a scan of the
    sorted product, and the rules that may use it; they send candidates to fixed destinations only.
  \<^item> \<open>Http_Fallbacks\<close> (\<open>kingfisher-rules/src/rule.rs\<close>): the HTTP environments of a rule.  A named environment
    contacts its own targets only, in validation and in revocation.

  \<^bold>\<open>Private keys\<close> (\<open>kingfisher-rules/src/private_key.rs\<close>).
  \<^item> \<open>Ssh_Keys\<close>, \<open>Pgp_Keys\<close>, \<open>Ber_Framing\<close>: the structure checks of OpenSSH containers, OpenPGP packets and BER values, each
    with its format as an inductive or recursive description; values in the format are accepted.
  \<^item> \<open>Key_Armor\<close>: envelopes, escapes, armor lines and checksums; a candidate that holds such a key is never dropped.

  \<^bold>\<open>Conventions.\<close>  A panic is \<open>None\<close> of the outermost option, or \<open>Panicked\<close> in the Git theories; a deadline or a
  cancellation is an abort of the control.  Offsets and lengths are natural numbers; where the code narrows them
  to 32 bits the check or the word type is in the model.  Loops are recursive functions with a measure, so no
  definition needs fuel.  The bounds of the code (batches of 4096 objects, four candidates and 64 levels per
  summary, chunks of 8 MiB with an overlap of 64 KiB, sixteen combinations, the limits of the bytecode reader) are
  constants of the model.  Parameters are: decoders of the \<open>base64\<close> package, regular expressions, compiled rules,
  the checks of ASN.1 keys that run on the \<open>der\<close> and \<open>pkcs8\<close> packages, the Git object database, compiled globs and path conversion, time parsing, the tar checksum, URL parsing, the
  clock, and every unspecified iteration order (hash tables, graph edges, parallel workers).  Each theorem holds
  for all of them, or names what it needs as a hypothesis.

  \<^bold>\<open>Simplifications.\<close>  Parallel workers are run one after another, in an arbitrary order where the order can be
  observed; sharing by \<open>Arc\<close>, buffer reuse, counters for log output and progress are left out.

  \<^bold>\<open>Not modelled.\<close>  The command line, terminal and HTML reporters, the wizard, updates and alerts (input and
  output); the clients of hosting services, cloud stores and identity providers and the validators (network
  protocols); archive, PDF and SQLite extraction and the rule compiler (thin layers over other packages); the
  matcher's confirmation of raw hits, which is defined by the regular expression engine; the bindings for Python
  and JavaScript; the build-time importers of rule catalogs.
\<close>

end
